(* ===== verification/Prelude.thy ===== *)
theory Prelude
  imports "HOL-Library.Word" "HOL-Library.Multiset"
begin

text \<open>
  Shared vocabulary of the development: the names of the machine integer types the C++ code uses,
  the collections of facts that drive the automation, and the generic lemmas on words, lists and
  sums that more than one component needs.  Nothing in this theory models a source file by itself,
  except the small pieces of the standard library that every component calls: the maximum of an
  unsigned type and the decimal rendering of \<open>std::to_string\<close>.
\<close>

unbundle bit_operations_syntax

type_synonym u8 = "8 word"
type_synonym u16 = "16 word"
type_synonym u32 = "32 word"
type_synonym u64 = "64 word"
type_synonym u128 = "128 word"
type_synonym bytes = "u8 list"

named_theorems word_nat "comparisons and arithmetic of words read as natural numbers"

declare word_le_nat_alt [word_nat] word_less_nat_alt [word_nat]

section \<open>Unsigned arithmetic that is checked before it is done\<close>

text \<open>\<open>std::numeric_limits<T>::max()\<close> of an unsigned type: all bits set.\<close>

definition max_raw :: "'a::len word" where
  "max_raw = - 1"

lemma unat_max_raw: "unat (max_raw :: 'a::len word) = 2 ^ LENGTH('a) - 1"
proof -
  have "unat (- 1 :: 'a word) = unat (mask LENGTH('a) :: 'a word)" by simp
  then show ?thesis by (simp add: max_raw_def mask_eq_exp_minus_1 unsigned_minus_1_eq_mask)
qed

lemma word_less_eq_max_raw [simp]: "(w :: 'a::len word) \<le> max_raw"
  by (simp add: max_raw_def)

lemma unat_less_pow: "unat (w :: 'a::len word) < 2 ^ LENGTH('a)"
  by (rule unsigned_less)

lemma unat_max_raw_minus:
  "unat (max_raw - (w :: 'a::len word)) = 2 ^ LENGTH('a) - 1 - unat w"
  using unat_sub [of w max_raw] by (simp add: unat_max_raw)

text \<open>The overflow guard \<open>a > MAX - b\<close> fires exactly when the mathematical sum does not fit.\<close>

lemma add_overflow_iff:
  fixes a b :: "'a::len word"
  shows "max_raw - b < a \<longleftrightarrow> 2 ^ LENGTH('a) \<le> unat a + unat b"
proof -
  have "unat b < 2 ^ LENGTH('a)" by (rule unat_less_pow)
  moreover have "max_raw - b < a \<longleftrightarrow> 2 ^ LENGTH('a) - 1 - unat b < unat a"
    by (simp only: word_less_nat_alt unat_max_raw_minus)
  ultimately show ?thesis by linarith
qed

lemma unat_add_fits:
  fixes a b :: "'a::len word"
  shows "unat a + unat b < 2 ^ LENGTH('a) \<Longrightarrow> unat (a + b) = unat a + unat b"
  by (simp add: unat_word_ariths)

lemma unat_sub_fits [word_nat]:
  fixes a b :: "'a::len word"
  shows "b \<le> a \<Longrightarrow> unat (a - b) = unat a - unat b"
  by (rule unat_sub)

section \<open>Decimal rendering\<close>

definition dec_digit :: "nat \<Rightarrow> char" where
  "dec_digit d = ''0123456789'' ! d"

fun dec_string :: "nat \<Rightarrow> string" where
  "dec_string n =
     (if n < 10 then [dec_digit n] else dec_string (n div 10) @ [dec_digit (n mod 10)])"

declare dec_string.simps [simp del]

text \<open>\<open>std::to_string\<close> of an unsigned value.\<close>

definition to_string :: "'a::len word \<Rightarrow> string" where
  "to_string w = dec_string (unat w)"

section \<open>Characters as bytes\<close>

text \<open>A character literal of the source as a byte.\<close>

definition byte_of :: "char \<Rightarrow> u8" where
  "byte_of c = of_nat (of_char c)"

lemma byte_of_neq [simp]: "byte_of c = byte_of d \<longleftrightarrow> c = d"
proof
  assume "byte_of c = byte_of d"
  then have "unat (byte_of c) = unat (byte_of d)" by simp
  then have "(of_char c :: nat) = of_char d"
    using range_nat_of_char by (auto simp: byte_of_def unat_of_nat take_bit_nat_eq_self set_eq_iff image_iff)
  then show "c = d" by simp
qed simp

definition bytes_of_string :: "string \<Rightarrow> bytes" where
  "bytes_of_string s = map byte_of s"

lemma bytes_of_string_append [simp]: "bytes_of_string (a @ b) = bytes_of_string a @ bytes_of_string b"
  by (simp add: bytes_of_string_def)

lemma length_bytes_of_string [simp]: "length (bytes_of_string s) = length s"
  by (simp add: bytes_of_string_def)

lemma bytes_of_string_inject [simp]: "bytes_of_string a = bytes_of_string b \<longleftrightarrow> a = b"
  unfolding bytes_of_string_def by (rule inj_map_eq_map) (simp add: inj_def)

lemma find_unique:
  assumes "distinct (map f xs)" "x \<in> set xs"
  shows "find (\<lambda>y. f y = f x) xs = Some x"
proof (cases "find (\<lambda>y. f y = f x) xs")
  case None
  with assms(2) show ?thesis by (auto simp: find_None_iff)
next
  case (Some y)
  then have "y \<in> set xs" "f y = f x" by (auto simp: find_Some_iff)
  with assms have "y = x" by (metis inj_onD distinct_map)
  with Some show ?thesis by simp
qed

end
