(* ===== verification/Results.thy ===== *)
theory Results
  imports Prelude
begin

text \<open>
  \<open>domain/error.hpp\<close>: the two error families, their rendering, and \<open>Result<T>\<close>.  A C++ function
  that returns early on an error is a branch of the model.  The source propagates an error in two
  ways, and the two differ in the error the caller sees: \<open>return res;\<close> keeps the error as it is
  when the result types agree, and goes through the converting constructor otherwise, which turns
  any error into an \<open>OrderValidationFailed\<close> carrying the rendered message.
\<close>

datatype primitive_error_kind =
    ZeroValue
  | ArithmeticOverflow
  | InsufficientBalance
  | InvalidSide

datatype domain_error_kind =
    OrderValidationFailed
  | DuplicateAccount
  | AccountNotFound
  | InstrumentMismatch
  | DuplicateOrderId

datatype error =
    PrimitiveError primitive_error_kind string
  | DomainError domain_error_kind string

fun primitive_error_to_string :: "primitive_error_kind \<Rightarrow> string \<Rightarrow> string" where
  "primitive_error_to_string ZeroValue ctx = ''ZeroValue: '' @ ctx @ '' must be strictly positive''"
| "primitive_error_to_string ArithmeticOverflow ctx = ''ArithmeticOverflow in '' @ ctx"
| "primitive_error_to_string InsufficientBalance ctx = ''InsufficientBalance for '' @ ctx"
| "primitive_error_to_string InvalidSide ctx = ''InvalidSide: '' @ ctx"

fun error_to_string :: "error \<Rightarrow> string" where
  "error_to_string (PrimitiveError kind ctx) = primitive_error_to_string kind ctx"
| "error_to_string (DomainError kind msg) = msg"

datatype 'a result = Ok (the_value: 'a) | Err (the_error: error)

fun is_ok :: "'a result \<Rightarrow> bool" where
  "is_ok (Ok v) = True"
| "is_ok (Err e) = False"

fun error_message :: "'a result \<Rightarrow> string" where
  "error_message (Ok v) = ''Not an error''"
| "error_message (Err e) = error_to_string e"

fun unwrap_or :: "'a result \<Rightarrow> 'a \<Rightarrow> 'a" where
  "unwrap_or (Ok v) d = v"
| "unwrap_or (Err e) d = d"

text \<open>The constructor from a message, and the converting constructor applied to an error.\<close>

definition fail_msg :: "string \<Rightarrow> 'a result" where
  "fail_msg msg = Err (DomainError OrderValidationFailed msg)"

definition convert_error :: "error \<Rightarrow> 'a result" where
  "convert_error e = fail_msg (error_to_string e)"

section \<open>Early returns\<close>

text \<open>\<open>if (r.is_err()) return r;\<close> where the result types agree: the error is unchanged.\<close>

definition and_then :: "'a result \<Rightarrow> ('a \<Rightarrow> 'b result) \<Rightarrow> 'b result" where
  "and_then r f = (case r of Ok v \<Rightarrow> f v | Err e \<Rightarrow> Err e)"

text \<open>
  \<open>if (r.is_err()) return r;\<close> across result types, and \<open>return r.error_message();\<close>: the error is
  converted.
\<close>

definition and_then_conv :: "'a result \<Rightarrow> ('a \<Rightarrow> 'b result) \<Rightarrow> 'b result" where
  "and_then_conv r f = (case r of Ok v \<Rightarrow> f v | Err e \<Rightarrow> convert_error e)"

text \<open>\<open>if (r.is_err()) return DomainError{OrderValidationFailed, msg};\<close>\<close>

definition or_fail :: "'a result \<Rightarrow> string \<Rightarrow> ('a \<Rightarrow> 'b result) \<Rightarrow> 'b result" where
  "or_fail r msg f = (case r of Ok v \<Rightarrow> f v | Err e \<Rightarrow> fail_msg msg)"

text \<open>A guard that returns an error, then the rest of the function.\<close>

definition reject_if :: "bool \<Rightarrow> error \<Rightarrow> 'a result \<Rightarrow> 'a result" where
  "reject_if b e r = (if b then Err e else r)"

text \<open>A loop over a vector whose body may return an error early.\<close>

fun loop_result :: "('s \<Rightarrow> 'x \<Rightarrow> 's result) \<Rightarrow> 's \<Rightarrow> 'x list \<Rightarrow> 's result" where
  "loop_result f s [] = Ok s"
| "loop_result f s (x # xs) = and_then (f s x) (\<lambda>s'. loop_result f s' xs)"

named_theorems result_simps "how the early-return combinators produce a value"

lemma and_then_simps [simp]:
  "and_then (Ok v) f = f v" "and_then (Err e) f = Err e"
  by (simp_all add: and_then_def)

lemma and_then_conv_simps [simp]:
  "and_then_conv (Ok v) f = f v" "and_then_conv (Err e) f = convert_error e"
  by (simp_all add: and_then_conv_def)

lemma or_fail_simps [simp]:
  "or_fail (Ok v) msg f = f v" "or_fail (Err e) msg f = fail_msg msg"
  by (simp_all add: or_fail_def)

lemma reject_if_simps [simp]:
  "reject_if True e r = Err e" "reject_if False e r = r"
  by (simp_all add: reject_if_def)

lemma fail_msg_not_Ok [simp]: "fail_msg msg \<noteq> Ok v" "Ok v \<noteq> fail_msg msg"
  by (simp_all add: fail_msg_def)

lemma convert_error_not_Ok [simp]: "convert_error e \<noteq> Ok v" "Ok v \<noteq> convert_error e"
  by (simp_all add: convert_error_def)

lemma is_ok_fail [simp]: "\<not> is_ok (fail_msg msg)" "\<not> is_ok (convert_error e)"
  by (simp_all add: convert_error_def fail_msg_def)

lemma and_then_Ok_iff [result_simps]: "and_then r f = Ok b \<longleftrightarrow> (\<exists>a. r = Ok a \<and> f a = Ok b)"
  by (cases r) auto

lemma and_then_conv_Ok_iff [result_simps]:
  "and_then_conv r f = Ok b \<longleftrightarrow> (\<exists>a. r = Ok a \<and> f a = Ok b)"
  by (cases r) auto

lemma or_fail_Ok_iff [result_simps]: "or_fail r msg f = Ok b \<longleftrightarrow> (\<exists>a. r = Ok a \<and> f a = Ok b)"
  by (cases r) auto

lemma reject_if_Ok_iff [result_simps]: "reject_if c e r = Ok b \<longleftrightarrow> \<not> c \<and> r = Ok b"
  by (cases c) auto

lemma is_ok_iff: "is_ok r \<longleftrightarrow> (\<exists>v. r = Ok v)"
  by (cases r) auto

lemma not_is_ok_iff: "\<not> is_ok r \<longleftrightarrow> (\<exists>e. r = Err e)"
  by (cases r) auto

lemma loop_result_append:
  "loop_result f s (xs @ ys) = and_then (loop_result f s xs) (\<lambda>s'. loop_result f s' ys)"
proof (induction xs arbitrary: s)
  case (Cons x xs)
  then show ?case by (cases "f s x") auto
qed simp

text \<open>A loop keeps what every step of it keeps.\<close>

lemma loop_result_invariant:
  assumes "loop_result f s xs = Ok t" "P s"
    and "\<And>s x s'. x \<in> set xs \<Longrightarrow> P s \<Longrightarrow> f s x = Ok s' \<Longrightarrow> P s'"
  shows "P t"
  using assms
proof (induction xs arbitrary: s)
  case (Cons x xs)
  then show ?case by (auto simp: result_simps)
qed simp

end
