(* ===== verification/Primitives.thy ===== *)
theory Primitives
  imports Results
begin

text \<open>
  \<open>domain/primitives.hpp\<close>: prices, quantities and money with checked arithmetic.  The classes
  wrap one raw machine integer each, so the model uses the machine integer itself: 64 bits for
  prices, quantities and identifiers, 128 bits for money.  The locale \<open>checked_arith\<close> states what
  the rest of the engine relies on: an operation succeeds exactly when the mathematical result
  fits, and then it is that result.  It is interpreted for \<open>Qty\<close> and for \<open>Money\<close>.
\<close>

type_synonym price = u64
type_synonym qty = u64
type_synonym money = u128
type_synonym order_id = u64
type_synonym account_id = u64
type_synonym instrument_id = u64
type_synonym batch_id = u64

definition price_create :: "u64 \<Rightarrow> price result" where
  "price_create raw = (if raw = 0 then Err (PrimitiveError ZeroValue ''Price'') else Ok raw)"

definition price_checked_add :: "price \<Rightarrow> price \<Rightarrow> price result" where
  "price_checked_add a b =
     (if max_raw - b < a then Err (PrimitiveError ArithmeticOverflow ''Price::checked_add'')
      else Ok (a + b))"

definition price_checked_sub :: "price \<Rightarrow> price \<Rightarrow> price result" where
  "price_checked_sub a b =
     (if a \<le> b then
        (if a = b then Err (PrimitiveError ZeroValue ''Price'')
         else Err (PrimitiveError InsufficientBalance ''Price''))
      else Ok (a - b))"

definition qty_create :: "u64 \<Rightarrow> qty result" where
  "qty_create raw = (if raw = 0 then Err (PrimitiveError ZeroValue ''Qty'') else Ok raw)"

definition qty_checked_add :: "qty \<Rightarrow> qty \<Rightarrow> qty result" where
  "qty_checked_add a b =
     (if max_raw - b < a then Err (PrimitiveError ArithmeticOverflow ''Qty::checked_add'')
      else Ok (a + b))"

definition qty_checked_sub :: "qty \<Rightarrow> qty \<Rightarrow> qty result" where
  "qty_checked_sub a b =
     (if a < b then Err (PrimitiveError InsufficientBalance ''Qty'') else Ok (a - b))"

definition qty_saturating_sub :: "qty \<Rightarrow> qty \<Rightarrow> qty" where
  "qty_saturating_sub a b = (if a < b then 0 else a - b)"

definition money_from_price_qty :: "price \<Rightarrow> qty \<Rightarrow> money result" where
  "money_from_price_qty price qty =
     (let p = ucast price :: u128; q = ucast qty :: u128 in
      if p \<noteq> 0 \<and> max_raw div p < q
      then Err (PrimitiveError ArithmeticOverflow ''Money::from_price_qty'')
      else Ok (p * q))"

definition money_checked_add :: "money \<Rightarrow> money \<Rightarrow> money result" where
  "money_checked_add a b =
     (if max_raw - b < a then Err (PrimitiveError ArithmeticOverflow ''Money::checked_add'')
      else Ok (a + b))"

definition money_checked_sub :: "money \<Rightarrow> money \<Rightarrow> money result" where
  "money_checked_sub a b =
     (if a < b then Err (PrimitiveError InsufficientBalance ''Money'') else Ok (a - b))"

section \<open>The interface of checked arithmetic\<close>

locale checked_arith =
  fixes val :: "'a \<Rightarrow> nat"
    and add :: "'a \<Rightarrow> 'a \<Rightarrow> 'a result"
    and sub :: "'a \<Rightarrow> 'a \<Rightarrow> 'a result"
    and cap :: nat
  assumes val_inj: "val a = val b \<Longrightarrow> a = b"
    and val_cap: "val a < cap"
    and add_fits: "val a + val b < cap \<Longrightarrow> \<exists>c. add a b = Ok c \<and> val c = val a + val b"
    and add_overflow: "cap \<le> val a + val b \<Longrightarrow> \<exists>e. add a b = Err e"
    and sub_fits: "val b \<le> val a \<Longrightarrow> \<exists>c. sub a b = Ok c \<and> val c = val a - val b"
    and sub_underflow: "val a < val b \<Longrightarrow> \<exists>e. sub a b = Err e"
begin

lemma add_Ok_iff: "add a b = Ok c \<longleftrightarrow> val c = val a + val b"
proof (cases "val a + val b < cap")
  case True
  with add_fits show ?thesis using val_inj by fastforce
next
  case False
  then obtain e where "add a b = Err e" using add_overflow by (auto simp: not_less)
  then show ?thesis using False val_cap [of c] by auto
qed

lemma sub_Ok_iff: "sub a b = Ok c \<longleftrightarrow> val a = val b + val c"
proof (cases "val b \<le> val a")
  case True
  with sub_fits show ?thesis using val_inj by (metis add_diff_inverse_nat diff_add_inverse not_less result.inject(1))
next
  case False
  then show ?thesis using sub_underflow [of a b] by auto
qed

lemma sub_add_inverse: "sub a b = Ok c \<Longrightarrow> add c b = Ok a"
  by (simp add: add_Ok_iff sub_Ok_iff)

text \<open>
  The summing loop of the source: over the elements that pass a test, with an early return on
  overflow.  It returns exactly when the mathematical total fits, and returns that total.
\<close>

lemma sum_loop_Ok_iff:
  "loop_result (\<lambda>t x. if P x then add t (g x) else Ok t) s xs = Ok t
     \<longleftrightarrow> val t = val s + sum_list (map (\<lambda>x. if P x then val (g x) else 0) xs)"
proof (induction xs arbitrary: s)
  case Nil
  then show ?case using val_inj by auto
next
  case (Cons x xs)
  show ?case
  proof (cases "P x")
    case True
    show ?thesis
    proof (cases "add s (g x)")
      case (Ok c)
      moreover from this have "val c = val s + val (g x)" by (simp add: add_Ok_iff)
      ultimately show ?thesis using True Cons.IH [of c] by (simp add: add.assoc)
    next
      case (Err e)
      then have "cap \<le> val s + val (g x)" using add_fits [of s "g x"] by (cases "val s + val (g x) < cap") auto
      with True Err val_cap [of t] show ?thesis by auto
    qed
  next
    case False
    with Cons.IH show ?thesis by simp
  qed
qed

lemma sum_loop_fits:
  assumes "val s + sum_list (map (\<lambda>x. if P x then val (g x) else 0) xs) < cap"
  shows "\<exists>t. loop_result (\<lambda>t x. if P x then add t (g x) else Ok t) s xs = Ok t"
  using assms
proof (induction xs arbitrary: s)
  case (Cons x xs)
  show ?case
  proof (cases "P x")
    case True
    with Cons.prems obtain c where "add s (g x) = Ok c" "val c = val s + val (g x)"
      using add_fits [of s "g x"] by auto
    with True Cons.IH [of c] Cons.prems show ?thesis by (simp add: add.assoc)
  next
    case False
    with Cons show ?thesis by simp
  qed
qed simp

lemma sum_loop_is_ok_iff:
  "is_ok (loop_result (\<lambda>t x. if P x then add t (g x) else Ok t) s xs)
     \<longleftrightarrow> val s + sum_list (map (\<lambda>x. if P x then val (g x) else 0) xs) < cap"
  using sum_loop_fits [of s P g xs] by (auto simp: is_ok_iff sum_loop_Ok_iff) (metis val_cap)

end

interpretation qty_arith: checked_arith "unat :: qty \<Rightarrow> nat" qty_checked_add qty_checked_sub "2 ^ 64"
proof
  show "unat (a :: qty) < 2 ^ 64" for a
    using unat_less_pow [of a] by simp
  show "2 ^ 64 \<le> unat a + unat b \<Longrightarrow> \<exists>e. qty_checked_add a b = Err e" for a b
    using add_overflow_iff [of b a] by (simp add: qty_checked_add_def)
  show "unat a + unat b < 2 ^ 64 \<Longrightarrow> \<exists>c. qty_checked_add a b = Ok c \<and> unat c = unat a + unat b" for a b
    using add_overflow_iff [of b a] unat_add_fits [of a b] by (simp add: qty_checked_add_def)
qed (auto simp: qty_checked_sub_def word_nat intro: unsigned_word_eqI)

interpretation money_arith: checked_arith "unat :: money \<Rightarrow> nat" money_checked_add money_checked_sub "2 ^ 128"
proof
  show "unat (a :: money) < 2 ^ 128" for a
    using unat_less_pow [of a] by simp
  show "2 ^ 128 \<le> unat a + unat b \<Longrightarrow> \<exists>e. money_checked_add a b = Err e" for a b
    using add_overflow_iff [of b a] by (simp add: money_checked_add_def)
  show "unat a + unat b < 2 ^ 128 \<Longrightarrow> \<exists>c. money_checked_add a b = Ok c \<and> unat c = unat a + unat b" for a b
    using add_overflow_iff [of b a] unat_add_fits [of a b] by (simp add: money_checked_add_def)
qed (auto simp: money_checked_sub_def word_nat intro: unsigned_word_eqI)

section \<open>The product of a price and a quantity never overflows\<close>

lemma price_times_qty_bound: "unat (p :: price) * unat (q :: qty) < 2 ^ 128"
proof -
  have "unat p \<le> 2 ^ 64 - 1" "unat q \<le> 2 ^ 64 - 1"
    using unat_less_pow [of p] unat_less_pow [of q] by auto
  then have "unat p * unat q \<le> (2 ^ 64 - 1) * (2 ^ 64 - 1)" by (rule mult_le_mono)
  then show ?thesis by simp
qed

lemma unat_ucast_u128 [simp]: "unat (ucast (w :: u64) :: u128) = unat w"
  using unat_less_pow [of w] by (simp add: unsigned_ucast_eq take_bit_nat_eq_self)

lemma unat_price_times_qty:
  "unat (ucast (p :: price) * ucast (q :: qty) :: u128) = unat p * unat q"
  using price_times_qty_bound [of p q] by (simp add: unat_word_ariths)

lemma money_from_price_qty_Ok:
  "money_from_price_qty p q = Ok (ucast p * ucast q)"
proof -
  have "ucast q \<le> (max_raw :: u128) div ucast p" if "p \<noteq> 0"
  proof -
    have "unat q * unat p \<le> 2 ^ 128 - 1" using price_times_qty_bound [of p q] by (simp add: mult.commute)
    moreover have "0 < unat p" using that by (simp add: unat_gt_0)
    ultimately have "unat q \<le> (2 ^ 128 - 1) div unat p" by (simp only: less_eq_div_iff_mult_less_eq)
    then show ?thesis by (simp add: word_le_nat_alt unat_div unat_max_raw)
  qed
  moreover have "(ucast p :: u128) \<noteq> 0 \<longleftrightarrow> p \<noteq> 0"
    by (metis unat_0_iff unat_ucast_u128)
  ultimately show ?thesis by (auto simp: money_from_price_qty_def Let_def not_less)
qed

end
