(* ===== verification/Orders.thy ===== *)
theory Orders
  imports Primitives
begin

text \<open>
  \<open>domain/order.hpp\<close> and \<open>domain/fill.hpp\<close>: the limit order, its salted preimage and the fill.
  \<open>Side\<close> is a scoped enumeration over \<open>uint8_t\<close>, so a value of it can be any byte; the source
  tests for that (\<open>Batch::create\<close>, \<open>OrderBook::add_order\<close>), so a side is its byte here, and the
  two enumerators are two of the bytes.
\<close>

type_synonym side = u8

definition Buy :: side where
  "Buy = 1"

definition Sell :: side where
  "Sell = 2"

definition is_buy :: "side \<Rightarrow> bool" where
  "is_buy s \<longleftrightarrow> s = Buy"

definition is_sell :: "side \<Rightarrow> bool" where
  "is_sell s \<longleftrightarrow> s = Sell"

lemma Buy_neq_Sell [simp]: "Buy \<noteq> Sell" "Sell \<noteq> Buy"
  by (simp_all add: Buy_def Sell_def)

definition valid_side :: "side \<Rightarrow> bool" where
  "valid_side s \<longleftrightarrow> s = Buy \<or> s = Sell"

record order =
  ord_id :: order_id
  ord_account :: account_id
  ord_instrument :: instrument_id
  ord_side :: side
  ord_price :: price
  ord_qty :: qty
  ord_seq :: u64

text \<open>An order with the 32-byte nonce that hides it in its commitment.\<close>

record salted_order_preimage =
  pre_order :: order
  pre_nonce :: bytes

record fill =
  fill_id :: u64
  fill_order_id :: order_id
  fill_account_id :: account_id
  fill_instrument_id :: instrument_id
  fill_side :: side
  fill_execution_price :: price
  fill_qty :: qty
  fill_consideration :: money

definition fill_create ::
  "u64 \<Rightarrow> order_id \<Rightarrow> account_id \<Rightarrow> instrument_id \<Rightarrow> side \<Rightarrow> price \<Rightarrow> qty \<Rightarrow> fill result" where
  "fill_create fid oid acc inst s price qty =
     and_then_conv (money_from_price_qty price qty)
       (\<lambda>consideration. Ok \<lparr>fill_id = fid, fill_order_id = oid, fill_account_id = acc,
          fill_instrument_id = inst, fill_side = s, fill_execution_price = price,
          fill_qty = qty, fill_consideration = consideration\<rparr>)"

lemma fill_create_Ok:
  "fill_create fid oid acc inst s price qty =
     Ok \<lparr>fill_id = fid, fill_order_id = oid, fill_account_id = acc,
          fill_instrument_id = inst, fill_side = s, fill_execution_price = price,
          fill_qty = qty, fill_consideration = ucast price * ucast qty\<rparr>"
  by (simp add: fill_create_def money_from_price_qty_Ok)

end
