(* ===== verification/Algorithms.thy ===== *)
theory Algorithms
  imports Prelude
begin

text \<open>
  The algorithms of the C++ standard library the engine calls: \<open>std::sort\<close> with a comparator,
  \<open>std::unique\<close> and \<open>std::lower_bound\<close>.  The library leaves the order of equivalent elements
  open; the model sorts stably, and the locale \<open>comparator\<close> says when that choice cannot be
  observed: on elements the comparator orders totally, every sorted rearrangement is the one the
  model computes.
\<close>

fun insert_by :: "('a \<Rightarrow> 'a \<Rightarrow> bool) \<Rightarrow> 'a \<Rightarrow> 'a list \<Rightarrow> 'a list" where
  "insert_by lt x [] = [x]"
| "insert_by lt x (y # ys) = (if lt y x then y # insert_by lt x ys else x # y # ys)"

definition std_sort :: "('a \<Rightarrow> 'a \<Rightarrow> bool) \<Rightarrow> 'a list \<Rightarrow> 'a list" where
  "std_sort lt xs = foldr (insert_by lt) xs []"

definition std_unique :: "'a list \<Rightarrow> 'a list" where
  "std_unique xs = remdups_adj xs"

definition lower_bound :: "'a::linorder list \<Rightarrow> 'a \<Rightarrow> nat" where
  "lower_bound xs x = length (takeWhile (\<lambda>y. y < x) xs)"

lemma mset_insert_by: "mset (insert_by lt x ys) = add_mset x (mset ys)"
  by (induction ys) auto

lemma mset_std_sort [simp]: "mset (std_sort lt xs) = mset xs"
  by (induction xs) (simp_all add: std_sort_def mset_insert_by)

lemma set_std_sort [simp]: "set (std_sort lt xs) = set xs"
  by (metis mset_std_sort set_mset_mset)

lemma length_std_sort [simp]: "length (std_sort lt xs) = length xs"
  by (metis mset_std_sort size_mset)

lemma distinct_map_std_sort [simp]: "distinct (map f (std_sort lt xs)) = distinct (map f xs)"
  by (metis mset_eq_imp_distinct_iff mset_map mset_std_sort)

text \<open>A comparator that compares keys is sorting by key.\<close>

lemma std_sort_by_key: "std_sort (\<lambda>a b. f a < f b) xs = sort_key f xs" for f :: "'a \<Rightarrow> 'k::linorder"
proof -
  have "insert_by (\<lambda>a b. f a < f b) x ys = insort_key f x ys" for x ys
    by (induction ys) (auto simp: not_less)
  then have "insert_by (\<lambda>a b. f a < f b) = insort_key f" by (intro ext)
  then show ?thesis by (simp add: std_sort_def sort_key_def)
qed

locale comparator =
  fixes lt :: "'a \<Rightarrow> 'a \<Rightarrow> bool"
  assumes irreflexive: "\<not> lt a a"
    and negatively_transitive: "lt a c \<Longrightarrow> lt a b \<or> lt b c"
    and transitive: "lt a b \<Longrightarrow> lt b c \<Longrightarrow> lt a c"
begin

abbreviation in_order :: "'a list \<Rightarrow> bool" where
  "in_order \<equiv> sorted_wrt (\<lambda>a b. \<not> lt b a)"

definition total_on :: "'a set \<Rightarrow> bool" where
  "total_on A \<longleftrightarrow> (\<forall>a\<in>A. \<forall>b\<in>A. a \<noteq> b \<longrightarrow> lt a b \<or> lt b a)"

lemma asymmetric: "lt a b \<Longrightarrow> \<not> lt b a"
  using irreflexive transitive by blast

lemma set_insert_by: "set (insert_by lt x ys) = insert x (set ys)"
  by (metis mset_insert_by set_mset_add_mset_insert set_mset_mset)

lemma in_order_insert_by: "in_order ys \<Longrightarrow> in_order (insert_by lt x ys)"
proof (induction ys)
  case Nil
  then show ?case by simp
next
  case (Cons y ys)
  then show ?case
    using asymmetric negatively_transitive by (auto simp: set_insert_by) blast
qed

lemma in_order_std_sort: "in_order (std_sort lt xs)"
  by (induction xs) (simp_all add: std_sort_def in_order_insert_by)

lemma in_order_unique:
  assumes "in_order xs" "in_order ys" "mset xs = mset ys" "total_on (set xs)"
  shows "xs = ys"
  using assms
proof (induction xs arbitrary: ys)
  case Nil
  then show ?case by simp
next
  case (Cons x xs)
  then obtain y ys' where ys: "ys = y # ys'" by (cases ys) auto
  have sets: "set (x # xs) = set (y # ys')"
    using Cons.prems(3) unfolding ys by (metis set_mset_mset)
  have "y = x \<or> (\<not> lt y x \<and> \<not> lt x y)"
    using Cons.prems(1,2) sets irreflexive unfolding ys by (metis insert_iff list.set(2) sorted_wrt.simps(2))
  moreover have "x \<in> set (x # xs)" "y \<in> set (x # xs)" using sets by auto
  ultimately have "y = x" using Cons.prems(4) unfolding total_on_def by blast
  moreover have "total_on (set xs)" using Cons.prems(4) by (simp add: total_on_def)
  ultimately show ?case using Cons.prems Cons.IH [of ys'] unfolding ys by simp
qed

text \<open>Whatever algorithm \<open>std::sort\<close> uses, on totally ordered elements the result is this one.\<close>

lemma std_sort_any: 
  "in_order ys \<Longrightarrow> mset ys = mset xs \<Longrightarrow> total_on (set xs) \<Longrightarrow> ys = std_sort lt xs"
  by (metis in_order_std_sort in_order_unique mset_std_sort set_mset_mset)

lemma std_sort_perm: "mset xs = mset ys \<Longrightarrow> total_on (set xs) \<Longrightarrow> std_sort lt xs = std_sort lt ys"
  by (metis in_order_std_sort mset_std_sort std_sort_any mset_eq_setD)

lemma std_sort_in_order: "in_order xs \<Longrightarrow> std_sort lt xs = xs"
proof (induction xs)
  case (Cons x xs)
  have "insert_by lt x xs = x # xs" using Cons.prems by (cases xs) auto
  with Cons show ?case by (simp add: std_sort_def)
qed (simp add: std_sort_def)

end

section \<open>Distinct ascending values and binary search\<close>

interpretation word_less: comparator "(<) :: 'a::len word \<Rightarrow> 'a word \<Rightarrow> bool"
  by unfold_locales (auto dest: less_trans)

lemma std_sort_less: "std_sort (<) xs = sort xs" for xs :: "'a::linorder list"
  using std_sort_by_key [of "\<lambda>x. x" xs] by simp

lemma sorted_remdups_adj_distinct: "sorted xs \<Longrightarrow> distinct (remdups_adj xs)"
  by (induction xs rule: remdups_adj.induct) (auto dest: antisym)

lemma ascending_values:
  "std_unique (std_sort (<) xs) = sorted_list_of_set (set xs)" for xs :: "'a::linorder list"
proof (rule sorted_distinct_set_unique)
  show "sorted (std_unique (std_sort (<) xs))"
    by (simp add: std_unique_def std_sort_less)
  show "distinct (std_unique (std_sort (<) xs))"
    by (simp add: std_unique_def std_sort_less sorted_remdups_adj_distinct)
qed (simp_all add: std_unique_def std_sort_less)

lemma lower_bound_nth:
  assumes "sorted_wrt (<) xs" "i < length xs"
  shows "lower_bound xs (xs ! i) = i"
proof -
  have "takeWhile (\<lambda>y. y < xs ! i) xs = take i xs"
    using assms by (intro takeWhile_eq_take_P_nth) (auto simp: sorted_wrt_iff_nth_less)
  then show ?thesis using assms(2) by (simp add: lower_bound_def)
qed

end
