(* ===== verification/Batch.thy ===== *)
theory Batch
  imports Orders Algorithms
begin

text \<open>
  \<open>engine/batch.hpp\<close> and \<open>batch.cpp\<close>: a batch is the orders of one instrument in the canonical
  order of sequence number, then identifier.  \<open>batch_create\<close> validates untrusted orders; the
  invariant \<open>wf_batch\<close> is what every other component relies on.
\<close>

record batch =
  bat_id :: batch_id
  bat_instrument :: instrument_id
  bat_orders :: "order list"

definition order_before :: "order \<Rightarrow> order \<Rightarrow> bool" where
  "order_before a b =
     (if ord_seq a \<noteq> ord_seq b then ord_seq a < ord_seq b else ord_id a < ord_id b)"

definition new_batch :: "batch_id \<Rightarrow> instrument_id \<Rightarrow> order list \<Rightarrow> batch" where
  "new_batch bid inst orders =
     \<lparr>bat_id = bid, bat_instrument = inst, bat_orders = std_sort order_before orders\<rparr>"

definition batch_check :: "instrument_id \<Rightarrow> u64 set \<Rightarrow> order \<Rightarrow> u64 set result" where
  "batch_check inst seen o1 =
     reject_if (ord_instrument o1 \<noteq> inst)
       (DomainError InstrumentMismatch ''Instrument mismatch in batch'')
    (reject_if (\<not> is_buy (ord_side o1) \<and> \<not> is_sell (ord_side o1))
       (PrimitiveError InvalidSide ''Invalid side in batch'')
    (reject_if (ord_price o1 = 0) (PrimitiveError ZeroValue ''Price'')
    (reject_if (ord_qty o1 = 0) (PrimitiveError ZeroValue ''Qty'')
    (reject_if (ord_id o1 \<in> seen) (DomainError DuplicateOrderId ''Duplicate OrderId in batch'')
       (Ok (insert (ord_id o1) seen))))))"

definition batch_create :: "batch_id \<Rightarrow> instrument_id \<Rightarrow> order list \<Rightarrow> batch result" where
  "batch_create bid inst orders =
     and_then_conv (loop_result (batch_check inst) {} orders) (\<lambda>seen. Ok (new_batch bid inst orders))"

section \<open>The invariant\<close>

definition wf_order :: "instrument_id \<Rightarrow> order \<Rightarrow> bool" where
  "wf_order inst o1 \<longleftrightarrow> ord_instrument o1 = inst \<and> valid_side (ord_side o1)
     \<and> ord_price o1 \<noteq> 0 \<and> ord_qty o1 \<noteq> 0"

definition wf_batch :: "batch \<Rightarrow> bool" where
  "wf_batch b \<longleftrightarrow> list_all (wf_order (bat_instrument b)) (bat_orders b)
     \<and> distinct (map ord_id (bat_orders b)) \<and> sorted_wrt order_before (bat_orders b)"

interpretation batch_order: comparator order_before
  by unfold_locales (auto simp: order_before_def split: if_splits)

lemma batch_order_total: "distinct (map ord_id xs) \<Longrightarrow> batch_order.total_on (set xs)"
  unfolding batch_order.total_on_def
proof (intro ballI impI)
  fix a b
  assume "distinct (map ord_id xs)" "a \<in> set xs" "b \<in> set xs" "a \<noteq> b"
  then have "ord_id a \<noteq> ord_id b" by (auto simp: distinct_map inj_on_def)
  then show "order_before a b \<or> order_before b a" by (auto simp: order_before_def)
qed

lemma sorted_order_before:
  assumes "distinct (map ord_id xs)"
  shows "sorted_wrt order_before xs \<longleftrightarrow> batch_order.in_order xs"
proof
  assume "sorted_wrt order_before xs"
  then show "batch_order.in_order xs"
    by (rule sorted_wrt_mono_rel [rotated]) (rule batch_order.asymmetric)
next
  assume "batch_order.in_order xs"
  with assms show "sorted_wrt order_before xs"
  proof (induction xs)
    case (Cons x xs)
    have "order_before x y" if "y \<in> set xs" for y
    proof -
      have "x \<noteq> y" using Cons.prems(1) that by auto
      then have "order_before x y \<or> order_before y x"
        using batch_order_total [OF Cons.prems(1)] that by (simp add: batch_order.total_on_def)
      then show ?thesis using Cons.prems(2) that by auto
    qed
    with Cons show ?case by simp
  qed simp
qed

lemma batch_check_loop:
  "loop_result (batch_check inst) seen orders = Ok seen' \<longleftrightarrow>
     list_all (wf_order inst) orders \<and> distinct (map ord_id orders)
     \<and> ord_id ` set orders \<inter> seen = {} \<and> seen' = seen \<union> ord_id ` set orders"
proof (induction orders arbitrary: seen)
  case Nil
  then show ?case by auto
next
  case (Cons o1 orders)
  have "batch_check inst seen o1 = Ok s \<longleftrightarrow>
      wf_order inst o1 \<and> ord_id o1 \<notin> seen \<and> s = insert (ord_id o1) seen" for s
    by (auto simp: batch_check_def result_simps wf_order_def valid_side_def is_buy_def is_sell_def)
  then have "loop_result (batch_check inst) seen (o1 # orders) = Ok seen' \<longleftrightarrow>
      wf_order inst o1 \<and> ord_id o1 \<notin> seen
      \<and> loop_result (batch_check inst) (insert (ord_id o1) seen) orders = Ok seen'"
    by (auto simp: result_simps)
  also have "\<dots> \<longleftrightarrow> list_all (wf_order inst) (o1 # orders) \<and> distinct (map ord_id (o1 # orders))
     \<and> ord_id ` set (o1 # orders) \<inter> seen = {} \<and> seen' = seen \<union> ord_id ` set (o1 # orders)"
    unfolding Cons.IH by auto
  finally show ?case .
qed

lemma batch_create_eq:
  "batch_create bid inst orders = Ok b \<longleftrightarrow>
     b = new_batch bid inst orders \<and> list_all (wf_order inst) orders \<and> distinct (map ord_id orders)"
  by (auto simp: batch_create_def result_simps batch_check_loop)

lemma wf_new_batch:
  assumes "list_all (wf_order inst) orders" "distinct (map ord_id orders)"
  shows "wf_batch (new_batch bid inst orders)"
  using assms batch_order.in_order_std_sort [of orders]
  by (simp add: wf_batch_def new_batch_def sorted_order_before list_all_iff)

text \<open>Orders that carry their positions as sequence numbers are already in the order of a batch.\<close>

lemma sequenced_in_order:
  assumes "length os < 2 ^ 64" "\<And>i. i < length os \<Longrightarrow> ord_seq (os ! i) = of_nat i"
  shows "batch_order.in_order os"
  unfolding sorted_wrt_iff_nth_less
proof (intro allI impI)
  fix i j assume "i < j" "j < length os"
  then have "unat (ord_seq (os ! i)) = i" "unat (ord_seq (os ! j)) = j"
    using assms by (simp_all add: unsigned_of_nat take_bit_nat_eq_self)
  then show "\<not> order_before (os ! j) (os ! i)"
    using \<open>i < j\<close> by (auto simp: order_before_def word_less_nat_alt)
qed

lemma bat_orders_sequenced:
  assumes "length os < 2 ^ 64" "\<And>i. i < length os \<Longrightarrow> ord_seq (os ! i) = of_nat i"
  shows "bat_orders (new_batch bid inst os) = os"
  by (simp add: new_batch_def) (rule batch_order.std_sort_in_order [OF sequenced_in_order [OF assms]])

lemma wf_batch_new: "wf_batch b \<Longrightarrow> new_batch (bat_id b) (bat_instrument b) (bat_orders b) = b"
  by (cases b) (auto simp: wf_batch_def new_batch_def sorted_order_before batch_order.std_sort_in_order)

lemma wf_batch_create: "wf_batch b \<Longrightarrow> batch_create (bat_id b) (bat_instrument b) (bat_orders b) = Ok b"
  by (simp add: batch_create_eq wf_batch_new) (simp add: wf_batch_def)

lemma wf_batch_orderD: "wf_batch b \<Longrightarrow> o1 \<in> set (bat_orders b) \<Longrightarrow> wf_order (bat_instrument b) o1"
  by (simp add: wf_batch_def list_all_iff)

end
