(* ===== verification/Auction.thy ===== *)
theory Auction
  imports Batch
begin

text \<open>
  \<open>engine/auction.hpp\<close> and \<open>auction.cpp\<close>: demand, supply, the candidate prices, the volume
  maximisers and the clearing price.  The source evaluates all candidates in one pass with
  bucketed quantities and running totals; the specification is the plain demand and supply curve
  over natural numbers, and the lemmas show that the optimised routine computes it, overflow
  checks included.
\<close>

record candidate_evaluation =
  eval_price :: price
  eval_demand :: qty
  eval_supply :: qty
  eval_volume :: qty

record volume_maximizers =
  vm_max_volume :: qty
  vm_evaluations :: "candidate_evaluation list"
  vm_prices :: "price list"

record clearing_outcome =
  out_price :: "price option"
  out_volume :: qty

definition demand_from_orders :: "order list \<Rightarrow> price \<Rightarrow> qty result" where
  "demand_from_orders orders p =
     loop_result (\<lambda>total o1. if ord_side o1 = Buy \<and> p \<le> ord_price o1
                             then qty_checked_add total (ord_qty o1) else Ok total) 0 orders"

definition supply_from_orders :: "order list \<Rightarrow> price \<Rightarrow> qty result" where
  "supply_from_orders orders p =
     loop_result (\<lambda>total o1. if ord_side o1 = Sell \<and> ord_price o1 \<le> p
                             then qty_checked_add total (ord_qty o1) else Ok total) 0 orders"

definition candidate_prices_from_orders :: "order list \<Rightarrow> price list" where
  "candidate_prices_from_orders orders =
     (if orders = [] then [] else std_unique (std_sort (<) (map ord_price orders)))"

text \<open>One order of the bucketing loop: \<open>buys\<close> and \<open>sells\<close> are indexed by candidate.\<close>

definition bucket_order :: "price list \<Rightarrow> qty list \<times> qty list \<Rightarrow> order \<Rightarrow> (qty list \<times> qty list) result" where
  "bucket_order candidates = (\<lambda>(buys, sells) o1.
     let i = lower_bound candidates (ord_price o1) in
     if i < length candidates \<and> candidates ! i = ord_price o1 then
       if ord_side o1 = Buy
       then and_then_conv (qty_checked_add (buys ! i) (ord_qty o1)) (\<lambda>q. Ok (buys[i := q], sells))
       else and_then_conv (qty_checked_add (sells ! i) (ord_qty o1)) (\<lambda>q. Ok (buys, sells[i := q]))
     else Ok (buys, sells))"

text \<open>The running total over the buckets, visited in the order of the indices \<open>ks\<close>.\<close>

definition running_step :: "qty list \<Rightarrow> qty \<times> qty list \<Rightarrow> nat \<Rightarrow> (qty \<times> qty list) result" where
  "running_step buckets = (\<lambda>(running, at) k.
     and_then_conv (qty_checked_add running (buckets ! k)) (\<lambda>r. Ok (r, at[k := r])))"

definition running_totals :: "qty list \<Rightarrow> nat list \<Rightarrow> (qty \<times> qty list) result" where
  "running_totals buckets ks =
     loop_result (running_step buckets) (0, replicate (length buckets) 0) ks"

definition evaluate_candidate :: "price list \<Rightarrow> qty list \<Rightarrow> qty list \<Rightarrow> nat \<Rightarrow> candidate_evaluation" where
  "evaluate_candidate candidates demand supply k =
     \<lparr>eval_price = candidates ! k, eval_demand = demand ! k, eval_supply = supply ! k,
      eval_volume = (if demand ! k < supply ! k then demand ! k else supply ! k)\<rparr>"

definition max_executable :: "candidate_evaluation list \<Rightarrow> qty" where
  "max_executable evs = foldl (\<lambda>m e. if m < eval_volume e then eval_volume e else m) 0 evs"

definition compute_volume_maximizers_from_orders :: "order list \<Rightarrow> volume_maximizers result" where
  "compute_volume_maximizers_from_orders orders =
     (let candidates = candidate_prices_from_orders orders; n = length candidates in
      if n = 0 then Ok \<lparr>vm_max_volume = 0, vm_evaluations = [], vm_prices = []\<rparr>
      else
        and_then_conv (loop_result (bucket_order candidates) (replicate n 0, replicate n 0) orders)
          (\<lambda>(buys, sells).
        and_then_conv (running_totals sells [0..<n]) (\<lambda>(total_supply, supply).
        and_then_conv (running_totals buys (rev [0..<n])) (\<lambda>(total_demand, demand).
          let evs = map (evaluate_candidate candidates demand supply) [0..<n];
              max_volume = max_executable evs
          in Ok \<lparr>vm_max_volume = max_volume, vm_evaluations = evs,
                 vm_prices = map eval_price (filter (\<lambda>e. eval_volume e = max_volume) evs)\<rparr>))))"

definition resolve_clearing_price_tie :: "volume_maximizers \<Rightarrow> price option" where
  "resolve_clearing_price_tie vm =
     (if vm_max_volume vm = 0 \<or> vm_prices vm = [] then None
      else
        let p_min = hd (vm_prices vm); p_max = last (vm_prices vm);
            mid = p_min + (p_max - p_min) div 2
        in case price_create mid of Ok p \<Rightarrow> Some p | Err e \<Rightarrow> None)"

definition determine_clearing_outcome :: "batch \<Rightarrow> clearing_outcome result" where
  "determine_clearing_outcome b =
     and_then_conv (compute_volume_maximizers_from_orders (bat_orders b)) (\<lambda>vm.
       Ok \<lparr>out_price = resolve_clearing_price_tie vm, out_volume = vm_max_volume vm\<rparr>)"

section \<open>The demand and supply curves\<close>

definition demand_at :: "order list \<Rightarrow> price \<Rightarrow> nat" where
  "demand_at orders p =
     sum_list (map (\<lambda>o1. if ord_side o1 = Buy \<and> p \<le> ord_price o1 then unat (ord_qty o1) else 0) orders)"

definition supply_at :: "order list \<Rightarrow> price \<Rightarrow> nat" where
  "supply_at orders p =
     sum_list (map (\<lambda>o1. if ord_side o1 = Sell \<and> ord_price o1 \<le> p then unat (ord_qty o1) else 0) orders)"

definition crossed :: "order list \<Rightarrow> price \<Rightarrow> nat" where
  "crossed orders p = min (demand_at orders p) (supply_at orders p)"

definition total_side :: "side \<Rightarrow> order list \<Rightarrow> nat" where
  "total_side s orders = sum_list (map (\<lambda>o1. if ord_side o1 = s then unat (ord_qty o1) else 0) orders)"

lemma demand_from_orders_Ok_iff: "demand_from_orders orders p = Ok q \<longleftrightarrow> unat q = demand_at orders p"
  using qty_arith.sum_loop_Ok_iff [of "\<lambda>o1. ord_side o1 = Buy \<and> p \<le> ord_price o1" ord_qty 0 orders q]
  by (simp add: demand_from_orders_def demand_at_def)

lemma supply_from_orders_Ok_iff: "supply_from_orders orders p = Ok q \<longleftrightarrow> unat q = supply_at orders p"
  using qty_arith.sum_loop_Ok_iff [of "\<lambda>o1. ord_side o1 = Sell \<and> ord_price o1 \<le> p" ord_qty 0 orders q]
  by (simp add: supply_from_orders_def supply_at_def)

lemma sum_list_if_mono:
  "(\<And>x. x \<in> set xs \<Longrightarrow> P x \<Longrightarrow> Q x) \<Longrightarrow>
   sum_list (map (\<lambda>x. if P x then f x else 0) xs) \<le> sum_list (map (\<lambda>x. if Q x then f x else (0::nat)) xs)"
  by (induction xs) (auto simp: add_mono trans_le_add1)

lemma demand_at_antimono: "p \<le> p' \<Longrightarrow> demand_at orders p' \<le> demand_at orders p"
  unfolding demand_at_def by (rule sum_list_if_mono) auto

lemma supply_at_mono: "p \<le> p' \<Longrightarrow> supply_at orders p \<le> supply_at orders p'"
  unfolding supply_at_def by (rule sum_list_if_mono) auto

lemma demand_at_le_total: "demand_at orders p \<le> total_side Buy orders"
  unfolding demand_at_def total_side_def by (rule sum_list_if_mono) auto

lemma supply_at_le_total: "supply_at orders p \<le> total_side Sell orders"
  unfolding supply_at_def total_side_def by (rule sum_list_if_mono) auto

section \<open>The buckets and their running totals\<close>

definition bucket_sum :: "(side \<Rightarrow> bool) \<Rightarrow> price \<Rightarrow> order list \<Rightarrow> nat" where
  "bucket_sum P p orders =
     sum_list (map (\<lambda>o1. if P (ord_side o1) \<and> ord_price o1 = p then unat (ord_qty o1) else 0) orders)"

lemma bucket_sum_simps [simp]:
  "bucket_sum P p [] = 0"
  "bucket_sum P p (o1 # orders) =
     (if P (ord_side o1) \<and> ord_price o1 = p then unat (ord_qty o1) else 0) + bucket_sum P p orders"
  by (simp_all add: bucket_sum_def)

text \<open>Adding up buckets is adding up the orders whose price is one of the candidates visited.\<close>

lemma sum_bucket_sum:
  assumes "distinct (map (nth c) ks)"
  shows "sum_list (map (\<lambda>k. bucket_sum P (c ! k) orders) ks)
    = sum_list (map (\<lambda>o1. if P (ord_side o1) \<and> ord_price o1 \<in> set (map (nth c) ks)
                          then unat (ord_qty o1) else 0) orders)"
proof (induction orders)
  case Nil
  then show ?case by (induction ks) simp_all
next
  case (Cons o1 orders)
  have "sum_list (map (\<lambda>k. if P (ord_side o1) \<and> ord_price o1 = c ! k then unat (ord_qty o1) else 0) ks)
      = (if P (ord_side o1) \<and> ord_price o1 \<in> set (map (nth c) ks) then unat (ord_qty o1) else 0)"
    using assms by (induction ks) auto
  then show ?case using Cons by (simp add: sum_list_addf)
qed

text \<open>How the buckets \<open>b\<close> grow to \<open>b'\<close> over some orders.\<close>

definition buckets_grow ::
  "(side \<Rightarrow> bool) \<Rightarrow> price list \<Rightarrow> order list \<Rightarrow> qty list \<Rightarrow> qty list \<Rightarrow> bool" where
  "buckets_grow P c orders b b' \<longleftrightarrow> length b' = length b \<and>
     (\<forall>i < length b. unat (b' ! i) = unat (b ! i) + bucket_sum P (c ! i) orders)"

lemma bucket_order_hit:
  assumes "sorted_wrt (<) c" "i < length c" "c ! i = ord_price o1"
  shows "bucket_order c (buys, sells) o1 =
     (if ord_side o1 = Buy
      then and_then_conv (qty_checked_add (buys ! i) (ord_qty o1)) (\<lambda>q. Ok (buys[i := q], sells))
      else and_then_conv (qty_checked_add (sells ! i) (ord_qty o1)) (\<lambda>q. Ok (buys, sells[i := q])))"
  using lower_bound_nth [OF assms(1,2)] assms by (simp add: bucket_order_def)

lemma buckets_grow_update:
  assumes "distinct c" "i < length c" "length b = length c" "c ! i = ord_price o1"
    "unat q = unat (b ! i) + unat (ord_qty o1)" "P (ord_side o1)"
  shows "buckets_grow P c [o1] b (b[i := q])"
  using assms by (auto simp: buckets_grow_def nth_list_update nth_eq_iff_index_eq)

lemma buckets_grow_trans:
  "buckets_grow P c xs b b' \<Longrightarrow> buckets_grow P c ys b' b'' \<Longrightarrow> buckets_grow P c (xs @ ys) b b''"
  by (simp add: buckets_grow_def bucket_sum_def)

lemma buckets_grow_same [simp]:
  "buckets_grow P c [] b b" "\<not> P (ord_side o1) \<Longrightarrow> buckets_grow P c [o1] b b"
  by (simp_all add: buckets_grow_def)

lemma bucket_step:
  assumes "sorted_wrt (<) c" "ord_price o1 \<in> set c" "length buys = length c" "length sells = length c"
  shows "bucket_order c (buys, sells) o1 = Ok (buys', sells') \<Longrightarrow>
      buckets_grow (\<lambda>s. s = Buy) c [o1] buys buys' \<and> buckets_grow (\<lambda>s. s \<noteq> Buy) c [o1] sells sells'"
    and "\<forall>i < length c. unat (buys ! i) + bucket_sum (\<lambda>s. s = Buy) (c ! i) [o1] < 2 ^ 64
          \<and> unat (sells ! i) + bucket_sum (\<lambda>s. s \<noteq> Buy) (c ! i) [o1] < 2 ^ 64 \<Longrightarrow>
      is_ok (bucket_order c (buys, sells) o1)"
proof -
  obtain i where i: "i < length c" "c ! i = ord_price o1"
    using assms(2) by (metis in_set_conv_nth)
  have "distinct c" using assms(1) by (simp add: strict_sorted_iff)
  note hit = bucket_order_hit [OF assms(1) i] and up = buckets_grow_update [OF \<open>distinct c\<close> i(1)]
  show "bucket_order c (buys, sells) o1 = Ok (buys', sells') \<Longrightarrow>
      buckets_grow (\<lambda>s. s = Buy) c [o1] buys buys' \<and> buckets_grow (\<lambda>s. s \<noteq> Buy) c [o1] sells sells'"
    using assms(3,4) i
    by (auto simp: hit result_simps qty_arith.add_Ok_iff intro!: up split: if_splits)
  assume "\<forall>i < length c. unat (buys ! i) + bucket_sum (\<lambda>s. s = Buy) (c ! i) [o1] < 2 ^ 64
          \<and> unat (sells ! i) + bucket_sum (\<lambda>s. s \<noteq> Buy) (c ! i) [o1] < 2 ^ 64"
  then have "if ord_side o1 = Buy then unat (buys ! i) + unat (ord_qty o1) < 2 ^ 64
             else unat (sells ! i) + unat (ord_qty o1) < 2 ^ 64"
    using i by (auto dest!: spec [where x = i])
  then show "is_ok (bucket_order c (buys, sells) o1)"
    using qty_arith.add_fits [of "buys ! i" "ord_qty o1"] qty_arith.add_fits [of "sells ! i" "ord_qty o1"]
    by (auto simp: hit split: if_splits)
qed

lemma bucket_loop:
  assumes "sorted_wrt (<) c"
  shows "ord_price ` set orders \<subseteq> set c \<Longrightarrow> length buys = length c \<Longrightarrow> length sells = length c \<Longrightarrow>
    loop_result (bucket_order c) (buys, sells) orders = Ok (buys', sells') \<Longrightarrow>
      buckets_grow (\<lambda>s. s = Buy) c orders buys buys' \<and> buckets_grow (\<lambda>s. s \<noteq> Buy) c orders sells sells'"
    and "ord_price ` set orders \<subseteq> set c \<Longrightarrow> length buys = length c \<Longrightarrow> length sells = length c \<Longrightarrow>
    \<forall>i < length c. unat (buys ! i) + bucket_sum (\<lambda>s. s = Buy) (c ! i) orders < 2 ^ 64
          \<and> unat (sells ! i) + bucket_sum (\<lambda>s. s \<noteq> Buy) (c ! i) orders < 2 ^ 64 \<Longrightarrow>
      is_ok (loop_result (bucket_order c) (buys, sells) orders)"
proof (induction orders arbitrary: buys sells)
  case Nil
  { case 1 then show ?case by simp }
  { case 2 then show ?case by simp }
next
  case (Cons o1 orders)
  { case 1
    then obtain b s where step: "bucket_order c (buys, sells) o1 = Ok (b, s)"
      and rest: "loop_result (bucket_order c) (b, s) orders = Ok (buys', sells')"
      by (auto simp: result_simps)
    from 1 have grow: "buckets_grow (\<lambda>s. s = Buy) c [o1] buys b"
      "buckets_grow (\<lambda>s. s \<noteq> Buy) c [o1] sells s"
      using bucket_step(1) [OF assms _ _ _ step] by auto
    then have "length b = length c" "length s = length c" using 1 by (auto simp: buckets_grow_def)
    with Cons.IH(1) [OF _ _ _ rest] 1 grow show ?case
      by (auto dest: buckets_grow_trans) }
  { case 2
    have "is_ok (bucket_order c (buys, sells) o1)"
    proof (rule bucket_step(2) [OF assms])
      show "\<forall>i < length c. unat (buys ! i) + bucket_sum (\<lambda>s. s = Buy) (c ! i) [o1] < 2 ^ 64
          \<and> unat (sells ! i) + bucket_sum (\<lambda>s. s \<noteq> Buy) (c ! i) [o1] < 2 ^ 64"
        using 2(4) by (auto split: if_splits)
    qed (use 2 in auto)
    then obtain b s where step: "bucket_order c (buys, sells) o1 = Ok (b, s)"
      by (auto simp: is_ok_iff)
    from 2 have grow: "buckets_grow (\<lambda>s. s = Buy) c [o1] buys b"
      "buckets_grow (\<lambda>s. s \<noteq> Buy) c [o1] sells s"
      using bucket_step(1) [OF assms _ _ _ step] by auto
    then have "length b = length c" "length s = length c" using 2 by (auto simp: buckets_grow_def)
    moreover have "\<forall>i < length c. unat (b ! i) + bucket_sum (\<lambda>s. s = Buy) (c ! i) orders < 2 ^ 64
          \<and> unat (s ! i) + bucket_sum (\<lambda>s. s \<noteq> Buy) (c ! i) orders < 2 ^ 64"
      using grow 2 unfolding buckets_grow_def by (simp add: add.assoc)
    ultimately have "is_ok (loop_result (bucket_order c) (b, s) orders)"
      using Cons.IH(2) [of b s] 2 by auto
    with step show ?case by simp }
qed

lemma running_totals_Nil: "running_totals b [] = Ok (0, replicate (length b) 0)"
  by (simp add: running_totals_def)

lemma running_totals_snoc:
  "running_totals b (ks @ [k]) = and_then (running_totals b ks) (\<lambda>s. running_step b s k)"
  by (cases "running_totals b ks")
     (simp_all add: running_totals_def loop_result_append and_then_def split: result.splits)

lemma running_totals_Ok:
  assumes "running_totals b ks = Ok (r, at)" "distinct ks" "set ks \<subseteq> {..<length b}"
  shows "unat r = sum_list (map (\<lambda>k. unat (b ! k)) ks) \<and> length at = length b
    \<and> (\<forall>j < length ks. unat (at ! (ks ! j)) = sum_list (map (\<lambda>k. unat (b ! k)) (take (Suc j) ks)))"
  using assms
proof (induction ks arbitrary: r at rule: rev_induct)
  case Nil
  then show ?case by (auto simp: running_totals_Nil)
next
  case (snoc k ks)
  from snoc.prems(1) obtain r0 at0 where pre: "running_totals b ks = Ok (r0, at0)"
    and r: "unat r = unat r0 + unat (b ! k)" and at: "at = at0[k := r]"
    by (auto simp: running_totals_snoc running_step_def result_simps qty_arith.add_Ok_iff)
  have IH: "unat r0 = sum_list (map (\<lambda>k. unat (b ! k)) ks)" "length at0 = length b"
    "\<forall>j < length ks. unat (at0 ! (ks ! j)) = sum_list (map (\<lambda>k. unat (b ! k)) (take (Suc j) ks))"
    using snoc.IH [OF pre] snoc.prems by auto
  have "unat (at ! ((ks @ [k]) ! j)) = sum_list (map (\<lambda>k. unat (b ! k)) (take (Suc j) (ks @ [k])))"
    if "j < length (ks @ [k])" for j
  proof (cases "j = length ks")
    case True
    with IH r at snoc.prems show ?thesis by simp
  next
    case False
    then have j: "j < length ks" using that by simp
    moreover have "ks ! j \<noteq> k" using snoc.prems(2) nth_mem [OF j] by auto
    ultimately show ?thesis using IH(3) by (simp add: at nth_append)
  qed
  then show ?case using IH r at by simp
qed

lemma running_totals_is_ok:
  assumes "sum_list (map (\<lambda>k. unat (b ! k)) ks) < 2 ^ 64" "distinct ks" "set ks \<subseteq> {..<length b}"
  shows "is_ok (running_totals b ks)"
  using assms
proof (induction ks rule: rev_induct)
  case Nil
  then show ?case by (simp add: running_totals_Nil)
next
  case (snoc k ks)
  then obtain r at where pre: "running_totals b ks = Ok (r, at)" by (auto simp: is_ok_iff)
  then have "unat r + unat (b ! k) < 2 ^ 64"
    using running_totals_Ok [OF pre] snoc.prems by simp
  then obtain c where "qty_checked_add r (b ! k) = Ok c" using qty_arith.add_fits by blast
  with pre show ?case by (simp add: running_totals_snoc running_step_def)
qed

section \<open>The one-pass routine computes the curves\<close>

definition sides_valid :: "order list \<Rightarrow> bool" where
  "sides_valid orders = list_all (\<lambda>o1. valid_side (ord_side o1)) orders"

lemma candidates_eq: "candidate_prices_from_orders orders = sorted_list_of_set (ord_price ` set orders)"
  by (simp add: candidate_prices_from_orders_def ascending_values)

lemma candidates_ascending: "sorted_wrt (<) (candidate_prices_from_orders orders)"
  by (simp add: candidates_eq)

lemma set_candidates [simp]: "set (candidate_prices_from_orders orders) = ord_price ` set orders"
  by (simp add: candidates_eq)

lemma distinct_nth_subset:
  "distinct c \<Longrightarrow> distinct ks \<Longrightarrow> set ks \<subseteq> {..<length c} \<Longrightarrow> distinct (map (nth c) ks)"
  by (auto simp: distinct_map inj_on_def nth_eq_iff_index_eq subset_iff)

lemma prices_upto:
  fixes c :: "price list"
  assumes "sorted_wrt (<) c" "k < length c" "p \<in> set c"
  shows "p \<in> set (map (nth c) [0..<Suc k]) \<longleftrightarrow> p \<le> c ! k"
proof -
  obtain i where i: "i < length c" "p = c ! i" using assms(3) by (metis in_set_conv_nth)
  have "p \<le> c ! k \<longleftrightarrow> i \<le> k"
    using assms(1,2) i sorted_wrt_nth_less [OF assms(1), of k i] sorted_wrt_nth_less [OF assms(1), of i k]
    by (cases i k rule: linorder_cases) auto
  moreover have "p \<in> set (map (nth c) [0..<Suc k]) \<longleftrightarrow> i \<le> k"
    using assms(1,2) i by (auto simp: strict_sorted_iff nth_eq_iff_index_eq)
  ultimately show ?thesis by simp
qed

lemma prices_from:
  fixes c :: "price list"
  assumes "sorted_wrt (<) c" "k < length c" "p \<in> set c"
  shows "p \<in> set (map (nth c) (rev [k..<length c])) \<longleftrightarrow> c ! k \<le> p"
proof -
  obtain i where i: "i < length c" "p = c ! i" using assms(3) by (metis in_set_conv_nth)
  have "c ! k \<le> p \<longleftrightarrow> k \<le> i"
    using assms(1,2) i sorted_wrt_nth_less [OF assms(1), of k i] sorted_wrt_nth_less [OF assms(1), of i k]
    by (cases i k rule: linorder_cases) auto
  moreover have "p \<in> set (map (nth c) (rev [k..<length c])) \<longleftrightarrow> k \<le> i"
    using assms(1,2) i by (auto simp: strict_sorted_iff nth_eq_iff_index_eq)
  ultimately show ?thesis by simp
qed

text \<open>The running total at the index visited at place \<open>j\<close>, read as a sum over the orders.\<close>

lemma running_totals_orders:
  assumes run: "running_totals b ks = Ok (r, at)" and ks: "distinct ks" "set ks = {..<length c}"
    and c: "distinct c" and grow: "buckets_grow P c orders (replicate (length c) 0) b"
  shows "unat r = sum_list (map (\<lambda>o1. if P (ord_side o1) \<and> ord_price o1 \<in> set c
                                      then unat (ord_qty o1) else 0) orders)"
    and "j < length ks \<Longrightarrow> unat (at ! (ks ! j)) =
       sum_list (map (\<lambda>o1. if P (ord_side o1) \<and> ord_price o1 \<in> set (map (nth c) (take (Suc j) ks))
                           then unat (ord_qty o1) else 0) orders)"
proof -
  have len: "length b = length c" and b: "\<And>i. i < length c \<Longrightarrow> unat (b ! i) = bucket_sum P (c ! i) orders"
    using grow by (auto simp: buckets_grow_def)
  have sums: "sum_list (map (\<lambda>k. unat (b ! k)) l) =
      sum_list (map (\<lambda>o1. if P (ord_side o1) \<and> ord_price o1 \<in> set (map (nth c) l)
                          then unat (ord_qty o1) else 0) orders)"
    if "distinct l" "set l \<subseteq> set ks" for l
  proof -
    have "map (\<lambda>k. unat (b ! k)) l = map (\<lambda>k. bucket_sum P (c ! k) orders) l"
      using that ks b by auto
    then show ?thesis using that ks c by (simp only: sum_bucket_sum distinct_nth_subset)
  qed
  have "set (map (nth c) ks) = set c"
    by (simp add: ks(2)) (auto simp: in_set_conv_nth)
  note res = running_totals_Ok [OF run ks(1)]
  show "unat r = sum_list (map (\<lambda>o1. if P (ord_side o1) \<and> ord_price o1 \<in> set c
                                      then unat (ord_qty o1) else 0) orders)"
    using res sums [of ks] ks len \<open>set (map (nth c) ks) = set c\<close> by simp
  show "j < length ks \<Longrightarrow> unat (at ! (ks ! j)) =
       sum_list (map (\<lambda>o1. if P (ord_side o1) \<and> ord_price o1 \<in> set (map (nth c) (take (Suc j) ks))
                           then unat (ord_qty o1) else 0) orders)"
    using res sums [of "take (Suc j) ks", OF _ set_take_subset] ks len by simp
qed

lemma word_nat_cast_unat: "of_nat (unat w) = (w :: 'a::len word)"
  by simp

lemma nth_take_upt: "k < n \<Longrightarrow> [0..<n] ! k = k \<and> take (Suc k) [0..<n] = [0..<Suc k]"
  by (simp add: take_upt)

lemma nth_take_rev_upt:
  "k < n \<Longrightarrow> rev [0..<n] ! (n - Suc k) = k \<and> take (Suc (n - Suc k)) (rev [0..<n]) = rev [k..<n]"
  by (simp add: rev_nth take_rev Suc_diff_Suc)

text \<open>The evaluation the one-pass routine should give for a candidate.\<close>

definition reference_evaluation :: "order list \<Rightarrow> price \<Rightarrow> candidate_evaluation" where
  "reference_evaluation orders p =
     \<lparr>eval_price = p, eval_demand = of_nat (demand_at orders p),
      eval_supply = of_nat (supply_at orders p), eval_volume = of_nat (crossed orders p)\<rparr>"

definition reference_maximizers :: "order list \<Rightarrow> volume_maximizers" where
  "reference_maximizers orders =
     (let evs = map (reference_evaluation orders) (candidate_prices_from_orders orders) in
      \<lparr>vm_max_volume = max_executable evs, vm_evaluations = evs,
       vm_prices = map eval_price (filter (\<lambda>e. eval_volume e = max_executable evs) evs)\<rparr>)"

definition totals_fit :: "order list \<Rightarrow> bool" where
  "totals_fit orders \<longleftrightarrow> total_side Buy orders < 2 ^ 64 \<and> total_side Sell orders < 2 ^ 64"

lemma total_candidates:
  "sum_list (map (\<lambda>o1. if P (ord_side o1) \<and> ord_price o1 \<in> set (candidate_prices_from_orders orders)
                       then unat (ord_qty o1) else 0) orders)
   = sum_list (map (\<lambda>o1. if P (ord_side o1) then unat (ord_qty o1) else 0) orders)"
  by (rule arg_cong [where f = sum_list]) simp

lemma not_Buy_total:
  "sides_valid orders \<Longrightarrow>
   sum_list (map (\<lambda>o1. if ord_side o1 \<noteq> Buy then unat (ord_qty o1) else 0) orders) = total_side Sell orders"
  unfolding total_side_def
  by (rule arg_cong [where f = sum_list]) (auto simp: sides_valid_def list_all_iff valid_side_def)

lemma supply_stage:
  assumes c_def: "c = candidate_prices_from_orders orders"
    and "sides_valid orders" "running_totals sells [0..<length c] = Ok (t, at)"
    and "buckets_grow (\<lambda>s. s \<noteq> Buy) c orders (replicate (length c) 0) sells"
  shows "unat t = total_side Sell orders"
    and "k < length c \<Longrightarrow> at ! k = of_nat (supply_at orders (c ! k))"
proof -
  have asc: "sorted_wrt (<) c" and dist: "distinct c"
    by (simp_all add: c_def candidates_eq)
  note run = running_totals_orders [OF assms(3) _ _ dist assms(4)]
  show "unat t = total_side Sell orders"
    using run(1) total_candidates [of "\<lambda>s. s \<noteq> Buy" orders] not_Buy_total [OF assms(2)]
    by (simp add: c_def atLeast0LessThan)
  assume k: "k < length c"
  have "unat (at ! k) = sum_list (map (\<lambda>o1. if ord_side o1 \<noteq> Buy \<and>
      ord_price o1 \<in> set (map (nth c) [0..<Suc k]) then unat (ord_qty o1) else 0) orders)"
    using run(2) [of k] nth_take_upt [OF k] k by (simp add: atLeast0LessThan)
  also have "\<dots> = supply_at orders (c ! k)"
    unfolding supply_at_def
  proof (rule arg_cong [where f = sum_list], rule map_cong)
    fix o1
    assume o1: "o1 \<in> set orders"
    then have "ord_price o1 \<in> set c" by (simp add: c_def)
    with o1 assms(2) show "(if ord_side o1 \<noteq> Buy \<and> ord_price o1 \<in> set (map (nth c) [0..<Suc k])
        then unat (ord_qty o1) else 0)
      = (if ord_side o1 = Sell \<and> ord_price o1 \<le> c ! k then unat (ord_qty o1) else 0)"
      by (auto simp only: prices_upto [OF asc k] sides_valid_def list_all_iff valid_side_def Buy_neq_Sell
          split: if_split)
  qed simp
  finally show "at ! k = of_nat (supply_at orders (c ! k))" by (metis word_nat_cast_unat)
qed

lemma demand_stage:
  assumes c_def: "c = candidate_prices_from_orders orders"
    and "running_totals buys (rev [0..<length c]) = Ok (t, at)"
    and "buckets_grow (\<lambda>s. s = Buy) c orders (replicate (length c) 0) buys"
  shows "unat t = total_side Buy orders"
    and "k < length c \<Longrightarrow> at ! k = of_nat (demand_at orders (c ! k))"
proof -
  have asc: "sorted_wrt (<) c" and dist: "distinct c"
    by (simp_all add: c_def candidates_eq)
  note run = running_totals_orders [OF assms(2) _ _ dist assms(3)]
  show "unat t = total_side Buy orders"
    using run(1) total_candidates [of "\<lambda>s. s = Buy" orders]
    by (simp add: c_def total_side_def atLeast0LessThan)
  assume k: "k < length c"
  have "unat (at ! k) = sum_list (map (\<lambda>o1. if ord_side o1 = Buy \<and>
      ord_price o1 \<in> set (map (nth c) (rev [k..<length c])) then unat (ord_qty o1) else 0) orders)"
    using run(2) [of "length c - Suc k"] nth_take_rev_upt [OF k] k by (simp add: atLeast0LessThan)
  also have "\<dots> = demand_at orders (c ! k)"
    unfolding demand_at_def
  proof (rule arg_cong [where f = sum_list], rule map_cong)
    fix o1
    assume "o1 \<in> set orders"
    then have "ord_price o1 \<in> set c" by (simp add: c_def)
    then show "(if ord_side o1 = Buy \<and> ord_price o1 \<in> set (map (nth c) (rev [k..<length c]))
        then unat (ord_qty o1) else 0)
      = (if ord_side o1 = Buy \<and> c ! k \<le> ord_price o1 then unat (ord_qty o1) else 0)"
      by (simp only: prices_from [OF asc k])
  qed simp
  finally show "at ! k = of_nat (demand_at orders (c ! k))" by (metis word_nat_cast_unat)
qed

lemma evaluate_reference:
  assumes "c = candidate_prices_from_orders orders" "totals_fit orders"
    and "\<And>k. k < length c \<Longrightarrow> sup_v ! k = of_nat (supply_at orders (c ! k))"
    and "\<And>k. k < length c \<Longrightarrow> dem ! k = of_nat (demand_at orders (c ! k))"
  shows "map (evaluate_candidate c dem sup_v) [0..<length c] = map (reference_evaluation orders) c"
proof (rule nth_equalityI)
  fix k
  assume "k < length (map (evaluate_candidate c dem sup_v) [0..<length c])"
  moreover have "demand_at orders p < 2 ^ 64" "supply_at orders p < 2 ^ 64" for p
    using assms(2) demand_at_le_total [of orders p] supply_at_le_total [of orders p]
    by (auto simp: totals_fit_def)
  ultimately show "map (evaluate_candidate c dem sup_v) [0..<length c] ! k = map (reference_evaluation orders) c ! k"
    using assms(3,4)
    by (simp add: evaluate_candidate_def reference_evaluation_def crossed_def
        word_less_nat_alt unsigned_of_nat take_bit_nat_eq_self min_def)
qed simp

lemma bucket_stage:
  assumes "c = candidate_prices_from_orders orders"
    and "loop_result (bucket_order c) (replicate (length c) 0, replicate (length c) 0) orders = Ok (buys, sells)"
  shows "buckets_grow (\<lambda>s. s = Buy) c orders (replicate (length c) 0) buys"
    "buckets_grow (\<lambda>s. s \<noteq> Buy) c orders (replicate (length c) 0) sells"
  using bucket_loop(1) [of c orders "replicate (length c) 0" "replicate (length c) 0" buys sells] assms
  by (simp_all add: candidates_ascending)

lemma compute_Ok_eq:
  assumes "sides_valid orders" "compute_volume_maximizers_from_orders orders = Ok vm"
  shows "vm = reference_maximizers orders \<and> totals_fit orders"
proof (cases "orders = []")
  case True
  with assms(2) show ?thesis
    by (simp add: compute_volume_maximizers_from_orders_def candidate_prices_from_orders_def
        reference_maximizers_def max_executable_def totals_fit_def total_side_def)
next
  case False
  define c where "c = candidate_prices_from_orders orders"
  have "length c \<noteq> 0" using False set_candidates [of orders] by (cases orders) (auto simp: c_def simp del: set_candidates)
  with assms(2) obtain buys sells ts sup_v td dem where
    buckets: "loop_result (bucket_order c) (replicate (length c) 0, replicate (length c) 0) orders = Ok (buys, sells)"
    and sup_run: "running_totals sells [0..<length c] = Ok (ts, sup_v)"
    and dem: "running_totals buys (rev [0..<length c]) = Ok (td, dem)"
    and vm: "vm = (let evs = map (evaluate_candidate c dem sup_v) [0..<length c] in
      \<lparr>vm_max_volume = max_executable evs, vm_evaluations = evs,
       vm_prices = map eval_price (filter (\<lambda>e. eval_volume e = max_executable evs) evs)\<rparr>)"
    by (auto simp: compute_volume_maximizers_from_orders_def c_def [symmetric] Let_def result_simps)
  note grow = bucket_stage [OF c_def buckets]
  note offered = supply_stage [OF c_def assms(1) sup_run grow(2)]
  note wanted = demand_stage [OF c_def dem grow(1)]
  have fit: "totals_fit orders"
    using unat_less_pow [of ts] unat_less_pow [of td] by (simp add: totals_fit_def offered(1) wanted(1))
  have "map (evaluate_candidate c dem sup_v) [0..<length c] = map (reference_evaluation orders) c"
    by (rule evaluate_reference [OF c_def fit offered(2) wanted(2)])
  then show ?thesis using fit by (simp add: vm reference_maximizers_def c_def [symmetric])
qed

lemma bucket_sum_le_total: "bucket_sum P p orders \<le> sum_list (map (\<lambda>o1. if P (ord_side o1) then unat (ord_qty o1) else 0) orders)"
  unfolding bucket_sum_def by (rule sum_list_if_mono) auto

lemma buckets_sum_total:
  assumes "c = candidate_prices_from_orders orders" "buckets_grow P c orders (replicate (length c) 0) b"
    "distinct ks" "set ks = {..<length c}"
  shows "sum_list (map (\<lambda>k. unat (b ! k)) ks) = sum_list (map (\<lambda>o1. if P (ord_side o1) then unat (ord_qty o1) else 0) orders)"
proof -
  have "distinct c" by (simp add: assms(1) candidates_eq)
  have "map (\<lambda>k. unat (b ! k)) ks = map (\<lambda>k. bucket_sum P (c ! k) orders) ks"
    using assms(2,4) by (auto simp: buckets_grow_def)
  moreover have "set (map (nth c) ks) = set c" by (simp add: assms(4)) (auto simp: in_set_conv_nth)
  ultimately show ?thesis
    using sum_bucket_sum [of c ks P orders] distinct_nth_subset [OF \<open>distinct c\<close> assms(3)] assms(4)
    by (simp only: assms(1) total_candidates)
qed

lemma compute_is_ok:
  assumes "sides_valid orders" "totals_fit orders"
  shows "is_ok (compute_volume_maximizers_from_orders orders)"
proof (cases "length (candidate_prices_from_orders orders) = 0")
  case True
  then show ?thesis by (simp add: compute_volume_maximizers_from_orders_def)
next
  case False
  define c where "c = candidate_prices_from_orders orders"
  define z where "z = replicate (length c) (0 :: qty)"
  have tot: "sum_list (map (\<lambda>o1. if ord_side o1 = Buy then unat (ord_qty o1) else 0) orders) < 2 ^ 64"
      "sum_list (map (\<lambda>o1. if ord_side o1 \<noteq> Buy then unat (ord_qty o1) else 0) orders) < 2 ^ 64"
    using assms(2) not_Buy_total [OF assms(1)] by (simp_all add: totals_fit_def total_side_def)
  then have "bucket_sum (\<lambda>s. s = Buy) p orders < 2 ^ 64" "bucket_sum (\<lambda>s. s \<noteq> Buy) p orders < 2 ^ 64" for p
    using bucket_sum_le_total [of "\<lambda>s. s = Buy" p orders] bucket_sum_le_total [of "\<lambda>s. s \<noteq> Buy" p orders]
    by linarith+
  then have "is_ok (loop_result (bucket_order c) (z, z) orders)"
    using bucket_loop(2) [of c orders z z] by (simp add: z_def c_def candidates_ascending)
  then obtain buys sells where
    buckets: "loop_result (bucket_order c) (z, z) orders = Ok (buys, sells)"
    by (auto simp: is_ok_iff)
  note grow = bucket_stage [OF c_def buckets [unfolded z_def]]
  have len: "length buys = length c" "length sells = length c" using grow by (auto simp: buckets_grow_def)
  have "is_ok (running_totals sells [0..<length c])" "is_ok (running_totals buys (rev [0..<length c]))"
    using buckets_sum_total [OF c_def grow(1), of "rev [0..<length c]"]
      buckets_sum_total [OF c_def grow(2), of "[0..<length c]"] tot len
    by (auto intro!: running_totals_is_ok simp: atLeast0LessThan)
  then obtain sup_v dem where "running_totals sells [0..<length c] = Ok sup_v"
    "running_totals buys (rev [0..<length c]) = Ok dem"
    by (auto simp: is_ok_iff)
  with False buckets show ?thesis
    by (simp add: compute_volume_maximizers_from_orders_def c_def [symmetric] z_def [symmetric] split_def Let_def)
qed

section \<open>The clearing price maximises the volume\<close>

lemma max_executable_foldl:
  "foldl (\<lambda>m e. if m < eval_volume e then eval_volume e else m) m evs = Max (set (m # map eval_volume evs))"
proof (induction evs arbitrary: m)
  case (Cons e evs)
  have eq: "(if m < eval_volume e then eval_volume e else m) = max m (eval_volume e)"
    by (auto simp: max_def dest: less_imp_le)
  show ?case unfolding foldl_Cons eq Cons.IH by (cases evs) (simp_all add: max.assoc)
qed simp

lemma max_executable_ge: "e \<in> set evs \<Longrightarrow> eval_volume e \<le> max_executable evs"
  by (simp add: max_executable_def max_executable_foldl)

lemma max_executable_attained: "max_executable evs \<noteq> 0 \<Longrightarrow> \<exists>e\<in>set evs. eval_volume e = max_executable evs"
  using Max_in [of "set (0 # map eval_volume evs)"]
  by (auto simp: max_executable_def max_executable_foldl simp del: Max_insert)

lemma crossed_fits: "totals_fit orders \<Longrightarrow> crossed orders p < 2 ^ 64"
  using demand_at_le_total [of orders p] by (simp add: crossed_def totals_fit_def min_def)

lemma eval_volume_reference:
  "totals_fit orders \<Longrightarrow> unat (eval_volume (reference_evaluation orders p)) = crossed orders p"
  using crossed_fits [of orders p] by (simp add: reference_evaluation_def unsigned_of_nat take_bit_nat_eq_self)

text \<open>Between two limit prices neither curve moves, so some limit price is as good as any price.\<close>

lemma crossed_le_candidate:
  assumes "0 < crossed orders p"
  shows "\<exists>q \<in> ord_price ` set orders. crossed orders p \<le> crossed orders q"
proof -
  define A where "A = {q \<in> ord_price ` set orders. p \<le> q}"
  have "\<exists>o1 \<in> set orders. ord_side o1 = Buy \<and> p \<le> ord_price o1"
  proof (rule ccontr)
    assume "\<not> ?thesis"
    then have "demand_at orders p = 0" by (auto simp: demand_at_def sum_list_eq_0_iff)
    with assms show False by (simp add: crossed_def)
  qed
  then have A: "finite A" "A \<noteq> {}" by (auto simp: A_def)
  define q where "q = Min A"
  have q: "q \<in> A" "\<And>x. x \<in> A \<Longrightarrow> q \<le> x" using A by (simp_all add: q_def)
  have "demand_at orders p = demand_at orders q"
    unfolding demand_at_def using q(1) q(2)
    by (intro arg_cong [where f = sum_list] map_cong) (auto simp: A_def dest: order_trans)
  moreover have "supply_at orders p \<le> supply_at orders q"
    using q(1) by (auto simp: A_def intro: supply_at_mono)
  ultimately have "crossed orders p \<le> crossed orders q" by (simp add: crossed_def min_le_iff_disj)
  then show ?thesis using q(1) by (auto simp: A_def)
qed

lemma crossed_le_max:
  assumes "totals_fit orders"
  shows "crossed orders p \<le> unat (vm_max_volume (reference_maximizers orders))"
proof (cases "crossed orders p = 0")
  case False
  then obtain q where q: "q \<in> ord_price ` set orders" "crossed orders p \<le> crossed orders q"
    using crossed_le_candidate [of orders p] by auto
  have "eval_volume (reference_evaluation orders q) \<le> vm_max_volume (reference_maximizers orders)"
    using q(1) by (simp add: reference_maximizers_def Let_def max_executable_ge)
  with q(2) show ?thesis
    using eval_volume_reference [OF assms, of q] by (simp add: word_le_nat_alt)
qed simp

lemma maximizing_prices:
  "vm_prices (reference_maximizers orders) =
     filter (\<lambda>p. eval_volume (reference_evaluation orders p) = vm_max_volume (reference_maximizers orders))
       (candidate_prices_from_orders orders)"
proof -
  have "map eval_price (filter P (map (reference_evaluation orders) cs)) =
      filter (\<lambda>p. P (reference_evaluation orders p)) cs" for P cs
    by (induction cs) (simp_all add: reference_evaluation_def)
  then show ?thesis by (simp add: reference_maximizers_def Let_def)
qed

lemma maximizing_price_crossed:
  assumes "totals_fit orders" "p \<in> set (vm_prices (reference_maximizers orders))"
  shows "crossed orders p = unat (vm_max_volume (reference_maximizers orders))"
  using assms eval_volume_reference [OF assms(1), of p] by (simp add: maximizing_prices)

lemma midpoint_between:
  fixes a b :: u64
  assumes "a \<le> b"
  shows "a \<le> a + (b - a) div 2" "a + (b - a) div 2 \<le> b"
proof -
  let ?h = "(b - a) div 2"
  have h: "unat ?h = (unat b - unat a) div 2" using assms by (simp add: unat_div word_nat)
  have le: "unat a \<le> unat b" using assms by (simp add: word_nat)
  then have sum: "unat a + unat ?h \<le> unat b" unfolding h by linarith
  then have "unat (a + ?h) = unat a + unat ?h"
    using unat_less_pow [of b] by (intro unat_add_fits) linarith
  then show "a \<le> a + ?h" "a + ?h \<le> b" using sum by (simp_all add: word_nat)
qed

section \<open>Correctness of the auction\<close>

lemma wf_batch_sides_valid: "wf_batch b \<Longrightarrow> sides_valid (bat_orders b)"
  by (auto simp: wf_batch_def sides_valid_def wf_order_def list_all_iff)

lemma outcome_reference:
  assumes "wf_batch b" "determine_clearing_outcome b = Ok out"
  shows "totals_fit (bat_orders b)
    \<and> out_volume out = vm_max_volume (reference_maximizers (bat_orders b))
    \<and> out_price out = resolve_clearing_price_tie (reference_maximizers (bat_orders b))"
  using assms compute_Ok_eq [OF wf_batch_sides_valid]
  by (auto simp: determine_clearing_outcome_def result_simps)

lemma hd_le_last: "sorted_wrt (<) xs \<Longrightarrow> xs \<noteq> [] \<Longrightarrow> hd xs \<le> last xs" for xs :: "'a::linorder list"
  by (cases xs) (auto dest!: bspec [OF _ last_in_set] intro: less_imp_le)

lemma maximizing_prices_nonempty:
  assumes "vm_max_volume (reference_maximizers orders) \<noteq> 0"
  shows "vm_prices (reference_maximizers orders) \<noteq> []"
  using assms max_executable_attained
  by (fastforce simp: reference_maximizers_def Let_def filter_empty_conv)

lemma resolve_between:
  assumes "list_all (\<lambda>o1. ord_price o1 \<noteq> 0) orders"
    and "vm_max_volume (reference_maximizers orders) \<noteq> 0"
  obtains p lo hi where "resolve_clearing_price_tie (reference_maximizers orders) = Some p"
    and "lo \<in> set (vm_prices (reference_maximizers orders))"
    and "hi \<in> set (vm_prices (reference_maximizers orders))"
    and "lo \<le> p" "p \<le> hi" "p \<noteq> 0"
proof -
  let ?ps = "vm_prices (reference_maximizers orders)"
  define lo hi where "lo = hd ?ps" and "hi = last ?ps"
  have ne: "?ps \<noteq> []" by (rule maximizing_prices_nonempty [OF assms(2)])
  then have mem: "lo \<in> set ?ps" "hi \<in> set ?ps" by (simp_all add: lo_def hi_def)
  have "sorted_wrt (<) ?ps"
    using candidates_ascending [of orders] by (simp add: maximizing_prices sorted_wrt_filter)
  then have "lo \<le> hi" unfolding lo_def hi_def using ne by (rule hd_le_last)
  note mid = midpoint_between [OF this]
  have "lo \<noteq> 0" using mem(1) assms(1) by (auto simp: maximizing_prices list_all_iff)
  with mid have "lo + (hi - lo) div 2 \<noteq> 0" by auto
  with ne assms(2) have "resolve_clearing_price_tie (reference_maximizers orders) = Some (lo + (hi - lo) div 2)"
    by (simp add: resolve_clearing_price_tie_def price_create_def lo_def hi_def Let_def)
  with mem mid \<open>lo + (hi - lo) div 2 \<noteq> 0\<close> show thesis by (intro that) auto
qed

lemma wf_batch_prices: "wf_batch b \<Longrightarrow> list_all (\<lambda>o1. ord_price o1 \<noteq> 0) (bat_orders b)"
  by (auto simp: wf_batch_def wf_order_def list_all_iff)

lemma crossed_between:
  assumes "totals_fit orders" "lo \<le> p" "p \<le> hi"
    and "lo \<in> set (vm_prices (reference_maximizers orders))"
    and "hi \<in> set (vm_prices (reference_maximizers orders))"
  shows "crossed orders p = unat (vm_max_volume (reference_maximizers orders))"
proof (rule antisym)
  show "crossed orders p \<le> unat (vm_max_volume (reference_maximizers orders))"
    by (rule crossed_le_max [OF assms(1)])
  show "unat (vm_max_volume (reference_maximizers orders)) \<le> crossed orders p"
    using maximizing_price_crossed [OF assms(1,4)] maximizing_price_crossed [OF assms(1,5)]
      demand_at_antimono [OF assms(3), of orders] supply_at_mono [OF assms(2), of orders]
    by (auto simp: crossed_def min_def split: if_splits)
qed

lemma resolve_zero: "vm_max_volume vm = 0 \<Longrightarrow> resolve_clearing_price_tie vm = None"
  by (simp add: resolve_clearing_price_tie_def)

text \<open>The one-pass evaluation agrees, candidate by candidate, with the direct routines
  \<open>demand_from_orders\<close> and \<open>supply_from_orders\<close>, and reports the smaller of the two as volume.\<close>

theorem one_pass_evaluations_correct:
  assumes "sides_valid orders" and "compute_volume_maximizers_from_orders orders = Ok vm"
  shows "map eval_price (vm_evaluations vm) = candidate_prices_from_orders orders
    \<and> list_all (\<lambda>e. demand_from_orders orders (eval_price e) = Ok (eval_demand e)
          \<and> supply_from_orders orders (eval_price e) = Ok (eval_supply e)
          \<and> eval_volume e = min (eval_demand e) (eval_supply e)) (vm_evaluations vm)"
proof -
  have vm: "vm = reference_maximizers orders" and fit: "totals_fit orders"
    using compute_Ok_eq [OF assms] by simp_all
  have "demand_at orders p < 2 ^ 64" "supply_at orders p < 2 ^ 64" for p
    using fit demand_at_le_total [of orders p] supply_at_le_total [of orders p]
    by (auto simp: totals_fit_def)
  then show ?thesis
    by (auto simp: vm reference_maximizers_def reference_evaluation_def Let_def list_all_iff comp_def
        demand_from_orders_Ok_iff supply_from_orders_Ok_iff crossed_def unsigned_of_nat
        take_bit_nat_eq_self min_def word_le_nat_alt)
qed

definition sample_orders :: "order list" where
  "sample_orders =
     [\<lparr>ord_id = 1, ord_account = 10, ord_instrument = 7, ord_side = Buy, ord_price = 105, ord_qty = 5, ord_seq = 0\<rparr>,
      \<lparr>ord_id = 2, ord_account = 11, ord_instrument = 7, ord_side = Sell, ord_price = 101, ord_qty = 3, ord_seq = 1\<rparr>]"

definition sample_batch :: batch where
  "sample_batch = \<lparr>bat_id = 1, bat_instrument = 7, bat_orders = sample_orders\<rparr>"

lemmas sample_simps = sample_orders_def sample_batch_def Buy_def Sell_def is_buy_def is_sell_def

theorem one_pass_evaluations_correct_witness:
  "list_all (\<lambda>e. demand_from_orders sample_orders (eval_price e) = Ok (eval_demand e))
     (vm_evaluations (the_value (compute_volume_maximizers_from_orders sample_orders)))"
proof -
  have "sides_valid sample_orders" by code_simp
  moreover have "compute_volume_maximizers_from_orders sample_orders
      = Ok (the_value (compute_volume_maximizers_from_orders sample_orders))" by code_simp
  ultimately show ?thesis using one_pass_evaluations_correct by (simp add: list_all_iff)
qed

text \<open>The routine overflows exactly when the quantity on one side does not fit in 64 bits.\<close>

theorem volume_maximizers_total:
  assumes "sides_valid orders"
  shows "is_ok (compute_volume_maximizers_from_orders orders)
    \<longleftrightarrow> total_side Buy orders < 2 ^ 64 \<and> total_side Sell orders < 2 ^ 64"
  using compute_is_ok [OF assms] compute_Ok_eq [OF assms] by (auto simp: is_ok_iff totals_fit_def)

theorem volume_maximizers_total_witness:
  "is_ok (compute_volume_maximizers_from_orders sample_orders)"
proof -
  have "sides_valid sample_orders" by code_simp
  from volume_maximizers_total [OF this] show ?thesis by (simp add: total_side_def sample_simps)
qed

text \<open>C1: at the clearing price the executable volume of the outcome crosses, and at no price
  whatsoever (candidate or not) would more cross; the price is never zero and both curves allow
  the volume.\<close>

theorem clearing_price_maximises_volume:
  assumes "wf_batch b" and "determine_clearing_outcome b = Ok out" and "out_price out = Some p"
  shows "p \<noteq> 0 \<and> crossed (bat_orders b) p = unat (out_volume out)
    \<and> (\<forall>p'. crossed (bat_orders b) p' \<le> crossed (bat_orders b) p)"
proof -
  let ?o = "bat_orders b"
  have fit: "totals_fit ?o" and vol: "out_volume out = vm_max_volume (reference_maximizers ?o)"
    and price: "out_price out = resolve_clearing_price_tie (reference_maximizers ?o)"
    using outcome_reference [OF assms(1,2)] by simp_all
  have "vm_max_volume (reference_maximizers ?o) \<noteq> 0" using assms(3) price resolve_zero by fastforce
  from resolve_between [OF wf_batch_prices [OF assms(1)] this]
  obtain q lo hi where q: "resolve_clearing_price_tie (reference_maximizers ?o) = Some q"
    "lo \<in> set (vm_prices (reference_maximizers ?o))" "hi \<in> set (vm_prices (reference_maximizers ?o))"
    "lo \<le> q" "q \<le> hi" "q \<noteq> 0" by blast
  have "crossed ?o p = unat (vm_max_volume (reference_maximizers ?o))"
    using crossed_between [OF fit q(4,5,2,3)] q(1) price assms(3) by simp
  then show ?thesis using crossed_le_max [OF fit] vol q(1,6) price assms(3) by simp
qed

theorem clearing_price_maximises_volume_witness:
  "crossed sample_orders 103 = 3 \<and> (\<forall>p'. crossed sample_orders p' \<le> crossed sample_orders 103)"
proof -
  have "wf_batch sample_batch" by code_simp
  moreover have "determine_clearing_outcome sample_batch = Ok \<lparr>out_price = Some 103, out_volume = 3\<rparr>"
    by code_simp
  ultimately show ?thesis using clearing_price_maximises_volume [of sample_batch]
    by (fastforce simp: sample_batch_def)
qed

text \<open>There is a clearing price exactly when some volume crosses, and the outcome reports no
  volume exactly when no price would cross any.\<close>

theorem clearing_price_exists_iff:
  assumes "wf_batch b" and "determine_clearing_outcome b = Ok out"
  shows "(out_price out = None \<longleftrightarrow> out_volume out = 0)
    \<and> (out_volume out = 0 \<longleftrightarrow> (\<forall>p. crossed (bat_orders b) p = 0))"
proof -
  let ?o = "bat_orders b"
  have fit: "totals_fit ?o" and vol: "out_volume out = vm_max_volume (reference_maximizers ?o)"
    and price: "out_price out = resolve_clearing_price_tie (reference_maximizers ?o)"
    using outcome_reference [OF assms] by simp_all
  show ?thesis
  proof (cases "vm_max_volume (reference_maximizers ?o) = 0")
    case True
    then show ?thesis using crossed_le_max [OF fit] resolve_zero [OF True] vol price by simp
  next
    case False
    from resolve_between [OF wf_batch_prices [OF assms(1)] False]
    obtain q lo hi where "resolve_clearing_price_tie (reference_maximizers ?o) = Some q"
      "lo \<in> set (vm_prices (reference_maximizers ?o))" by blast
    moreover from this maximizing_price_crossed [OF fit] have "crossed ?o lo \<noteq> 0"
      using False by (simp add: unat_eq_0)
    ultimately show ?thesis using False vol price by auto
  qed
qed

theorem clearing_price_exists_iff_witness: "\<exists>p. crossed sample_orders p \<noteq> 0"
proof -
  have "wf_batch sample_batch" by code_simp
  moreover have "determine_clearing_outcome sample_batch = Ok \<lparr>out_price = Some 103, out_volume = 3\<rparr>"
    by code_simp
  ultimately show ?thesis
    using clearing_price_exists_iff [of sample_batch] by (fastforce simp: sample_batch_def)
qed

end
