(* ===== verification/Ordered_Map.thy ===== *)
theory Ordered_Map
  imports Prelude
begin

text \<open>
  \<open>std::map\<close>: a finite map whose iteration order is the order of the keys.  The source keeps its
  ledgers, inventories, order-book levels and look-up tables in it, and relies on the iteration
  order for commitments and totals.  A value of the type is the list of its entries in strictly
  ascending key order, so two maps are equal exactly when they have the same entries, as
  \<open>operator==\<close> says.  The locale \<open>ordered_map\<close> states what clients rely on; its interpretation
  on the model comes with the derived facts on totals over all entries.
\<close>

section \<open>Entries in ascending key order\<close>

fun ins_entry :: "'k::linorder \<Rightarrow> 'v \<Rightarrow> ('k \<times> 'v) list \<Rightarrow> ('k \<times> 'v) list" where
  "ins_entry k v [] = [(k, v)]"
| "ins_entry k v (e # es) =
     (if fst e < k then e # ins_entry k v es
      else if fst e = k then (k, v) # es
      else (k, v) # e # es)"

definition del_entry :: "'k::linorder \<Rightarrow> ('k \<times> 'v) list \<Rightarrow> ('k \<times> 'v) list" where
  "del_entry k es = filter (\<lambda>e. fst e \<noteq> k) es"

abbreviation ascending :: "('k::linorder \<times> 'v) list \<Rightarrow> bool" where
  "ascending es \<equiv> sorted_wrt (<) (map fst es)"

lemma fst_set_ins_entry: "fst ` set (ins_entry k v es) = insert k (fst ` set es)"
  by (induction es) auto

lemma ascending_ins_entry: "ascending es \<Longrightarrow> ascending (ins_entry k v es)"
proof (induction es)
  case Nil
  then show ?case by simp
next
  case (Cons e es)
  then have IH: "ascending (ins_entry k v es)" by simp
  consider "fst e < k" | "fst e = k" | "k < fst e" by fastforce
  then show ?case
  proof cases
    case 1
    with Cons.prems IH show ?thesis
      using fst_set_ins_entry [of k v es] by (auto simp flip: image_iff)
  next
    case 2
    with Cons.prems show ?thesis by auto
  next
    case 3
    with Cons.prems show ?thesis by (auto dest: less_trans)
  qed
qed

lemma ascending_del_entry: "ascending es \<Longrightarrow> ascending (del_entry k es)"
  by (simp add: del_entry_def sorted_wrt_map sorted_wrt_filter)

lemma ascending_distinct: "ascending es \<Longrightarrow> distinct (map fst es)"
  by (simp add: strict_sorted_iff)

lemma map_of_ins_entry:
  "ascending es \<Longrightarrow> map_of (ins_entry k v es) = (map_of es)(k \<mapsto> v)"
  by (induction es) (auto simp: fun_eq_iff map_of_eq_None_iff dest: not_less_iff_gr_or_eq [THEN iffD1])

lemma map_of_del_entry: "map_of (del_entry k es) = (map_of es)(k := None)"
  by (induction es) (auto simp: fun_eq_iff del_entry_def)

section \<open>The type\<close>

typedef (overloaded) ('k::linorder, 'v) omap = "{es :: ('k \<times> 'v) list. ascending es}"
  morphisms om_entries Abs_omap
  by (rule exI [where x = "[]"]) simp

setup_lifting type_definition_omap

lift_definition om_empty :: "('k::linorder, 'v) omap" is "[]"
  by simp

lift_definition om_find :: "('k::linorder, 'v) omap \<Rightarrow> 'k \<Rightarrow> 'v option" is map_of .

text \<open>\<open>m[k] = v\<close> and \<open>insert_or_assign\<close>.\<close>

lift_definition om_assign :: "'k::linorder \<Rightarrow> 'v \<Rightarrow> ('k, 'v) omap \<Rightarrow> ('k, 'v) omap" is ins_entry
  by (rule ascending_ins_entry)

lift_definition om_erase :: "'k::linorder \<Rightarrow> ('k, 'v) omap \<Rightarrow> ('k, 'v) omap" is del_entry
  by (rule ascending_del_entry)

text \<open>Update of every mapped value, the keys kept (a loop over \<open>auto& [k, v]\<close>).\<close>

lift_definition om_map :: "('k::linorder \<Rightarrow> 'v \<Rightarrow> 'w) \<Rightarrow> ('k, 'v) omap \<Rightarrow> ('k, 'w) omap"
  is "\<lambda>f. map (\<lambda>(k, v). (k, f k v))"
  by (simp add: comp_def case_prod_unfold)

text \<open>\<open>emplace\<close> keeps an entry that is already there.\<close>

definition om_emplace :: "'k::linorder \<Rightarrow> 'v \<Rightarrow> ('k, 'v) omap \<Rightarrow> ('k, 'v) omap" where
  "om_emplace k v m = (case om_find m k of None \<Rightarrow> om_assign k v m | Some _ \<Rightarrow> m)"

definition om_size :: "('k::linorder, 'v) omap \<Rightarrow> nat" where
  "om_size m = length (om_entries m)"

definition om_is_empty :: "('k::linorder, 'v) omap \<Rightarrow> bool" where
  "om_is_empty m = (om_entries m = [])"

definition om_keys :: "('k::linorder, 'v) omap \<Rightarrow> 'k list" where
  "om_keys m = map fst (om_entries m)"

definition om_values :: "('k::linorder, 'v) omap \<Rightarrow> 'v list" where
  "om_values m = map snd (om_entries m)"

lemma om_entries_empty [simp, code abstract]: "om_entries om_empty = []"
  by (rule om_empty.rep_eq)

lemma om_entries_assign [simp]: "om_entries (om_assign k v m) = ins_entry k v (om_entries m)"
  by (rule om_assign.rep_eq)

lemma om_entries_erase [simp]: "om_entries (om_erase k m) = del_entry k (om_entries m)"
  by (rule om_erase.rep_eq)

lemma ascending_om_entries [simp]: "ascending (om_entries m)"
  using om_entries [of m] by simp

lemma om_find_entries: "om_find m = map_of (om_entries m)"
  by (rule om_find.rep_eq)

lemma om_find_empty [simp]: "om_find om_empty k = None"
  by transfer simp

lemma om_find_assign [simp]: "om_find (om_assign k v m) k' = (if k' = k then Some v else om_find m k')"
  by transfer (simp add: map_of_ins_entry)

lemma om_find_erase [simp]: "om_find (om_erase k m) k' = (if k' = k then None else om_find m k')"
  by transfer (simp add: map_of_del_entry)

lemma omap_eqI: "(\<And>k. om_find a k = om_find b k) \<Longrightarrow> a = b"
proof transfer
  fix a b :: "('k::linorder \<times> 'v) list"
  assume asc: "ascending a" "ascending b" and eq: "\<And>k. map_of a k = map_of b k"
  have "set a = set b"
    using eq asc [THEN ascending_distinct]
    by (metis (no_types, opaque_lifting) map_of_eq_Some_iff subrelI subset_antisym)
  moreover have "inj_on fst (set a \<union> set b)"
    using asc [THEN ascending_distinct] calculation by (simp add: distinct_map)
  ultimately show "a = b"
    using asc by (metis map_sorted_distinct_set_unique strict_sorted_iff)
qed

instantiation omap :: (linorder, equal) equal
begin

definition equal_omap :: "('a, 'b) omap \<Rightarrow> ('a, 'b) omap \<Rightarrow> bool" where
  "equal_omap a b \<longleftrightarrow> om_entries a = om_entries b"

instance
  by standard (simp add: equal_omap_def om_entries_inject)

end

lemma om_entries_map [simp]: "om_entries (om_map f m) = map (\<lambda>(k, v). (k, f k v)) (om_entries m)"
  by (rule om_map.rep_eq)

lemma om_find_map [simp]: "om_find (om_map f m) k = map_option (f k) (om_find m k)"
proof -
  have "map_of (map (\<lambda>(k, v). (k, f k v)) es) k = map_option (f k) (map_of es k)" for es
    by (induction es) auto
  then show ?thesis by (simp add: om_find_entries)
qed

section \<open>The interface clients rely on\<close>

locale ordered_map =
  fixes empty :: "'m"
    and find :: "'m \<Rightarrow> 'k::linorder \<Rightarrow> 'v option"
    and assign :: "'k \<Rightarrow> 'v \<Rightarrow> 'm \<Rightarrow> 'm"
    and erase :: "'k \<Rightarrow> 'm \<Rightarrow> 'm"
    and entries :: "'m \<Rightarrow> ('k \<times> 'v) list"
  assumes find_empty: "find empty k = None"
    and find_assign: "find (assign k v m) k' = (if k' = k then Some v else find m k')"
    and find_erase: "find (erase k m) k' = (if k' = k then None else find m k')"
    and entries_ascending: "ascending (entries m)"
    and entries_lookup: "map_of (entries m) = find m"
begin

lemma entries_distinct: "distinct (map fst (entries m))"
  by (rule ascending_distinct [OF entries_ascending])

lemma mem_entries: "(k, v) \<in> set (entries m) \<longleftrightarrow> find m k = Some v"
  using entries_distinct by (metis entries_lookup map_of_eq_Some_iff)

lemma keys_dom: "set (map fst (entries m)) = dom (find m)"
  by (metis dom_map_of_conv_image_fst entries_lookup list.set_map)

lemma finite_keys: "finite (dom (find m))"
  using keys_dom [of m] by (metis List.finite_set)

text \<open>A loop that adds something up over all entries is a sum over the keys.\<close>

lemma total_sum:
  "sum_list (map (\<lambda>(k, v). f k v) (entries m)) = (\<Sum>k\<in>dom (find m). f k (the (find m k)))"
  for f :: "'k \<Rightarrow> 'v \<Rightarrow> 'c::comm_monoid_add"
proof -
  have "sum_list (map (\<lambda>(k, v). f k v) (entries m))
      = sum_list (map (\<lambda>k. f k (the (find m k))) (map fst (entries m)))"
    by (auto simp: mem_entries comp_def intro!: arg_cong [where f = sum_list])
  also have "\<dots> = (\<Sum>k\<in>set (map fst (entries m)). f k (the (find m k)))"
    by (rule sum_list_distinct_conv_sum_set [OF entries_distinct])
  finally show ?thesis by (simp only: keys_dom)
qed

lemma total_assign:
  "sum_list (map (\<lambda>(k, v). f k v) (entries (assign k v m)))
     + (case find m k of None \<Rightarrow> 0 | Some w \<Rightarrow> f k w)
   = sum_list (map (\<lambda>(k, v). f k v) (entries m)) + f k v"
  for f :: "'k \<Rightarrow> 'v \<Rightarrow> 'c::comm_monoid_add"
proof -
  let ?D = "dom (find m) - {k}"
  have rest: "(\<Sum>x\<in>?D. f x (the (find (assign k v m) x))) = (\<Sum>x\<in>?D. f x (the (find m x)))"
    by (rule sum.cong) (auto simp: find_assign)
  have dom: "dom (find (assign k v m)) = insert k ?D"
    by (auto simp: find_assign dom_def split: if_splits)
  have new: "(\<Sum>x\<in>dom (find (assign k v m)). f x (the (find (assign k v m) x)))
      = f k v + (\<Sum>x\<in>?D. f x (the (find m x)))"
    by (subst dom, subst sum.insert) (auto simp: rest finite_keys, simp add: find_assign)
  show ?thesis
  proof (cases "find m k")
    case None
    then have "?D = dom (find m)" by auto
    with None new show ?thesis by (simp add: total_sum add.commute)
  next
    case (Some w)
    then have "(\<Sum>x\<in>dom (find m). f x (the (find m x))) = f k w + (\<Sum>x\<in>?D. f x (the (find m x)))"
      using sum.remove [of "dom (find m)" k "\<lambda>x. f x (the (find m x))"]
      by (simp add: finite_keys domI)
    with Some new show ?thesis by (simp add: total_sum ac_simps)
  qed
qed

lemma total_erase:
  "sum_list (map (\<lambda>(k, v). f k v) (entries (erase k m)))
     + (case find m k of None \<Rightarrow> 0 | Some w \<Rightarrow> f k w)
   = sum_list (map (\<lambda>(k, v). f k v) (entries m))"
  for f :: "'k \<Rightarrow> 'v \<Rightarrow> 'c::comm_monoid_add"
proof -
  let ?D = "dom (find m) - {k}"
  have dom: "dom (find (erase k m)) = ?D"
    by (auto simp: find_erase dom_def split: if_splits)
  have rest: "(\<Sum>x\<in>?D. f x (the (find (erase k m) x))) = (\<Sum>x\<in>?D. f x (the (find m x)))"
    by (rule sum.cong) (auto simp: find_erase)
  show ?thesis
  proof (cases "find m k")
    case None
    then have "?D = dom (find m)" by auto
    with None rest show ?thesis by (simp add: total_sum dom)
  next
    case (Some w)
    then have "(\<Sum>x\<in>dom (find m). f x (the (find m x))) = f k w + (\<Sum>x\<in>?D. f x (the (find m x)))"
      using sum.remove [of "dom (find m)" k "\<lambda>x. f x (the (find m x))"]
      by (simp add: finite_keys domI)
    with Some rest show ?thesis by (simp add: total_sum dom add.commute)
  qed
qed

lemma first_key: "entries m \<noteq> [] \<Longrightarrow> fst (hd (entries m)) = Min (dom (find m))"
  using entries_ascending [of m]
  by (cases "entries m") (auto simp flip: keys_dom intro!: Min_eqI [symmetric] dest: less_imp_le)

lemma last_key: "entries m \<noteq> [] \<Longrightarrow> fst (last (entries m)) = Max (dom (find m))"
  using entries_ascending [of m]
  by (cases "entries m" rule: rev_cases)
     (auto simp: sorted_wrt_append simp flip: keys_dom intro!: Max_eqI [symmetric] dest: less_imp_le)

end

interpretation om: ordered_map om_empty om_find om_assign om_erase om_entries
  by unfold_locales (auto simp flip: om_find_entries)

end
