(* ===== verification/Allocation.thy ===== *)
theory Allocation
  imports Auction Ordered_Map
begin

text \<open>
  \<open>engine/partition.hpp\<close>, \<open>engine/allocation.hpp\<close>, \<open>allocation.cpp\<close>, \<open>engine/fill.hpp\<close> and
  \<open>fill.cpp\<close>: the split of a side by moneyness, price-time priority inside the money, pro-rata
  allocation with largest remainders at the money, the merge of both sides, and the canonical
  fills.  Unchecked machine arithmetic of the source (\<open>base_sum\<close>, \<open>surplus\<close>, \<open>rem_target\<close>,
  \<open>buy_sum\<close>) wraps in the model as it does there; the lemmas show when it does not.
\<close>

datatype order_moneyness = InTheMoney | AtTheMoney | OutOfTheMoney

definition classify_order :: "order \<Rightarrow> price \<Rightarrow> order_moneyness" where
  "classify_order o1 cp =
     (if ord_side o1 = Buy then
        if cp < ord_price o1 then InTheMoney
        else if ord_price o1 = cp then AtTheMoney else OutOfTheMoney
      else
        if ord_price o1 < cp then InTheMoney
        else if ord_price o1 = cp then AtTheMoney else OutOfTheMoney)"

record order_allocation =
  al_order_id :: order_id
  al_account :: account_id
  al_side :: side
  al_limit_price :: price
  al_original_qty :: qty
  al_allocated_qty :: qty
  al_seq :: u64

record batch_allocation =
  ba_clearing_price :: "price option"
  ba_target_volume :: qty
  ba_total_buy :: qty
  ba_total_sell :: qty
  ba_allocations :: "order_allocation list"

record atm_candidate =
  atm_order :: order
  atm_base_fill :: u64
  atm_remainder :: u64

definition allocation_of :: "order \<Rightarrow> qty \<Rightarrow> order_allocation" where
  "allocation_of o1 q =
     \<lparr>al_order_id = ord_id o1, al_account = ord_account o1, al_side = ord_side o1,
      al_limit_price = ord_price o1, al_original_qty = ord_qty o1, al_allocated_qty = q,
      al_seq = ord_seq o1\<rparr>"

text \<open>The partition loop: in-, at- and out-of-the-money orders and the first two totals.\<close>

type_synonym moneyness_split = "order list \<times> order list \<times> order list \<times> qty \<times> qty"

definition partition_step :: "price \<Rightarrow> side \<Rightarrow> moneyness_split \<Rightarrow> order \<Rightarrow> moneyness_split result" where
  "partition_step cp ts = (\<lambda>(itm, atm, otm, q_itm, q_atm) o1.
     if ord_side o1 \<noteq> ts then Ok (itm, atm, otm, q_itm, q_atm)
     else case classify_order o1 cp of
       InTheMoney \<Rightarrow> and_then_conv (qty_checked_add q_itm (ord_qty o1))
         (\<lambda>q. Ok (itm @ [o1], atm, otm, q, q_atm))
     | AtTheMoney \<Rightarrow> and_then_conv (qty_checked_add q_atm (ord_qty o1))
         (\<lambda>q. Ok (itm, atm @ [o1], otm, q_itm, q))
     | OutOfTheMoney \<Rightarrow> Ok (itm, atm, otm @ [o1], q_itm, q_atm))"

definition itm_before :: "side \<Rightarrow> order \<Rightarrow> order \<Rightarrow> bool" where
  "itm_before ts a b =
     (if ts = Buy then
        if ord_price a \<noteq> ord_price b then ord_price b < ord_price a else ord_seq a < ord_seq b
      else
        if ord_price a \<noteq> ord_price b then ord_price a < ord_price b else ord_seq a < ord_seq b)"

type_synonym fill_map = "(u64, u64) omap"

definition greedy_step :: "u64 \<times> fill_map \<Rightarrow> order \<Rightarrow> u64 \<times> fill_map" where
  "greedy_step = (\<lambda>(rem_target, fills) o1.
     let fill = min (ord_qty o1) rem_target
     in (rem_target - fill, om_assign (ord_id o1) fill fills))"

definition fill_in_full :: "order list \<Rightarrow> fill_map" where
  "fill_in_full orders = foldl (\<lambda>m o1. om_assign (ord_id o1) (ord_qty o1) m) om_empty orders"

text \<open>In the money: the fills and what is left for the orders at the money.\<close>

definition allocate_itm :: "side \<Rightarrow> qty \<Rightarrow> qty \<Rightarrow> order list \<Rightarrow> fill_map \<times> u64" where
  "allocate_itm ts target q_itm itm =
     (if target \<le> q_itm
      then (snd (foldl greedy_step (target, om_empty) (std_sort (itm_before ts) itm)), 0)
      else (fill_in_full itm, target - q_itm))"

definition base_candidate :: "u64 \<Rightarrow> qty \<Rightarrow> order \<Rightarrow> atm_candidate" where
  "base_candidate v_rem q_atm o1 =
     (let num = ucast (ord_qty o1) * ucast v_rem :: u128; total = ucast q_atm :: u128 in
      \<lparr>atm_order = o1, atm_base_fill = ucast (num div total), atm_remainder = ucast (num mod total)\<rparr>)"

definition remainder_before :: "atm_candidate \<Rightarrow> atm_candidate \<Rightarrow> bool" where
  "remainder_before a b =
     (if atm_remainder a \<noteq> atm_remainder b then atm_remainder b < atm_remainder a
      else if ord_seq (atm_order a) \<noteq> ord_seq (atm_order b)
      then ord_seq (atm_order a) < ord_seq (atm_order b)
      else ord_id (atm_order a) < ord_id (atm_order b))"

definition surplus_step :: "u64 \<times> fill_map \<Rightarrow> atm_candidate \<Rightarrow> u64 \<times> fill_map" where
  "surplus_step = (\<lambda>(surplus, fills) c.
     let (surplus', extra) = (if 0 < surplus then (surplus - 1, 1) else (surplus, 0));
         total_fill = min (atm_base_fill c + extra) (ord_qty (atm_order c))
     in (surplus', om_assign (ord_id (atm_order c)) total_fill fills))"

definition allocate_pro_rata :: "u64 \<Rightarrow> qty \<Rightarrow> order list \<Rightarrow> fill_map" where
  "allocate_pro_rata v_rem q_atm atm =
     (let candidates = map (base_candidate v_rem q_atm) atm;
          base_sum = foldl (\<lambda>s c. s + atm_base_fill c) 0 candidates;
          surplus = v_rem - base_sum
      in snd (foldl surplus_step (surplus, om_empty) (std_sort remainder_before candidates)))"

definition allocate_atm :: "u64 \<Rightarrow> qty \<Rightarrow> order list \<Rightarrow> fill_map" where
  "allocate_atm v_rem q_atm atm =
     (if 0 < v_rem \<and> atm \<noteq> []
      then if q_atm \<le> v_rem then fill_in_full atm else allocate_pro_rata v_rem q_atm atm
      else om_empty)"

definition lookup_fill :: "fill_map \<Rightarrow> order \<Rightarrow> u64" where
  "lookup_fill m o1 = (case om_find m (ord_id o1) of Some f \<Rightarrow> f | None \<Rightarrow> 0)"

definition final_fill :: "price \<Rightarrow> fill_map \<Rightarrow> fill_map \<Rightarrow> order \<Rightarrow> u64" where
  "final_fill cp itm_fills atm_fills o1 =
     (case classify_order o1 cp of
        InTheMoney \<Rightarrow> lookup_fill itm_fills o1
      | AtTheMoney \<Rightarrow> lookup_fill atm_fills o1
      | OutOfTheMoney \<Rightarrow> 0)"

definition allocate_side :: "order list \<Rightarrow> price \<Rightarrow> qty \<Rightarrow> side \<Rightarrow> order_allocation list result" where
  "allocate_side orders cp target ts =
     (if target = 0
      then Ok (map (\<lambda>o1. allocation_of o1 0) (filter (\<lambda>o1. ord_side o1 = ts) orders))
      else
        and_then_conv (loop_result (partition_step cp ts) ([], [], [], 0, 0) orders)
          (\<lambda>(itm, atm, otm, q_itm, q_atm).
             let (itm_fills, v_rem) = allocate_itm ts target q_itm itm;
                 atm_fills = allocate_atm v_rem q_atm atm
             in Ok (map (\<lambda>o1. allocation_of o1 (final_fill cp itm_fills atm_fills o1))
                      (filter (\<lambda>o1. ord_side o1 = ts) orders))))"

section \<open>Both sides\<close>

type_synonym allocation_map = "(u64, order_allocation) omap"

definition index_allocations :: "order_allocation list \<Rightarrow> allocation_map" where
  "index_allocations allocs = foldl (\<lambda>m a. om_assign (al_order_id a) a m) om_empty allocs"

definition sum_allocated :: "order_allocation list \<Rightarrow> u64" where
  "sum_allocated allocs = foldl (\<lambda>s a. s + al_allocated_qty a) 0 allocs"

fun merge_allocations :: "allocation_map \<Rightarrow> allocation_map \<Rightarrow> order list \<Rightarrow> order_allocation list" where
  "merge_allocations buys sells [] = []"
| "merge_allocations buys sells (o1 # orders) =
     (case om_find buys (ord_id o1) of
        Some a \<Rightarrow> a # merge_allocations (om_erase (ord_id o1) buys) sells orders
      | None \<Rightarrow>
          (case om_find sells (ord_id o1) of
             Some a \<Rightarrow> a # merge_allocations buys (om_erase (ord_id o1) sells) orders
           | None \<Rightarrow> merge_allocations buys sells orders))"

definition allocate_batch :: "batch \<Rightarrow> price option \<Rightarrow> qty \<Rightarrow> batch_allocation result" where
  "allocate_batch b clearing target =
     (case clearing of
        None \<Rightarrow> Ok \<lparr>ba_clearing_price = None, ba_target_volume = 0, ba_total_buy = 0, ba_total_sell = 0,
                   ba_allocations = map (\<lambda>o1. allocation_of o1 0) (bat_orders b)\<rparr>
      | Some cp \<Rightarrow>
          if target = 0
          then Ok \<lparr>ba_clearing_price = None, ba_target_volume = 0, ba_total_buy = 0, ba_total_sell = 0,
                   ba_allocations = map (\<lambda>o1. allocation_of o1 0) (bat_orders b)\<rparr>
          else
            and_then_conv (allocate_side (bat_orders b) cp target Buy) (\<lambda>buys.
            and_then_conv (allocate_side (bat_orders b) cp target Sell) (\<lambda>sells.
              Ok \<lparr>ba_clearing_price = Some cp, ba_target_volume = target,
                  ba_total_buy = sum_allocated buys, ba_total_sell = sum_allocated sells,
                  ba_allocations =
                    merge_allocations (index_allocations buys) (index_allocations sells) (bat_orders b)\<rparr>)))"

section \<open>Canonical fills\<close>

definition fill_step :: "price \<Rightarrow> instrument_id \<Rightarrow> u64 \<times> fill list \<Rightarrow> order_allocation \<Rightarrow> (u64 \<times> fill list) result" where
  "fill_step cp inst = (\<lambda>(fid, fills) a.
     if al_allocated_qty a \<noteq> 0
     then and_then_conv
       (fill_create fid (al_order_id a) (al_account a) inst (al_side a) cp (al_allocated_qty a))
       (\<lambda>f. Ok (fid + 1, fills @ [f]))
     else Ok (fid, fills))"

definition generate_canonical_fills :: "batch \<Rightarrow> batch_allocation \<Rightarrow> fill list result" where
  "generate_canonical_fills b alloc =
     (case ba_clearing_price alloc of
        None \<Rightarrow> Ok []
      | Some cp \<Rightarrow>
          if ba_target_volume alloc = 0 then Ok []
          else and_then_conv (loop_result (fill_step cp (bat_instrument b)) (0, []) (ba_allocations alloc))
                 (\<lambda>(fid, fills). Ok fills))"

end
