(* ===== verification/Allocation_Proofs.thy ===== *)
theory Allocation_Proofs
  imports Allocation
begin

text \<open>
  Correctness of the allocation.  The locale \<open>rationing\<close> is the contract both halves of
  \<open>allocate_side\<close> share: nobody gets more than the order asks for, and the fills add up to the
  volume handed out.  It is interpreted for the greedy split inside the money and for the
  largest-remainder split at the money.
\<close>

section \<open>Volumes and fill maps\<close>

definition volume :: "order list \<Rightarrow> nat" where
  "volume orders = sum_list (map (\<lambda>o1. unat (ord_qty o1)) orders)"

definition filled :: "fill_map \<Rightarrow> order list \<Rightarrow> nat" where
  "filled m orders = sum_list (map (\<lambda>o1. unat (lookup_fill m o1)) orders)"

lemma volume_simps [simp]:
  "volume [] = 0" "volume (o1 # orders) = unat (ord_qty o1) + volume orders"
  "volume (xs @ ys) = volume xs + volume ys"
  by (simp_all add: volume_def)

lemma volume_mset: "mset xs = mset ys \<Longrightarrow> volume xs = volume ys"
  unfolding volume_def by (metis mset_map sum_mset_sum_list)

lemma filled_mset: "mset xs = mset ys \<Longrightarrow> filled m xs = filled m ys"
  unfolding filled_def by (metis mset_map sum_mset_sum_list)

lemma volume_member: "o1 \<in> set orders \<Longrightarrow> unat (ord_qty o1) \<le> volume orders"
  unfolding volume_def by (induction orders) auto

text \<open>All three rules write one amount per order; the maps they build are instances of this one.\<close>

definition fill_all :: "fill_map \<Rightarrow> (order \<times> u64) list \<Rightarrow> fill_map" where
  "fill_all m ps = foldl (\<lambda>m (o1, f). om_assign (ord_id o1) f m) m ps"

lemma find_fill_all_other: "k \<notin> ord_id ` fst ` set ps \<Longrightarrow> om_find (fill_all m ps) k = om_find m k"
  by (induction ps arbitrary: m) (auto simp: fill_all_def)

lemma lookup_fill_all:
  assumes "distinct (map (\<lambda>p. ord_id (fst p)) ps)" "(o1, f) \<in> set ps"
  shows "lookup_fill (fill_all m ps) o1 = f"
  using assms
proof (induction ps arbitrary: m)
  case (Cons p ps)
  show ?case
  proof (cases "(o1, f) = p")
    case True
    then have "ord_id o1 \<notin> ord_id ` fst ` set ps" using Cons.prems(1) by force
    then have "om_find (fill_all (om_assign (ord_id o1) f m) ps) (ord_id o1) = Some f"
      by (simp add: find_fill_all_other)
    then show ?thesis using True by (auto simp: fill_all_def lookup_fill_def)
  next
    case False
    with Cons show ?thesis by (auto simp: fill_all_def split: prod.splits)
  qed
qed simp

lemma filled_fill_all:
  assumes "distinct (map (\<lambda>p. ord_id (fst p)) ps)"
  shows "filled (fill_all m ps) (map fst ps) = sum_list (map (\<lambda>p. unat (snd p)) ps)"
proof -
  have "map (\<lambda>p. unat (lookup_fill (fill_all m ps) (fst p))) ps = map (\<lambda>p. unat (snd p)) ps"
    using lookup_fill_all [OF assms] by auto
  then show ?thesis unfolding filled_def map_map comp_def by (rule arg_cong)
qed

lemma distinct_zip_ids:
  "length ys = length xs \<Longrightarrow> map (\<lambda>p. ord_id (fst p)) (zip xs ys) = map ord_id xs"
  by (induction ys xs rule: list_induct2) simp_all

lemma unat_snd_zip:
  "length ys = length xs \<Longrightarrow> map (\<lambda>p. unat (snd p)) (zip xs ys) = map unat ys"
  by (induction ys xs rule: list_induct2) simp_all

lemma sum_list_less:
  "(\<And>x. x \<in> set xs \<Longrightarrow> f x \<le> g x) \<Longrightarrow> y \<in> set xs \<Longrightarrow> f y < g y \<Longrightarrow>
   sum_list (map f xs) < sum_list (map g xs)" for f g :: "'a \<Rightarrow> nat"
proof (induction xs)
  case (Cons x xs)
  have "sum_list (map f xs) \<le> sum_list (map g xs)" using Cons.prems(1) by (intro sum_list_mono) auto
  then show ?case using Cons by (cases "y = x") (auto intro: add_less_le_mono add_le_less_mono)
qed simp

lemma fill_all_zip:
  assumes "distinct (map ord_id xs)" "length ys = length xs"
  shows "i < length xs \<Longrightarrow> lookup_fill (fill_all m (zip xs ys)) (xs ! i) = ys ! i"
    and "filled (fill_all m (zip xs ys)) xs = sum_list (map unat ys)"
proof -
  have d: "distinct (map (\<lambda>p. ord_id (fst p)) (zip xs ys))"
    using assms by (simp only: distinct_zip_ids)
  show "i < length xs \<Longrightarrow> lookup_fill (fill_all m (zip xs ys)) (xs ! i) = ys ! i"
    using assms(2) by (intro lookup_fill_all [OF d]) (auto simp: in_set_zip)
  show "filled (fill_all m (zip xs ys)) xs = sum_list (map unat ys)"
    using filled_fill_all [OF d, of m] assms(2) by (simp add: unat_snd_zip)
qed

lemma fill_in_full_lookup:
  assumes "distinct (map ord_id xs)" "o1 \<in> set xs"
  shows "lookup_fill (fill_in_full xs) o1 = ord_qty o1"
proof -
  have "fill_in_full xs = fill_all om_empty (map (\<lambda>o1. (o1, ord_qty o1)) xs)"
    by (simp add: fill_in_full_def fill_all_def foldl_map)
  moreover have "lookup_fill (fill_all om_empty (map (\<lambda>o1. (o1, ord_qty o1)) xs)) o1 = ord_qty o1"
    using assms by (intro lookup_fill_all) (auto simp: comp_def)
  ultimately show ?thesis by simp
qed

lemma filled_in_full: "distinct (map ord_id xs) \<Longrightarrow> filled (fill_in_full xs) xs = volume xs"
  by (auto simp: filled_def volume_def fill_in_full_lookup intro!: arg_cong [where f = sum_list])

section \<open>The contract of a rationing rule\<close>

locale rationing =
  fixes ration :: "u64 \<Rightarrow> order list \<Rightarrow> fill_map"
  assumes bounded: "distinct (map ord_id xs) \<Longrightarrow> volume xs < 2 ^ 64 \<Longrightarrow> unat v \<le> volume xs \<Longrightarrow>
      o1 \<in> set xs \<Longrightarrow> lookup_fill (ration v xs) o1 \<le> ord_qty o1"
    and exact: "distinct (map ord_id xs) \<Longrightarrow> volume xs < 2 ^ 64 \<Longrightarrow> unat v \<le> volume xs \<Longrightarrow>
      filled (ration v xs) xs = unat v"
begin

lemma nothing:
  assumes "distinct (map ord_id xs)" "volume xs < 2 ^ 64" "o1 \<in> set xs"
  shows "lookup_fill (ration 0 xs) o1 = 0"
proof -
  have "filled (ration 0 xs) xs = 0" using exact [of xs 0] assms by simp
  then show ?thesis using assms(3) by (auto simp: filled_def sum_list_eq_0_iff unat_eq_0)
qed

lemma everything:
  assumes "distinct (map ord_id xs)" "volume xs < 2 ^ 64" "unat v = volume xs" "o1 \<in> set xs"
  shows "lookup_fill (ration v xs) o1 = ord_qty o1"
proof (rule ccontr)
  assume "lookup_fill (ration v xs) o1 \<noteq> ord_qty o1"
  then have "unat (lookup_fill (ration v xs) o1) < unat (ord_qty o1)"
    using bounded [of xs v o1] assms by (simp add: word_nat order_le_less word_unat_eq_iff)
  moreover have "unat (lookup_fill (ration v xs) o2) \<le> unat (ord_qty o2)" if "o2 \<in> set xs" for o2
    using bounded [of xs v] assms that by (simp add: word_nat)
  ultimately have "filled (ration v xs) xs < volume xs"
    using assms(4) unfolding filled_def volume_def by (intro sum_list_less)
  then show False using exact [of xs v] assms by simp
qed

end

section \<open>In the money: greedy by price and time\<close>

fun greedy_amounts :: "u64 \<Rightarrow> order list \<Rightarrow> u64 list" where
  "greedy_amounts r [] = []"
| "greedy_amounts r (o1 # orders) =
     (let f = min (ord_qty o1) r in f # greedy_amounts (r - f) orders)"

lemma length_greedy_amounts [simp]: "length (greedy_amounts r orders) = length orders"
  by (induction orders arbitrary: r) (simp_all add: Let_def)

lemma greedy_fill_all:
  "snd (foldl greedy_step (r, m) orders) = fill_all m (zip orders (greedy_amounts r orders))"
  by (induction orders arbitrary: r m) (simp_all add: greedy_step_def fill_all_def Let_def)

lemma sum_greedy_amounts:
  "sum_list (map unat (greedy_amounts r orders)) = min (unat r) (volume orders)"
proof (induction orders arbitrary: r)
  case (Cons o1 orders)
  show ?case
  proof (cases "ord_qty o1 \<le> r")
    case True
    then have "unat (ord_qty o1) \<le> unat r" "unat (r - ord_qty o1) = unat r - unat (ord_qty o1)"
      by (simp_all add: word_nat)
    then show ?thesis using True by (simp add: Let_def min_absorb1 Cons)
  next
    case False
    then have "unat r \<le> unat (ord_qty o1)" by (simp add: word_nat)
    then show ?thesis using False Cons by (simp add: Let_def min_def)
  qed
qed simp

lemma greedy_amount_le: "i < length orders \<Longrightarrow> greedy_amounts r orders ! i \<le> ord_qty (orders ! i)"
  by (induction orders arbitrary: r i) (auto simp: Let_def nth_Cons' less_Suc_eq_0_disj)

lemma greedy_amounts_0: "i < length orders \<Longrightarrow> greedy_amounts 0 orders ! i = 0"
  by (induction orders arbitrary: i) (auto simp: Let_def nth_Cons' min_def less_Suc_eq_0_disj)

text \<open>An order gets something only after every order before it got all it asked for.\<close>

lemma greedy_priority:
  "i < j \<Longrightarrow> j < length orders \<Longrightarrow> greedy_amounts r orders ! j \<noteq> 0 \<Longrightarrow>
   greedy_amounts r orders ! i = ord_qty (orders ! i)"
proof (induction orders arbitrary: r i j)
  case (Cons o1 orders)
  then obtain j' where j: "j = Suc j'" "j' < length orders" by (cases j) auto
  show ?case
  proof (cases i)
    case 0
    show ?thesis
    proof (cases "ord_qty o1 \<le> r")
      case True
      then show ?thesis using 0 by (simp add: Let_def min_def)
    next
      case False
      then have "min (ord_qty o1) r = r" by (simp add: min_def)
      then show ?thesis using Cons.prems j greedy_amounts_0 [OF j(2)] by (simp add: Let_def)
    qed
  next
    case (Suc i')
    with Cons j show ?thesis by (simp add: Let_def)
  qed
qed simp

definition ration_itm :: "side \<Rightarrow> u64 \<Rightarrow> order list \<Rightarrow> fill_map" where
  "ration_itm ts v itm = snd (foldl greedy_step (v, om_empty) (std_sort (itm_before ts) itm))"

lemma ration_itm_zip:
  "ration_itm ts v itm = fill_all om_empty
     (zip (std_sort (itm_before ts) itm) (greedy_amounts v (std_sort (itm_before ts) itm)))"
  by (simp add: ration_itm_def greedy_fill_all)

lemma ration_itm_nth:
  assumes "distinct (map ord_id itm)" "i < length itm"
  shows "lookup_fill (ration_itm ts v itm) (std_sort (itm_before ts) itm ! i)
    = greedy_amounts v (std_sort (itm_before ts) itm) ! i"
  using assms by (simp add: ration_itm_zip fill_all_zip)

lemma ration_itm_bounded:
  assumes "distinct (map ord_id itm)" "o1 \<in> set itm"
  shows "lookup_fill (ration_itm ts v itm) o1 \<le> ord_qty o1"
proof -
  obtain i where "i < length itm" "std_sort (itm_before ts) itm ! i = o1"
    using assms(2) by (metis in_set_conv_nth length_std_sort set_std_sort)
  then show ?thesis using ration_itm_nth [OF assms(1), of i ts v]
    greedy_amount_le [of i "std_sort (itm_before ts) itm" v] by simp
qed

lemma ration_itm_exact:
  assumes "distinct (map ord_id itm)" "unat v \<le> volume itm"
  shows "filled (ration_itm ts v itm) itm = unat v"
proof -
  let ?s = "std_sort (itm_before ts) itm"
  have "filled (ration_itm ts v itm) ?s = min (unat v) (volume ?s)"
    using assms(1) by (simp add: ration_itm_zip fill_all_zip(2) sum_greedy_amounts)
  moreover have "filled (ration_itm ts v itm) ?s = filled (ration_itm ts v itm) itm"
    by (rule filled_mset) simp
  moreover have "volume ?s = volume itm" by (rule volume_mset) simp
  ultimately show ?thesis using assms(2) by simp
qed

interpretation itm_buy: rationing "ration_itm Buy"
  by unfold_locales (simp_all add: ration_itm_bounded ration_itm_exact)

interpretation itm_sell: rationing "ration_itm Sell"
  by unfold_locales (simp_all add: ration_itm_bounded ration_itm_exact)

interpretation itm_buy_order: comparator "itm_before Buy"
  by unfold_locales (auto simp: itm_before_def split: if_splits)

interpretation itm_sell_order: comparator "itm_before Sell"
  by unfold_locales (auto simp: itm_before_def split: if_splits)

text \<open>Price-time priority of the greedy rule.\<close>

lemma ration_itm_priority:
  assumes "distinct (map ord_id itm)" "a \<in> set itm" "b \<in> set itm"
    and sorted: "sorted_wrt (\<lambda>a b. \<not> itm_before ts b a) (std_sort (itm_before ts) itm)"
    and "itm_before ts a b" "\<not> itm_before ts b b" "lookup_fill (ration_itm ts v itm) b \<noteq> 0"
  shows "lookup_fill (ration_itm ts v itm) a = ord_qty a"
proof -
  let ?s = "std_sort (itm_before ts) itm"
  obtain i j where i: "i < length ?s" "?s ! i = a" and j: "j < length ?s" "?s ! j = b"
    using assms(2,3) by (metis in_set_conv_nth set_std_sort)
  have "i < j"
  proof (rule ccontr)
    assume "\<not> i < j"
    then consider "i = j" | "j < i" by linarith
    then show False
    proof cases
      case 1
      with i j assms(5,6) show False by simp
    next
      case 2
      then show False using sorted_wrt_nth_less [OF sorted 2 i(1)] i j assms(5) by simp
    qed
  qed
  then show ?thesis
    using greedy_priority [of i j ?s v] ration_itm_nth [OF assms(1), of i ts v]
      ration_itm_nth [OF assms(1), of j ts v] i j assms(7) by simp
qed

section \<open>At the money: pro rata with largest remainders\<close>

definition base_share :: "u64 \<Rightarrow> order list \<Rightarrow> order \<Rightarrow> nat" where
  "base_share v atm o1 = unat (ord_qty o1) * unat v div volume atm"

definition share_remainder :: "u64 \<Rightarrow> order list \<Rightarrow> order \<Rightarrow> nat" where
  "share_remainder v atm o1 = unat (ord_qty o1) * unat v mod volume atm"

lemma share_le_qty:
  assumes "unat v \<le> volume atm"
  shows "base_share v atm o1 \<le> unat (ord_qty o1)"
proof -
  have "unat (ord_qty o1) * unat v div volume atm \<le> unat (ord_qty o1) * volume atm div volume atm"
    using assms by (intro div_le_mono mult_le_mono2)
  also have "\<dots> \<le> unat (ord_qty o1)" by simp
  finally show ?thesis by (simp add: base_share_def)
qed

lemma share_less_qty:
  assumes "unat v \<le> volume atm" "0 < share_remainder v atm o1"
  shows "base_share v atm o1 < unat (ord_qty o1)"
proof (rule ccontr)
  assume "\<not> ?thesis"
  then have eq: "base_share v atm o1 = unat (ord_qty o1)" using share_le_qty [OF assms(1), of o1] by simp
  have "base_share v atm o1 * volume atm + share_remainder v atm o1 = unat (ord_qty o1) * unat v"
    by (simp add: base_share_def share_remainder_def)
  moreover have "unat (ord_qty o1) * unat v \<le> unat (ord_qty o1) * volume atm"
    using assms(1) by (rule mult_le_mono2)
  ultimately show False using assms(2) unfolding eq by linarith
qed

text \<open>Whole shares and remainders add up to the volume handed out.\<close>

lemma sum_shares:
  "sum_list (map (base_share v atm) orders) * volume atm + sum_list (map (share_remainder v atm) orders)
   = volume orders * unat v"
proof (induction orders)
  case (Cons o1 orders)
  have "base_share v atm o1 * volume atm + share_remainder v atm o1 = unat (ord_qty o1) * unat v"
    by (simp add: base_share_def share_remainder_def)
  then show ?case using Cons by (simp add: algebra_simps)
qed simp

lemma sum_base_le: "sum_list (map (base_share v atm) atm) \<le> unat v"
proof (cases "volume atm = 0")
  case True
  then have "map (base_share v atm) atm = map (\<lambda>_. 0) atm" by (simp add: base_share_def)
  then show ?thesis by (simp only: sum_list_triv)
next
  case False
  then have "0 < volume atm" by simp
  have "sum_list (map (base_share v atm) atm) * volume atm \<le> unat v * volume atm"
    using sum_shares [of v atm atm] by (metis le_add1 mult.commute)
  with \<open>0 < volume atm\<close> show ?thesis by simp
qed

text \<open>Fewer units are left over than there are orders with a remainder.\<close>

lemma surplus_le_remainders:
  assumes "0 < volume atm"
  shows "unat v - sum_list (map (base_share v atm) atm)
    \<le> length (filter (\<lambda>o1. 0 < share_remainder v atm o1) atm)"
proof -
  let ?s = "unat v - sum_list (map (base_share v atm) atm)"
  let ?n = "length (filter (\<lambda>o1. 0 < share_remainder v atm o1) atm)"
  have "sum_list (map (share_remainder v atm) orders)
      \<le> length (filter (\<lambda>o1. 0 < share_remainder v atm o1) orders) * volume atm" for orders
  proof (induction orders)
    case (Cons o1 orders)
    have "share_remainder v atm o1 \<le> volume atm"
      using assms by (simp add: share_remainder_def less_imp_le)
    with Cons show ?case by auto
  qed simp
  then have "sum_list (map (share_remainder v atm) atm) \<le> ?n * volume atm" by blast
  moreover have "?s * volume atm = sum_list (map (share_remainder v atm) atm)"
    using sum_shares [of v atm atm] by (simp add: diff_mult_distrib2 mult.commute)
  ultimately have "?s * volume atm \<le> ?n * volume atm" by simp
  with assms show ?thesis by simp
qed

text \<open>The machine arithmetic of the candidates is exact.\<close>

lemma base_candidate_exact:
  assumes "unat v \<le> volume atm" "volume atm < 2 ^ 64" "0 < volume atm" "q_atm = of_nat (volume atm)"
  shows "unat (atm_base_fill (base_candidate v q_atm o1)) = base_share v atm o1"
    and "unat (atm_remainder (base_candidate v q_atm o1)) = share_remainder v atm o1"
    and "atm_order (base_candidate v q_atm o1) = o1"
proof -
  have q: "unat q_atm = volume atm" using assms(2,4) by (simp add: unsigned_of_nat take_bit_nat_eq_self)
  let ?num = "ucast (ord_qty o1) * ucast v :: u128"
  have num: "unat ?num = unat (ord_qty o1) * unat v" by (rule unat_price_times_qty)
  have "unat (?num div ucast q_atm) = base_share v atm o1" "unat (?num mod ucast q_atm) = share_remainder v atm o1"
    by (simp_all add: unat_div unat_mod num q base_share_def share_remainder_def)
  moreover have "base_share v atm o1 < 2 ^ 64" "share_remainder v atm o1 < 2 ^ 64"
    using share_le_qty [OF assms(1), of o1] unat_less_pow [of "ord_qty o1"] assms(2,3)
    by (auto simp: share_remainder_def intro: less_trans [OF mod_less_divisor])
  ultimately show "unat (atm_base_fill (base_candidate v q_atm o1)) = base_share v atm o1"
    "unat (atm_remainder (base_candidate v q_atm o1)) = share_remainder v atm o1"
    by (simp_all add: base_candidate_def Let_def unsigned_ucast_eq take_bit_nat_eq_self)
  show "atm_order (base_candidate v q_atm o1) = o1" by (simp add: base_candidate_def Let_def)
qed

fun surplus_amounts :: "u64 \<Rightarrow> atm_candidate list \<Rightarrow> u64 list" where
  "surplus_amounts s [] = []"
| "surplus_amounts s (c # cs) =
     min (atm_base_fill c + (if 0 < s then 1 else 0)) (ord_qty (atm_order c))
       # surplus_amounts (if 0 < s then s - 1 else s) cs"

lemma length_surplus_amounts [simp]: "length (surplus_amounts s cs) = length cs"
  by (induction cs arbitrary: s) simp_all

lemma surplus_fill_all:
  "snd (foldl surplus_step (s, m) cs) = fill_all m (zip (map atm_order cs) (surplus_amounts s cs))"
  by (induction cs arbitrary: s m) (simp_all add: surplus_step_def fill_all_def Let_def)

lemma surplus_amounts_nth:
  "i < length cs \<Longrightarrow> surplus_amounts s cs ! i =
     min (atm_base_fill (cs ! i) + (if i < unat s then 1 else 0)) (ord_qty (atm_order (cs ! i)))"
proof (induction cs arbitrary: s i)
  case (Cons c cs)
  have pos: "0 < s \<longleftrightarrow> 0 < unat s" by (simp add: unat_gt_0 word_neq_0_conv)
  have "unat (if 0 < s then s - 1 else s) = unat s - 1"
    using pos by (auto simp: unat_sub word_le_nat_alt)
  then show ?case using Cons pos by (cases i) auto
qed simp

interpretation remainder_order: comparator remainder_before
  by unfold_locales (auto simp: remainder_before_def split: if_splits)

definition atm_sorted :: "u64 \<Rightarrow> order list \<Rightarrow> atm_candidate list" where
  "atm_sorted v atm = std_sort remainder_before (map (base_candidate v (of_nat (volume atm))) atm)"

definition atm_surplus :: "u64 \<Rightarrow> order list \<Rightarrow> nat" where
  "atm_surplus v atm = unat v - sum_list (map (base_share v atm) atm)"

lemma base_sum_exact:
  assumes "unat v \<le> volume atm" "volume atm < 2 ^ 64" "0 < volume atm" "q_atm = of_nat (volume atm)"
  shows "unat (v - foldl (\<lambda>s c. s + atm_base_fill c) 0 (map (base_candidate v q_atm) atm)) = atm_surplus v atm"
proof -
  have "unat (foldl (\<lambda>s c. s + atm_base_fill c) 0 (map (base_candidate v q_atm) orders))
      = sum_list (map (base_share v atm) orders)"
    if "sum_list (map (base_share v atm) orders) < 2 ^ 64" for orders
    using that
  proof (induction orders rule: rev_induct)
    case (snoc o1 orders)
    then show ?case by (simp add: base_candidate_exact(1) [OF assms] unat_add_fits)
  qed simp
  moreover have "sum_list (map (base_share v atm) atm) < 2 ^ 64"
    using sum_base_le [of v atm] unat_less_pow [of v] by simp
  ultimately show ?thesis
    using sum_base_le [of v atm] by (simp add: unat_sub word_le_nat_alt atm_surplus_def)
qed

context rationing
begin

lemma never_over: "distinct (map ord_id xs) \<Longrightarrow> volume xs < 2 ^ 64 \<Longrightarrow> unat v \<le> volume xs \<Longrightarrow>
   o1 \<in> set xs \<Longrightarrow> unat (lookup_fill (ration v xs) o1) \<le> unat (ord_qty o1)"
  using bounded [of xs v o1] by (simp add: word_nat)

end

text \<open>The sorted candidates carry the orders, their shares and their remainders.\<close>

lemma atm_sorted_props:
  assumes "unat v \<le> volume atm" "volume atm < 2 ^ 64" "0 < volume atm"
  shows "mset (map atm_order (atm_sorted v atm)) = mset atm"
    and "c \<in> set (atm_sorted v atm) \<Longrightarrow> atm_order c \<in> set atm
          \<and> unat (atm_base_fill c) = base_share v atm (atm_order c)
          \<and> unat (atm_remainder c) = share_remainder v atm (atm_order c)"
proof -
  note exact = base_candidate_exact [OF assms refl]
  have "mset (map atm_order (atm_sorted v atm))
      = mset (map atm_order (map (base_candidate v (of_nat (volume atm))) atm))"
    unfolding atm_sorted_def by (simp only: mset_map mset_std_sort)
  then show "mset (map atm_order (atm_sorted v atm)) = mset atm" by (simp add: exact(3) comp_def)
  show "c \<in> set (atm_sorted v atm) \<Longrightarrow> atm_order c \<in> set atm
          \<and> unat (atm_base_fill c) = base_share v atm (atm_order c)
          \<and> unat (atm_remainder c) = share_remainder v atm (atm_order c)"
    by (auto simp: atm_sorted_def exact)
qed

text \<open>Only orders with a remainder receive a unit of the surplus.\<close>

lemma surplus_goes_to_remainders:
  assumes "unat v \<le> volume atm" "volume atm < 2 ^ 64" "0 < volume atm"
    and i: "i < length (atm_sorted v atm)" "i < atm_surplus v atm"
  shows "0 < atm_remainder (atm_sorted v atm ! i)"
proof (rule ccontr)
  let ?cs = "atm_sorted v atm"
  assume "\<not> ?thesis"
  then have zero: "atm_remainder (?cs ! i) = 0" by (metis word_neq_0_conv)
  have sorted: "sorted_wrt (\<lambda>a b. \<not> remainder_before b a) ?cs"
    unfolding atm_sorted_def by (rule remainder_order.in_order_std_sort)
  have later: "atm_remainder (?cs ! j) = 0" if "i \<le> j" "j < length ?cs" for j
  proof (cases "i = j")
    case False
    then have "\<not> remainder_before (?cs ! j) (?cs ! i)"
      using that sorted_wrt_nth_less [OF sorted, of i j] by simp
    then show ?thesis using zero by (metis remainder_before_def word_neq_0_conv)
  qed (use zero in simp)
  have "filter (\<lambda>c. 0 < atm_remainder c) (drop i ?cs) = []"
    using later by (auto simp: filter_empty_conv in_set_conv_nth)
  then have "length (filter (\<lambda>c. 0 < atm_remainder c) ?cs) = length (filter (\<lambda>c. 0 < atm_remainder c) (take i ?cs))"
    by (metis append_Nil2 append_take_drop_id filter_append)
  also have "\<dots> \<le> i" using length_filter_le [of _ "take i ?cs"] by (simp add: le_trans)
  finally have "length (filter (\<lambda>c. 0 < atm_remainder c) ?cs) \<le> i" .
  moreover have "length (filter (\<lambda>c. 0 < atm_remainder c) ?cs)
      = length (filter (\<lambda>o1. 0 < share_remainder v atm o1) atm)"
  proof -
    note props = atm_sorted_props [OF assms(1-3)]
    have "filter (\<lambda>c. 0 < atm_remainder c) ?cs = filter (\<lambda>c. 0 < share_remainder v atm (atm_order c)) ?cs"
    proof (rule filter_cong [OF refl])
      fix c
      assume "c \<in> set ?cs"
      then show "(0 < atm_remainder c) = (0 < share_remainder v atm (atm_order c))"
        using props(2) [of c] by (simp add: word_less_nat_alt)
    qed
    then have "length (filter (\<lambda>c. 0 < atm_remainder c) ?cs)
        = length (filter (\<lambda>o1. 0 < share_remainder v atm o1) (map atm_order ?cs))"
      by (simp add: filter_map comp_def)
    also have "\<dots> = size (filter_mset (\<lambda>o1. 0 < share_remainder v atm o1) (mset (map atm_order ?cs)))"
      by (metis mset_filter size_mset)
    also have "\<dots> = length (filter (\<lambda>o1. 0 < share_remainder v atm o1) atm)"
      unfolding props(1) by (metis mset_filter size_mset)
    finally show ?thesis .
  qed
  ultimately show False
    using surplus_le_remainders [OF assms(3), of v] i(2) by (simp add: atm_surplus_def)
qed

text \<open>So the cap by the order quantity never bites, and the fills are the shares plus the surplus.\<close>

lemma pro_rata_amount:
  assumes "unat v \<le> volume atm" "volume atm < 2 ^ 64" "0 < volume atm" "i < length (atm_sorted v atm)"
    and s: "unat s = atm_surplus v atm"
  shows "unat (surplus_amounts s (atm_sorted v atm) ! i)
    = base_share v atm (atm_order (atm_sorted v atm ! i)) + (if i < atm_surplus v atm then 1 else 0)"
proof -
  let ?c = "atm_sorted v atm ! i"
  note props = atm_sorted_props(2) [OF assms(1-3) nth_mem [OF assms(4)]]
  have base: "unat (atm_base_fill ?c) \<le> unat (ord_qty (atm_order ?c))"
    using props share_le_qty [OF assms(1)] by simp
  show ?thesis
  proof (cases "i < atm_surplus v atm")
    case True
    have "0 < share_remainder v atm (atm_order ?c)"
      using surplus_goes_to_remainders [OF assms(1-4) True] props by (metis unat_gt_0 word_neq_0_conv)
    then have less: "unat (atm_base_fill ?c) + 1 \<le> unat (ord_qty (atm_order ?c))"
      using share_less_qty [OF assms(1), of "atm_order ?c"] props by simp
    then have "unat (atm_base_fill ?c + 1) = unat (atm_base_fill ?c) + 1"
      using unat_less_pow [of "ord_qty (atm_order ?c)"] by (subst unat_add_fits) auto
    with True less props show ?thesis
      by (simp add: surplus_amounts_nth [OF assms(4)] s min_def word_nat)
  next
    case False
    with base props show ?thesis
      by (simp add: surplus_amounts_nth [OF assms(4)] s min_def word_nat)
  qed
qed

lemma allocate_pro_rata_zip:
  assumes "unat v \<le> volume atm" "volume atm < 2 ^ 64" "0 < volume atm"
  obtains s where "unat s = atm_surplus v atm"
    and "allocate_pro_rata v (of_nat (volume atm)) atm
      = fill_all om_empty (zip (map atm_order (atm_sorted v atm)) (surplus_amounts s (atm_sorted v atm)))"
  using base_sum_exact [OF assms refl]
  by (auto simp: allocate_pro_rata_def Let_def surplus_fill_all atm_sorted_def comp_def intro: that)

lemma atm_sorted_distinct:
  assumes "unat v \<le> volume atm" "volume atm < 2 ^ 64" "0 < volume atm" "distinct (map ord_id atm)"
  shows "distinct (map ord_id (map atm_order (atm_sorted v atm)))" "length (atm_sorted v atm) = length atm"
    "set (map atm_order (atm_sorted v atm)) = set atm"
proof -
  note m = atm_sorted_props(1) [OF assms(1-3)]
  show "distinct (map ord_id (map atm_order (atm_sorted v atm)))"
    using assms(4) m by (metis mset_eq_imp_distinct_iff mset_map)
  show "length (atm_sorted v atm) = length atm" using m by (metis length_map size_mset)
  show "set (map atm_order (atm_sorted v atm)) = set atm" using m by (rule mset_eq_setD)
qed

lemma pro_rata_lookup:
  assumes "unat v \<le> volume atm" "volume atm < 2 ^ 64" "0 < volume atm" "distinct (map ord_id atm)"
    and "i < length atm"
  shows "unat (lookup_fill (allocate_pro_rata v (of_nat (volume atm)) atm) (atm_order (atm_sorted v atm ! i)))
    = base_share v atm (atm_order (atm_sorted v atm ! i)) + (if i < atm_surplus v atm then 1 else 0)"
proof -
  obtain s where s: "unat s = atm_surplus v atm"
    "allocate_pro_rata v (of_nat (volume atm)) atm
      = fill_all om_empty (zip (map atm_order (atm_sorted v atm)) (surplus_amounts s (atm_sorted v atm)))"
    by (rule allocate_pro_rata_zip [OF assms(1-3)])
  note d = atm_sorted_distinct [OF assms(1-4)]
  have "lookup_fill (allocate_pro_rata v (of_nat (volume atm)) atm) (map atm_order (atm_sorted v atm) ! i)
      = surplus_amounts s (atm_sorted v atm) ! i"
    unfolding s(2) using d(2) assms(5) by (intro fill_all_zip(1) [OF d(1)]) simp_all
  then show ?thesis using d(2) assms(5) pro_rata_amount [OF assms(1-3) _ s(1), of i] by simp
qed

lemma pro_rata_quota:
  assumes "unat v \<le> volume atm" "volume atm < 2 ^ 64" "distinct (map ord_id atm)" "o1 \<in> set atm" "0 < volume atm"
  shows "unat (lookup_fill (allocate_pro_rata v (of_nat (volume atm)) atm) o1)
    \<in> {base_share v atm o1, base_share v atm o1 + (if 0 < share_remainder v atm o1 then 1 else 0)}"
proof -
  note d = atm_sorted_distinct [OF assms(1,2,5,3)]
  have "o1 \<in> set (map atm_order (atm_sorted v atm))" by (simp only: d(3) assms(4))
  then obtain i where i: "i < length atm" "atm_order (atm_sorted v atm ! i) = o1"
    by (auto simp: in_set_conv_nth d(2))
  have len: "i < length (atm_sorted v atm)" using i(1) d(2) by simp
  have "0 < share_remainder v atm o1" if "i < atm_surplus v atm"
  proof -
    have "0 < unat (atm_remainder (atm_sorted v atm ! i))"
      using surplus_goes_to_remainders [OF assms(1,2,5) len that] by (simp add: word_less_nat_alt)
    then show ?thesis using atm_sorted_props(2) [OF assms(1,2,5) nth_mem [OF len]] i(2) by simp
  qed
  then show ?thesis using pro_rata_lookup [OF assms(1,2,5,3) i(1)] i(2) by simp
qed

lemma pro_rata_exact:
  assumes "unat v \<le> volume atm" "volume atm < 2 ^ 64" "distinct (map ord_id atm)" "0 < volume atm"
  shows "filled (allocate_pro_rata v (of_nat (volume atm)) atm) atm = unat v"
proof -
  let ?m = "allocate_pro_rata v (of_nat (volume atm)) atm" and ?cs = "atm_sorted v atm"
  let ?n = "length atm" and ?s = "atm_surplus v atm"
  note d = atm_sorted_distinct [OF assms(1,2,4,3)] and props = atm_sorted_props [OF assms(1,2,4)]
  have "filled ?m atm = filled ?m (map atm_order ?cs)"
    by (rule filled_mset) (simp only: props(1))
  also have "\<dots> = (\<Sum>i<?n. unat (lookup_fill ?m (atm_order (?cs ! i))))"
    using d(2) by (simp add: filled_def sum_list_sum_nth atLeast0LessThan)
  also have "\<dots> = (\<Sum>i<?n. base_share v atm (atm_order (?cs ! i)) + (if i < ?s then 1 else 0))"
    by (rule sum.cong) (use pro_rata_lookup [OF assms(1,2,4,3)] in auto)
  also have "\<dots> = sum_list (map (base_share v atm) (map atm_order ?cs)) + card ({..<?n} \<inter> {i. i < ?s})"
    using d(2) by (simp add: sum.distrib sum_list_sum_nth atLeast0LessThan sum.If_cases)
  also have "sum_list (map (base_share v atm) (map atm_order ?cs)) = sum_list (map (base_share v atm) atm)"
    using props(1) by (metis mset_map sum_mset_sum_list)
  also have "card ({..<?n} \<inter> {i. i < ?s}) = ?s"
  proof -
    have "?s \<le> ?n" using surplus_le_remainders [OF assms(4), of v] length_filter_le le_trans
      by (fastforce simp: atm_surplus_def)
    then have "{..<?n} \<inter> {i. i < ?s} = {..<?s}" by auto
    then show ?thesis by simp
  qed
  finally show ?thesis using sum_base_le [of v atm] by (simp add: atm_surplus_def)
qed

text \<open>Both rules at the money honour the contract.\<close>

definition ration_atm :: "u64 \<Rightarrow> order list \<Rightarrow> fill_map" where
  "ration_atm v atm = allocate_atm v (of_nat (volume atm)) atm"

lemma ration_atm_cases:
  assumes "volume atm < 2 ^ 64" "unat v \<le> volume atm" "v \<noteq> 0"
  shows "ration_atm v atm = (if unat v = volume atm then fill_in_full atm
                             else allocate_pro_rata v (of_nat (volume atm)) atm)"
proof -
  have "unat v \<noteq> 0" using assms(3) by (simp add: unat_eq_0)
  with assms have "atm \<noteq> []" by auto
  moreover have "of_nat (volume atm) \<le> v \<longleftrightarrow> unat v = volume atm"
    using assms(1,2) by (auto simp: word_nat unsigned_of_nat take_bit_nat_eq_self)
  ultimately show ?thesis using assms(3) by (simp add: ration_atm_def allocate_atm_def word_neq_0_conv)
qed

interpretation atm: rationing ration_atm
proof
  fix xs v and o1 :: order
  assume a: "distinct (map ord_id xs)" "volume xs < 2 ^ 64" "unat (v :: u64) \<le> volume xs"
  have pos: "0 < volume xs" if "v \<noteq> 0"
    using a(3) that by (metis gr_zeroI le_zero_eq unat_eq_0)
  show "filled (ration_atm v xs) xs = unat v"
  proof (cases "v = 0")
    case True
    then show ?thesis by (simp add: ration_atm_def allocate_atm_def filled_def lookup_fill_def)
  next
    case False
    then show ?thesis
      using a pos by (simp add: ration_atm_cases filled_in_full pro_rata_exact)
  qed
  assume o1: "o1 \<in> set xs"
  show "lookup_fill (ration_atm v xs) o1 \<le> ord_qty o1"
  proof (cases "v = 0")
    case True
    then show ?thesis by (simp add: ration_atm_def allocate_atm_def lookup_fill_def)
  next
    case False
    have "unat (lookup_fill (allocate_pro_rata v (of_nat (volume xs)) xs) o1) \<le> unat (ord_qty o1)"
      using pro_rata_quota [OF a(3,2,1) o1 pos [OF False]] share_le_qty [OF a(3), of o1]
        share_less_qty [OF a(3), of o1] by (auto split: if_splits)
    then show ?thesis
      using False a o1 by (simp add: ration_atm_cases fill_in_full_lookup word_nat)
  qed
qed

lemma ration_atm_quota:
  assumes "distinct (map ord_id xs)" "volume xs < 2 ^ 64" "unat v \<le> volume xs" "o1 \<in> set xs"
  shows "unat (lookup_fill (ration_atm v xs) o1)
    \<in> {base_share v xs o1, base_share v xs o1 + (if 0 < share_remainder v xs o1 then 1 else 0)}"
proof (cases "v = 0")
  case True
  then show ?thesis using atm.nothing [OF assms(1,2,4)] by (simp add: base_share_def)
next
  case False
  then have "unat v \<noteq> 0" by (simp add: unat_eq_0)
  then have pos: "0 < volume xs" using assms(3) by simp
  note cases = ration_atm_cases [OF assms(2,3) False]
  show ?thesis
  proof (cases "unat v = volume xs")
    case True
    then show ?thesis using assms pos by (simp add: cases fill_in_full_lookup base_share_def)
  next
    case False
    then have "ration_atm v xs = allocate_pro_rata v (of_nat (volume xs)) xs" by (simp add: cases)
    then show ?thesis using pro_rata_quota [OF assms(3,2,1,4) pos] by (simp only:)
  qed
qed

section \<open>The partition of a side\<close>

definition of_moneyness :: "order_moneyness \<Rightarrow> price \<Rightarrow> side \<Rightarrow> order list \<Rightarrow> order list" where
  "of_moneyness m cp ts orders = filter (\<lambda>o1. ord_side o1 = ts \<and> classify_order o1 cp = m) orders"

lemma of_moneyness_simps [simp]:
  "of_moneyness m cp ts [] = []"
  "of_moneyness m cp ts (o1 # orders) =
     (if ord_side o1 = ts \<and> classify_order o1 cp = m then [o1] else []) @ of_moneyness m cp ts orders"
  by (simp_all add: of_moneyness_def)

lemma set_of_moneyness:
  "o1 \<in> set (of_moneyness m cp ts orders) \<longleftrightarrow>
     o1 \<in> set orders \<and> ord_side o1 = ts \<and> classify_order o1 cp = m"
  by (auto simp: of_moneyness_def)

lemma distinct_of_moneyness:
  "distinct (map ord_id orders) \<Longrightarrow> distinct (map ord_id (of_moneyness m cp ts orders))"
  by (simp add: of_moneyness_def distinct_map_filter)

lemma ex_unat_le: "n \<le> unat (w :: u64) \<Longrightarrow> \<exists>q :: u64. unat q = n"
  using unat_less_pow [of w] by (intro exI [where x = "of_nat n"]) (simp add: unsigned_of_nat take_bit_nat_eq_self)

lemma partition_step_skip:
  "ord_side o1 \<noteq> ts \<Longrightarrow> partition_step cp ts (i, a, t, qi, qa) o1 = Ok (i, a, t, qi, qa)"
  "ord_side o1 = ts \<Longrightarrow> classify_order o1 cp = OutOfTheMoney \<Longrightarrow>
     partition_step cp ts (i, a, t, qi, qa) o1 = Ok (i, a, t @ [o1], qi, qa)"
  by (simp_all add: partition_step_def)

lemma partition_step_itm:
  "ord_side o1 = ts \<Longrightarrow> classify_order o1 cp = InTheMoney \<Longrightarrow>
   partition_step cp ts (i, a, t, qi, qa) o1 = Ok s \<longleftrightarrow>
     (\<exists>q. unat q = unat qi + unat (ord_qty o1) \<and> s = (i @ [o1], a, t, q, qa))"
  by (auto simp: partition_step_def result_simps qty_arith.add_Ok_iff)

lemma partition_step_atm:
  "ord_side o1 = ts \<Longrightarrow> classify_order o1 cp = AtTheMoney \<Longrightarrow>
   partition_step cp ts (i, a, t, qi, qa) o1 = Ok s \<longleftrightarrow>
     (\<exists>q. unat q = unat qa + unat (ord_qty o1) \<and> s = (i, a @ [o1], t, qi, q))"
  by (auto simp: partition_step_def result_simps qty_arith.add_Ok_iff)

lemma partition_loop:
  "loop_result (partition_step cp ts) (i, a, t, qi, qa) orders = Ok (i', a', t', qi', qa') \<longleftrightarrow>
     i' = i @ of_moneyness InTheMoney cp ts orders
     \<and> a' = a @ of_moneyness AtTheMoney cp ts orders
     \<and> t' = t @ of_moneyness OutOfTheMoney cp ts orders
     \<and> unat qi' = unat qi + volume (of_moneyness InTheMoney cp ts orders)
     \<and> unat qa' = unat qa + volume (of_moneyness AtTheMoney cp ts orders)"
proof (induction orders arbitrary: i a t qi qa)
  case Nil
  then show ?case by (auto simp: word_unat_eq_iff)
next
  case (Cons o1 orders)
  show ?case
  proof (cases "ord_side o1 = ts")
    case True
    show ?thesis
    proof (cases "classify_order o1 cp")
      case InTheMoney
      then show ?thesis using True ex_unat_le [of "unat qi + unat (ord_qty o1)" qi']
        by (auto simp: and_then_Ok_iff partition_step_itm Cons.IH) metis
    next
      case AtTheMoney
      then show ?thesis using True ex_unat_le [of "unat qa + unat (ord_qty o1)" qa']
        by (auto simp: and_then_Ok_iff partition_step_atm Cons.IH) metis
    next
      case OutOfTheMoney
      then show ?thesis using True by (simp add: partition_step_skip Cons.IH)
    qed
  next
    case False
    then show ?thesis by (simp add: partition_step_skip Cons.IH)
  qed
qed

section \<open>One side of the book\<close>

text \<open>Everything a proof about a side needs: distinct identifiers, totals that fit in 64 bits, and
  a target the orders at or inside the clearing price can absorb.\<close>

definition eligible :: "price \<Rightarrow> side \<Rightarrow> order list \<Rightarrow> nat" where
  "eligible cp ts orders =
     volume (of_moneyness InTheMoney cp ts orders) + volume (of_moneyness AtTheMoney cp ts orders)"

definition allocatable :: "order list \<Rightarrow> price \<Rightarrow> qty \<Rightarrow> side \<Rightarrow> bool" where
  "allocatable orders cp target ts \<longleftrightarrow> distinct (map ord_id orders)
     \<and> total_side ts orders < 2 ^ 64 \<and> unat target \<le> eligible cp ts orders \<and> target \<noteq> 0"

lemma volume_moneyness_le: "volume (of_moneyness m cp ts orders) \<le> total_side ts orders"
  by (induction orders) (auto simp: total_side_def)

text \<open>The allocation of a side, read off without the machinery: greedy inside, pro rata at the price.\<close>

definition itm_volume :: "order list \<Rightarrow> price \<Rightarrow> side \<Rightarrow> nat" where
  "itm_volume orders cp ts = volume (of_moneyness InTheMoney cp ts orders)"

definition side_fill :: "order list \<Rightarrow> price \<Rightarrow> qty \<Rightarrow> side \<Rightarrow> order \<Rightarrow> u64" where
  "side_fill orders cp target ts o1 =
     (case classify_order o1 cp of
        InTheMoney \<Rightarrow> lookup_fill
          (if unat target \<le> itm_volume orders cp ts
           then ration_itm ts target (of_moneyness InTheMoney cp ts orders)
           else fill_in_full (of_moneyness InTheMoney cp ts orders)) o1
      | AtTheMoney \<Rightarrow> lookup_fill
          (ration_atm (of_nat (unat target - itm_volume orders cp ts)) (of_moneyness AtTheMoney cp ts orders)) o1
      | OutOfTheMoney \<Rightarrow> 0)"

lemma partition_Ok:
  assumes "total_side ts orders < 2 ^ 64"
  shows "loop_result (partition_step cp ts) ([], [], [], 0, 0) orders =
    Ok (of_moneyness InTheMoney cp ts orders, of_moneyness AtTheMoney cp ts orders,
        of_moneyness OutOfTheMoney cp ts orders,
        of_nat (volume (of_moneyness InTheMoney cp ts orders)),
        of_nat (volume (of_moneyness AtTheMoney cp ts orders)))"
  using assms volume_moneyness_le [of InTheMoney cp ts orders] volume_moneyness_le [of AtTheMoney cp ts orders]
  by (subst partition_loop) (simp add: unsigned_of_nat take_bit_nat_eq_self)

lemma allocate_side_eq:
  assumes "allocatable orders cp target ts"
  shows "allocate_side orders cp target ts =
    Ok (map (\<lambda>o1. allocation_of o1 (side_fill orders cp target ts o1)) (filter (\<lambda>o1. ord_side o1 = ts) orders))"
proof -
  let ?itm = "of_moneyness InTheMoney cp ts orders" and ?atm = "of_moneyness AtTheMoney cp ts orders"
  define v where "v = itm_volume orders cp ts"
  have v: "v < 2 ^ 64" "volume ?itm = v"
    using assms volume_moneyness_le [of InTheMoney cp ts orders] by (auto simp: v_def allocatable_def itm_volume_def)
  have q: "unat (of_nat v :: u64) = v" using v by (simp add: unsigned_of_nat take_bit_nat_eq_self)
  have le: "target \<le> of_nat v \<longleftrightarrow> unat target \<le> v" by (simp add: word_le_nat_alt q)
  have rest: "target - of_nat v = of_nat (unat target - v)" if "\<not> unat target \<le> v"
    using that q by (metis le_cases of_nat_diff word_nat_cast_unat)
  have itm: "allocate_itm ts target (of_nat v) ?itm =
     (if unat target \<le> v then (ration_itm ts target ?itm, 0)
      else (fill_in_full ?itm, of_nat (unat target - v)))"
    using rest by (simp add: allocate_itm_def le ration_itm_def)
  show ?thesis
    using assms by (auto simp: allocate_side_def partition_Ok allocatable_def v(2) itm side_fill_def
        final_fill_def ration_atm_def v_def [symmetric] split: order_moneyness.split)
qed

lemma sum_by_moneyness:
  "sum_list (map f (filter (\<lambda>o1. ord_side o1 = ts) orders)) =
     sum_list (map f (of_moneyness InTheMoney cp ts orders))
   + sum_list (map f (of_moneyness AtTheMoney cp ts orders))
   + sum_list (map f (of_moneyness OutOfTheMoney cp ts orders))" for f :: "order \<Rightarrow> nat"
proof (induction orders)
  case (Cons o1 orders)
  then show ?case by (cases "classify_order o1 cp") auto
qed simp

lemma allocatable_parts:
  assumes "allocatable orders cp target ts"
  shows "distinct (map ord_id (of_moneyness m cp ts orders))"
    and "volume (of_moneyness m cp ts orders) < 2 ^ 64"
    and "unat (of_nat (unat target - itm_volume orders cp ts) :: u64) = unat target - itm_volume orders cp ts"
    and "unat target - itm_volume orders cp ts \<le> volume (of_moneyness AtTheMoney cp ts orders)"
  using assms volume_moneyness_le [of m cp ts orders] unat_less_pow [of target]
  by (auto simp: allocatable_def distinct_of_moneyness eligible_def itm_volume_def unsigned_of_nat
      intro!: take_bit_nat_eq_self)

text \<open>What each group of orders receives.\<close>

lemma sum_list_cong: "(\<And>x. x \<in> set xs \<Longrightarrow> f x = g x) \<Longrightarrow> sum_list (map f xs) = sum_list (map g xs)"
  by (metis map_cong)

lemma filled_itm:
  assumes "allocatable orders cp target ts"
  shows "sum_list (map (\<lambda>o1. unat (side_fill orders cp target ts o1)) (of_moneyness InTheMoney cp ts orders))
    = min (unat target) (itm_volume orders cp ts)"
proof -
  let ?itm = "of_moneyness InTheMoney cp ts orders"
  note d = allocatable_parts(1) [OF assms, of InTheMoney]
  let ?m = "if unat target \<le> itm_volume orders cp ts then ration_itm ts target ?itm else fill_in_full ?itm"
  have "sum_list (map (\<lambda>o1. unat (side_fill orders cp target ts o1)) ?itm) = filled ?m ?itm"
    unfolding filled_def by (rule sum_list_cong) (auto simp: side_fill_def set_of_moneyness)
  also have "\<dots> = min (unat target) (itm_volume orders cp ts)"
    using d by (auto simp: ration_itm_exact filled_in_full itm_volume_def min_def)
  finally show ?thesis .
qed

lemma filled_atm:
  assumes "allocatable orders cp target ts"
  shows "sum_list (map (\<lambda>o1. unat (side_fill orders cp target ts o1)) (of_moneyness AtTheMoney cp ts orders))
    = unat target - itm_volume orders cp ts"
proof -
  let ?atm = "of_moneyness AtTheMoney cp ts orders"
  let ?v = "of_nat (unat target - itm_volume orders cp ts) :: u64"
  note parts = allocatable_parts [OF assms]
  have "sum_list (map (\<lambda>o1. unat (side_fill orders cp target ts o1)) ?atm) = filled (ration_atm ?v ?atm) ?atm"
    unfolding filled_def by (rule sum_list_cong) (auto simp: side_fill_def set_of_moneyness)
  also have "\<dots> = unat target - itm_volume orders cp ts"
    using atm.exact [of ?atm ?v] parts by simp
  finally show ?thesis .
qed

lemma filled_otm:
  "sum_list (map (\<lambda>o1. unat (side_fill orders cp target ts o1)) (of_moneyness OutOfTheMoney cp ts orders)) = 0"
  by (auto simp: sum_list_eq_0_iff side_fill_def set_of_moneyness)

lemma side_fill_total:
  assumes "allocatable orders cp target ts"
  shows "sum_list (map (\<lambda>o1. unat (side_fill orders cp target ts o1)) (filter (\<lambda>o1. ord_side o1 = ts) orders))
    = unat target"
  unfolding sum_by_moneyness [where cp = cp] filled_itm [OF assms] filled_atm [OF assms] filled_otm
  by simp

lemma side_fill_le:
  assumes "allocatable orders cp target ts" "o1 \<in> set orders" "ord_side o1 = ts"
  shows "side_fill orders cp target ts o1 \<le> ord_qty o1"
proof -
  have mem: "o1 \<in> set (of_moneyness (classify_order o1 cp) cp ts orders)"
    using assms(2,3) by (simp add: set_of_moneyness)
  note parts = allocatable_parts [OF assms(1)]
  show ?thesis
    using mem parts(1) atm.bounded [of "of_moneyness AtTheMoney cp ts orders" _ o1] parts
    by (auto simp: side_fill_def ration_itm_bounded fill_in_full_lookup split: order_moneyness.split)
qed

text \<open>Inside the money: if the whole group fits, everyone is filled; otherwise nobody at the
  price gets anything.\<close>

lemma side_fill_itm_all:
  assumes "allocatable orders cp target ts" "o1 \<in> set orders" "ord_side o1 = ts"
    and "classify_order o1 cp = InTheMoney" "itm_volume orders cp ts < unat target"
  shows "side_fill orders cp target ts o1 = ord_qty o1"
  using assms allocatable_parts(1) [OF assms(1), of InTheMoney]
  by (simp add: side_fill_def fill_in_full_lookup set_of_moneyness)

lemma side_fill_atm_none:
  assumes "allocatable orders cp target ts" "o1 \<in> set orders" "ord_side o1 = ts"
    and "classify_order o1 cp = AtTheMoney" "unat target \<le> itm_volume orders cp ts"
  shows "side_fill orders cp target ts o1 = 0"
  using assms allocatable_parts(1,2) [OF assms(1), of AtTheMoney]
  by (simp add: side_fill_def atm.nothing set_of_moneyness)

definition better_price :: "side \<Rightarrow> price \<Rightarrow> price \<Rightarrow> bool" where
  "better_price ts p q \<longleftrightarrow> (if ts = Buy then q < p else p < q)"

lemma itm_sorted: "ts = Buy \<or> ts = Sell \<Longrightarrow>
  sorted_wrt (\<lambda>a b. \<not> itm_before ts b a) (std_sort (itm_before ts) xs) \<and> \<not> itm_before ts b b"
  using itm_buy_order.in_order_std_sort [of xs] itm_sell_order.in_order_std_sort [of xs]
    itm_buy_order.irreflexive [of b] itm_sell_order.irreflexive [of b] by auto

lemma side_fill_priority:
  assumes "allocatable orders cp target ts" "ts = Buy \<or> ts = Sell"
    and a: "a \<in> set orders" "ord_side a = ts" and b: "b \<in> set orders" "ord_side b = ts"
    and "better_price ts (ord_price a) (ord_price b)
      \<or> (ord_price a = ord_price b \<and> ord_seq a < ord_seq b \<and> classify_order b cp = InTheMoney)"
    and "side_fill orders cp target ts b \<noteq> 0"
  shows "side_fill orders cp target ts a = ord_qty a"
proof (cases "classify_order b cp")
  case InTheMoney
  then have "classify_order a cp = InTheMoney"
    using assms(2,7) a b by (auto simp: classify_order_def better_price_def split: if_splits)
  moreover have "itm_before ts a b"
    using assms(2,7) by (auto simp: itm_before_def better_price_def split: if_splits)
  ultimately show ?thesis
    using InTheMoney a b assms(8) allocatable_parts(1) [OF assms(1), of InTheMoney] itm_sorted [OF assms(2)]
      ration_itm_priority [of "of_moneyness InTheMoney cp ts orders" a b ts target]
      side_fill_itm_all [OF assms(1) a]
    by (cases "unat target \<le> itm_volume orders cp ts") (simp_all add: side_fill_def set_of_moneyness)
next
  case AtTheMoney
  then have "classify_order a cp = InTheMoney"
    using assms(2,7) a b by (auto simp: classify_order_def better_price_def split: if_splits)
  then show ?thesis
    using side_fill_atm_none [OF assms(1) b AtTheMoney] assms(8) side_fill_itm_all [OF assms(1) a]
    by (cases "unat target \<le> itm_volume orders cp ts") simp_all
next
  case OutOfTheMoney
  then show ?thesis using assms(8) by (simp add: side_fill_def)
qed

end
