(* ===== verification/Batch_Allocation.thy ===== *)
theory Batch_Allocation
  imports Allocation_Proofs
begin

text \<open>
  Correctness of \<open>allocate_batch\<close> and of the canonical fills, on top of the allocation of one
  side: when the target volume crosses at the clearing price, the merge of both sides lists the
  orders of the batch in their canonical order, each side receives exactly the target, and the
  fills number the non-zero allocations consecutively.
\<close>

section \<open>The volume the clearing price can absorb\<close>

lemma eligible_demand: "eligible cp Buy orders = demand_at orders cp"
proof (induction orders)
  case (Cons o1 orders)
  then show ?case
    by (auto simp: eligible_def demand_at_def classify_order_def split: if_splits)
qed (simp add: eligible_def demand_at_def)

lemma eligible_supply: "eligible cp Sell orders = supply_at orders cp"
proof (induction orders)
  case (Cons o1 orders)
  then show ?case
    by (auto simp: eligible_def supply_at_def classify_order_def split: if_splits)
qed (simp add: eligible_def supply_at_def)

definition clearable :: "batch \<Rightarrow> price \<Rightarrow> qty \<Rightarrow> bool" where
  "clearable b cp target \<longleftrightarrow> wf_batch b \<and> totals_fit (bat_orders b)
     \<and> unat target \<le> crossed (bat_orders b) cp \<and> target \<noteq> 0"

lemma clearable_allocatable:
  assumes "clearable b cp target" "ts = Buy \<or> ts = Sell"
  shows "allocatable (bat_orders b) cp target ts"
  using assms by (auto simp: clearable_def allocatable_def wf_batch_def totals_fit_def crossed_def
      eligible_demand eligible_supply)

text \<open>The auction produces exactly such a price and volume.\<close>

lemma clearable_outcome:
  assumes "wf_batch b" "determine_clearing_outcome b = Ok out" "out_price out = Some cp"
  shows "clearable b cp (out_volume out)"
proof -
  let ?o = "bat_orders b"
  have fit: "totals_fit ?o" and vol: "out_volume out = vm_max_volume (reference_maximizers ?o)"
    and price: "out_price out = resolve_clearing_price_tie (reference_maximizers ?o)"
    using outcome_reference [OF assms(1,2)] by simp_all
  have ne: "vm_max_volume (reference_maximizers ?o) \<noteq> 0" using assms(3) price resolve_zero by fastforce
  from resolve_between [OF wf_batch_prices [OF assms(1)] ne]
  obtain q lo hi where "resolve_clearing_price_tie (reference_maximizers ?o) = Some q"
    "lo \<in> set (vm_prices (reference_maximizers ?o))" "hi \<in> set (vm_prices (reference_maximizers ?o))"
    "lo \<le> q" "q \<le> hi" by blast
  then have "crossed ?o cp = unat (vm_max_volume (reference_maximizers ?o))"
    using crossed_between [OF fit] price assms(3) by simp
  then show ?thesis using assms(1) fit vol ne by (simp add: clearable_def)
qed

lemma clearing_price_nonzero:
  assumes "wf_batch b" "determine_clearing_outcome b = Ok out"
  shows "out_price out \<noteq> Some 0"
proof -
  let ?o = "bat_orders b"
  have price: "out_price out = resolve_clearing_price_tie (reference_maximizers ?o)"
    using outcome_reference [OF assms] by simp
  show ?thesis
  proof (cases "vm_max_volume (reference_maximizers ?o) = 0")
    case True
    then show ?thesis using resolve_zero price by simp
  next
    case False
    from resolve_between [OF wf_batch_prices [OF assms(1)] False]
    obtain q where "resolve_clearing_price_tie (reference_maximizers ?o) = Some q" "q \<noteq> 0" by metis
    then show ?thesis using price by simp
  qed
qed

section \<open>The merge\<close>

lemma allocation_of_simps [simp]:
  "al_order_id (allocation_of o1 q) = ord_id o1" "al_side (allocation_of o1 q) = ord_side o1"
  "al_account (allocation_of o1 q) = ord_account o1" "al_limit_price (allocation_of o1 q) = ord_price o1"
  "al_original_qty (allocation_of o1 q) = ord_qty o1" "al_allocated_qty (allocation_of o1 q) = q"
  "al_seq (allocation_of o1 q) = ord_seq o1"
  by (simp_all add: allocation_of_def)

lemma find_index_allocations:
  "distinct (map ord_id orders) \<Longrightarrow>
   om_find (index_allocations (map (\<lambda>o1. allocation_of o1 (f o1)) orders)) k =
     map_of (map (\<lambda>o1. (ord_id o1, allocation_of o1 (f o1))) orders) k"
proof (induction orders rule: rev_induct)
  case (snoc o1 orders)
  then have IH: "om_find (foldl (\<lambda>m a. om_assign (al_order_id a) a m) om_empty
        (map (\<lambda>o1. allocation_of o1 (f o1)) orders)) k
      = map_of (map (\<lambda>o1. (ord_id o1, allocation_of o1 (f o1))) orders) k"
    by (simp add: index_allocations_def)
  have "map_of (map (\<lambda>o1. (ord_id o1, allocation_of o1 (f o1))) orders) (ord_id o1) = None"
    using snoc.prems by (auto simp: map_of_eq_None_iff comp_def)
  then show ?case by (auto simp: index_allocations_def IH map_add_def split: option.split)
qed (simp add: index_allocations_def)

text \<open>What the two lookup maps of the merge must hold for the orders still to come.\<close>

definition maps_hold :: "(order \<Rightarrow> qty) \<Rightarrow> allocation_map \<Rightarrow> allocation_map \<Rightarrow> order list \<Rightarrow> bool" where
  "maps_hold f buys sells orders \<longleftrightarrow> (\<forall>o1\<in>set orders.
     (if ord_side o1 = Buy then om_find buys (ord_id o1) = Some (allocation_of o1 (f o1))
      else om_find buys (ord_id o1) = None \<and> om_find sells (ord_id o1) = Some (allocation_of o1 (f o1))))"

lemma merge_allocations_eq:
  "distinct (map ord_id orders) \<Longrightarrow> maps_hold f buys sells orders \<Longrightarrow>
   merge_allocations buys sells orders = map (\<lambda>o1. allocation_of o1 (f o1)) orders"
proof (induction orders arbitrary: buys sells)
  case (Cons o1 orders)
  have ids: "\<forall>o2\<in>set orders. ord_id o2 \<noteq> ord_id o1" using Cons.prems(1) by (auto simp: image_iff)
  have "maps_hold f (om_erase (ord_id o1) buys) sells orders" "maps_hold f buys (om_erase (ord_id o1) sells) orders"
    using Cons.prems(2) ids by (auto simp: maps_hold_def)
  moreover have "distinct (map ord_id orders)" using Cons.prems(1) by simp
  moreover have "if ord_side o1 = Buy then om_find buys (ord_id o1) = Some (allocation_of o1 (f o1))
      else om_find buys (ord_id o1) = None \<and> om_find sells (ord_id o1) = Some (allocation_of o1 (f o1))"
    using Cons.prems(2) by (simp add: maps_hold_def)
  ultimately show ?case by (simp add: Cons.IH split: if_splits)
qed simp

lemma map_of_side:
  assumes "distinct (map ord_id orders)" "o1 \<in> set orders"
  shows "map_of (map (\<lambda>o1. (ord_id o1, g o1)) (filter P orders)) (ord_id o1) = (if P o1 then Some (g o1) else None)"
proof -
  have d: "distinct (map fst (map (\<lambda>o1. (ord_id o1, g o1)) (filter P orders)))"
    using assms(1) by (simp add: comp_def distinct_map_filter)
  show ?thesis
  proof (cases "P o1")
    case True
    then show ?thesis using assms(2) map_of_is_SomeI [OF d, of "ord_id o1" "g o1"] by auto
  next
    case False
    have "ord_id o2 \<noteq> ord_id o1" if "o2 \<in> set orders" "P o2" for o2
      using assms that False by (auto simp: distinct_map inj_on_def)
    then show ?thesis using False by (force simp: map_of_eq_None_iff)
  qed
qed

lemma maps_hold_sides:
  assumes "distinct (map ord_id orders)" "sides_valid orders"
  shows "maps_hold f
    (index_allocations (map (\<lambda>o1. allocation_of o1 (f o1)) (filter (\<lambda>o1. ord_side o1 = Buy) orders)))
    (index_allocations (map (\<lambda>o1. allocation_of o1 (f o1)) (filter (\<lambda>o1. ord_side o1 = Sell) orders))) orders"
  using assms
  by (auto simp: maps_hold_def find_index_allocations distinct_map_filter map_of_side
      sides_valid_def valid_side_def list_all_iff)

lemma sum_allocated_fits:
  "sum_list (map (\<lambda>a. unat (al_allocated_qty a)) allocs) < 2 ^ 64 \<Longrightarrow>
   unat (sum_allocated allocs) = sum_list (map (\<lambda>a. unat (al_allocated_qty a)) allocs)"
proof (induction allocs rule: rev_induct)
  case (snoc a allocs)
  then show ?case by (simp add: sum_allocated_def unat_add_fits)
qed (simp add: sum_allocated_def)

lemma sum_allocated_side:
  assumes "allocatable orders cp target ts"
  shows "sum_allocated (map (\<lambda>o1. allocation_of o1 (side_fill orders cp target ts o1))
           (filter (\<lambda>o1. ord_side o1 = ts) orders)) = target"
proof -
  have "unat (sum_allocated (map (\<lambda>o1. allocation_of o1 (side_fill orders cp target ts o1))
           (filter (\<lambda>o1. ord_side o1 = ts) orders))) = unat target"
    using side_fill_total [OF assms] unat_less_pow [of target]
    by (subst sum_allocated_fits) (simp_all add: comp_def)
  then show ?thesis by (simp add: word_unat_eq_iff)
qed

section \<open>The allocation of a batch\<close>

definition order_fill :: "batch \<Rightarrow> price \<Rightarrow> qty \<Rightarrow> order \<Rightarrow> qty" where
  "order_fill b cp target o1 = side_fill (bat_orders b) cp target (ord_side o1) o1"

lemma allocate_batch_eq:
  assumes "clearable b cp target"
  shows "allocate_batch b (Some cp) target =
    Ok \<lparr>ba_clearing_price = Some cp, ba_target_volume = target,
        ba_total_buy = target, ba_total_sell = target,
        ba_allocations = map (\<lambda>o1. allocation_of o1 (order_fill b cp target o1)) (bat_orders b)\<rparr>"
proof -
  let ?o = "bat_orders b"
  have wf: "wf_batch b" and ne: "target \<noteq> 0" using assms by (auto simp: clearable_def)
  then have d: "distinct (map ord_id ?o)" and v: "sides_valid ?o"
    using wf_batch_sides_valid by (auto simp: wf_batch_def)
  have side: "map (\<lambda>o1. allocation_of o1 (side_fill ?o cp target ts o1)) (filter (\<lambda>o1. ord_side o1 = ts) ?o)
      = map (\<lambda>o1. allocation_of o1 (order_fill b cp target o1)) (filter (\<lambda>o1. ord_side o1 = ts) ?o)" for ts
    by (auto simp: order_fill_def)
  note al = clearable_allocatable [OF assms]
  show ?thesis
    using ne sum_allocated_side [OF al, of Buy] sum_allocated_side [OF al, of Sell]
      merge_allocations_eq [OF d maps_hold_sides [OF d v], of "order_fill b cp target"]
    by (simp add: allocate_batch_def allocate_side_eq [OF al] side)
qed

lemma allocate_batch_none:
  "cp = None \<or> target = 0 \<Longrightarrow> allocate_batch b cp target =
     Ok \<lparr>ba_clearing_price = None, ba_target_volume = 0, ba_total_buy = 0, ba_total_sell = 0,
         ba_allocations = map (\<lambda>o1. allocation_of o1 0) (bat_orders b)\<rparr>"
  by (auto simp: allocate_batch_def split: option.split)

lemma order_fill_le:
  assumes "clearable b cp target" "o1 \<in> set (bat_orders b)"
  shows "order_fill b cp target o1 \<le> ord_qty o1"
proof -
  have "ord_side o1 = Buy \<or> ord_side o1 = Sell"
    using assms wf_batch_orderD by (auto simp: clearable_def wf_order_def valid_side_def)
  then show ?thesis
    unfolding order_fill_def using side_fill_le [OF clearable_allocatable [OF assms(1)] assms(2)] by blast
qed

lemma order_fill_otm: "classify_order o1 cp = OutOfTheMoney \<Longrightarrow> order_fill b cp target o1 = 0"
  by (simp add: order_fill_def side_fill_def)

lemma sum_side_fills:
  assumes "clearable b cp target" "ts = Buy \<or> ts = Sell"
  shows "sum_list (map (\<lambda>o1. if ord_side o1 = ts then unat (order_fill b cp target o1) else 0) (bat_orders b))
    = unat target"
proof -
  have "sum_list (map (\<lambda>o1. if ord_side o1 = ts then unat (order_fill b cp target o1) else 0) orders)
      = sum_list (map (\<lambda>o1. unat (side_fill (bat_orders b) cp target ts o1)) (filter (\<lambda>o1. ord_side o1 = ts) orders))"
    for orders
    by (induction orders) (auto simp: order_fill_def)
  then show ?thesis using side_fill_total [OF clearable_allocatable [OF assms]] by simp
qed

section \<open>Canonical fills\<close>

definition fill_for :: "price \<Rightarrow> instrument_id \<Rightarrow> nat \<times> order_allocation \<Rightarrow> fill" where
  "fill_for cp inst = (\<lambda>(i, a).
     \<lparr>fill_id = of_nat i, fill_order_id = al_order_id a, fill_account_id = al_account a,
      fill_instrument_id = inst, fill_side = al_side a, fill_execution_price = cp,
      fill_qty = al_allocated_qty a, fill_consideration = ucast cp * ucast (al_allocated_qty a)\<rparr>)"

definition executed :: "order_allocation list \<Rightarrow> order_allocation list" where
  "executed allocs = filter (\<lambda>a. al_allocated_qty a \<noteq> 0) allocs"

lemma fill_step_eq:
  "fill_step cp inst (of_nat n, fills) a =
     Ok (if al_allocated_qty a \<noteq> 0 then (of_nat (Suc n), fills @ [fill_for cp inst (n, a)])
         else (of_nat n, fills))"
  by (simp add: fill_step_def fill_create_Ok fill_for_def add.commute)

lemma fill_loop:
  "loop_result (fill_step cp inst) (of_nat n, fills) allocs =
     Ok (of_nat (n + length (executed allocs)),
         fills @ map (fill_for cp inst) (enumerate n (executed allocs)))"
proof (induction allocs arbitrary: n fills)
  case (Cons a allocs)
  show ?case
    using Cons.IH [of "Suc n" "fills @ [fill_for cp inst (n, a)]"] Cons.IH [of n fills]
    by (simp add: fill_step_eq executed_def del: of_nat_Suc of_nat_add)
qed (simp add: executed_def)

lemma generate_canonical_fills_eq:
  assumes "ba_clearing_price alloc = Some cp" "ba_target_volume alloc \<noteq> 0"
  shows "generate_canonical_fills b alloc =
    Ok (map (fill_for cp (bat_instrument b)) (enumerate 0 (executed (ba_allocations alloc))))"
  using assms fill_loop [of cp "bat_instrument b" 0 "[]" "ba_allocations alloc"]
  by (simp add: generate_canonical_fills_def)

lemma generate_canonical_fills_none:
  "ba_clearing_price alloc = None \<or> ba_target_volume alloc = 0 \<Longrightarrow> generate_canonical_fills b alloc = Ok []"
  by (auto simp: generate_canonical_fills_def split: option.split)

lemma canonical_fills_members:
  "f \<in> set (map (fill_for cp inst) (enumerate n as)) \<Longrightarrow>
     \<exists>a\<in>set as. fill_order_id f = al_order_id a \<and> fill_account_id f = al_account a
       \<and> fill_side f = al_side a \<and> fill_execution_price f = cp \<and> fill_instrument_id f = inst
       \<and> fill_qty f = al_allocated_qty a
       \<and> fill_consideration f = ucast cp * ucast (al_allocated_qty a)"
  by (auto simp: fill_for_def enumerate_eq_zip dest: set_zip_rightD)

lemma sum_canonical_fills:
  "sum_list (map (\<lambda>f. g (fill_side f) (fill_qty f)) (map (fill_for cp inst) (enumerate n as)))
   = sum_list (map (\<lambda>a. g (al_side a) (al_allocated_qty a)) as)" for g :: "side \<Rightarrow> qty \<Rightarrow> 'a::comm_monoid_add"
proof (induction "as" arbitrary: n)
  case (Cons a "as")
  then show ?case by (simp add: fill_for_def)
qed simp

section \<open>Properties of the allocation and the fills\<close>

definition allocated_on :: "side \<Rightarrow> batch_allocation \<Rightarrow> nat" where
  "allocated_on ts alloc =
     sum_list (map (\<lambda>a. if al_side a = ts then unat (al_allocated_qty a) else 0) (ba_allocations alloc))"

text \<open>C2: at the price and volume the auction found, the allocation succeeds, and the buyers
  receive in total exactly the volume, as do the sellers; the reported totals are these, so no
  machine sum wrapped and the pro-rata rounding neither loses nor creates a unit.\<close>

theorem allocation_conserves_volume:
  assumes "wf_batch b" and "determine_clearing_outcome b = Ok out" and "out_price out = Some cp"
  shows "\<exists>alloc. allocate_batch b (out_price out) (out_volume out) = Ok alloc
    \<and> allocated_on Buy alloc = unat (out_volume out) \<and> allocated_on Sell alloc = unat (out_volume out)
    \<and> ba_total_buy alloc = out_volume out \<and> ba_total_sell alloc = out_volume out"
proof -
  note c = clearable_outcome [OF assms]
  show ?thesis
    using sum_side_fills [OF c, of Buy] sum_side_fills [OF c, of Sell]
    by (simp add: assms(3) allocate_batch_eq [OF c] allocated_on_def comp_def cong: if_cong)
qed

theorem allocation_conserves_volume_witness:
  "\<exists>alloc. allocate_batch sample_batch (Some 103) 3 = Ok alloc \<and> allocated_on Sell alloc = 3"
proof -
  have "wf_batch sample_batch" by code_simp
  moreover have "determine_clearing_outcome sample_batch = Ok \<lparr>out_price = Some 103, out_volume = 3\<rparr>"
    by code_simp
  ultimately show ?thesis using allocation_conserves_volume [of sample_batch] by fastforce
qed

definition within_limit :: "price \<Rightarrow> side \<Rightarrow> price \<Rightarrow> bool" where
  "within_limit cp ts limit \<longleftrightarrow> (if ts = Buy then cp \<le> limit else limit \<le> cp)"

lemma otm_iff: "classify_order o1 cp = OutOfTheMoney \<longleftrightarrow> \<not> within_limit cp (ord_side o1) (ord_price o1)"
  by (auto simp: classify_order_def within_limit_def)

lemma sample_clearable: "clearable sample_batch 103 3"
proof -
  have "wf_batch sample_batch" by code_simp
  moreover have "determine_clearing_outcome sample_batch = Ok \<lparr>out_price = Some 103, out_volume = 3\<rparr>"
    by code_simp
  ultimately show ?thesis using clearable_outcome [of sample_batch] by fastforce
qed

text \<open>C3: no order receives more than it asked for or trades beyond its limit, and the
  allocations list the orders of the batch in its canonical order with their data unchanged.\<close>

theorem allocation_respects_orders:
  assumes "clearable b cp target"
  shows "\<exists>alloc. allocate_batch b (Some cp) target = Ok alloc
    \<and> map al_order_id (ba_allocations alloc) = map ord_id (bat_orders b)
    \<and> map al_original_qty (ba_allocations alloc) = map ord_qty (bat_orders b)
    \<and> list_all (\<lambda>a. al_allocated_qty a \<le> al_original_qty a) (ba_allocations alloc)
    \<and> list_all (\<lambda>a. al_allocated_qty a = 0 \<or> within_limit cp (al_side a) (al_limit_price a))
        (ba_allocations alloc)"
  using order_fill_le [OF assms] order_fill_otm [of _ cp b target]
  by (auto simp: allocate_batch_eq [OF assms] list_all_iff otm_iff)

theorem allocation_respects_orders_witness:
  "\<exists>alloc. allocate_batch sample_batch (Some 103) 3 = Ok alloc
    \<and> map al_order_id (ba_allocations alloc) = [1, 2]"
  using allocation_respects_orders [OF sample_clearable] by (auto simp: sample_simps)

text \<open>C4: price-time priority.  If an order receives anything, every order of the same side with a
  strictly better price is filled completely, and so is, among the orders strictly inside the
  clearing price, every order with the same price and a lower sequence number.\<close>

theorem allocation_price_time_priority:
  assumes "clearable b cp target" and "x \<in> set (bat_orders b)" and "y \<in> set (bat_orders b)"
    and "ord_side x = ord_side y"
    and "better_price (ord_side y) (ord_price x) (ord_price y)
      \<or> (ord_price x = ord_price y \<and> ord_seq x < ord_seq y \<and> ord_price y \<noteq> cp)"
    and "allocate_batch b (Some cp) target = Ok alloc"
    and "allocation_of y qy \<in> set (ba_allocations alloc)" and "qy \<noteq> 0"
  shows "allocation_of x (ord_qty x) \<in> set (ba_allocations alloc)"
proof -
  have allocs: "ba_allocations alloc = map (\<lambda>o1. allocation_of o1 (order_fill b cp target o1)) (bat_orders b)"
    using assms(6) by (simp add: allocate_batch_eq [OF assms(1)]) auto
  have ids: "distinct (map ord_id (bat_orders b))" using assms(1) by (simp add: clearable_def wf_batch_def)
  obtain o1 where "o1 \<in> set (bat_orders b)" "allocation_of y qy = allocation_of o1 (order_fill b cp target o1)"
    using assms(7) by (auto simp: allocs)
  then have "o1 = y" and qy: "qy = order_fill b cp target o1"
    using ids assms(3) by (auto simp: allocation_of_def distinct_map inj_on_def)
  then have fill: "side_fill (bat_orders b) cp target (ord_side y) y \<noteq> 0"
    using assms(8) by (simp add: order_fill_def)
  have side: "ord_side y = Buy \<or> ord_side y = Sell"
    using wf_batch_orderD [of b y] assms(1,3) by (simp add: clearable_def wf_order_def valid_side_def)
  have inside: "classify_order y cp = InTheMoney" if "ord_price y \<noteq> cp"
    using fill that by (auto simp: side_fill_def classify_order_def split: if_splits)
  have "side_fill (bat_orders b) cp target (ord_side y) x = ord_qty x"
    using side_fill_priority [OF clearable_allocatable [OF assms(1) side] side assms(2,4,3) refl _ fill]
      assms(5) inside by blast
  then have "order_fill b cp target x = ord_qty x" by (simp add: order_fill_def assms(4))
  then show ?thesis using assms(2) unfolding allocs by (auto simp: image_iff intro!: bexI [of _ x])
qed

definition inside_batch :: batch where
  "inside_batch = \<lparr>bat_id = 2, bat_instrument = 7, bat_orders =
     [\<lparr>ord_id = 1, ord_account = 10, ord_instrument = 7, ord_side = Buy, ord_price = 105, ord_qty = 5, ord_seq = 0\<rparr>,
      \<lparr>ord_id = 2, ord_account = 11, ord_instrument = 7, ord_side = Buy, ord_price = 104, ord_qty = 4, ord_seq = 1\<rparr>,
      \<lparr>ord_id = 3, ord_account = 12, ord_instrument = 7, ord_side = Sell, ord_price = 101, ord_qty = 6, ord_seq = 2\<rparr>]\<rparr>"

definition inside_allocation :: batch_allocation where
  "inside_allocation = the_value (allocate_batch inside_batch (Some 102) 6)"

lemma inside_clearable: "clearable inside_batch 102 6"
proof -
  have "wf_batch inside_batch" by code_simp
  moreover have "determine_clearing_outcome inside_batch = Ok \<lparr>out_price = Some 102, out_volume = 6\<rparr>"
    by code_simp
  ultimately show ?thesis using clearable_outcome [of inside_batch] by fastforce
qed

theorem allocation_price_time_priority_witness:
  "allocation_of (bat_orders inside_batch ! 0) 5 \<in> set (ba_allocations inside_allocation)"
proof -
  let ?x = "bat_orders inside_batch ! 0" and ?y = "bat_orders inside_batch ! 1"
  have "allocate_batch inside_batch (Some 102) 6 = Ok inside_allocation"
    and "allocation_of ?y 1 \<in> set (ba_allocations inside_allocation)"
    by code_simp+
  moreover have "?x \<in> set (bat_orders inside_batch)" "?y \<in> set (bat_orders inside_batch)"
    "ord_side ?x = ord_side ?y" "better_price (ord_side ?y) (ord_price ?x) (ord_price ?y)" "ord_qty ?x = 5"
    by (simp_all add: inside_batch_def better_price_def)
  ultimately show ?thesis
    using allocation_price_time_priority [OF inside_clearable, of ?x ?y inside_allocation 1] by simp
qed

text \<open>C5: at the clearing price every order receives its pro-rata share of the volume left for that
  price, rounded down, or one unit more when the share was not whole.\<close>

theorem allocation_pro_rata_quota:
  assumes "clearable b cp target" and "x \<in> set (bat_orders b)" and "ord_price x = cp"
    and "allocate_batch b (Some cp) target = Ok alloc"
    and "allocation_of x q \<in> set (ba_allocations alloc)"
  shows "let left = unat target - itm_volume (bat_orders b) cp (ord_side x);
             total = volume (of_moneyness AtTheMoney cp (ord_side x) (bat_orders b));
             share = unat (ord_qty x) * left div total
         in unat q \<in> {share, share + (if 0 < unat (ord_qty x) * left mod total then 1 else 0)}"
proof -
  let ?atm = "of_moneyness AtTheMoney cp (ord_side x) (bat_orders b)"
  define left where "left = unat target - itm_volume (bat_orders b) cp (ord_side x)"
  have allocs: "ba_allocations alloc = map (\<lambda>o1. allocation_of o1 (order_fill b cp target o1)) (bat_orders b)"
    using assms(4) by (simp add: allocate_batch_eq [OF assms(1)]) auto
  have ids: "distinct (map ord_id (bat_orders b))" using assms(1) by (simp add: clearable_def wf_batch_def)
  obtain o1 where o1: "o1 \<in> set (bat_orders b)" "allocation_of x q = allocation_of o1 (order_fill b cp target o1)"
    using assms(5) by (auto simp: allocs)
  then have "o1 = x" using ids assms(2) by (auto simp: allocation_of_def distinct_map inj_on_def)
  with o1(2) have q: "q = side_fill (bat_orders b) cp target (ord_side x) x"
    by (simp add: order_fill_def allocation_of_def)
  have side: "ord_side x = Buy \<or> ord_side x = Sell"
    using wf_batch_orderD [of b x] assms(1,2) by (simp add: clearable_def wf_order_def valid_side_def)
  note parts = allocatable_parts [OF clearable_allocatable [OF assms(1) side]]
  have atm: "classify_order x cp = AtTheMoney" using assms(3) by (simp add: classify_order_def)
  then have mem: "x \<in> set ?atm" using assms(2) by (simp add: set_of_moneyness)
  have "unat q \<in> {base_share (of_nat left) ?atm x,
      base_share (of_nat left) ?atm x + (if 0 < share_remainder (of_nat left) ?atm x then 1 else 0)}"
    using ration_atm_quota [OF parts(1,2) _ mem, of "of_nat left"] parts(3,4) atm
    by (simp add: q side_fill_def left_def)
  then show ?thesis
    using parts(3) by (simp add: base_share_def share_remainder_def left_def Let_def)
qed

definition at_price_batch :: batch where
  "at_price_batch = \<lparr>bat_id = 3, bat_instrument = 7, bat_orders =
     [\<lparr>ord_id = 1, ord_account = 10, ord_instrument = 7, ord_side = Buy, ord_price = 100, ord_qty = 5, ord_seq = 0\<rparr>,
      \<lparr>ord_id = 2, ord_account = 11, ord_instrument = 7, ord_side = Buy, ord_price = 100, ord_qty = 7, ord_seq = 1\<rparr>,
      \<lparr>ord_id = 3, ord_account = 12, ord_instrument = 7, ord_side = Sell, ord_price = 100, ord_qty = 8, ord_seq = 2\<rparr>]\<rparr>"

definition at_price_allocation :: batch_allocation where
  "at_price_allocation = the_value (allocate_batch at_price_batch (Some 100) 8)"

lemma at_price_clearable: "clearable at_price_batch 100 8"
proof -
  have "wf_batch at_price_batch" by code_simp
  moreover have "determine_clearing_outcome at_price_batch = Ok \<lparr>out_price = Some 100, out_volume = 8\<rparr>"
    by code_simp
  ultimately show ?thesis using clearable_outcome [of at_price_batch] by fastforce
qed

theorem allocation_pro_rata_quota_witness: "unat (5 :: qty) \<in> {7 * 8 div 12, 7 * 8 div 12 + 1}"
proof -
  let ?x = "bat_orders at_price_batch ! 1"
  have "allocate_batch at_price_batch (Some 100) 8 = Ok at_price_allocation"
    and "allocation_of ?x 5 \<in> set (ba_allocations at_price_allocation)"
    by code_simp+
  moreover have "?x \<in> set (bat_orders at_price_batch)" "ord_price ?x = 100" "unat (ord_qty ?x) = 7"
    "itm_volume (bat_orders at_price_batch) 100 (ord_side ?x) = 0"
    "volume (of_moneyness AtTheMoney 100 (ord_side ?x) (bat_orders at_price_batch)) = 12"
    by (simp_all add: at_price_batch_def itm_volume_def classify_order_def)
  ultimately show ?thesis
    using allocation_pro_rata_quota [OF at_price_clearable, of ?x at_price_allocation 5]
    by (simp add: Let_def)
qed

text \<open>The canonical fills never fail; they are one per non-zero allocation in batch order,
  numbered from zero, at the clearing price, within the limit of the order, and the consideration
  is exactly price times quantity.\<close>

theorem fills_are_canonical:
  assumes "clearable b cp target" and "allocate_batch b (Some cp) target = Ok alloc"
  shows "\<exists>fills. generate_canonical_fills b alloc = Ok fills
    \<and> map fill_id fills = map of_nat [0..<length fills]
    \<and> map fill_order_id fills = map al_order_id (executed (ba_allocations alloc))
    \<and> map fill_qty fills = map al_allocated_qty (executed (ba_allocations alloc))
    \<and> list_all (\<lambda>f. fill_execution_price f = cp \<and> fill_instrument_id f = bat_instrument b
        \<and> unat (fill_consideration f) = unat cp * unat (fill_qty f) \<and> fill_qty f \<noteq> 0) fills
    \<and> list_all (\<lambda>a. within_limit cp (al_side a) (al_limit_price a)) (executed (ba_allocations alloc))"
proof -
  have allocs: "ba_allocations alloc = map (\<lambda>o1. allocation_of o1 (order_fill b cp target o1)) (bat_orders b)"
    and heads: "ba_clearing_price alloc = Some cp" "ba_target_volume alloc = target"
    using assms(2) by (simp_all add: allocate_batch_eq [OF assms(1)]) auto
  let ?as = "executed (ba_allocations alloc)"
  let ?fs = "map (fill_for cp (bat_instrument b)) (enumerate 0 ?as)"
  have gen: "generate_canonical_fills b alloc = Ok ?fs"
    using assms(1) heads by (intro generate_canonical_fills_eq) (simp_all add: clearable_def)
  have ids: "map fill_id ?fs = map of_nat [0..<length ?fs]"
    "map fill_order_id ?fs = map al_order_id ?as" "map fill_qty ?fs = map al_allocated_qty ?as"
    by (auto simp: fill_for_def intro!: nth_equalityI simp: nth_enumerate_eq)
  have "list_all (\<lambda>f. fill_execution_price f = cp \<and> fill_instrument_id f = bat_instrument b
        \<and> unat (fill_consideration f) = unat cp * unat (fill_qty f) \<and> fill_qty f \<noteq> 0) ?fs"
    unfolding list_all_iff
    by (auto dest!: canonical_fills_members simp: unat_price_times_qty executed_def simp del: set_map)
  moreover have "list_all (\<lambda>a. within_limit cp (al_side a) (al_limit_price a)) ?as"
    using order_fill_otm [of _ cp b target]
    by (auto simp: list_all_iff executed_def allocs otm_iff) blast
  ultimately show ?thesis using gen ids by blast
qed

theorem fills_are_canonical_witness:
  "\<exists>fills. generate_canonical_fills at_price_batch at_price_allocation = Ok fills
    \<and> map fill_id fills = map of_nat [0..<length fills]"
proof -
  have "allocate_batch at_price_batch (Some 100) 8 = Ok at_price_allocation" by code_simp
  from fills_are_canonical [OF at_price_clearable this] show ?thesis by blast
qed

text \<open>The comparator inside the money orders by price and sequence number only.  As long as the
  sequence numbers differ, the fills do not depend on the sorting algorithm: every arrangement
  sorted by the comparator gives the fills the source computes.\<close>

theorem itm_fills_independent_of_sort:
  assumes "ts = Buy \<or> ts = Sell" and "distinct (map ord_seq itm)"
    and "mset arrangement = mset itm"
    and "sorted_wrt (\<lambda>a b. \<not> itm_before ts b a) arrangement"
    and "target \<le> q_itm"
  shows "allocate_itm ts target q_itm itm = (snd (foldl greedy_step (target, om_empty) arrangement), 0)"
proof -
  have seqs: "ord_seq a \<noteq> ord_seq b" if "a \<in> set itm" "b \<in> set itm" "a \<noteq> b" for a b
    using assms(2) that by (auto simp: distinct_map inj_on_def)
  then have "itm_buy_order.total_on (set itm)" "itm_sell_order.total_on (set itm)"
    by (auto simp: itm_buy_order.total_on_def itm_sell_order.total_on_def itm_before_def neq_iff)
  then have "arrangement = std_sort (itm_before ts) itm"
    using assms(1,3,4) itm_buy_order.std_sort_any itm_sell_order.std_sort_any by blast
  then show ?thesis using assms(5) by (simp add: allocate_itm_def)
qed

theorem itm_fills_independent_of_sort_witness:
  "allocate_itm Buy 6 9 (rev (take 2 (bat_orders inside_batch)))
   = (snd (foldl greedy_step (6, om_empty) (take 2 (bat_orders inside_batch))), 0)"
  by (rule itm_fills_independent_of_sort)
     (simp_all add: inside_batch_def itm_before_def Buy_def add_mset_commute)

definition tied_orders :: "order list" where
  "tied_orders =
     [\<lparr>ord_id = 1, ord_account = 10, ord_instrument = 7, ord_side = Buy, ord_price = 105, ord_qty = 5, ord_seq = 4\<rparr>,
      \<lparr>ord_id = 2, ord_account = 11, ord_instrument = 7, ord_side = Buy, ord_price = 105, ord_qty = 5, ord_seq = 4\<rparr>]"

text \<open>A valid batch may repeat a sequence number, and then the comparator does not decide: two
  arrangements that are both sorted for it give different fills, so the result would depend on
  the unstable \<open>std::sort\<close>.\<close>

theorem itm_order_not_total:
  "is_ok (batch_create 1 7 tied_orders)
   \<and> sorted_wrt (\<lambda>a b. \<not> itm_before Buy b a) tied_orders
   \<and> sorted_wrt (\<lambda>a b. \<not> itm_before Buy b a) (rev tied_orders)
   \<and> snd (foldl greedy_step (6, om_empty) tied_orders) \<noteq> snd (foldl greedy_step (6, om_empty) (rev tied_orders))"
  by code_simp

end
