(* ===== verification/Ledgers.thy ===== *)
theory Ledgers
  imports Primitives Ordered_Map
begin

text \<open>
  \<open>domain/account.hpp\<close>: accounts and the ledger.  An operation that mutates an account in place
  returns the updated account; on an error the source has not touched the account yet, so the
  error alone is the result.  \<open>get_or_create_account\<close> hands out a reference into the map; the
  model returns the account and the map that holds it, and the caller writes the updated account
  back under the same key.
\<close>

record account_state =
  acc_id :: account_id
  acc_cash :: money
  acc_inventory :: "(instrument_id, qty) omap"
  acc_salt :: bytes

type_synonym ledger = "(account_id, account_state) omap"

definition zero_salt :: bytes where
  "zero_salt = replicate 32 0"

definition new_account :: "account_id \<Rightarrow> money \<Rightarrow> account_state" where
  "new_account aid cash =
     \<lparr>acc_id = aid, acc_cash = cash, acc_inventory = om_empty, acc_salt = zero_salt\<rparr>"

definition set_commitment_salt :: "bytes \<Rightarrow> account_state \<Rightarrow> account_state" where
  "set_commitment_salt salt acc = acc\<lparr>acc_salt := salt\<rparr>"

definition is_blinded :: "account_state \<Rightarrow> bool" where
  "is_blinded acc \<longleftrightarrow> acc_salt acc \<noteq> zero_salt"

definition inventory_of :: "account_state \<Rightarrow> instrument_id \<Rightarrow> qty" where
  "inventory_of acc inst = (case om_find (acc_inventory acc) inst of Some q \<Rightarrow> q | None \<Rightarrow> 0)"

definition credit_cash :: "money \<Rightarrow> account_state \<Rightarrow> account_state result" where
  "credit_cash amount acc =
     and_then_conv (money_checked_add (acc_cash acc) amount) (\<lambda>c. Ok (acc\<lparr>acc_cash := c\<rparr>))"

definition debit_cash :: "money \<Rightarrow> account_state \<Rightarrow> account_state result" where
  "debit_cash amount acc =
     (case money_checked_sub (acc_cash acc) amount of
        Err e \<Rightarrow> Err (PrimitiveError InsufficientBalance ''Cash'')
      | Ok c \<Rightarrow> Ok (acc\<lparr>acc_cash := c\<rparr>))"

definition credit_inventory :: "instrument_id \<Rightarrow> qty \<Rightarrow> account_state \<Rightarrow> account_state result" where
  "credit_inventory inst amount acc =
     and_then_conv (qty_checked_add (inventory_of acc inst) amount)
       (\<lambda>q. Ok (acc\<lparr>acc_inventory := om_assign inst q (acc_inventory acc)\<rparr>))"

definition debit_inventory :: "instrument_id \<Rightarrow> qty \<Rightarrow> account_state \<Rightarrow> account_state result" where
  "debit_inventory inst amount acc =
     (case qty_checked_sub (inventory_of acc inst) amount of
        Err e \<Rightarrow> Err (PrimitiveError InsufficientBalance ''Inventory'')
      | Ok q \<Rightarrow>
          if q = 0 then Ok (acc\<lparr>acc_inventory := om_erase inst (acc_inventory acc)\<rparr>)
          else Ok (acc\<lparr>acc_inventory := om_assign inst q (acc_inventory acc)\<rparr>))"

section \<open>The ledger\<close>

definition get_or_create_account :: "account_id \<Rightarrow> ledger \<Rightarrow> account_state \<times> ledger" where
  "get_or_create_account aid l =
     (case om_find l aid of
        Some acc \<Rightarrow> (acc, l)
      | None \<Rightarrow> (new_account aid 0, om_assign aid (new_account aid 0) l))"

definition get_account :: "ledger \<Rightarrow> account_id \<Rightarrow> account_state option" where
  "get_account l aid = om_find l aid"

definition insert_account :: "account_state \<Rightarrow> ledger \<Rightarrow> ledger" where
  "insert_account acc l = om_assign (acc_id acc) acc l"

definition is_fully_blinded :: "ledger \<Rightarrow> bool" where
  "is_fully_blinded l \<longleftrightarrow> \<not> om_is_empty l \<and> list_all (\<lambda>(k, acc). is_blinded acc) (om_entries l)"

definition total_cash :: "ledger \<Rightarrow> money result" where
  "total_cash l = loop_result (\<lambda>t (k, acc). money_checked_add t (acc_cash acc)) 0 (om_entries l)"

definition total_inventory_of :: "ledger \<Rightarrow> instrument_id \<Rightarrow> qty result" where
  "total_inventory_of l inst =
     loop_result (\<lambda>t (k, acc). qty_checked_add t (inventory_of acc inst)) 0 (om_entries l)"

section \<open>What the operations do to cash and inventory\<close>

text \<open>Every account is filed under its own identifier.\<close>

definition ledger_keyed :: "ledger \<Rightarrow> bool" where
  "ledger_keyed l \<longleftrightarrow> (\<forall>k acc. om_find l k = Some acc \<longrightarrow> acc_id acc = k)"

lemma inventory_of_cash_update [simp]: "inventory_of (acc\<lparr>acc_cash := c\<rparr>) inst = inventory_of acc inst"
  by (simp add: inventory_of_def)

lemma credit_cash_Ok_iff:
  "credit_cash amount acc = Ok acc' \<longleftrightarrow>
     (\<exists>c. acc' = acc\<lparr>acc_cash := c\<rparr> \<and> unat c = unat (acc_cash acc) + unat amount)"
  by (auto simp: credit_cash_def result_simps money_arith.add_Ok_iff)

lemma debit_cash_Ok_iff:
  "debit_cash amount acc = Ok acc' \<longleftrightarrow>
     (\<exists>c. acc' = acc\<lparr>acc_cash := c\<rparr> \<and> unat (acc_cash acc) = unat amount + unat c)"
proof -
  have "debit_cash amount acc = Ok acc' \<longleftrightarrow>
      (\<exists>c. money_checked_sub (acc_cash acc) amount = Ok c \<and> acc' = acc\<lparr>acc_cash := c\<rparr>)"
    by (cases "money_checked_sub (acc_cash acc) amount") (auto simp: debit_cash_def)
  then show ?thesis by (auto simp: money_arith.sub_Ok_iff)
qed

lemma credit_inventory_Ok_iff:
  "credit_inventory inst amount acc = Ok acc' \<longleftrightarrow>
     (\<exists>q. acc' = acc\<lparr>acc_inventory := om_assign inst q (acc_inventory acc)\<rparr>
          \<and> unat q = unat (inventory_of acc inst) + unat amount)"
  by (auto simp: credit_inventory_def result_simps qty_arith.add_Ok_iff)

lemma debit_inventory_Ok_iff:
  "debit_inventory inst amount acc = Ok acc' \<longleftrightarrow>
     (\<exists>q. acc' = acc\<lparr>acc_inventory :=
              (if q = 0 then om_erase inst (acc_inventory acc) else om_assign inst q (acc_inventory acc))\<rparr>
          \<and> unat (inventory_of acc inst) = unat amount + unat q)"
proof -
  have "debit_inventory inst amount acc = Ok acc' \<longleftrightarrow>
      (\<exists>q. qty_checked_sub (inventory_of acc inst) amount = Ok q \<and>
        acc' = acc\<lparr>acc_inventory :=
              (if q = 0 then om_erase inst (acc_inventory acc) else om_assign inst q (acc_inventory acc))\<rparr>)"
    by (cases "qty_checked_sub (inventory_of acc inst) amount") (auto simp: debit_inventory_def)
  then show ?thesis by (simp add: qty_arith.sub_Ok_iff conj_commute)
qed

lemma total_cash_Ok_iff:
  "total_cash l = Ok t \<longleftrightarrow> unat t = sum_list (map (\<lambda>(k, acc). unat (acc_cash acc)) (om_entries l))"
  using money_arith.sum_loop_Ok_iff [of "\<lambda>_. True" "\<lambda>e. acc_cash (snd e)" 0 "om_entries l" t]
  by (simp add: total_cash_def case_prod_unfold)

lemma total_cash_is_ok_iff:
  "is_ok (total_cash l) \<longleftrightarrow> sum_list (map (\<lambda>(k, acc). unat (acc_cash acc)) (om_entries l)) < 2 ^ 128"
  using money_arith.sum_loop_is_ok_iff [of "\<lambda>_. True" "\<lambda>e. acc_cash (snd e)" 0 "om_entries l"]
  by (simp add: total_cash_def case_prod_unfold)

lemma total_inventory_of_Ok_iff:
  "total_inventory_of l inst = Ok t \<longleftrightarrow>
     unat t = sum_list (map (\<lambda>(k, acc). unat (inventory_of acc inst)) (om_entries l))"
  using qty_arith.sum_loop_Ok_iff [of "\<lambda>_. True" "\<lambda>e. inventory_of (snd e) inst" 0 "om_entries l" t]
  by (simp add: total_inventory_of_def case_prod_unfold)

lemma total_inventory_is_ok_iff:
  "is_ok (total_inventory_of l inst) \<longleftrightarrow>
     sum_list (map (\<lambda>(k, acc). unat (inventory_of acc inst)) (om_entries l)) < 2 ^ 64"
  using qty_arith.sum_loop_is_ok_iff [of "\<lambda>_. True" "\<lambda>e. inventory_of (snd e) inst" 0 "om_entries l"]
  by (simp add: total_inventory_of_def case_prod_unfold)

end
