(* ===== verification/Transition.thy ===== *)
theory Transition
  imports Batch_Allocation Ledgers
begin

text \<open>
  \<open>engine/transition.hpp\<close> and \<open>transition.cpp\<close>: the settlement of fills on a ledger and the
  execution of a batch.  The lemmas track, account by account, what a list of fills does to cash
  and inventory; conservation and the frame property of a batch follow.
\<close>

record batch_execution_result =
  res_outcome :: clearing_outcome
  res_allocation :: batch_allocation
  res_fills :: "fill list"
  res_post_state :: ledger

definition apply_fill :: "ledger \<Rightarrow> fill \<Rightarrow> ledger result" where
  "apply_fill l f =
     (let (acc, l') = get_or_create_account (fill_account_id f) l in
      if fill_side f = Buy then
        and_then_conv (debit_cash (fill_consideration f) acc) (\<lambda>acc1.
        and_then_conv (credit_inventory (fill_instrument_id f) (fill_qty f) acc1) (\<lambda>acc2.
          Ok (om_assign (fill_account_id f) acc2 l')))
      else
        and_then_conv (debit_inventory (fill_instrument_id f) (fill_qty f) acc) (\<lambda>acc1.
        and_then_conv (credit_cash (fill_consideration f) acc1) (\<lambda>acc2.
          Ok (om_assign (fill_account_id f) acc2 l'))))"

definition same_total :: "'a result \<Rightarrow> 'a result \<Rightarrow> bool" where
  "same_total a b \<longleftrightarrow> is_ok a \<and> is_ok b \<and> the_value a = the_value b"

definition check_instrument :: "ledger \<Rightarrow> ledger \<Rightarrow> unit \<Rightarrow> instrument_id \<Rightarrow> unit result" where
  "check_instrument pre post u inst =
     reject_if (\<not> same_total (total_inventory_of pre inst) (total_inventory_of post inst))
       (DomainError OrderValidationFailed ''InvariantViolation: asset_conservation'') (Ok ())"

definition apply_batch_transition :: "ledger \<Rightarrow> fill list \<Rightarrow> ledger result" where
  "apply_batch_transition pre fills =
     and_then (loop_result apply_fill pre fills) (\<lambda>post.
       reject_if (\<not> same_total (total_cash pre) (total_cash post))
         (DomainError OrderValidationFailed ''InvariantViolation: cash_conservation'')
       (and_then (loop_result (check_instrument pre post) ()
                   (sorted_list_of_set (set (map fill_instrument_id fills)))) (\<lambda>u.
         Ok post)))"

definition execute_batch :: "ledger \<Rightarrow> batch \<Rightarrow> batch_execution_result result" where
  "execute_batch pre b =
     and_then_conv (determine_clearing_outcome b) (\<lambda>outcome.
     and_then_conv (allocate_batch b (out_price outcome) (out_volume outcome)) (\<lambda>allocation.
     and_then_conv (generate_canonical_fills b allocation) (\<lambda>fills.
     and_then_conv (apply_batch_transition pre fills) (\<lambda>post.
       Ok \<lparr>res_outcome = outcome, res_allocation = allocation, res_fills = fills,
           res_post_state = post\<rparr>))))"

section \<open>What a fill does to the accounts\<close>

definition cash_of :: "ledger \<Rightarrow> account_id \<Rightarrow> nat" where
  "cash_of l k = (case om_find l k of Some acc \<Rightarrow> unat (acc_cash acc) | None \<Rightarrow> 0)"

definition stock_of :: "instrument_id \<Rightarrow> ledger \<Rightarrow> account_id \<Rightarrow> nat" where
  "stock_of inst l k = (case om_find l k of Some acc \<Rightarrow> unat (inventory_of acc inst) | None \<Rightarrow> 0)"

definition paid :: "bool \<Rightarrow> account_id \<Rightarrow> fill list \<Rightarrow> nat" where
  "paid buy k fills = sum_list (map (\<lambda>f. if (fill_side f = Buy) = buy \<and> fill_account_id f = k
                                     then unat (fill_consideration f) else 0) fills)"

definition moved :: "bool \<Rightarrow> instrument_id \<Rightarrow> account_id \<Rightarrow> fill list \<Rightarrow> nat" where
  "moved buy inst k fills =
     sum_list (map (\<lambda>f. if (fill_side f = Buy) = buy \<and> fill_account_id f = k \<and> fill_instrument_id f = inst
                        then unat (fill_qty f) else 0) fills)"

lemma paid_moved_simps [simp]:
  "paid buy k [] = 0" "moved buy inst k [] = 0"
  "paid buy k (f # fs) =
     (if (fill_side f = Buy) = buy \<and> fill_account_id f = k then unat (fill_consideration f) else 0) + paid buy k fs"
  "moved buy inst k (f # fs) =
     (if (fill_side f = Buy) = buy \<and> fill_account_id f = k \<and> fill_instrument_id f = inst
      then unat (fill_qty f) else 0) + moved buy inst k fs"
  by (simp_all add: paid_def moved_def)

lemma inventory_of_assign: 
  "inventory_of (acc\<lparr>acc_inventory := om_assign inst q (acc_inventory acc)\<rparr>) i =
     (if i = inst then q else inventory_of acc i)"
  by (simp add: inventory_of_def)

lemma inventory_of_cash_assign:
  "inventory_of (acc\<lparr>acc_cash := c, acc_inventory := om_assign inst q (acc_inventory acc)\<rparr>) i =
     (if i = inst then q else inventory_of acc i)"
  by (simp add: inventory_of_def)

lemma inventory_of_erase:
  "inventory_of (acc\<lparr>acc_inventory := om_erase inst (acc_inventory acc)\<rparr>) i =
     (if i = inst then 0 else inventory_of acc i)"
  by (simp add: inventory_of_def)

lemma inventory_of_debit:
  "inventory_of (acc\<lparr>acc_inventory :=
      if q = 0 then om_erase inst (acc_inventory acc) else om_assign inst q (acc_inventory acc)\<rparr>) i =
     (if i = inst then q else inventory_of acc i)"
  by (simp add: inventory_of_assign inventory_of_erase)

text \<open>The account a fill works on, as it is before the fill.\<close>

lemma get_or_create:
  assumes "get_or_create_account k l = (acc, l')"
  shows "om_find l' j = (if j = k then Some acc else om_find l j)"
    and "unat (acc_cash acc) = cash_of l k" and "unat (inventory_of acc i) = stock_of i l k"
    and "om_find l k = None \<Longrightarrow> acc = new_account k 0" and "om_find l k = Some a \<Longrightarrow> acc = a"
  using assms
  by (auto simp: get_or_create_account_def cash_of_def stock_of_def new_account_def inventory_of_def
      split: option.splits)

lemma apply_fill_account:
  assumes "apply_fill l f = Ok l'"
  obtains acc where "l' = om_assign (fill_account_id f) acc l"
    and "unat (acc_cash acc) + (if fill_side f = Buy then unat (fill_consideration f) else 0)
       = cash_of l (fill_account_id f) + (if fill_side f = Buy then 0 else unat (fill_consideration f))"
    and "\<And>i. unat (inventory_of acc i) + (if fill_side f \<noteq> Buy \<and> fill_instrument_id f = i then unat (fill_qty f) else 0)
       = stock_of i l (fill_account_id f) + (if fill_side f = Buy \<and> fill_instrument_id f = i then unat (fill_qty f) else 0)"
proof -
  obtain acc0 l0 where g: "get_or_create_account (fill_account_id f) l = (acc0, l0)" by fastforce
  have same: "om_assign (fill_account_id f) a l0 = om_assign (fill_account_id f) a l" for a
    by (rule omap_eqI) (simp add: get_or_create(1) [OF g])
  note g = g get_or_create [OF g]
  show thesis
  proof (cases "fill_side f = Buy")
    case True
    with assms g(1) obtain acc1 acc2 where "debit_cash (fill_consideration f) acc0 = Ok acc1"
      "credit_inventory (fill_instrument_id f) (fill_qty f) acc1 = Ok acc2"
      "l' = om_assign (fill_account_id f) acc2 l0"
      by (auto simp: apply_fill_def result_simps)
    then show thesis using True g(2-4)
      by (intro that [of acc2])
         (auto simp: same debit_cash_Ok_iff credit_inventory_Ok_iff inventory_of_assign inventory_of_cash_assign)
  next
    case False
    with assms g(1) obtain acc1 acc2 where "debit_inventory (fill_instrument_id f) (fill_qty f) acc0 = Ok acc1"
      "credit_cash (fill_consideration f) acc1 = Ok acc2"
      "l' = om_assign (fill_account_id f) acc2 l0"
      by (auto simp: apply_fill_def result_simps)
    then show thesis using False g(2-4)
      by (intro that [of acc2])
         (auto simp: same credit_cash_Ok_iff debit_inventory_Ok_iff inventory_of_debit)
  qed
qed

lemma apply_fill_cash:
  assumes "apply_fill l f = Ok l'"
  shows "cash_of l' k + paid True k [f] = cash_of l k + paid False k [f]"
  by (rule apply_fill_account [OF assms]) (auto simp: cash_of_def)

lemma apply_fill_stock:
  assumes "apply_fill l f = Ok l'"
  shows "stock_of i l' k + moved False i k [f] = stock_of i l k + moved True i k [f]"
proof (rule apply_fill_account [OF assms])
  fix acc
  assume "l' = om_assign (fill_account_id f) acc l"
    and "\<And>i. unat (inventory_of acc i) + (if fill_side f \<noteq> Buy \<and> fill_instrument_id f = i then unat (fill_qty f) else 0)
       = stock_of i l (fill_account_id f) + (if fill_side f = Buy \<and> fill_instrument_id f = i then unat (fill_qty f) else 0)"
  from this(1) this(2) [of i] show ?thesis
    by (cases "k = fill_account_id f") (auto simp: stock_of_def split: if_splits)
qed

lemma settle_cash:
  "loop_result apply_fill l fills = Ok l' \<Longrightarrow> cash_of l' k + paid True k fills = cash_of l k + paid False k fills"
proof (induction fills arbitrary: l)
  case (Cons f fills)
  then obtain l1 where "apply_fill l f = Ok l1" "loop_result apply_fill l1 fills = Ok l'"
    by (auto simp: result_simps)
  then show ?case using Cons.IH [of l1] apply_fill_cash [of l f l1 k] by simp
qed simp

lemma settle_stock:
  "loop_result apply_fill l fills = Ok l' \<Longrightarrow>
   stock_of i l' k + moved False i k fills = stock_of i l k + moved True i k fills"
proof (induction fills arbitrary: l)
  case (Cons f fills)
  then obtain l1 where "apply_fill l f = Ok l1" "loop_result apply_fill l1 fills = Ok l'"
    by (auto simp: result_simps)
  then show ?case using Cons.IH [of l1] apply_fill_stock [of l f l1 i k] by simp
qed simp

lemma settle_frame:
  "loop_result apply_fill l fills = Ok l' \<Longrightarrow> k \<notin> fill_account_id ` set fills \<Longrightarrow> om_find l' k = om_find l k"
proof (induction fills arbitrary: l)
  case (Cons f fills)
  then obtain l1 where l1: "apply_fill l f = Ok l1" "loop_result apply_fill l1 fills = Ok l'"
    by (auto simp: result_simps)
  have "om_find l1 k = om_find l k"
    by (rule apply_fill_account [OF l1(1)]) (use Cons.prems in auto)
  then show ?case using Cons.IH [OF l1(2)] Cons.prems by simp
qed simp

lemma settle_accounts:
  "loop_result apply_fill l fills = Ok l' \<Longrightarrow> k \<in> fill_account_id ` set fills \<Longrightarrow> om_find l' k \<noteq> None"
proof (induction fills arbitrary: l' rule: rev_induct)
  case (snoc f fills)
  then obtain l1 where l1: "loop_result apply_fill l fills = Ok l1" "apply_fill l1 f = Ok l'"
    by (auto simp: loop_result_append result_simps)
  show ?case
    by (rule apply_fill_account [OF l1(2)]) (use snoc.IH [OF l1(1)] snoc.prems in auto)
qed simp

section \<open>Totals\<close>

definition cash_sum :: "ledger \<Rightarrow> nat" where
  "cash_sum l = sum_list (map (\<lambda>(k, acc). unat (acc_cash acc)) (om_entries l))"

definition stock_sum :: "instrument_id \<Rightarrow> ledger \<Rightarrow> nat" where
  "stock_sum inst l = sum_list (map (\<lambda>(k, acc). unat (inventory_of acc inst)) (om_entries l))"

definition paid_total :: "bool \<Rightarrow> fill list \<Rightarrow> nat" where
  "paid_total buy fills =
     sum_list (map (\<lambda>f. if (fill_side f = Buy) = buy then unat (fill_consideration f) else 0) fills)"

definition moved_total :: "bool \<Rightarrow> instrument_id \<Rightarrow> fill list \<Rightarrow> nat" where
  "moved_total buy inst fills =
     sum_list (map (\<lambda>f. if (fill_side f = Buy) = buy \<and> fill_instrument_id f = inst
                        then unat (fill_qty f) else 0) fills)"

lemma apply_fill_cash_sum:
  assumes "apply_fill l f = Ok l'"
  shows "cash_sum l' + paid_total True [f] = cash_sum l + paid_total False [f]"
proof (rule apply_fill_account [OF assms])
  fix acc
  assume "l' = om_assign (fill_account_id f) acc l"
    and "unat (acc_cash acc) + (if fill_side f = Buy then unat (fill_consideration f) else 0)
       = cash_of l (fill_account_id f) + (if fill_side f = Buy then 0 else unat (fill_consideration f))"
  then show ?thesis
    using om.total_assign [of "\<lambda>k acc. unat (acc_cash acc)" "fill_account_id f" acc l]
    by (simp add: cash_sum_def cash_of_def paid_total_def split: if_splits)
qed

lemma apply_fill_stock_sum:
  assumes "apply_fill l f = Ok l'"
  shows "stock_sum i l' + moved_total False i [f] = stock_sum i l + moved_total True i [f]"
proof (rule apply_fill_account [OF assms])
  fix acc
  assume "l' = om_assign (fill_account_id f) acc l"
    and "\<And>i. unat (inventory_of acc i) + (if fill_side f \<noteq> Buy \<and> fill_instrument_id f = i then unat (fill_qty f) else 0)
       = stock_of i l (fill_account_id f) + (if fill_side f = Buy \<and> fill_instrument_id f = i then unat (fill_qty f) else 0)"
  from this(1) this(2) [of i] show ?thesis
    using om.total_assign [of "\<lambda>k acc. unat (inventory_of acc i)" "fill_account_id f" acc l]
    by (simp add: stock_sum_def stock_of_def moved_total_def split: if_splits)
qed

lemma settle_cash_sum:
  "loop_result apply_fill l fills = Ok l' \<Longrightarrow> cash_sum l' + paid_total True fills = cash_sum l + paid_total False fills"
proof (induction fills arbitrary: l)
  case (Cons f fills)
  then obtain l1 where "apply_fill l f = Ok l1" "loop_result apply_fill l1 fills = Ok l'"
    by (auto simp: result_simps)
  then show ?case using Cons.IH [of l1] apply_fill_cash_sum [of l f l1] by (simp add: paid_total_def)
qed (simp add: paid_total_def)

lemma settle_stock_sum:
  "loop_result apply_fill l fills = Ok l' \<Longrightarrow>
   stock_sum i l' + moved_total False i fills = stock_sum i l + moved_total True i fills"
proof (induction fills arbitrary: l)
  case (Cons f fills)
  then obtain l1 where "apply_fill l f = Ok l1" "loop_result apply_fill l1 fills = Ok l'"
    by (auto simp: result_simps)
  then show ?case using Cons.IH [of l1] apply_fill_stock_sum [of l f l1 i] by (simp add: moved_total_def)
qed (simp add: moved_total_def)

text \<open>The conservation guards compare the totals.\<close>

lemma total_cash_sum: "total_cash l = Ok t \<longleftrightarrow> unat t = cash_sum l"
  by (simp add: total_cash_Ok_iff cash_sum_def)

lemma total_stock_sum: "total_inventory_of l inst = Ok t \<longleftrightarrow> unat t = stock_sum inst l"
  by (simp add: total_inventory_of_Ok_iff stock_sum_def)

lemma same_total_word:
  fixes a b :: "'w::len word result"
  assumes "\<And>t. a = Ok t \<longleftrightarrow> unat t = n" and "\<And>t. b = Ok t \<longleftrightarrow> unat t = m"
  shows "same_total a b \<longleftrightarrow> n = m \<and> is_ok a"
proof (cases a)
  case (Ok t)
  then have t: "unat t = n" using assms(1) by simp
  show ?thesis
  proof (cases b)
    case (Ok t')
    then have "unat t' = m" using assms(2) by simp
    with t \<open>a = Ok t\<close> Ok show ?thesis by (auto simp: same_total_def word_unat_eq_iff)
  next
    case (Err e)
    then have "unat t \<noteq> m" using assms(2) [of t] by simp
    with t Err show ?thesis by (auto simp: same_total_def)
  qed
qed (simp add: same_total_def)

lemma same_total_cash: "same_total (total_cash l) (total_cash l') \<longleftrightarrow> cash_sum l = cash_sum l' \<and> is_ok (total_cash l)"
  by (rule same_total_word) (rule total_cash_sum)+

lemma same_total_stock:
  "same_total (total_inventory_of l i) (total_inventory_of l' i) \<longleftrightarrow>
     stock_sum i l = stock_sum i l' \<and> is_ok (total_inventory_of l i)"
  by (rule same_total_word) (rule total_stock_sum)+

lemma check_instruments_loop:
  "loop_result (check_instrument pre post) () insts = Ok u \<longleftrightarrow>
     (\<forall>i\<in>set insts. stock_sum i pre = stock_sum i post \<and> is_ok (total_inventory_of pre i))"
  by (induction insts) (auto simp: check_instrument_def result_simps same_total_stock)

lemma apply_batch_transition_Ok_iff:
  "apply_batch_transition pre fills = Ok post \<longleftrightarrow>
     loop_result apply_fill pre fills = Ok post
     \<and> cash_sum pre = cash_sum post \<and> is_ok (total_cash pre)
     \<and> (\<forall>i\<in>fill_instrument_id ` set fills.
          stock_sum i pre = stock_sum i post \<and> is_ok (total_inventory_of pre i))"
  by (auto simp: apply_batch_transition_def result_simps same_total_cash check_instruments_loop)

section \<open>The fills of a batch balance\<close>

definition side_sum :: "bool \<Rightarrow> order_allocation list \<Rightarrow> nat" where
  "side_sum buy as = sum_list (map (\<lambda>a. if (al_side a = Buy) = buy then unat (al_allocated_qty a) else 0) as)"

lemma paid_total_fills:
  "paid_total buy (map (fill_for cp inst) (enumerate n as)) = unat cp * side_sum buy as"
proof (induction "as" arbitrary: n)
  case (Cons a "as")
  then show ?case
    by (simp add: paid_total_def side_sum_def fill_for_def unat_price_times_qty distrib_left)
qed (simp add: paid_total_def side_sum_def)

lemma moved_total_fills:
  "moved_total buy i (map (fill_for cp inst) (enumerate n as)) = (if i = inst then side_sum buy as else 0)"
proof (induction "as" arbitrary: n)
  case (Cons a "as")
  then show ?case by (simp add: moved_total_def side_sum_def fill_for_def)
qed (simp add: moved_total_def side_sum_def)

lemma side_sum_executed: "side_sum buy (executed as) = side_sum buy as"
  by (induction "as") (simp_all add: side_sum_def executed_def)

lemma side_sum_orders:
  assumes "clearable b cp target"
  shows "side_sum buy (map (\<lambda>o1. allocation_of o1 (order_fill b cp target o1)) (bat_orders b)) = unat target"
proof -
  define ts where "ts = (if buy then Buy else Sell)"
  have "(ord_side o1 = Buy) = buy \<longleftrightarrow> ord_side o1 = ts" if "o1 \<in> set (bat_orders b)" for o1
    using wf_batch_orderD [of b o1] assms that
    by (auto simp: clearable_def wf_order_def valid_side_def ts_def)
  then have "side_sum buy (map (\<lambda>o1. allocation_of o1 (order_fill b cp target o1)) (bat_orders b))
      = sum_list (map (\<lambda>o1. if ord_side o1 = ts then unat (order_fill b cp target o1) else 0) (bat_orders b))"
    by (auto simp: side_sum_def comp_def intro!: sum_list_cong cong: if_cong)
  then show ?thesis using sum_side_fills [OF assms, of ts] by (simp add: ts_def)
qed

text \<open>The stages of \<open>execute_batch\<close> before the settlement.\<close>

definition batch_stages :: "batch \<Rightarrow> clearing_outcome \<Rightarrow> batch_allocation \<Rightarrow> fill list \<Rightarrow> bool" where
  "batch_stages b out alloc fills \<longleftrightarrow> determine_clearing_outcome b = Ok out
     \<and> allocate_batch b (out_price out) (out_volume out) = Ok alloc
     \<and> generate_canonical_fills b alloc = Ok fills"

lemma batch_stages_cases:
  assumes "wf_batch b" "batch_stages b out alloc fills"
  obtains "out_price out = None" "fills = []" "ba_allocations alloc = map (\<lambda>o1. allocation_of o1 0) (bat_orders b)"
  | cp where "out_price out = Some cp" "clearable b cp (out_volume out)"
    "ba_allocations alloc = map (\<lambda>o1. allocation_of o1 (order_fill b cp (out_volume out) o1)) (bat_orders b)"
    "fills = map (fill_for cp (bat_instrument b)) (enumerate 0 (executed (ba_allocations alloc)))"
proof (cases "out_price out")
  case None
  then have "ba_allocations alloc = map (\<lambda>o1. allocation_of o1 0) (bat_orders b)" "ba_clearing_price alloc = None"
    using assms(2) by (auto simp: batch_stages_def allocate_batch_none)
  moreover from this have "fills = []"
    using assms(2) by (simp add: batch_stages_def generate_canonical_fills_none)
  ultimately show thesis using None that(1) by blast
next
  case (Some cp)
  then have c: "clearable b cp (out_volume out)"
    using clearable_outcome assms by (simp add: batch_stages_def)
  then have alloc: "alloc = \<lparr>ba_clearing_price = Some cp, ba_target_volume = out_volume out,
        ba_total_buy = out_volume out, ba_total_sell = out_volume out,
        ba_allocations = map (\<lambda>o1. allocation_of o1 (order_fill b cp (out_volume out) o1)) (bat_orders b)\<rparr>"
    using assms(2) Some by (simp add: batch_stages_def allocate_batch_eq)
  moreover have "fills = map (fill_for cp (bat_instrument b)) (enumerate 0 (executed (ba_allocations alloc)))"
    using assms(2) c alloc generate_canonical_fills_eq [of alloc cp b]
    by (simp add: batch_stages_def clearable_def)
  ultimately show thesis using Some c that(2) by simp
qed

lemma batch_fills_balance:
  assumes "wf_batch b" "batch_stages b out alloc fills"
  shows "paid_total True fills = paid_total False fills
    \<and> moved_total True i fills = moved_total False i fills
    \<and> fill_instrument_id ` set fills \<subseteq> {bat_instrument b}"
  using assms
proof (cases rule: batch_stages_cases)
  case 1
  then show ?thesis by (simp add: paid_total_def moved_total_def)
next
  case (2 cp)
  note sums = side_sum_orders [OF 2(2)]
  have "fill_instrument_id f = bat_instrument b" if "f \<in> set fills" for f
    using that canonical_fills_members unfolding 2(4) by fast
  then show ?thesis
    by (auto simp: 2(4) paid_total_fills moved_total_fills side_sum_executed 2(3) sums simp del: set_map)
qed

lemma execute_batch_Ok_iff:
  "execute_batch pre b = Ok r \<longleftrightarrow>
     batch_stages b (res_outcome r) (res_allocation r) (res_fills r)
     \<and> apply_batch_transition pre (res_fills r) = Ok (res_post_state r)"
  by (cases r) (auto simp: execute_batch_def batch_stages_def result_simps)

lemma batch_stages_exist:
  assumes "wf_batch b" "totals_fit (bat_orders b)"
  shows "\<exists>out alloc fills. batch_stages b out alloc fills"
proof -
  have "is_ok (determine_clearing_outcome b)"
    using compute_is_ok [OF wf_batch_sides_valid [OF assms(1)] assms(2)]
    by (auto simp: determine_clearing_outcome_def is_ok_iff)
  then obtain out where out: "determine_clearing_outcome b = Ok out" by (auto simp: is_ok_iff)
  show ?thesis
  proof (cases "out_price out")
    case None
    with out show ?thesis
      by (simp add: batch_stages_def allocate_batch_none generate_canonical_fills_none)
  next
    case (Some cp)
    note c = clearable_outcome [OF assms(1) out Some]
    then have "out_volume out \<noteq> 0" by (simp add: clearable_def)
    with out Some c show ?thesis
      by (simp add: batch_stages_def allocate_batch_eq generate_canonical_fills_eq)
  qed
qed

lemma settled_totals:
  assumes "wf_batch b" "batch_stages b out alloc fills" "loop_result apply_fill pre fills = Ok post"
  shows "cash_sum post = cash_sum pre \<and> stock_sum i post = stock_sum i pre"
  using settle_cash_sum [OF assms(3)] settle_stock_sum [OF assms(3), of i]
    batch_fills_balance [OF assms(1,2), of i] by simp

section \<open>Properties of a batch execution\<close>

definition sample_ledger :: ledger where
  "sample_ledger = insert_account (new_account 10 1000)
     (insert_account ((new_account 11 0)\<lparr>acc_inventory := om_assign 7 50 om_empty\<rparr>) om_empty)"

definition sample_result :: batch_execution_result where
  "sample_result = the_value (execute_batch sample_ledger sample_batch)"

lemma sample_execution: "execute_batch sample_ledger sample_batch = Ok sample_result"
  by code_simp

lemma sample_wf: "wf_batch sample_batch"
  by code_simp

text \<open>C6: executing a valid batch neither creates nor destroys cash, nor units of any instrument.\<close>

theorem batch_conserves:
  assumes "wf_batch b" and "execute_batch pre b = Ok r"
  shows "cash_sum (res_post_state r) = cash_sum pre
    \<and> stock_sum i (res_post_state r) = stock_sum i pre"
  using assms settled_totals [of b "res_outcome r" "res_allocation r" "res_fills r" pre "res_post_state r" i]
  by (simp add: execute_batch_Ok_iff apply_batch_transition_Ok_iff)

theorem batch_conserves_witness: "cash_sum (res_post_state sample_result) = 1000"
proof -
  have "cash_sum sample_ledger = 1000" by code_simp
  then show ?thesis using batch_conserves [OF sample_wf sample_execution, of 7] by simp
qed

text \<open>What each account holds afterwards: cash moves by exactly the considerations of its own
  sales and purchases, each instrument by exactly the quantities it bought and sold, and an
  account without a fill is untouched.\<close>

theorem batch_settles_accounts:
  assumes "execute_batch pre b = Ok r"
  shows "cash_of (res_post_state r) k + paid True k (res_fills r) = cash_of pre k + paid False k (res_fills r)
    \<and> stock_of i (res_post_state r) k + moved False i k (res_fills r)
        = stock_of i pre k + moved True i k (res_fills r)
    \<and> (k \<notin> fill_account_id ` set (res_fills r) \<longrightarrow> om_find (res_post_state r) k = om_find pre k)"
  using assms settle_cash [of pre "res_fills r" "res_post_state r" k]
    settle_stock [of pre "res_fills r" "res_post_state r" i k]
    settle_frame [of pre "res_fills r" "res_post_state r" k]
  by (simp add: execute_batch_Ok_iff apply_batch_transition_Ok_iff)

theorem batch_settles_accounts_witness: "cash_of (res_post_state sample_result) 10 + 309 = 1000"
proof -
  have "paid True 10 (res_fills sample_result) = 309" "paid False 10 (res_fills sample_result) = 0"
    "cash_of sample_ledger 10 = 1000" by code_simp+
  then show ?thesis using batch_settles_accounts [OF sample_execution, of 10 7] by simp
qed

text \<open>The conservation guards never fire.  On a ledger whose totals fit their types, a valid
  batch whose sides fit in 64 bits executes exactly when each of its fills can be settled, and the
  post-state is the settled ledger.\<close>

theorem execution_fails_only_in_settlement:
  assumes "wf_batch b" and "totals_fit (bat_orders b)"
    and "is_ok (total_cash pre)" and "is_ok (total_inventory_of pre (bat_instrument b))"
  shows "\<exists>out alloc fills. generate_canonical_fills b alloc = Ok fills
    \<and> execute_batch pre b = and_then_conv (loop_result apply_fill pre fills)
        (\<lambda>post. Ok \<lparr>res_outcome = out, res_allocation = alloc, res_fills = fills, res_post_state = post\<rparr>)"
proof -
  obtain out alloc fills where st: "batch_stages b out alloc fills"
    using batch_stages_exist [OF assms(1,2)] by blast
  have "execute_batch pre b = and_then_conv (loop_result apply_fill pre fills)
        (\<lambda>post. Ok \<lparr>res_outcome = out, res_allocation = alloc, res_fills = fills, res_post_state = post\<rparr>)"
  proof (cases "loop_result apply_fill pre fills")
    case (Ok post)
    have "stock_sum i pre = stock_sum i post \<and> is_ok (total_inventory_of pre i)"
      if "i \<in> fill_instrument_id ` set fills" for i
      using that batch_fills_balance [OF assms(1) st, of i] settled_totals [OF assms(1) st Ok, of i] assms(4)
      by auto
    then have "apply_batch_transition pre fills = Ok post"
      using Ok settled_totals [OF assms(1) st Ok] assms(3) by (simp add: apply_batch_transition_Ok_iff)
    then show ?thesis using st Ok by (simp add: execute_batch_def batch_stages_def)
  next
    case (Err e)
    then show ?thesis using st
      by (simp add: execute_batch_def batch_stages_def apply_batch_transition_def)
  qed
  then show ?thesis using st by (auto simp: batch_stages_def)
qed

theorem execution_fails_only_in_settlement_witness:
  "\<exists>out alloc fills. generate_canonical_fills sample_batch alloc = Ok fills
    \<and> execute_batch sample_ledger sample_batch = and_then_conv (loop_result apply_fill sample_ledger fills)
        (\<lambda>post. Ok \<lparr>res_outcome = out, res_allocation = alloc, res_fills = fills, res_post_state = post\<rparr>)"
proof (rule execution_fails_only_in_settlement [OF sample_wf])
  show "totals_fit (bat_orders sample_batch)"
    by (simp add: totals_fit_def total_side_def sample_simps)
  show "is_ok (total_cash sample_ledger)" "is_ok (total_inventory_of sample_ledger (bat_instrument sample_batch))"
    by code_simp+
qed

end
