(* ===== verification/Checker.thy ===== *)
theory Checker
  imports Transition
begin

text \<open>
  \<open>engine/checker.hpp\<close> and \<open>checker.cpp\<close>: the independent check of a proposed execution result.
  The main lemma characterises exactly what it accepts.
\<close>

datatype invariant_violation_kind =
    CashConservation | AssetConservation | VolumeConservation | Overfill | LimitPriceViolation
  | IncorrectConsideration | NonDeterministicClearing | AllocationRuleMismatch | AccountStateMismatch

definition checker_error :: "string \<Rightarrow> error" where
  "checker_error msg = DomainError OrderValidationFailed msg"

definition index_orders :: "order list \<Rightarrow> (u64, order) omap" where
  "index_orders orders = foldl (\<lambda>m o1. om_assign (ord_id o1) o1 m) om_empty orders"

definition check_fill :: "(u64, order) omap \<Rightarrow> qty \<times> qty \<Rightarrow> fill \<Rightarrow> (qty \<times> qty) result" where
  "check_fill order_map = (\<lambda>(total_buy, total_sell) f.
     case om_find order_map (fill_order_id f) of
       None \<Rightarrow> Err (checker_error ''AccountStateMismatch: fill references order not in batch'')
     | Some o1 \<Rightarrow>
         reject_if (ord_qty o1 < fill_qty f) (checker_error ''Overfill: fill_qty > order_qty'')
        (and_then
          (if fill_side f = Buy then
             reject_if (ord_price o1 < fill_execution_price f)
               (checker_error ''LimitPriceViolation: buy fill above limit'')
               (and_then_conv (qty_checked_add total_buy (fill_qty f)) (\<lambda>q. Ok (q, total_sell)))
           else
             reject_if (fill_execution_price f < ord_price o1)
               (checker_error ''LimitPriceViolation: sell fill below limit'')
               (and_then_conv (qty_checked_add total_sell (fill_qty f)) (\<lambda>q. Ok (total_buy, q))))
          (\<lambda>totals.
             case money_from_price_qty (fill_execution_price f) (fill_qty f) of
               Err e \<Rightarrow> Err (checker_error ''IncorrectConsideration'')
             | Ok c \<Rightarrow> reject_if (fill_consideration f \<noteq> c) (checker_error ''IncorrectConsideration'') (Ok totals))))"

definition check_account :: "ledger \<Rightarrow> instrument_id \<Rightarrow> unit \<Rightarrow> account_id \<times> account_state \<Rightarrow> unit result" where
  "check_account actual inst = (\<lambda>u (k, expected).
     case get_account actual k of
       None \<Rightarrow> Err (checker_error (''AccountStateMismatch: account '' @ to_string k
                 @ '' missing from proposed post-state''))
     | Some acc \<Rightarrow>
         reject_if (acc_cash acc \<noteq> acc_cash expected)
           (checker_error (''AccountStateMismatch: account '' @ to_string k
             @ '' cash does not match pre-state updated by its fills''))
        (reject_if (inventory_of acc inst \<noteq> inventory_of expected inst)
           (checker_error (''AccountStateMismatch: account '' @ to_string k
             @ '' inventory does not match pre-state updated by its fills''))
        (Ok ())))"

definition verify_transition :: "ledger \<Rightarrow> batch \<Rightarrow> batch_execution_result \<Rightarrow> unit result" where
  "verify_transition pre b proposed =
     or_fail (determine_clearing_outcome b) ''NonDeterministicClearing: failed to compute outcome'' (\<lambda>outcome.
     reject_if (outcome \<noteq> res_outcome proposed)
       (checker_error ''NonDeterministicClearing: outcome mismatch'')
    (or_fail (allocate_batch b (out_price outcome) (out_volume outcome))
       ''AllocationRuleMismatch: failed to compute allocation'' (\<lambda>alloc.
     reject_if (alloc \<noteq> res_allocation proposed)
       (checker_error ''AllocationRuleMismatch: canonical allocation mismatch'')
    (or_fail (generate_canonical_fills b alloc)
       ''AllocationRuleMismatch: failed to generate canonical fills'' (\<lambda>fills.
     reject_if (fills \<noteq> res_fills proposed)
       (checker_error ''AllocationRuleMismatch: canonical fills mismatch'')
    (and_then (loop_result (check_fill (index_orders (bat_orders b))) (0, 0) (res_fills proposed))
       (\<lambda>(total_buy, total_sell).
     reject_if (total_buy \<noteq> total_sell) (checker_error ''VolumeConservation: buy != sell'')
    (reject_if (\<not> same_total (total_cash pre) (total_cash (res_post_state proposed)))
       (checker_error ''CashConservation: pre_cash != post_cash'')
    (reject_if (\<not> same_total (total_inventory_of pre (bat_instrument b))
                            (total_inventory_of (res_post_state proposed) (bat_instrument b)))
       (checker_error ''AssetConservation: pre_inv != post_inv'')
    (or_fail (apply_batch_transition pre (res_fills proposed))
       ''AccountStateMismatch: proposed fills do not apply cleanly to the pre-state'' (\<lambda>expected.
     reject_if (om_size (res_post_state proposed) \<noteq> om_size expected)
       (checker_error ''AccountStateMismatch: post-state account set differs from the reconstruction'')
    (loop_result (check_account (res_post_state proposed) (bat_instrument b)) () (om_entries expected)))))))))))))"

section \<open>The fills of the engine pass the fill checks\<close>

lemma find_index_orders:
  "distinct (map ord_id orders) \<Longrightarrow> o1 \<in> set orders \<Longrightarrow> om_find (index_orders orders) (ord_id o1) = Some o1"
proof (induction orders rule: rev_induct)
  case (snoc o2 orders)
  then show ?case by (auto simp: index_orders_def image_iff)
qed simp

text \<open>An allocation the engine could have made at the price: a non-zero quantity within the order.\<close>

definition sound_allocation :: "order list \<Rightarrow> price \<Rightarrow> order_allocation \<Rightarrow> bool" where
  "sound_allocation orders cp a \<longleftrightarrow> (\<exists>o1\<in>set orders. a = allocation_of o1 (al_allocated_qty a)
     \<and> al_allocated_qty a \<le> ord_qty o1 \<and> within_limit cp (ord_side o1) (ord_price o1)
     \<and> valid_side (ord_side o1))"

lemma check_fill_sound:
  assumes "distinct (map ord_id orders)" "sound_allocation orders cp a"
    and "unat tb + (if al_side a = Buy then unat (al_allocated_qty a) else 0) < 2 ^ 64"
    and "unat ts + (if al_side a = Buy then 0 else unat (al_allocated_qty a)) < 2 ^ 64"
  shows "check_fill (index_orders orders) (tb, ts) (fill_for cp inst (n, a)) =
    Ok (if al_side a = Buy then (tb + al_allocated_qty a, ts) else (tb, ts + al_allocated_qty a))"
proof -
  obtain o1 where o1: "o1 \<in> set orders" "a = allocation_of o1 (al_allocated_qty a)"
    "al_allocated_qty a \<le> ord_qty o1" "within_limit cp (ord_side o1) (ord_price o1)"
    using assms(2) by (auto simp: sound_allocation_def)
  have side: "al_side a = ord_side o1" and oid: "al_order_id a = ord_id o1"
    by (subst o1(2), simp)+
  have "qty_checked_add tb (al_allocated_qty a) = Ok (tb + al_allocated_qty a)" if "al_side a = Buy"
    using assms(3) that by (simp add: qty_arith.add_Ok_iff unat_add_fits)
  moreover have "qty_checked_add ts (al_allocated_qty a) = Ok (ts + al_allocated_qty a)" if "al_side a \<noteq> Buy"
    using assms(4) that by (simp add: qty_arith.add_Ok_iff unat_add_fits)
  ultimately show ?thesis
    using o1(3,4) side
    by (simp add: check_fill_def fill_for_def oid find_index_orders [OF assms(1) o1(1)]
        money_from_price_qty_Ok within_limit_def leD split: if_splits)
qed

lemma check_fills_sound:
  assumes "distinct (map ord_id orders)"
  shows "\<forall>a\<in>set as. sound_allocation orders cp a \<Longrightarrow>
    unat tb + side_sum True as < 2 ^ 64 \<Longrightarrow> unat ts + side_sum False as < 2 ^ 64 \<Longrightarrow>
    loop_result (check_fill (index_orders orders)) (tb, ts) (map (fill_for cp inst) (enumerate n as)) =
      Ok (tb + of_nat (side_sum True as), ts + of_nat (side_sum False as))"
proof (induction "as" arbitrary: tb ts n)
  case Nil
  then show ?case by (simp add: side_sum_def)
next
  case (Cons a "as")
  have step: "check_fill (index_orders orders) (tb, ts) (fill_for cp inst (n, a)) =
    Ok (if al_side a = Buy then (tb + al_allocated_qty a, ts) else (tb, ts + al_allocated_qty a))"
    by (rule check_fill_sound [OF assms]) (use Cons.prems in \<open>auto simp: side_sum_def split: if_splits\<close>)
  show ?case
  proof (cases "al_side a = Buy")
    case True
    then have "unat (tb + al_allocated_qty a) = unat tb + unat (al_allocated_qty a)"
      using Cons.prems(2) by (intro unat_add_fits) (simp add: side_sum_def)
    with True show ?thesis using Cons step by (simp add: side_sum_def add.assoc)
  next
    case False
    then have "unat (ts + al_allocated_qty a) = unat ts + unat (al_allocated_qty a)"
      using Cons.prems(3) by (intro unat_add_fits) (simp add: side_sum_def)
    with False show ?thesis using Cons step by (simp add: side_sum_def add.assoc)
  qed
qed

lemma check_fills_canonical:
  assumes "wf_batch b" "batch_stages b out alloc fills"
  shows "\<exists>t. loop_result (check_fill (index_orders (bat_orders b))) (0, 0) fills = Ok (t, t)"
  using assms
proof (cases rule: batch_stages_cases)
  case 1
  then show ?thesis by simp
next
  case (2 cp)
  let ?o = "bat_orders b" and ?as = "executed (ba_allocations alloc)"
  have sound: "\<forall>a\<in>set ?as. sound_allocation ?o cp a"
  proof
    fix a
    assume "a \<in> set ?as"
    then obtain o1 where o1: "o1 \<in> set ?o" "a = allocation_of o1 (order_fill b cp (out_volume out) o1)"
      "order_fill b cp (out_volume out) o1 \<noteq> 0"
      by (auto simp: executed_def 2(3))
    have "within_limit cp (ord_side o1) (ord_price o1)"
      using o1(3) order_fill_otm [of o1 cp b "out_volume out"] by (auto simp: otm_iff)
    moreover have "valid_side (ord_side o1)"
      using wf_batch_orderD [OF assms(1) o1(1)] by (simp add: wf_order_def)
    ultimately show "sound_allocation ?o cp a"
      using o1 order_fill_le [OF 2(2) o1(1)] by (auto simp: sound_allocation_def)
  qed
  have sums: "side_sum buy ?as = unat (out_volume out)" for buy
    by (simp only: side_sum_executed 2(3) side_sum_orders [OF 2(2)])
  have "distinct (map ord_id ?o)" using assms(1) by (simp add: wf_batch_def)
  from check_fills_sound [OF this sound, of 0 0 "bat_instrument b" 0]
  show ?thesis using unat_less_pow [of "out_volume out"] by (simp add: 2(4) sums)
qed

section \<open>What the checker accepts\<close>

definition same_settlement :: "instrument_id \<Rightarrow> ledger \<Rightarrow> ledger \<Rightarrow> bool" where
  "same_settlement inst expected actual \<longleftrightarrow>
     dom (om_find actual) = dom (om_find expected)
     \<and> (\<forall>k. cash_of actual k = cash_of expected k \<and> stock_of inst actual k = stock_of inst expected k)"

lemma check_accounts_loop:
  "loop_result (check_account actual inst) () es = Ok u \<longleftrightarrow>
     (\<forall>(k, e)\<in>set es. \<exists>a. om_find actual k = Some a \<and> acc_cash a = acc_cash e
        \<and> inventory_of a inst = inventory_of e inst)"
  by (induction es)
     (auto simp: check_account_def get_account_def result_simps split: option.splits)

lemma om_size_card: "om_size m = card (dom (om_find m))"
proof -
  have "om_size m = length (map fst (om_entries m))" by (simp add: om_size_def)
  also have "\<dots> = card (set (map fst (om_entries m)))"
    by (rule distinct_card [symmetric]) (rule om.entries_distinct)
  finally show ?thesis by (simp only: om.keys_dom)
qed

lemma accounts_match_iff:
  "om_size actual = om_size expected \<and>
   loop_result (check_account actual inst) () (om_entries expected) = Ok () \<longleftrightarrow>
   same_settlement inst expected actual" (is "?l \<longleftrightarrow> ?r")
proof
  assume l: ?l
  then have each: "\<exists>a. om_find actual k = Some a \<and> acc_cash a = acc_cash e
        \<and> inventory_of a inst = inventory_of e inst" if "om_find expected k = Some e" for k e
    using that by (auto simp: check_accounts_loop simp flip: om.mem_entries)
  then have sub: "dom (om_find expected) \<subseteq> dom (om_find actual)" by fastforce
  then have dom: "dom (om_find actual) = dom (om_find expected)"
    using l card_subset_eq [OF om.finite_keys sub] by (simp add: om_size_card)
  have "cash_of actual k = cash_of expected k \<and> stock_of inst actual k = stock_of inst expected k" for k
  proof (cases "om_find expected k")
    case None
    then have "om_find actual k = None" using dom by (metis domIff)
    with None show ?thesis by (simp add: cash_of_def stock_of_def)
  next
    case (Some e)
    with each [OF Some] show ?thesis by (auto simp: cash_of_def stock_of_def)
  qed
  with dom show ?r by (simp add: same_settlement_def)
next
  assume r: ?r
  have "\<exists>a. om_find actual k = Some a \<and> acc_cash a = acc_cash e \<and> inventory_of a inst = inventory_of e inst"
    if "om_find expected k = Some e" for k e
  proof -
    have "k \<in> dom (om_find actual)" using r that by (simp add: same_settlement_def) (simp add: dom_def)
    then obtain a where "om_find actual k = Some a" by blast
    moreover have "cash_of actual k = cash_of expected k" "stock_of inst actual k = stock_of inst expected k"
      using r by (simp_all add: same_settlement_def)
    ultimately show ?thesis
      using that by (simp add: cash_of_def stock_of_def word_unat_eq_iff)
  qed
  then show ?l using r
    by (auto simp: check_accounts_loop om.mem_entries om_size_card same_settlement_def)
qed

lemma same_settlement_sums:
  assumes "same_settlement inst expected actual"
  shows "cash_sum actual = cash_sum expected" "stock_sum inst actual = stock_sum inst expected"
proof -
  have cash: "cash_sum l = (\<Sum>k\<in>dom (om_find l). cash_of l k)" for l
    unfolding cash_sum_def om.total_sum by (rule sum.cong) (auto simp: cash_of_def)
  have stock: "stock_sum inst l = (\<Sum>k\<in>dom (om_find l). stock_of inst l k)" for l
    unfolding stock_sum_def om.total_sum by (rule sum.cong) (auto simp: stock_of_def)
  show "cash_sum actual = cash_sum expected" "stock_sum inst actual = stock_sum inst expected"
    using assms by (simp_all add: cash stock same_settlement_def)
qed

lemma same_settlement_refl [simp]: "same_settlement inst l l"
  by (simp add: same_settlement_def)

lemma verify_transition_Ok:
  "verify_transition pre b r = Ok () \<longleftrightarrow>
     batch_stages b (res_outcome r) (res_allocation r) (res_fills r)
     \<and> (\<exists>t. loop_result (check_fill (index_orders (bat_orders b))) (0, 0) (res_fills r) = Ok (t, t))
     \<and> same_total (total_cash pre) (total_cash (res_post_state r))
     \<and> same_total (total_inventory_of pre (bat_instrument b)) (total_inventory_of (res_post_state r) (bat_instrument b))
     \<and> (\<exists>post. apply_batch_transition pre (res_fills r) = Ok post
          \<and> same_settlement (bat_instrument b) post (res_post_state r))"
  unfolding accounts_match_iff [symmetric]
  by (auto simp: verify_transition_def batch_stages_def result_simps split: prod.splits)

lemma verify_transition_engine:
  assumes "wf_batch b"
  shows "verify_transition pre b r = Ok () \<longleftrightarrow>
    is_ok (total_inventory_of pre (bat_instrument b)) \<and>
    (\<exists>e. execute_batch pre b = Ok e \<and> res_outcome e = res_outcome r
       \<and> res_allocation e = res_allocation r \<and> res_fills e = res_fills r
       \<and> same_settlement (bat_instrument b) (res_post_state e) (res_post_state r))" (is "?l \<longleftrightarrow> ?r")
proof
  assume ?l
  then obtain post where "batch_stages b (res_outcome r) (res_allocation r) (res_fills r)"
    "apply_batch_transition pre (res_fills r) = Ok post" "same_settlement (bat_instrument b) post (res_post_state r)"
    "is_ok (total_inventory_of pre (bat_instrument b))"
    by (auto simp: verify_transition_Ok same_total_stock)
  then show ?r
    by (auto simp: execute_batch_Ok_iff intro!: exI [where x = "r\<lparr>res_post_state := post\<rparr>"])
next
  assume ?r
  then obtain e where e: "execute_batch pre b = Ok e" "res_outcome e = res_outcome r"
    "res_allocation e = res_allocation r" "res_fills e = res_fills r"
    "same_settlement (bat_instrument b) (res_post_state e) (res_post_state r)"
    and ok: "is_ok (total_inventory_of pre (bat_instrument b))" by blast
  then have st: "batch_stages b (res_outcome r) (res_allocation r) (res_fills r)"
    and ap: "apply_batch_transition pre (res_fills r) = Ok (res_post_state e)"
    by (simp_all add: execute_batch_Ok_iff)
  from ap have settle: "loop_result apply_fill pre (res_fills r) = Ok (res_post_state e)"
    and cash: "is_ok (total_cash pre)"
    by (simp_all add: apply_batch_transition_Ok_iff)
  show ?l
    using st ap e(5) ok cash check_fills_canonical [OF assms st]
      settled_totals [OF assms st settle, of "bat_instrument b"] same_settlement_sums [OF e(5)]
    by (auto simp: verify_transition_Ok same_total_cash same_total_stock)
qed

text \<open>C7: provided the pre-state's total of the instrument fits its type, the checker accepts a
  proposal exactly when it agrees with the execution of the batch in outcome, allocation and fills, and
  its post-state has the same accounts with the same cash and the same holdings of the instrument of
  the batch; it then never rejects the engine's own result and never accepts one with another trade.
  The holdings of other instruments and the blinding salts are not looked at.  When the total
  overflows, the checker rejects every proposal, the engine's own included.\<close>

theorem verify_transition_iff:
  assumes "wf_batch b"
  shows "verify_transition pre b r = Ok () \<longleftrightarrow>
    is_ok (total_inventory_of pre (bat_instrument b)) \<and>
    (\<exists>e. execute_batch pre b = Ok e \<and> res_outcome e = res_outcome r
       \<and> res_allocation e = res_allocation r \<and> res_fills e = res_fills r
       \<and> same_settlement (bat_instrument b) (res_post_state e) (res_post_state r))"
  by (rule verify_transition_engine [OF assms])

theorem verify_transition_iff_witness: "verify_transition sample_ledger sample_batch sample_result = Ok ()"
proof -
  have "is_ok (total_inventory_of sample_ledger (bat_instrument sample_batch))" by code_simp
  then show ?thesis
    unfolding verify_transition_iff [OF sample_wf] using sample_execution by auto
qed

end
