(* ===== verification/R1CS.thy ===== *)
theory R1CS
  imports Primitives
begin

text \<open>
  \<open>proof/r1cs.hpp\<close>: rank-one constraint systems over wrapping 128-bit scalars.  A scalar is the
  128-bit word that holds it; the source computes on the unsigned counterpart, so its wrapping
  operations are the operations of the word.  The allocators hand out consecutive indices.

  The lemmas say how a system that grows is satisfied by a witness that grows with it: a variable
  keeps its value when scalars are appended, so each constraint can be checked when it is enforced.
\<close>

type_synonym scalar = u128

definition wrapping_add :: "scalar \<Rightarrow> scalar \<Rightarrow> scalar" where
  "wrapping_add a b = a + b"

definition wrapping_mul :: "scalar \<Rightarrow> scalar \<Rightarrow> scalar" where
  "wrapping_mul a b = a * b"

definition scalar_to_string :: "scalar \<Rightarrow> string" where
  "scalar_to_string value =
     (if value = 0 then ''0''
      else
        let negative = sint value < 0;
            magnitude = (if negative then NOT value + 1 else value)
        in (if negative then ''-'' else []) @ to_string magnitude)"

datatype variable_kind = OneVar | PublicVar | WitnessVar

record variable =
  var_kind :: variable_kind
  var_index :: nat

definition one_var :: variable where
  "one_var = \<lparr>var_kind = OneVar, var_index = 0\<rparr>"

definition public_var :: "nat \<Rightarrow> variable" where
  "public_var idx = \<lparr>var_kind = PublicVar, var_index = idx\<rparr>"

definition witness_var :: "nat \<Rightarrow> variable" where
  "witness_var idx = \<lparr>var_kind = WitnessVar, var_index = idx\<rparr>"

type_synonym linear_combination = "(variable \<times> scalar) list"

definition lc_zero :: linear_combination where
  "lc_zero = []"

definition from_var :: "variable \<Rightarrow> linear_combination" where
  "from_var v = [(v, 1)]"

definition from_constant :: "scalar \<Rightarrow> linear_combination" where
  "from_constant c = [(one_var, c)]"

definition add_term :: "variable \<Rightarrow> scalar \<Rightarrow> linear_combination \<Rightarrow> linear_combination" where
  "add_term v coeff lc = (if coeff \<noteq> 0 then lc @ [(v, coeff)] else lc)"

definition scalar_at :: "u64 list \<Rightarrow> nat \<Rightarrow> scalar" where
  "scalar_at xs i = (if i < length xs then ucast (xs ! i) else 0)"

definition var_value :: "u64 list \<Rightarrow> u64 list \<Rightarrow> variable \<Rightarrow> scalar" where
  "var_value public_inputs witness var =
     (case var_kind var of
        OneVar \<Rightarrow> 1
      | PublicVar \<Rightarrow> scalar_at public_inputs (var_index var)
      | WitnessVar \<Rightarrow> scalar_at witness (var_index var))"

definition evaluate :: "u64 list \<Rightarrow> u64 list \<Rightarrow> linear_combination \<Rightarrow> scalar" where
  "evaluate public_inputs witness lc =
     foldl (\<lambda>sum (var, coeff). wrapping_add sum (wrapping_mul coeff (var_value public_inputs witness var))) 0 lc"

record r1cs_constraint =
  con_a :: linear_combination
  con_b :: linear_combination
  con_c :: linear_combination
  con_label :: string

record constraint_system =
  cs_num_public :: nat
  cs_num_witness :: nat
  cs_constraints :: "r1cs_constraint list"

definition new_constraint_system :: constraint_system where
  "new_constraint_system = \<lparr>cs_num_public = 0, cs_num_witness = 0, cs_constraints = []\<rparr>"

definition alloc_public :: "constraint_system \<Rightarrow> variable \<times> constraint_system" where
  "alloc_public cs = (public_var (cs_num_public cs), cs\<lparr>cs_num_public := cs_num_public cs + 1\<rparr>)"

definition alloc_witness :: "constraint_system \<Rightarrow> variable \<times> constraint_system" where
  "alloc_witness cs = (witness_var (cs_num_witness cs), cs\<lparr>cs_num_witness := cs_num_witness cs + 1\<rparr>)"

definition enforce ::
  "linear_combination \<Rightarrow> linear_combination \<Rightarrow> linear_combination \<Rightarrow> string \<Rightarrow> constraint_system \<Rightarrow> constraint_system" where
  "enforce a b c label cs =
     cs\<lparr>cs_constraints := cs_constraints cs @ [\<lparr>con_a = a, con_b = b, con_c = c, con_label = label\<rparr>]\<rparr>"

definition enforce_equal ::
  "linear_combination \<Rightarrow> linear_combination \<Rightarrow> string \<Rightarrow> constraint_system \<Rightarrow> constraint_system" where
  "enforce_equal lc1 lc2 label cs =
     enforce (foldl (\<lambda>lc (v, coeff). add_term v (- coeff) lc) lc1 lc2) (from_var one_var) lc_zero label cs"

definition check_constraint :: "u64 list \<Rightarrow> u64 list \<Rightarrow> unit \<Rightarrow> r1cs_constraint \<Rightarrow> unit result" where
  "check_constraint public_inputs witness = (\<lambda>u con.
     let val_a = evaluate public_inputs witness (con_a con);
         val_b = evaluate public_inputs witness (con_b con);
         val_c = evaluate public_inputs witness (con_c con)
     in reject_if (wrapping_mul val_a val_b \<noteq> val_c)
          (DomainError OrderValidationFailed
            (''ConstraintNotSatisfied: '' @ con_label con @ '' (expected '' @ scalar_to_string val_c
              @ '', got '' @ scalar_to_string (wrapping_mul val_a val_b) @ '')''))
          (Ok ()))"

definition is_satisfied :: "u64 list \<Rightarrow> u64 list \<Rightarrow> constraint_system \<Rightarrow> unit result" where
  "is_satisfied public_inputs witness cs =
     loop_result (check_constraint public_inputs witness) () (cs_constraints cs)"

text \<open>\<open>alloc_witness\<close> followed by the \<open>push_back\<close> of its value: the source pairs them one to one.\<close>

type_synonym synthesis = "constraint_system \<times> u64 list"

definition alloc_scalar :: "u64 \<Rightarrow> synthesis \<Rightarrow> variable \<times> synthesis" where
  "alloc_scalar value = (\<lambda>(cs, scalars).
     case alloc_witness cs of (v, cs') \<Rightarrow> (v, cs', scalars @ [value]))"

definition enforce_in ::
  "linear_combination \<Rightarrow> linear_combination \<Rightarrow> linear_combination \<Rightarrow> string \<Rightarrow> synthesis \<Rightarrow> synthesis" where
  "enforce_in a b c label = (\<lambda>(cs, scalars). (enforce a b c label cs, scalars))"

definition enforce_equal_in ::
  "linear_combination \<Rightarrow> linear_combination \<Rightarrow> string \<Rightarrow> synthesis \<Rightarrow> synthesis" where
  "enforce_equal_in lc1 lc2 label = (\<lambda>(cs, scalars). (enforce_equal lc1 lc2 label cs, scalars))"

section \<open>Evaluation is linear\<close>

lemma evaluate_sum:
  "evaluate pub wit lc = sum_list (map (\<lambda>(v, k). k * var_value pub wit v) lc)"
proof -
  have "foldl (\<lambda>sum (var, coeff). wrapping_add sum (wrapping_mul coeff (var_value pub wit var))) s lc
      = s + sum_list (map (\<lambda>(v, k). k * var_value pub wit v) lc)" for s
    by (induction lc arbitrary: s) (auto simp: wrapping_add_def wrapping_mul_def add.assoc)
  then show ?thesis by (simp add: evaluate_def)
qed

named_theorems lc_eval "values of linear combinations and variables"

lemma evaluate_simps [lc_eval]:
  "evaluate pub wit lc_zero = 0"
  "evaluate pub wit (from_var v) = var_value pub wit v"
  "evaluate pub wit (from_constant k) = k"
  "evaluate pub wit (add_term v k lc) = evaluate pub wit lc + k * var_value pub wit v"
  by (simp_all add: evaluate_sum lc_zero_def from_var_def from_constant_def add_term_def var_value_def one_var_def)

lemma evaluate_subtract:
  "evaluate pub wit (foldl (\<lambda>lc (v, coeff). add_term v (- coeff) lc) lc1 lc2)
     = evaluate pub wit lc1 - evaluate pub wit lc2"
proof (induction lc2 arbitrary: lc1)
  case (Cons e lc2)
  have "evaluate pub wit ((v, k) # lc2) = k * var_value pub wit v + evaluate pub wit lc2" for v k
    by (simp add: evaluate_sum)
  with Cons show ?case by (cases e) (simp add: lc_eval)
qed (simp add: evaluate_sum)

lemma var_value_simps [lc_eval]:
  "var_value pub wit one_var = 1"
  "var_value pub wit (public_var i) = scalar_at pub i"
  "var_value pub wit (witness_var i) = scalar_at wit i"
  by (simp_all add: var_value_def one_var_def public_var_def witness_var_def)

section \<open>Satisfaction\<close>

definition holds :: "u64 list \<Rightarrow> u64 list \<Rightarrow> r1cs_constraint \<Rightarrow> bool" where
  "holds pub wit con \<longleftrightarrow> evaluate pub wit (con_a con) * evaluate pub wit (con_b con) = evaluate pub wit (con_c con)"

lemma is_satisfied_iff: "is_ok (is_satisfied pub wit cs) \<longleftrightarrow> list_all (holds pub wit) (cs_constraints cs)"
proof -
  have "is_ok (loop_result (check_constraint pub wit) u cons) \<longleftrightarrow> list_all (holds pub wit) cons" for u cons
    by (induction cons arbitrary: u)
       (auto simp: check_constraint_def Let_def holds_def wrapping_mul_def reject_if_def)
  then show ?thesis by (simp add: is_satisfied_def)
qed

text \<open>
  \<open>placed W base s\<close>: the witness \<open>W\<close> is the scalars of the earlier subrelations, \<open>base\<close>, then the scalars
  of the synthesis \<open>s\<close>, then whatever comes later; and the next witness variable of \<open>s\<close> is the one
  whose scalar would come next.  Under it every allocated variable has the scalar it was allocated with.
\<close>

definition placed :: "u64 list \<Rightarrow> u64 list \<Rightarrow> synthesis \<Rightarrow> bool" where
  "placed W base s \<longleftrightarrow> cs_num_witness (fst s) = length base + length (snd s)
     \<and> (\<exists>rest. W = base @ snd s @ rest)"

definition satisfies :: "u64 list \<Rightarrow> u64 list \<Rightarrow> synthesis \<Rightarrow> bool" where
  "satisfies pub W s \<longleftrightarrow> list_all (holds pub W) (cs_constraints (fst s))"

definition push_scalar :: "u64 \<Rightarrow> synthesis \<Rightarrow> synthesis" where
  "push_scalar v s = (snd (alloc_witness (fst s)), snd s @ [v])"

definition next_var :: "synthesis \<Rightarrow> nat" where
  "next_var s = cs_num_witness (fst s)"

definition publics :: "synthesis \<Rightarrow> nat" where
  "publics s = cs_num_public (fst s)"

lemma alloc_scalar_push: "alloc_scalar v s = (witness_var (next_var s), push_scalar v s)"
  by (simp add: alloc_scalar_def alloc_witness_def push_scalar_def next_var_def split_beta)

named_theorems synth "how allocation and enforcement change a synthesis"

lemma synth_simps [synth]:
  "next_var (push_scalar v s) = Suc (next_var s)"
  "next_var (enforce_in a b c l s) = next_var s"
  "next_var (enforce_equal_in lc1 lc2 l s) = next_var s"
  "publics (push_scalar v s) = publics s"
  "publics (enforce_in a b c l s) = publics s"
  "publics (enforce_equal_in lc1 lc2 l s) = publics s"
  "satisfies pub W (push_scalar v s) = satisfies pub W s"
  "satisfies pub W (enforce_in a b c l s)
     \<longleftrightarrow> satisfies pub W s \<and> evaluate pub W a * evaluate pub W b = evaluate pub W c"
  "satisfies pub W (enforce_equal_in lc1 lc2 l s)
     \<longleftrightarrow> satisfies pub W s \<and> evaluate pub W lc1 = evaluate pub W lc2"
  "placed W base (enforce_in a b c l s) = placed W base s"
  "placed W base (enforce_equal_in lc1 lc2 l s) = placed W base s"
  by (simp_all add: next_var_def publics_def satisfies_def placed_def push_scalar_def alloc_witness_def
      enforce_in_def enforce_equal_in_def enforce_def enforce_equal_def holds_def evaluate_subtract lc_eval
      split_beta)

lemma placed_push [synth]:
  "placed W base (push_scalar v s) \<longleftrightarrow> placed W base s \<and> next_var s < length W \<and> W ! next_var s = v"
proof (cases "placed W base s")
  case True
  then obtain rest where W: "W = base @ snd s @ rest" and n: "cs_num_witness (fst s) = length base + length (snd s)"
    by (auto simp: placed_def)
  then show ?thesis
    by (cases rest) (auto simp: placed_def push_scalar_def alloc_witness_def next_var_def nth_append)
next
  case False
  then show ?thesis by (auto simp: placed_def push_scalar_def alloc_witness_def)
qed

lemma placed_next_part: "placed W base (cs, sc) = placed W (base @ sc) (cs, [])"
  by (simp add: placed_def)

lemma scalar_at_nth: "i < length W \<Longrightarrow> scalar_at W i = ucast (W ! i)"
  by (simp add: scalar_at_def)

lemma satisfies_part [simp]: "satisfies pub W (cs, sc) = list_all (holds pub W) (cs_constraints cs)"
  by (simp add: satisfies_def)

lemma satisfies_public [synth]:
  "satisfies pub W (snd (alloc_public cs), sc) = satisfies pub W (cs, sc)"
  "placed W base (snd (alloc_public cs), sc) = placed W base (cs, sc)"
  "publics (snd (alloc_public cs), sc) = Suc (publics (cs, sc))"
  "fst (alloc_public cs) = public_var (publics (cs, sc))"
  by (simp_all add: alloc_public_def placed_def publics_def)

text \<open>Scalars are values below 2 to the 64, so their sums and differences say what they seem to.\<close>

lemma ucast_scalar_inject [simp]: "(ucast (a :: u64) :: scalar) = ucast (b :: u64) \<longleftrightarrow> a = b"
  by (metis unat_ucast_u128 word_unat_eq_iff)

lemma ucast_scalar_add: "(ucast (a :: u64) :: scalar) = ucast (b :: u64) + ucast (c :: u64) \<longleftrightarrow> unat a = unat b + unat c"
proof -
  have "unat b + unat c < 2 ^ 128" using unat_less_pow [of b] unat_less_pow [of c] by simp
  then have "unat ((ucast b :: scalar) + ucast c) = unat b + unat c" by (simp add: unat_add_fits)
  then show ?thesis by (simp add: word_unat_eq_iff)
qed

lemma ucast_scalar_sub: "(ucast (a :: u64) :: scalar) - ucast (b :: u64) = ucast (c :: u64) \<longleftrightarrow> unat a = unat b + unat c"
  by (simp add: diff_eq_eq ucast_scalar_add add.commute)

end
