(* ===== verification/Oracle.thy ===== *)
theory Oracle
  imports Primitives
begin

text \<open>
  \<open>domain/oracle.hpp\<close> and \<open>engine/oracle_validation.hpp\<close>: reference-price snapshots, the policy
  that governs them and their validation against a batch.
\<close>

record reference_price_snapshot =
  snap_oracle_id :: u32
  snap_instrument :: instrument_id
  snap_price :: price
  snap_timestamp :: u64
  snap_sequence :: u64

record reference_price_policy =
  pol_max_staleness :: u64
  pol_max_deviation :: u64

definition validate_freshness :: "reference_price_policy \<Rightarrow> reference_price_snapshot \<Rightarrow> u64 \<Rightarrow> unit result" where
  "validate_freshness policy snapshot cutoff =
     reject_if (cutoff < snap_timestamp snapshot)
       (DomainError OrderValidationFailed ''FutureOracleSnapshot'')
    (let age = cutoff - snap_timestamp snapshot in
     reject_if (pol_max_staleness policy < age)
       (DomainError OrderValidationFailed ''StaleOracleSnapshot'')
    (Ok ()))"

definition validate_collar :: "reference_price_policy \<Rightarrow> price \<Rightarrow> reference_price_snapshot \<Rightarrow> unit result" where
  "validate_collar policy clearing snapshot =
     (let p_ref = snap_price snapshot;
          diff = (if p_ref \<le> clearing then clearing - p_ref else p_ref - clearing) in
      reject_if (pol_max_deviation policy < diff)
        (DomainError OrderValidationFailed ''PriceCollarBreach'')
      (Ok ()))"

definition validate_reference_price_snapshot ::
  "reference_price_policy \<Rightarrow> reference_price_snapshot \<Rightarrow> instrument_id \<Rightarrow> u64 \<Rightarrow> price option \<Rightarrow> unit result" where
  "validate_reference_price_snapshot policy snapshot expected cutoff clearing =
     reject_if (snap_instrument snapshot \<noteq> expected)
       (DomainError InstrumentMismatch ''OracleValidationError: snapshot instrument does not match batch'')
    (and_then (validate_freshness policy snapshot cutoff) (\<lambda>u.
      (case clearing of
         None \<Rightarrow> Ok ()
       | Some p \<Rightarrow> and_then (validate_collar policy p snapshot) (\<lambda>u. Ok ()))))"

definition validate_oracle_reference ::
  "reference_price_snapshot \<Rightarrow> reference_price_policy \<Rightarrow> u64 \<Rightarrow> price option \<Rightarrow> unit result" where
  "validate_oracle_reference snapshot policy cutoff clearing =
     validate_reference_price_snapshot policy snapshot (snap_instrument snapshot) cutoff clearing"

lemma validate_freshness_Ok:
  "validate_freshness policy snapshot cutoff = Ok u \<longleftrightarrow>
     unat (snap_timestamp snapshot) \<le> unat cutoff
     \<and> unat cutoff \<le> unat (snap_timestamp snapshot) + unat (pol_max_staleness policy)"
  by (auto simp: validate_freshness_def result_simps Let_def word_nat not_less le_diff_conv add.commute)

lemma validate_collar_Ok:
  "validate_collar policy p snapshot = Ok u \<longleftrightarrow>
     unat p \<le> unat (snap_price snapshot) + unat (pol_max_deviation policy)
     \<and> unat (snap_price snapshot) \<le> unat p + unat (pol_max_deviation policy)"
  by (auto simp: validate_collar_def result_simps Let_def not_less not_le word_nat)

text \<open>A snapshot is accepted exactly when it is for the instrument of the batch, was taken no
  later than the cutoff and no earlier than the staleness bound allows, and the clearing price, if
  there is one, lies within the collar around the reference price; no subtraction wraps.\<close>

theorem snapshot_accepted_iff:
  "validate_reference_price_snapshot policy snapshot expected cutoff clearing = Ok () \<longleftrightarrow>
     snap_instrument snapshot = expected
     \<and> unat (snap_timestamp snapshot) \<le> unat cutoff
     \<and> unat cutoff \<le> unat (snap_timestamp snapshot) + unat (pol_max_staleness policy)
     \<and> (case clearing of None \<Rightarrow> True
        | Some p \<Rightarrow> unat p \<le> unat (snap_price snapshot) + unat (pol_max_deviation policy)
            \<and> unat (snap_price snapshot) \<le> unat p + unat (pol_max_deviation policy))"
  by (auto simp: validate_reference_price_snapshot_def result_simps validate_freshness_Ok validate_collar_Ok
      split: option.split)

end
