(* ===== verification/Encoding.thy ===== *)
theory Encoding
  imports Orders Ledgers Oracle
begin

text \<open>
  \<open>domain/encoding.hpp\<close>: the canonical byte encodings.  A C++ buffer that is appended to is the
  list of its bytes.  Every encoding has a fixed length and determines what it encodes; the locale
  \<open>fixed_codec\<close> is that contract, and the commitments rest on it.
\<close>

definition ORDER_TAG :: bytes where "ORDER_TAG = [0x46, 0x43, 0x4F, 0x52]"
definition ACCOUNT_TAG :: bytes where "ACCOUNT_TAG = [0x46, 0x43, 0x41, 0x43]"
definition BATCH_HEADER_TAG :: bytes where "BATCH_HEADER_TAG = [0x46, 0x43, 0x42, 0x48]"
definition ORACLE_SNAPSHOT_TAG :: bytes where "ORACLE_SNAPSHOT_TAG = [0x46, 0x43, 0x4F, 0x53]"

definition ENCODING_VERSION_V1 :: u8 where "ENCODING_VERSION_V1 = 1"

record salted_account_preimage =
  sap_account_id :: account_id
  sap_cash :: money
  sap_instrument :: instrument_id
  sap_inventory :: qty
  sap_salt :: bytes

record oracle_snapshot_preimage =
  osp_snapshot :: reference_price_snapshot
  osp_policy :: reference_price_policy

definition le_byte :: "'a::len word \<Rightarrow> nat \<Rightarrow> u8" where
  "le_byte val i = ucast (drop_bit (i * 8) val AND 0xFF)"

definition append_le64 :: "bytes \<Rightarrow> u64 \<Rightarrow> bytes" where
  "append_le64 buf val = foldl (\<lambda>b i. b @ [le_byte val i]) buf [0..<8]"

definition append_le128 :: "bytes \<Rightarrow> u128 \<Rightarrow> bytes" where
  "append_le128 buf val = foldl (\<lambda>b i. b @ [le_byte val i]) buf [0..<16]"

definition append_le32 :: "bytes \<Rightarrow> u32 \<Rightarrow> bytes" where
  "append_le32 buf val = foldl (\<lambda>b i. b @ [le_byte val i]) buf [0..<4]"

definition canonical_encode_order :: "salted_order_preimage \<Rightarrow> bytes" where
  "canonical_encode_order p =
     (let buf = ORDER_TAG @ [ENCODING_VERSION_V1];
          buf = append_le64 buf (ord_id (pre_order p));
          buf = append_le64 buf (ord_account (pre_order p));
          buf = append_le64 buf (ord_instrument (pre_order p));
          buf = buf @ [if ord_side (pre_order p) = Buy then 0 else 1];
          buf = append_le64 buf (ord_price (pre_order p));
          buf = append_le64 buf (ord_qty (pre_order p));
          buf = append_le64 buf (ord_seq (pre_order p))
      in buf @ pre_nonce p)"

definition canonical_encode_account :: "salted_account_preimage \<Rightarrow> bytes" where
  "canonical_encode_account p =
     (let buf = ACCOUNT_TAG @ [ENCODING_VERSION_V1];
          buf = append_le64 buf (sap_account_id p);
          buf = append_le128 buf (sap_cash p);
          buf = append_le64 buf (sap_instrument p);
          buf = append_le64 buf (sap_inventory p)
      in buf @ sap_salt p)"

definition canonical_encode_oracle_snapshot :: "oracle_snapshot_preimage \<Rightarrow> bytes" where
  "canonical_encode_oracle_snapshot p =
     (let buf = ORACLE_SNAPSHOT_TAG @ [ENCODING_VERSION_V1];
          buf = append_le32 buf (snap_oracle_id (osp_snapshot p));
          buf = append_le64 buf (snap_instrument (osp_snapshot p));
          buf = append_le64 buf (snap_price (osp_snapshot p));
          buf = append_le64 buf (snap_timestamp (osp_snapshot p));
          buf = append_le64 buf (snap_sequence (osp_snapshot p));
          buf = append_le64 buf (pol_max_staleness (osp_policy p))
      in append_le64 buf (pol_max_deviation (osp_policy p)))"

section \<open>Little-endian bytes\<close>

definition le_bytes :: "nat \<Rightarrow> 'a::len word \<Rightarrow> bytes" where
  "le_bytes n val = map (le_byte val) [0..<n]"

lemma length_le_bytes [simp]: "length (le_bytes n val) = n"
  by (simp add: le_bytes_def)

lemma foldl_append_map: "foldl (\<lambda>b i. b @ [f i]) buf xs = buf @ map f xs"
  by (induction xs arbitrary: buf) simp_all

lemma append_le [simp]:
  "append_le64 buf a = buf @ le_bytes 8 a"
  "append_le128 buf c = buf @ le_bytes 16 c"
  "append_le32 buf d = buf @ le_bytes 4 d"
  by (simp_all only: append_le64_def append_le128_def append_le32_def foldl_append_map le_bytes_def)

lemma bit_le_byte: "bit (le_byte val i) j \<longleftrightarrow> j < 8 \<and> bit val (i * 8 + j)"
proof -
  have "(0xFF :: 'a word) = mask 8" by (simp add: mask_eq_exp_minus_1)
  then have "le_byte val i = ucast (drop_bit (i * 8) val AND mask 8)" by (simp only: le_byte_def)
  moreover have "bit (ucast (drop_bit (i * 8) val AND mask 8) :: u8) j \<longleftrightarrow> j < 8 \<and> bit val (i * 8 + j)"
    by (auto simp only: bit_ucast_iff bit_and_iff bit_drop_bit_eq bit_mask_iff comp_def add.commute
        possible_bit_word dest: bit_imp_le_length) (auto dest: bit_imp_le_length)
  ultimately show ?thesis by (simp only:)
qed

text \<open>The bytes determine the value.\<close>

lemma le_bytes_inject:
  fixes a b :: "'a::len word"
  assumes "LENGTH('a) \<le> n * 8"
  shows "le_bytes n a = le_bytes n b \<longleftrightarrow> a = b"
proof
  assume eq: "le_bytes n a = le_bytes n b"
  show "a = b"
  proof (rule bit_word_eqI)
    fix k
    assume "k < LENGTH('a)"
    then have "k div 8 < n" using assms by (simp add: less_mult_imp_div_less)
    then have "le_byte a (k div 8) = le_byte b (k div 8)"
      using eq by (simp add: le_bytes_def)
    then have "bit (le_byte a (k div 8)) (k mod 8) = bit (le_byte b (k div 8)) (k mod 8)" by simp
    then show "bit a k = bit b k" by (simp add: bit_le_byte)
  qed
qed simp

lemma le_bytes_inject_sizes [simp]:
  "le_bytes 8 (a :: u64) = le_bytes 8 a' \<longleftrightarrow> a = a'"
  "le_bytes 16 (c :: u128) = le_bytes 16 c' \<longleftrightarrow> c = c'"
  "le_bytes 4 (d :: u32) = le_bytes 4 d' \<longleftrightarrow> d = d'"
  by (simp_all add: le_bytes_inject)

lemma append_same_length: "length a = length b \<Longrightarrow> a @ xs = b @ ys \<longleftrightarrow> a = b \<and> xs = ys"
  by (rule append_eq_append_conv) simp

section \<open>The contract of an encoding\<close>

locale fixed_codec =
  fixes encode :: "'a \<Rightarrow> bytes"
    and admissible :: "'a \<Rightarrow> bool"
    and tag :: bytes
    and size :: nat
  assumes encode_length: "admissible a \<Longrightarrow> length (encode a) = size"
    and encode_tag: "take 4 (encode a) = tag"
    and encode_inject: "admissible a \<Longrightarrow> admissible b \<Longrightarrow> encode a = encode b \<Longrightarrow> a = b"
begin

lemma encode_eq_iff: "admissible a \<Longrightarrow> admissible b \<Longrightarrow> encode a = encode b \<longleftrightarrow> a = b"
  using encode_inject by blast

lemma other_tag: "take 4 bs \<noteq> tag \<Longrightarrow> encode a \<noteq> bs"
  using encode_tag by blast

end

definition admissible_order :: "salted_order_preimage \<Rightarrow> bool" where
  "admissible_order p \<longleftrightarrow> valid_side (ord_side (pre_order p)) \<and> length (pre_nonce p) = 32"

definition admissible_account :: "salted_account_preimage \<Rightarrow> bool" where
  "admissible_account p \<longleftrightarrow> length (sap_salt p) = 32"

lemmas encoding_defs = Let_def ORDER_TAG_def ACCOUNT_TAG_def ORACLE_SNAPSHOT_TAG_def BATCH_HEADER_TAG_def

interpretation order_codec: fixed_codec canonical_encode_order admissible_order ORDER_TAG 86
proof
  fix a b
  assume "admissible_order a" "admissible_order b" "canonical_encode_order a = canonical_encode_order b"
  then show "a = b"
    by (cases a; cases b; cases "pre_order a"; cases "pre_order b")
       (auto simp: canonical_encode_order_def encoding_defs append_same_length admissible_order_def
         valid_side_def split: if_splits)
qed (simp_all add: canonical_encode_order_def encoding_defs admissible_order_def)

interpretation account_codec: fixed_codec canonical_encode_account admissible_account ACCOUNT_TAG 77
proof
  fix a b
  assume "admissible_account a" "admissible_account b" "canonical_encode_account a = canonical_encode_account b"
  then show "a = b"
    by (cases a; cases b)
       (auto simp: canonical_encode_account_def encoding_defs append_same_length)
qed (simp_all add: canonical_encode_account_def encoding_defs admissible_account_def)

interpretation oracle_codec: fixed_codec canonical_encode_oracle_snapshot "\<lambda>_. True" ORACLE_SNAPSHOT_TAG 57
proof
  fix a b
  assume "canonical_encode_oracle_snapshot a = canonical_encode_oracle_snapshot b"
  then show "a = b"
    by (cases a; cases b; cases "osp_snapshot a"; cases "osp_snapshot b"; cases "osp_policy a"; cases "osp_policy b")
       (auto simp: canonical_encode_oracle_snapshot_def encoding_defs append_same_length)
qed (simp_all add: canonical_encode_oracle_snapshot_def encoding_defs)

end
