(* ===== verification/Sha256.thy ===== *)
theory Sha256
  imports Prelude
begin

text \<open>
  \<open>commitments/sha256.hpp\<close> and \<open>sha256.cpp\<close>: the streaming hasher with its 64-byte buffer, bit
  counter and padding, and the domain-separated scheme on top of it.  The specification is the
  definition of the hash on a whole message: pad, cut into blocks, fold the compression function.
  The main theorem is that any sequence of updates followed by \<open>finalize\<close> computes it.
\<close>

definition K :: "u32 list" where
  "K =
     [0x428A2F98, 0x71374491, 0xB5C0FBCF, 0xE9B5DBA5, 0x3956C25B, 0x59F111F1, 0x923F82A4, 0xAB1C5ED5,
      0xD807AA98, 0x12835B01, 0x243185BE, 0x550C7DC3, 0x72BE5D74, 0x80DEB1FE, 0x9BDC06A7, 0xC19BF174,
      0xE49B69C1, 0xEFBE4786, 0x0FC19DC6, 0x240CA1CC, 0x2DE92C6F, 0x4A7484AA, 0x5CB0A9DC, 0x76F988DA,
      0x983E5152, 0xA831C66D, 0xB00327C8, 0xBF597FC7, 0xC6E00BF3, 0xD5A79147, 0x06CA6351, 0x14292967,
      0x27B70A85, 0x2E1B2138, 0x4D2C6DFC, 0x53380D13, 0x650A7354, 0x766A0ABB, 0x81C2C92E, 0x92722C85,
      0xA2BFE8A1, 0xA81A664B, 0xC24B8B70, 0xC76C51A3, 0xD192E819, 0xD6990624, 0xF40E3585, 0x106AA070,
      0x19A4C116, 0x1E376C08, 0x2748774C, 0x34B0BCB5, 0x391C0CB3, 0x4ED8AA4A, 0x5B9CCA4F, 0x682E6FF3,
      0x748F82EE, 0x78A5636F, 0x84C87814, 0x8CC70208, 0x90BEFFFA, 0xA4506CEB, 0xBEF9A3F7, 0xC67178F2]"

definition rotr :: "u32 \<Rightarrow> nat \<Rightarrow> u32" where
  "rotr x n = drop_bit n x OR push_bit (32 - n) x"

definition sha_choose :: "u32 \<Rightarrow> u32 \<Rightarrow> u32 \<Rightarrow> u32" where
  "sha_choose e f g = (e AND f) XOR (NOT e AND g)"

definition majority :: "u32 \<Rightarrow> u32 \<Rightarrow> u32 \<Rightarrow> u32" where
  "majority a b c = (a AND b) XOR (a AND c) XOR (b AND c)"

definition sig0 :: "u32 \<Rightarrow> u32" where
  "sig0 x = rotr x 2 XOR rotr x 13 XOR rotr x 22"

definition sig1 :: "u32 \<Rightarrow> u32" where
  "sig1 x = rotr x 6 XOR rotr x 11 XOR rotr x 25"

definition gamma0 :: "u32 \<Rightarrow> u32" where
  "gamma0 x = rotr x 7 XOR rotr x 18 XOR drop_bit 3 x"

definition gamma1 :: "u32 \<Rightarrow> u32" where
  "gamma1 x = rotr x 17 XOR rotr x 19 XOR drop_bit 10 x"

section \<open>The hasher\<close>

text \<open>The eight state words are a list; the buffer is the 64-byte array with the number of bytes
  that are in use.\<close>

record sha =
  sha_state :: "u32 list"
  sha_bit_len :: u64
  sha_buffer :: bytes
  sha_buf_len :: nat

definition initial_state :: "u32 list" where
  "initial_state = [0x6A09E667, 0xBB67AE85, 0x3C6EF372, 0xA54FF53A,
                    0x510E527F, 0x9B05688C, 0x1F83D9AB, 0x5BE0CD19]"

text \<open>The constructor leaves the buffer uninitialised: its content is an argument.\<close>

definition sha_init :: "bytes \<Rightarrow> sha" where
  "sha_init junk = \<lparr>sha_state = initial_state, sha_bit_len = 0, sha_buffer = junk, sha_buf_len = 0\<rparr>"

definition block_word :: "bytes \<Rightarrow> nat \<Rightarrow> u32" where
  "block_word block i =
     (push_bit 24 (ucast (block ! (i * 4))) OR push_bit 16 (ucast (block ! (i * 4 + 1)))
      OR push_bit 8 (ucast (block ! (i * 4 + 2))) OR ucast (block ! (i * 4 + 3)))"

definition message_schedule :: "bytes \<Rightarrow> u32 list" where
  "message_schedule block =
     foldl (\<lambda>m i. m @ [gamma1 (m ! (i - 2)) + m ! (i - 7) + gamma0 (m ! (i - 15)) + m ! (i - 16)])
       (map (block_word block) [0..<16]) [16..<64]"

type_synonym sha_vars = "u32 \<times> u32 \<times> u32 \<times> u32 \<times> u32 \<times> u32 \<times> u32 \<times> u32"

definition sha_round :: "sha_vars \<Rightarrow> u32 \<times> u32 \<Rightarrow> sha_vars" where
  "sha_round = (\<lambda>(a, b, c, d, e, f, g, h) (k, m).
     let t1 = h + sig1 e + sha_choose e f g + k + m;
         t2 = sig0 a + majority a b c
     in (t1 + t2, a, b, c, d + t1, e, f, g))"

definition compress :: "u32 list \<Rightarrow> bytes \<Rightarrow> u32 list" where
  "compress st block =
     (let (a, b, c, d, e, f, g, h) = foldl sha_round
        (st ! 0, st ! 1, st ! 2, st ! 3, st ! 4, st ! 5, st ! 6, st ! 7) (zip K (message_schedule block))
      in [st ! 0 + a, st ! 1 + b, st ! 2 + c, st ! 3 + d, st ! 4 + e, st ! 5 + f, st ! 6 + g, st ! 7 + h])"

definition transform :: "sha \<Rightarrow> sha" where
  "transform s = s\<lparr>sha_state := compress (sha_state s) (sha_buffer s)\<rparr>"

definition update_byte :: "sha \<Rightarrow> u8 \<Rightarrow> sha" where
  "update_byte s b =
     (let s1 = s\<lparr>sha_buffer := (sha_buffer s)[sha_buf_len s := b], sha_buf_len := sha_buf_len s + 1\<rparr> in
      if sha_buf_len s1 = 64
      then (transform s1)\<lparr>sha_bit_len := sha_bit_len s1 + 512, sha_buf_len := 0\<rparr>
      else s1)"

definition update :: "sha \<Rightarrow> bytes \<Rightarrow> sha" where
  "update s data = foldl update_byte s data"

text \<open>\<open>buffer_[i++] = b\<close> for the indices from \<open>i\<close> up to \<open>j\<close>.\<close>

definition write_bytes :: "bytes \<Rightarrow> nat \<Rightarrow> u8 list \<Rightarrow> bytes" where
  "write_bytes buf i bs = foldl (\<lambda>b (k, v). b[k := v]) buf (enumerate i bs)"

definition length_bytes :: "u64 \<Rightarrow> bytes" where
  "length_bytes n = map (\<lambda>j. ucast (drop_bit (j * 8) n AND 0xFF)) (rev [0..<8])"

definition digest_bytes :: "u32 list \<Rightarrow> bytes" where
  "digest_bytes st = concat (map (\<lambda>w. [ucast (drop_bit 24 w AND 0xFF), ucast (drop_bit 16 w AND 0xFF),
     ucast (drop_bit 8 w AND 0xFF), ucast (w AND 0xFF)]) st)"

definition finalize :: "sha \<Rightarrow> bytes" where
  "finalize s =
     (let i = sha_buf_len s;
          bits = sha_bit_len s + of_nat (sha_buf_len s * 8);
          s1 = (if sha_buf_len s < 56
                then s\<lparr>sha_buffer := write_bytes (sha_buffer s) i (0x80 # replicate (56 - (i + 1)) 0)\<rparr>
                else
                  let t = transform (s\<lparr>sha_buffer := write_bytes (sha_buffer s) i (0x80 # replicate (64 - (i + 1)) 0)\<rparr>)
                  in t\<lparr>sha_buffer := write_bytes (sha_buffer t) 0 (replicate 56 0)\<rparr>);
          s2 = transform (s1\<lparr>sha_buffer := write_bytes (sha_buffer s1) 56 (length_bytes bits)\<rparr>)
      in digest_bytes (sha_state s2))"

definition zero_buffer :: bytes where
  "zero_buffer = replicate 64 0"

definition sha256 :: "bytes \<Rightarrow> bytes" where
  "sha256 data = finalize (update (sha_init zero_buffer) data)"

section \<open>The scheme\<close>

definition LEAF_PREFIX :: bytes where "LEAF_PREFIX = [0x46, 0x43, 0x5F, 0x4C, 0x45, 0x41, 0x46, 0x5F]"
definition NODE_PREFIX :: bytes where "NODE_PREFIX = [0x46, 0x43, 0x5F, 0x4E, 0x4F, 0x44, 0x45, 0x5F]"
definition EMPTY_PREFIX :: bytes where
  "EMPTY_PREFIX = [0x46, 0x43, 0x5F, 0x45, 0x4D, 0x50, 0x54, 0x59, 0x5F, 0x4E, 0x4F, 0x44, 0x45]"

definition commit_raw_bytes :: "bytes \<Rightarrow> bytes" where
  "commit_raw_bytes data = finalize (update (update (sha_init zero_buffer) LEAF_PREFIX) data)"

definition combine_nodes :: "bytes \<Rightarrow> bytes \<Rightarrow> bytes" where
  "combine_nodes left right =
     finalize (update (update (update (sha_init zero_buffer) NODE_PREFIX) left) right)"

definition empty_node :: bytes where
  "empty_node = finalize (update (sha_init zero_buffer) EMPTY_PREFIX)"

section \<open>The specification\<close>

function blocks :: "bytes \<Rightarrow> bytes list" where
  "blocks xs = (if length xs < 64 then [] else take 64 xs # blocks (drop 64 xs))"
  by auto
termination
  by (relation "measure length") auto

declare blocks.simps [simp del]

lemma blocks_short [simp]: "length xs < 64 \<Longrightarrow> blocks xs = []"
  by (simp add: blocks.simps)

lemma blocks_block [simp]: "length xs = 64 \<Longrightarrow> blocks (xs @ ys) = xs # blocks ys"
  by (subst blocks.simps) simp

lemma blocks_append: "64 dvd length xs \<Longrightarrow> blocks (xs @ ys) = blocks xs @ blocks ys"
proof (induction xs rule: blocks.induct)
  case (1 xs)
  show ?case
  proof (cases "length xs < 64")
    case True
    then have "xs = []" using 1(2) by (cases "length xs") (auto dest: dvd_imp_le)
    then show ?thesis by simp
  next
    case False
    then have "64 dvd length (drop 64 xs)" using 1(2) by (simp add: dvd_diff_nat)
    then have IH: "blocks (drop 64 xs @ ys) = blocks (drop 64 xs) @ blocks ys" using 1(1) False by simp
    have "xs @ ys = take 64 xs @ drop 64 xs @ ys" by (metis append_assoc append_take_drop_id)
    moreover have "blocks (take 64 xs @ drop 64 xs @ ys) = take 64 xs # blocks (drop 64 xs @ ys)"
      using False by (intro blocks_block) simp
    ultimately have "blocks (xs @ ys) = take 64 xs # blocks (drop 64 xs @ ys)" by (simp only:)
    moreover have "blocks xs = take 64 xs # blocks (drop 64 xs)" using False by (subst blocks.simps) simp
    ultimately show ?thesis by (simp add: IH)
  qed
qed

definition padded :: "bytes \<Rightarrow> bytes" where
  "padded msg = msg @ 0x80 # replicate ((119 - length msg mod 64) mod 64) 0
     @ length_bytes (of_nat (length msg * 8))"

definition sha256_spec :: "bytes \<Rightarrow> bytes" where
  "sha256_spec msg = digest_bytes (foldl compress initial_state (blocks (padded msg)))"

section \<open>The stream invariant\<close>

definition absorbed :: "bytes \<Rightarrow> sha \<Rightarrow> bool" where
  "absorbed msg s \<longleftrightarrow> (\<exists>xs r. msg = xs @ r \<and> 64 dvd length xs \<and> length r < 64
     \<and> sha_state s = foldl compress initial_state (blocks xs)
     \<and> sha_bit_len s = of_nat (length xs * 8)
     \<and> length (sha_buffer s) = 64 \<and> sha_buf_len s = length r \<and> take (length r) (sha_buffer s) = r)"

lemma absorbed_init: "length junk = 64 \<Longrightarrow> absorbed [] (sha_init junk)"
  by (auto simp: absorbed_def sha_init_def)

lemma absorbed_update_byte:
  assumes "absorbed msg s"
  shows "absorbed (msg @ [b]) (update_byte s b)"
proof -
  obtain xs r where inv: "msg = xs @ r" "64 dvd length xs" "length r < 64"
    "sha_state s = foldl compress initial_state (blocks xs)"
    "sha_bit_len s = of_nat (length xs * 8)"
    "length (sha_buffer s) = 64" "sha_buf_len s = length r" "take (length r) (sha_buffer s) = r"
    using assms by (auto simp: absorbed_def)
  let ?buf = "(sha_buffer s)[length r := b]"
  have buf: "take (Suc (length r)) ?buf = r @ [b]"
    using inv(3,6,8) by (simp add: take_Suc_conv_app_nth)
  show ?thesis
  proof (cases "length r + 1 = 64")
    case True
    then have "?buf = r @ [b]" using buf inv(6) by simp
    then have "blocks (xs @ ?buf) = blocks xs @ [r @ [b]]"
      using True inv(2) blocks_block [of "r @ [b]" "[]"] by (simp add: blocks_append)
    then show ?thesis
      using inv True \<open>?buf = r @ [b]\<close>
      unfolding absorbed_def
      by - (rule exI [where x = "xs @ r @ [b]"], rule exI [where x = "[]"],
          simp add: update_byte_def transform_def Let_def algebra_simps)
  next
    case False
    then show ?thesis
      using inv buf
      unfolding absorbed_def
      by - (rule exI [where x = xs], rule exI [where x = "r @ [b]"], simp add: update_byte_def Let_def)
  qed
qed

lemma absorbed_update: "absorbed msg s \<Longrightarrow> absorbed (msg @ data) (update s data)"
proof (induction data arbitrary: msg s)
  case (Cons b data)
  then show ?case using absorbed_update_byte [of msg s b] by (fastforce simp: update_def)
qed (simp add: update_def)

lemma absorbed_updates: "absorbed msg s \<Longrightarrow> absorbed (msg @ concat chunks) (foldl update s chunks)"
proof (induction chunks arbitrary: msg s)
  case (Cons c chunks)
  then show ?case using absorbed_update [of msg s c] by fastforce
qed simp

lemma write_bytes_eq:
  "i + length bs \<le> length buf \<Longrightarrow> write_bytes buf i bs = take i buf @ bs @ drop (i + length bs) buf"
proof (induction bs arbitrary: i buf)
  case (Cons b bs)
  have "write_bytes buf i (b # bs) = write_bytes (buf[i := b]) (Suc i) bs"
    by (simp add: write_bytes_def)
  also have "\<dots> = take (Suc i) (buf[i := b]) @ bs @ drop (Suc i + length bs) (buf[i := b])"
    using Cons.prems by (intro Cons.IH) simp
  also have "take (Suc i) (buf[i := b]) = take i buf @ [b]"
    using Cons.prems by (simp add: take_Suc_conv_app_nth)
  finally show ?case by simp
qed (simp add: write_bytes_def)

lemma length_length_bytes [simp]: "length (length_bytes n) = 8"
  by (simp add: length_bytes_def)

lemma padded_split:
  assumes "64 dvd length xs" "length r < 64"
  shows "padded (xs @ r) = xs @ (if length r < 56
      then r @ 0x80 # replicate (55 - length r) 0 @ length_bytes (of_nat (length (xs @ r) * 8))
      else (r @ 0x80 # replicate (63 - length r) 0) @ replicate 56 0 @ length_bytes (of_nat (length (xs @ r) * 8)))"
proof -
  have "length (xs @ r) mod 64 = length r" using assms by auto
  moreover have "(119 - length r) mod 64 = (if length r < 56 then 55 - length r else (63 - length r) + 56)"
    using assms(2) by (auto simp: mod_if)
  moreover have "replicate (63 - length r + 56) (0 :: u8) = replicate (63 - length r) 0 @ replicate 56 0"
    by (rule replicate_add)
  ultimately show ?thesis
    by (simp add: padded_def del: length_append)
qed

lemma finalize_absorbed:
  assumes "absorbed msg s"
  shows "finalize s = sha256_spec msg"
proof -
  obtain xs r where inv: "msg = xs @ r" "64 dvd length xs" "length r < 64"
    "sha_state s = foldl compress initial_state (blocks xs)"
    "sha_bit_len s = of_nat (length xs * 8)"
    "length (sha_buffer s) = 64" "sha_buf_len s = length r" "take (length r) (sha_buffer s) = r"
    using assms by (auto simp: absorbed_def)
  define n :: u64 where "n = of_nat (length msg * 8)"
  let ?len = "length_bytes n"
  have bits: "sha_bit_len s + of_nat (length r) * 8 = n"
    by (simp add: n_def inv(1,5) algebra_simps)
  have split: "padded msg = xs @ (if length r < 56 then r @ 0x80 # replicate (55 - length r) 0 @ ?len
      else (r @ 0x80 # replicate (63 - length r) 0) @ replicate 56 0 @ ?len)"
    using padded_split [OF inv(2,3)] by (simp only: n_def inv(1))
  show ?thesis
  proof (cases "length r < 56")
    case True
    let ?b = "r @ 0x80 # replicate (55 - length r) 0 @ ?len"
    have "56 - length r = Suc (55 - length r)" using True by simp
    then have "write_bytes (write_bytes (sha_buffer s) (length r) (0x80 # replicate (56 - (length r + 1)) 0)) 56 ?len = ?b"
      using True inv(6,8) by (simp add: write_bytes_eq)
    then have "finalize s = digest_bytes (compress (sha_state s) ?b)"
      using True by (simp add: finalize_def inv(7) transform_def bits Let_def)
    moreover have "blocks ?b = [?b]" using True blocks_block [of ?b "[]"] by simp
    ultimately show ?thesis
      using True by (simp add: sha256_spec_def split inv(4) blocks_append [OF inv(2)])
  next
    case False
    let ?b1 = "r @ 0x80 # replicate (63 - length r) 0" and ?b2 = "replicate 56 0 @ ?len"
    have b1: "write_bytes (sha_buffer s) (length r) (0x80 # replicate (64 - (length r + 1)) 0) = ?b1"
      using False inv(3,6,8) by (simp add: write_bytes_eq)
    have len: "length ?b1 = 64" using False inv(3) by simp
    then have b2: "write_bytes (write_bytes ?b1 0 (replicate 56 0)) 56 ?len = ?b2"
      by (simp add: write_bytes_eq del: append.simps)
    have "64 - (length r + 1) = 63 - length r" by simp
    note b1 = b1 [unfolded this]
    have "finalize s = digest_bytes (compress (compress (sha_state s) ?b1) ?b2)"
      using False b2 by (simp add: finalize_def inv(7) transform_def bits Let_def b1 del: append_assoc append.simps)
    moreover have "blocks ?b2 = [?b2]" using blocks_block [of ?b2 "[]"] by simp
    then have "blocks (?b1 @ ?b2) = [?b1, ?b2]" using blocks_block [OF len, of ?b2] by (simp only:)
    ultimately show ?thesis
      using False
      by (simp add: sha256_spec_def split inv(4) blocks_append [OF inv(2)] del: append_assoc append.simps)
  qed
qed

text \<open>C9: however the message is cut into updates, and whatever the uninitialised buffer held, the
  streaming hasher computes the hash of the whole message: pad to a multiple of 64 bytes with the
  bit length at the end, and fold the compression function over the blocks.\<close>

theorem sha256_streaming_correct:
  assumes "length junk = 64"
  shows "finalize (foldl update (sha_init junk) chunks) = sha256_spec (concat chunks)"
  using finalize_absorbed [OF absorbed_updates [OF absorbed_init [OF assms], of chunks]] by simp

theorem sha256_streaming_correct_witness:
  "finalize (foldl update (sha_init (replicate 64 7)) [[1, 2], [3]]) = sha256_spec [1, 2, 3]"
  using sha256_streaming_correct [of "replicate 64 7" "[[1, 2], [3]]"] by simp

section \<open>What the scheme hashes\<close>

lemma zero_buffer_length: "length zero_buffer = 64"
  by (simp add: zero_buffer_def)

lemma finalize_updates: "finalize (foldl update (sha_init zero_buffer) chunks) = sha256_spec (concat chunks)"
  using finalize_absorbed [OF absorbed_updates [OF absorbed_init [OF zero_buffer_length], of chunks]] by simp

lemma scheme_spec:
  "sha256 data = sha256_spec data"
  "commit_raw_bytes data = sha256_spec (LEAF_PREFIX @ data)"
  "combine_nodes left right = sha256_spec (NODE_PREFIX @ left @ right)"
  "empty_node = sha256_spec EMPTY_PREFIX"
  using finalize_updates [of "[data]"] finalize_updates [of "[LEAF_PREFIX, data]"]
    finalize_updates [of "[NODE_PREFIX, left, right]"] finalize_updates [of "[EMPTY_PREFIX]"]
  by (simp_all add: sha256_def commit_raw_bytes_def combine_nodes_def empty_node_def)

lemma length_compress [simp]: "length (compress st block) = 8"
  by (simp add: compress_def Let_def split: prod.split)

lemma length_digest_bytes [simp]: "length (digest_bytes st) = 4 * length st"
  by (induction st) (simp_all add: digest_bytes_def)

lemma length_foldl_compress: "length st = 8 \<Longrightarrow> length (foldl compress st bs) = 8"
  by (induction bs arbitrary: st) simp_all

lemma length_sha256_spec [simp]: "length (sha256_spec msg) = 32"
  by (simp add: sha256_spec_def length_foldl_compress initial_state_def)

lemma length_scheme [simp]:
  "length (commit_raw_bytes data) = 32" "length (combine_nodes l r) = 32" "length empty_node = 32"
  by (simp_all add: scheme_spec)

text \<open>A collision of the hash, exhibited.\<close>

definition collision :: "bytes \<times> bytes \<Rightarrow> bool" where
  "collision = (\<lambda>(m1, m2). m1 \<noteq> m2 \<and> sha256 m1 = sha256 m2)"

lemma collision_iff: "collision (m1, m2) \<longleftrightarrow> m1 \<noteq> m2 \<and> sha256_spec m1 = sha256_spec m2"
  by (simp add: collision_def scheme_spec)

text \<open>The digest of ``abc'' published in FIPS 180-2.\<close>

lemma sha256_abc: "sha256 [0x61, 0x62, 0x63] =
    [0xBA, 0x78, 0x16, 0xBF, 0x8F, 0x01, 0xCF, 0xEA, 0x41, 0x41, 0x40, 0xDE, 0x5D, 0xAE, 0x22, 0x23,
     0xB0, 0x03, 0x61, 0xA3, 0x96, 0x17, 0x7A, 0x9C, 0xB4, 0x10, 0xFF, 0x61, 0xF2, 0x00, 0x15, 0xAD]"
  by code_simp

end
