(* ===== verification/Merkle.thy ===== *)
theory Merkle
  imports Sha256
begin

text \<open>
  \<open>commitments/merkle.hpp\<close> and \<open>merkle.cpp\<close>: the Merkle tree as its leaves and layers, the root,
  the generation and the verification of inclusion proofs.  Completeness says that every leaf has
  a proof that verifies; soundness is stated by extraction: from an accepted proof of another leaf
  at the same position, two messages with the same hash are computed.
\<close>

datatype step_side = Left_Step | Right_Step

record merkle_step =
  ms_side :: step_side
  ms_sibling :: bytes

record merkle_proof =
  mp_leaf_index :: nat
  mp_path :: "merkle_step list"

record merkle_tree =
  mt_leaves :: "bytes list"
  mt_layers :: "bytes list list"

definition verify_step :: "bytes \<Rightarrow> merkle_step \<Rightarrow> bytes" where
  "verify_step current step =
     (case ms_side step of
        Left_Step \<Rightarrow> combine_nodes (ms_sibling step) current
      | Right_Step \<Rightarrow> combine_nodes current (ms_sibling step))"

definition merkle_verify :: "merkle_proof \<Rightarrow> bytes \<Rightarrow> bytes \<Rightarrow> bool" where
  "merkle_verify proof1 expected_root leaf \<longleftrightarrow> foldl verify_step leaf (mp_path proof1) = expected_root"

fun next_layer :: "bytes list \<Rightarrow> bytes list" where
  "next_layer [] = []"
| "next_layer [x] = [combine_nodes x empty_node]"
| "next_layer (x # y # xs) = combine_nodes x y # next_layer xs"

lemma length_next_layer: "length (next_layer xs) = (length xs + 1) div 2"
  by (induction xs rule: next_layer.induct) auto

text \<open>The loop that pushes layers until one node is left.\<close>

function build_layers :: "bytes list \<Rightarrow> bytes list list" where
  "build_layers current = (if 1 < length current then current # build_layers (next_layer current) else [current])"
  by auto
termination
  by (relation "measure length") (auto simp: length_next_layer)

declare build_layers.simps [simp del]

definition new_merkle_tree :: "bytes list \<Rightarrow> merkle_tree" where
  "new_merkle_tree leaves =
     \<lparr>mt_leaves = leaves, mt_layers = (if leaves = [] then [] else build_layers leaves)\<rparr>"

definition merkle_root :: "merkle_tree \<Rightarrow> bytes" where
  "merkle_root t = (if mt_leaves t = [] then empty_node else last (mt_layers t) ! 0)"

definition leaf_count :: "merkle_tree \<Rightarrow> nat" where
  "leaf_count t = length (mt_leaves t)"

definition proof_step :: "nat \<Rightarrow> bytes list \<Rightarrow> merkle_step" where
  "proof_step i layer =
     (if i mod 2 = 1 then \<lparr>ms_side = Left_Step, ms_sibling = layer ! (i - 1)\<rparr>
      else \<lparr>ms_side = Right_Step,
            ms_sibling = (if i + 1 < length layer then layer ! (i + 1) else empty_node)\<rparr>)"

text \<open>The loop over all layers but the last, halving the index.\<close>

fun proof_path :: "nat \<Rightarrow> bytes list list \<Rightarrow> merkle_step list" where
  "proof_path i (layer # l # layers) = proof_step i layer # proof_path (i div 2) (l # layers)"
| "proof_path i layers = []"

definition generate_proof :: "merkle_tree \<Rightarrow> nat \<Rightarrow> merkle_proof option" where
  "generate_proof t i =
     (if leaf_count t \<le> i then None
      else Some \<lparr>mp_leaf_index = i, mp_path = proof_path i (mt_layers t)\<rparr>)"

section \<open>Completeness\<close>

lemma nth_next_layer:
  "i < length xs \<Longrightarrow> next_layer xs ! (i div 2) = verify_step (xs ! i) (proof_step i xs)"
proof (induction xs arbitrary: i rule: next_layer.induct)
  case (3 x y xs)
  show ?case
  proof (cases "i < 2")
    case True
    then consider "i = 0" | "i = 1" by linarith
    then show ?thesis by cases (simp_all add: verify_step_def proof_step_def)
  next
    case False
    define j where "j = i - 2"
    have i: "i = j + 2" using False by (simp add: j_def)
    have "proof_step i (x # y # xs) = proof_step j xs"
      unfolding i proof_step_def using 3(2) by (cases j) (auto simp: i nth_Cons')
    then show ?thesis using 3 by (simp add: i)
  qed
qed (auto simp: verify_step_def proof_step_def)

lemma build_layers_nonempty [simp]: "build_layers xs \<noteq> []"
  by (subst build_layers.simps) simp

lemma build_layers_Cons: "\<exists>l ls. build_layers xs = l # ls"
  by (cases "build_layers xs") simp_all

text \<open>Walking up from any node of the bottom layer ends at the single node of the top.\<close>

lemma path_to_root:
  "i < length xs \<Longrightarrow>
   foldl verify_step (xs ! i) (proof_path i (build_layers xs)) = last (build_layers xs) ! 0"
proof (induction xs arbitrary: i rule: build_layers.induct)
  case (1 xs)
  show ?case
  proof (cases "1 < length xs")
    case True
    obtain l ls where ls: "build_layers (next_layer xs) = l # ls" using build_layers_Cons by blast
    have "i div 2 < length (next_layer xs)" using 1(2) True by (simp add: length_next_layer)
    from 1(1) [OF True this] show ?thesis
      using True 1(2) by (subst (1 2) build_layers.simps) (simp add: ls nth_next_layer)
  next
    case False
    then have "i = 0" using 1(2) by simp
    then show ?thesis using False by (subst (1 2) build_layers.simps) simp
  qed
qed

lemma path_length: "length (proof_path i (build_layers xs)) = length (build_layers xs) - 1"
proof (induction xs arbitrary: i rule: build_layers.induct)
  case (1 xs)
  obtain l ls where ls: "build_layers (next_layer xs) = l # ls" using build_layers_Cons by blast
  show ?case
    using 1 by (cases "1 < length xs"; subst (1 2) build_layers.simps) (auto simp: ls)
qed

section \<open>Soundness by extraction\<close>

text \<open>Two walks with the same sides from different leaves to the same root: at the first level where
  they meet, the two nodes hashed are different messages with the same hash.\<close>

definition node_message :: "bytes \<Rightarrow> merkle_step \<Rightarrow> bytes" where
  "node_message current step =
     NODE_PREFIX @ (case ms_side step of Left_Step \<Rightarrow> ms_sibling step @ current
                                       | Right_Step \<Rightarrow> current @ ms_sibling step)"

fun extract_collision :: "bytes \<Rightarrow> merkle_step list \<Rightarrow> bytes \<Rightarrow> merkle_step list \<Rightarrow> bytes \<times> bytes" where
  "extract_collision x (p # ps) y (q # qs) =
     (if verify_step x p = verify_step y q then (node_message x p, node_message y q)
      else extract_collision (verify_step x p) ps (verify_step y q) qs)"
| "extract_collision x ps y qs = ([], [])"

lemma verify_step_spec: "verify_step x p = sha256_spec (node_message x p)"
  by (simp add: verify_step_def node_message_def scheme_spec split: step_side.split)

lemma length_verify_step [simp]: "length (verify_step x p) = 32"
  by (simp add: verify_step_spec)

lemma node_message_inject:
  assumes "length x = 32" "length y = 32" "ms_side p = ms_side q" "node_message x p = node_message y q"
    and "length (ms_sibling p) = 32" "length (ms_sibling q) = 32"
  shows "x = y"
  using assms by (auto simp: node_message_def split: step_side.splits)

lemma extract_collision_sound:
  "x \<noteq> y \<Longrightarrow> length x = 32 \<Longrightarrow> length y = 32 \<Longrightarrow> map ms_side ps = map ms_side qs \<Longrightarrow>
   list_all (\<lambda>s. length (ms_sibling s) = 32) ps \<Longrightarrow> list_all (\<lambda>s. length (ms_sibling s) = 32) qs \<Longrightarrow>
   foldl verify_step x ps = foldl verify_step y qs \<Longrightarrow> collision (extract_collision x ps y qs)"
proof (induction x ps y qs rule: extract_collision.induct)
  case (1 x p ps y q qs)
  show ?case
  proof (cases "verify_step x p = verify_step y q")
    case True
    then have "node_message x p \<noteq> node_message y q"
      using node_message_inject [of x y p q] 1 by auto
    with True show ?thesis by (simp add: collision_iff verify_step_spec)
  next
    case False
    with 1 show ?thesis by simp
  qed
qed auto

lemma siblings_32:
  assumes "list_all (\<lambda>l. length l = 32) xs" "i < length xs"
  shows "list_all (\<lambda>s. length (ms_sibling s) = 32) (proof_path i (build_layers xs))"
proof -
  have next_32: "list_all (\<lambda>l. length l = 32) (next_layer xs)" for xs
    by (induction xs rule: next_layer.induct) auto
  have step: "length (ms_sibling (proof_step i xs)) = 32" if "i < length xs" "list_all (\<lambda>l. length l = 32) xs" for i xs
    using that by (auto simp: proof_step_def list_all_length)
  show ?thesis using assms
  proof (induction xs arbitrary: i rule: build_layers.induct)
    case (1 xs)
    obtain l ls where ls: "build_layers (next_layer xs) = l # ls" using build_layers_Cons by blast
    show ?case
    proof (cases "1 < length xs")
      case True
      have "i div 2 < length (next_layer xs)" using 1(3) True by (simp add: length_next_layer)
      with 1(1) [OF True next_32] True 1(2,3) step show ?thesis
        by (subst build_layers.simps) (simp add: ls)
    next
      case False
      then show ?thesis by (subst build_layers.simps) simp
    qed
  qed
qed

section \<open>Properties\<close>

lemma merkle_root_layers: "leaves \<noteq> [] \<Longrightarrow> merkle_root (new_merkle_tree leaves) = last (build_layers leaves) ! 0"
  by (simp add: merkle_root_def new_merkle_tree_def)

lemma generate_proof_path:
  "i < length leaves \<Longrightarrow> generate_proof (new_merkle_tree leaves) i =
     Some \<lparr>mp_leaf_index = i, mp_path = proof_path i (build_layers leaves)\<rparr>"
  by (auto simp: generate_proof_def new_merkle_tree_def leaf_count_def)

lemma generated_proof_verifies:
  assumes "i < length leaves" "generate_proof (new_merkle_tree leaves) i = Some p"
  shows "merkle_verify p (merkle_root (new_merkle_tree leaves)) (leaves ! i)"
proof -
  have "leaves \<noteq> []" using assms(1) by auto
  then show ?thesis
    using assms path_to_root [OF assms(1)] by (auto simp: generate_proof_path merkle_root_layers merkle_verify_def)
qed

text \<open>A proof is generated exactly for the indices of leaves, and it verifies against the root for
  that leaf, whatever the number of leaves (odd layers are completed with the empty node).\<close>

theorem merkle_complete:
  "(generate_proof (new_merkle_tree leaves) i = None \<longleftrightarrow> length leaves \<le> i)
   \<and> list_all (\<lambda>j. merkle_verify (the (generate_proof (new_merkle_tree leaves) j))
        (merkle_root (new_merkle_tree leaves)) (leaves ! j)) [0..<length leaves]"
proof -
  have "merkle_verify (the (generate_proof (new_merkle_tree leaves) j))
        (merkle_root (new_merkle_tree leaves)) (leaves ! j)" if "j < length leaves" for j
    using generated_proof_verifies [OF that generate_proof_path [OF that]] generate_proof_path [OF that] by simp
  then show ?thesis
    by (auto simp: list_all_iff generate_proof_def leaf_count_def new_merkle_tree_def)
qed

section \<open>The tree behind a root\<close>

text \<open>A root read as a tree: every digest stands for the message it is the hash of, a committed leaf, a
  pair of nodes, or the node that completes an odd layer.  The three kinds of messages differ in their
  first byte, so two trees with one root are equal, or have a collision where they part.\<close>

datatype hash_tree = Padding | Committed bytes | is_Branch: Branch hash_tree hash_tree

primrec tree_hash :: "hash_tree \<Rightarrow> bytes" where
  "tree_hash Padding = empty_node"
| "tree_hash (Committed data) = commit_raw_bytes data"
| "tree_hash (Branch s t) = combine_nodes (tree_hash s) (tree_hash t)"

primrec tree_message :: "hash_tree \<Rightarrow> bytes" where
  "tree_message Padding = EMPTY_PREFIX"
| "tree_message (Committed data) = LEAF_PREFIX @ data"
| "tree_message (Branch s t) = NODE_PREFIX @ tree_hash s @ tree_hash t"

primrec frontier :: "hash_tree \<Rightarrow> bytes list" where
  "frontier Padding = []"
| "frontier (Committed data) = [data]"
| "frontier (Branch s t) = frontier s @ frontier t"

fun tree_collision :: "hash_tree \<Rightarrow> hash_tree \<Rightarrow> bytes \<times> bytes" where
  "tree_collision (Branch s t) (Branch s' t') =
     (if tree_message (Branch s t) \<noteq> tree_message (Branch s' t') then (tree_message (Branch s t), tree_message (Branch s' t'))
      else if s = s' then tree_collision t t' else tree_collision s s')"
| "tree_collision s t = (tree_message s, tree_message t)"

lemma tree_hash_spec: "tree_hash t = sha256_spec (tree_message t)"
  by (cases t) (simp_all add: scheme_spec)

lemma length_tree_hash [simp]: "length (tree_hash t) = 32"
  by (simp add: tree_hash_spec)

lemma tree_messages_differ:
  "s \<noteq> t \<Longrightarrow> \<not> (is_Branch s \<and> is_Branch t) \<Longrightarrow> tree_message s \<noteq> tree_message t"
  by (cases s; cases t) (simp_all add: LEAF_PREFIX_def NODE_PREFIX_def EMPTY_PREFIX_def)

lemma message_collision:
  "tree_hash s = tree_hash t \<Longrightarrow> tree_message s \<noteq> tree_message t \<Longrightarrow> collision (tree_message s, tree_message t)"
  by (simp add: collision_iff tree_hash_spec)

lemma tree_collision_sound: "tree_hash s = tree_hash t \<Longrightarrow> s \<noteq> t \<Longrightarrow> collision (tree_collision s t)"
proof (induction s t rule: tree_collision.induct)
  case (1 s t s' t')
  show ?case
  proof (cases "tree_message (Branch s t) = tree_message (Branch s' t')")
    case True
    then have "tree_hash s = tree_hash s'" "tree_hash t = tree_hash t'" by simp_all
    with 1 True show ?thesis by auto
  next
    case False
    with message_collision [OF 1(3) False] show ?thesis by (simp only: tree_collision.simps simp_thms if_True)
  qed
qed (simp_all only: tree_collision.simps message_collision tree_messages_differ hash_tree.disc not_False_eq_True simp_thms)

text \<open>The tree over a list of leaves, layer by layer as the constructor builds it.\<close>

fun join_pairs :: "hash_tree list \<Rightarrow> hash_tree list" where
  "join_pairs [] = []"
| "join_pairs [t] = [Branch t Padding]"
| "join_pairs (s # t # ts) = Branch s t # join_pairs ts"

lemma join_pairs_hash: "map tree_hash (join_pairs ts) = next_layer (map tree_hash ts)"
  by (induction ts rule: join_pairs.induct) simp_all

lemma join_pairs_frontier: "concat (map frontier (join_pairs ts)) = concat (map frontier ts)"
  by (induction ts rule: join_pairs.induct) simp_all

lemma length_join_pairs: "length (join_pairs ts) = (length ts + 1) div 2"
  by (induction ts rule: join_pairs.induct) auto

function tree_over :: "hash_tree list \<Rightarrow> hash_tree" where
  "tree_over ts = (if 1 < length ts then tree_over (join_pairs ts) else if ts = [] then Padding else hd ts)"
  by auto
termination
  by (relation "measure length") (auto simp: length_join_pairs)

declare tree_over.simps [simp del]

lemma frontier_tree_over: "frontier (tree_over ts) = concat (map frontier ts)"
proof (induction ts rule: tree_over.induct)
  case (1 ts)
  show ?case
  proof (cases "1 < length ts")
    case True
    with 1 show ?thesis by (simp add: tree_over.simps [of ts] join_pairs_frontier)
  next
    case False
    then show ?thesis by (cases ts) (simp_all add: tree_over.simps)
  qed
qed

lemma hash_tree_over:
  "ts \<noteq> [] \<Longrightarrow> tree_hash (tree_over ts) = last (build_layers (map tree_hash ts)) ! 0"
proof (induction ts rule: tree_over.induct)
  case (1 ts)
  show ?case
  proof (cases "1 < length ts")
    case True
    then have "join_pairs ts \<noteq> []" by (cases ts rule: join_pairs.cases) simp_all
    with 1 True show ?thesis
      by (subst tree_over.simps, subst build_layers.simps) (simp add: join_pairs_hash)
  next
    case False
    with 1(2) show ?thesis by (cases ts) (simp_all add: tree_over.simps build_layers.simps)
  qed
qed

definition merkle_tree_of :: "bytes list \<Rightarrow> hash_tree" where
  "merkle_tree_of data = tree_over (map Committed data)"

lemma root_of_tree:
  "merkle_root (new_merkle_tree (map commit_raw_bytes data)) = tree_hash (merkle_tree_of data)"
proof (cases "data = []")
  case False
  then show ?thesis
    using hash_tree_over [of "map Committed data"] by (simp add: merkle_root_layers merkle_tree_of_def comp_def)
qed (simp add: merkle_root_def new_merkle_tree_def merkle_tree_of_def tree_over.simps)

lemma frontier_of_tree: "frontier (merkle_tree_of data) = data"
  by (induction data) (simp_all add: merkle_tree_of_def frontier_tree_over)

text \<open>The root binds the leaves, in number, order and contents.\<close>

lemma merkle_root_binds:
  assumes "merkle_root (new_merkle_tree (map commit_raw_bytes xs)) = merkle_root (new_merkle_tree (map commit_raw_bytes ys))"
  shows "xs = ys \<or> collision (tree_collision (merkle_tree_of xs) (merkle_tree_of ys))"
  using assms tree_collision_sound [of "merkle_tree_of xs" "merkle_tree_of ys"] frontier_of_tree
  unfolding root_of_tree by metis

lemma extract_collision_generated:
  assumes "list_all (\<lambda>l. length l = 32) leaves" "generate_proof (new_merkle_tree leaves) i = Some p"
    "merkle_verify q (merkle_root (new_merkle_tree leaves)) leaf" "length leaf = 32"
    "map ms_side (mp_path q) = map ms_side (mp_path p)"
    "list_all (\<lambda>s. length (ms_sibling s) = 32) (mp_path q)" "leaf \<noteq> leaves ! i"
  shows "collision (extract_collision (leaves ! i) (mp_path p) leaf (mp_path q))"
proof -
  have i: "i < length leaves"
    using assms(2) by (auto simp: generate_proof_def leaf_count_def new_merkle_tree_def split: if_splits)
  then have p: "mp_path p = proof_path i (build_layers leaves)" using assms(2) by (auto simp: generate_proof_path)
  have "foldl verify_step (leaves ! i) (mp_path p) = foldl verify_step leaf (mp_path q)"
    using generated_proof_verifies [OF i assms(2)] assms(3) by (simp add: merkle_verify_def)
  then show ?thesis
    using assms siblings_32 [OF assms(1) i] i
    by (intro extract_collision_sound) (auto simp: p list_all_length)
qed

text \<open>C10: a proof with the sides of position \<open>i\<close> that is accepted for some digest is accepted for leaf
  \<open>i\<close> itself, or comparing it with the honest proof computes two different messages with the same
  SHA-256 hash.\<close>

theorem merkle_sound:
  assumes "list_all (\<lambda>l. length l = 32) leaves" and "generate_proof (new_merkle_tree leaves) i = Some p"
    and "merkle_verify q (merkle_root (new_merkle_tree leaves)) leaf" and "length leaf = 32"
    and "map ms_side (mp_path q) = map ms_side (mp_path p)"
    and "list_all (\<lambda>s. length (ms_sibling s) = 32) (mp_path q)"
  shows "leaf = leaves ! i \<or> collision (extract_collision (leaves ! i) (mp_path p) leaf (mp_path q))"
  using extract_collision_generated [OF assms] by blast

definition three_leaves :: "bytes list" where
  "three_leaves = [replicate 32 1, replicate 32 2, replicate 32 3]"

theorem merkle_sound_witness:
  "\<exists>p. generate_proof (new_merkle_tree three_leaves) 2 = Some p
    \<and> (replicate 32 3 = three_leaves ! 2
       \<or> collision (extract_collision (three_leaves ! 2) (mp_path p) (replicate 32 3) (mp_path p)))"
proof -
  have i: "2 < length three_leaves" and l: "list_all (\<lambda>l. length l = 32) three_leaves"
    by (simp_all add: three_leaves_def)
  obtain p where p: "generate_proof (new_merkle_tree three_leaves) 2 = Some p"
    using generate_proof_path [OF i] by blast
  have "list_all (\<lambda>s. length (ms_sibling s) = 32) (mp_path p)"
    using siblings_32 [OF l i] p by (auto simp: generate_proof_path [OF i])
  moreover have "merkle_verify p (merkle_root (new_merkle_tree three_leaves)) (replicate 32 3)"
    using generated_proof_verifies [OF i p] by (simp add: three_leaves_def)
  ultimately show ?thesis using merkle_sound [OF l p, of p "replicate 32 3"] p by auto
qed

text \<open>The three hash domains are separate: a leaf digest that equals a node digest or the empty
  node, or a node digest that equals the empty node, is a collision of the hash on the messages
  shown, so no internal node can pass for a committed leaf.\<close>

theorem domains_separate:
  "(commit_raw_bytes data = combine_nodes l r) = collision (LEAF_PREFIX @ data, NODE_PREFIX @ l @ r)
   \<and> (commit_raw_bytes data = empty_node) = collision (LEAF_PREFIX @ data, EMPTY_PREFIX)
   \<and> (combine_nodes l r = empty_node) = collision (NODE_PREFIX @ l @ r, EMPTY_PREFIX)"
  by (simp add: collision_iff scheme_spec LEAF_PREFIX_def NODE_PREFIX_def EMPTY_PREFIX_def)

end
