(* ===== verification/Commitments.thy ===== *)
theory Commitments
  imports Encoding Merkle
begin

text \<open>
  \<open>commitments/commitment.hpp\<close>, \<open>order_commitment.hpp\<close>, \<open>batch_commitment.hpp\<close>,
  \<open>oracle_commitment.hpp\<close> and \<open>ledger_commitment.hpp\<close>: the salted commitments and the ledger root.
  A commitment is the leaf hash of an encoding, so two openings of one commitment are either the
  same or a collision of the hash; the locale \<open>binding_commitment\<close> derives this from the contract
  of the encoding, once for all kinds.
\<close>

definition hex_digit :: "nat \<Rightarrow> char" where
  "hex_digit d = ''0123456789abcdef'' ! d"

definition to_hex :: "bytes \<Rightarrow> string" where
  "to_hex bs = concat (map (\<lambda>b. [hex_digit (unat b div 16), hex_digit (unat b mod 16)]) bs)"

definition commit_order :: "salted_order_preimage \<Rightarrow> bytes" where
  "commit_order p = commit_raw_bytes (canonical_encode_order p)"

definition commit_order_fields :: "order \<Rightarrow> bytes \<Rightarrow> bytes" where
  "commit_order_fields o1 nonce = commit_order \<lparr>pre_order = o1, pre_nonce = nonce\<rparr>"

definition verify_order_commitment :: "bytes \<Rightarrow> salted_order_preimage \<Rightarrow> bool" where
  "verify_order_commitment claimed p \<longleftrightarrow> commit_order p = claimed"

record batch_header =
  bh_semantic_version :: u32
  bh_batch_id :: batch_id
  bh_instrument_id :: instrument_id
  bh_cutoff :: u64
  bh_order_count :: u32
  bh_orders_root :: bytes

definition canonical_encode_header :: "batch_header \<Rightarrow> bytes" where
  "canonical_encode_header h =
     (let buf = BATCH_HEADER_TAG @ [ENCODING_VERSION_V1];
          buf = foldl (\<lambda>b i. b @ [le_byte (bh_semantic_version h) i]) buf [0..<4];
          buf = append_le64 buf (bh_batch_id h);
          buf = append_le64 buf (bh_instrument_id h);
          buf = append_le64 buf (bh_cutoff h);
          buf = foldl (\<lambda>b i. b @ [le_byte (bh_order_count h) i]) buf [0..<4]
      in buf @ bh_orders_root h)"

definition compute_batch_commitment :: "batch_header \<Rightarrow> bytes" where
  "compute_batch_commitment h = commit_raw_bytes (canonical_encode_header h)"

definition ABSENT_ORACLE_MARKER :: bytes where
  "ABSENT_ORACLE_MARKER = [0x46, 0x43, 0x4F, 0x53, 0x5F, 0x41, 0x42, 0x53, 0x45, 0x4E, 0x54, 0x5F, 0x56, 0x31]"

definition compute_oracle_snapshot_commitment ::
  "reference_price_snapshot option \<Rightarrow> reference_price_policy option \<Rightarrow> bytes" where
  "compute_oracle_snapshot_commitment snapshot policy =
     (case (snapshot, policy) of
        (Some s, Some p) \<Rightarrow>
          commit_raw_bytes (canonical_encode_oracle_snapshot \<lparr>osp_snapshot = s, osp_policy = p\<rparr>)
      | _ \<Rightarrow> commit_raw_bytes ABSENT_ORACLE_MARKER)"

section \<open>The ledger root\<close>

definition ACCOUNT_SALT_TAG :: bytes where
  "ACCOUNT_SALT_TAG = [0x46, 0x43, 0x5F, 0x41, 0x43, 0x43, 0x54, 0x5F, 0x53, 0x41, 0x4C, 0x54, 0x5F, 0x56, 0x31]"

definition derive_account_salt :: "bytes \<Rightarrow> account_id \<Rightarrow> bytes" where
  "derive_account_salt venue_secret k =
     commit_raw_bytes (append_le64 (ACCOUNT_SALT_TAG @ venue_secret) k)"

definition blind_ledger :: "bytes \<Rightarrow> ledger \<Rightarrow> ledger" where
  "blind_ledger venue_secret l =
     om_map (\<lambda>k acc. set_commitment_salt (derive_account_salt venue_secret k) acc) l"

definition account_preimage :: "instrument_id \<Rightarrow> account_id \<times> account_state \<Rightarrow> salted_account_preimage" where
  "account_preimage inst = (\<lambda>(k, acc).
     \<lparr>sap_account_id = k, sap_cash = acc_cash acc, sap_instrument = inst,
      sap_inventory = inventory_of acc inst, sap_salt = acc_salt acc\<rparr>)"

definition account_leaf :: "instrument_id \<Rightarrow> account_id \<times> account_state \<Rightarrow> bytes" where
  "account_leaf inst e = commit_raw_bytes (canonical_encode_account (account_preimage inst e))"

definition compute_ledger_root :: "ledger \<Rightarrow> instrument_id \<Rightarrow> bytes" where
  "compute_ledger_root l inst =
     (if om_is_empty l then empty_node
      else merkle_root (new_merkle_tree (map (account_leaf inst) (om_entries l))))"

record account_inclusion_proof =
  aip_leaf :: bytes
  aip_proof :: merkle_proof

definition leaf_scan :: "instrument_id \<Rightarrow> account_id \<Rightarrow> bytes list \<times> nat option \<times> nat \<Rightarrow>
    account_id \<times> account_state \<Rightarrow> bytes list \<times> nat option \<times> nat" where
  "leaf_scan inst target = (\<lambda>(leaves, idx, position) (k, acc).
     (leaves @ [account_leaf inst (k, acc)], (if k = target then Some position else idx), position + 1))"

definition ledger_account_proof :: "ledger \<Rightarrow> instrument_id \<Rightarrow> account_id \<Rightarrow> account_inclusion_proof option" where
  "ledger_account_proof l inst target =
     (let (leaves, idx, position) = foldl (leaf_scan inst target) ([], None, 0) (om_entries l) in
      case idx of
        None \<Rightarrow> None
      | Some i \<Rightarrow>
          (case generate_proof (new_merkle_tree leaves) i of
             None \<Rightarrow> None
           | Some p \<Rightarrow> Some \<lparr>aip_leaf = leaves ! i, aip_proof = p\<rparr>))"

section \<open>Binding\<close>

definition admissible_header :: "batch_header \<Rightarrow> bool" where
  "admissible_header h \<longleftrightarrow> length (bh_orders_root h) = 32"

interpretation header_codec: fixed_codec canonical_encode_header admissible_header BATCH_HEADER_TAG 69
proof
  fix a b
  assume "admissible_header a" "admissible_header b" "canonical_encode_header a = canonical_encode_header b"
  then show "a = b"
    by (cases a; cases b)
       (auto simp: canonical_encode_header_def encoding_defs append_same_length foldl_append_map
         simp flip: le_bytes_def)
qed (simp_all add: canonical_encode_header_def encoding_defs admissible_header_def foldl_append_map)

text \<open>The message a commitment hashes.\<close>

definition leaf_message :: "bytes \<Rightarrow> bytes" where
  "leaf_message data = LEAF_PREFIX @ data"

locale binding_commitment = fixed_codec encode admissible tag size
  for encode :: "'a \<Rightarrow> bytes" and admissible tag size +
  fixes commit :: "'a \<Rightarrow> bytes"
  assumes commit_hashes: "commit a = commit_raw_bytes (encode a)"
begin

lemma commit_eq_iff:
  "admissible a \<Longrightarrow> admissible b \<Longrightarrow> commit a = commit b \<longleftrightarrow>
     a = b \<or> collision (leaf_message (encode a), leaf_message (encode b))"
  using encode_inject [of a b]
  by (auto simp: commit_hashes scheme_spec collision_iff leaf_message_def)

lemma commit_length: "length (commit a) = 32"
  by (simp add: commit_hashes)

end

interpretation order_commitment: binding_commitment canonical_encode_order admissible_order ORDER_TAG 86 commit_order
  by unfold_locales (simp add: commit_order_def)

interpretation header_commitment: binding_commitment canonical_encode_header admissible_header BATCH_HEADER_TAG 69
    compute_batch_commitment
  by unfold_locales (simp add: compute_batch_commitment_def)

interpretation account_commitment: binding_commitment canonical_encode_account admissible_account ACCOUNT_TAG 77
    "\<lambda>p. commit_raw_bytes (canonical_encode_account p)"
  by unfold_locales simp

interpretation oracle_commitment: binding_commitment canonical_encode_oracle_snapshot "\<lambda>_. True" ORACLE_SNAPSHOT_TAG 57
    "\<lambda>p. commit_raw_bytes (canonical_encode_oracle_snapshot p)"
  by unfold_locales simp

text \<open>C11: an order commitment, and likewise the commitment of a batch header, opens in one way only: two
  admissible preimages with the same commitment are equal, or their encodings are a collision.\<close>

theorem commitments_bind:
  assumes "admissible_order p" and "admissible_order q" and "admissible_header g" and "admissible_header h"
  shows "(commit_order p = commit_order q) = (p = q
      \<or> collision (leaf_message (canonical_encode_order p), leaf_message (canonical_encode_order q)))
    \<and> (compute_batch_commitment g = compute_batch_commitment h) = (g = h
      \<or> collision (leaf_message (canonical_encode_header g), leaf_message (canonical_encode_header h)))"
  using order_commitment.commit_eq_iff [OF assms(1,2)] header_commitment.commit_eq_iff [OF assms(3,4)] by blast

definition sample_preimage :: "nat \<Rightarrow> salted_order_preimage" where
  "sample_preimage n = \<lparr>pre_order = \<lparr>ord_id = of_nat n, ord_account = 10, ord_instrument = 7, ord_side = Buy,
     ord_price = 105, ord_qty = 5, ord_seq = 0\<rparr>, pre_nonce = replicate 32 0\<rparr>"

definition sample_header :: batch_header where
  "sample_header = \<lparr>bh_semantic_version = 1, bh_batch_id = 1, bh_instrument_id = 7, bh_cutoff = 9,
     bh_order_count = 2, bh_orders_root = replicate 32 5\<rparr>"

theorem commitments_bind_witness:
  "(commit_order (sample_preimage 1) = commit_order (sample_preimage 2))
   = collision (leaf_message (canonical_encode_order (sample_preimage 1)),
                leaf_message (canonical_encode_order (sample_preimage 2)))"
proof -
  have "admissible_order (sample_preimage n)" for n
    by (simp add: admissible_order_def sample_preimage_def valid_side_def)
  moreover have "admissible_header sample_header" by (simp add: admissible_header_def sample_header_def)
  moreover have "sample_preimage 1 \<noteq> sample_preimage 2" by (simp add: sample_preimage_def)
  ultimately show ?thesis
    using commitments_bind [of "sample_preimage 1" "sample_preimage 2" sample_header sample_header] by blast
qed

section \<open>Account proofs\<close>

lemma leaf_scan_fold:
  "foldl (leaf_scan inst target) (leaves, idx, n) es =
     (leaves @ map (account_leaf inst) es,
      (case find (\<lambda>i. fst (es ! i) = target) (rev [0..<length es]) of Some i \<Rightarrow> Some (n + i) | None \<Rightarrow> idx),
      n + length es)"
proof (induction es rule: rev_induct)
  case (snoc e es)
  have "find (\<lambda>i. fst ((es @ [e]) ! i) = target) (rev [0..<length es])
      = find (\<lambda>i. fst (es ! i) = target) (rev [0..<length es])"
    by (rule find_cong) (auto simp: nth_append)
  with snoc show ?case by (cases e) (simp add: leaf_scan_def)
qed simp

lemma find_SomeD: "find P xs = Some x \<Longrightarrow> x \<in> set xs \<and> P x"
  by (induction xs) (auto split: if_splits)

lemma find_key_index:
  assumes "distinct (map fst es)"
  shows "find (\<lambda>i. fst (es ! i) = k) (rev [0..<length es]) = None \<longleftrightarrow> map_of es k = None"
    and "find (\<lambda>i. fst (es ! i) = k) (rev [0..<length es]) = Some i \<Longrightarrow>
         i < length es \<and> fst (es ! i) = k \<and> map_of es k = Some (snd (es ! i))"
proof -
  show "find (\<lambda>i. fst (es ! i) = k) (rev [0..<length es]) = None \<longleftrightarrow> map_of es k = None"
    by (simp add: find_None_iff map_of_eq_None_iff set_conv_nth [of es] image_Collect)
       (metis fst_conv prod.collapse)
  assume "find (\<lambda>i. fst (es ! i) = k) (rev [0..<length es]) = Some i"
  then have "i < length es" "fst (es ! i) = k" by (auto dest: find_SomeD)
  moreover from this have "(k, snd (es ! i)) \<in> set es" by (metis nth_mem prod.collapse)
  ultimately show "i < length es \<and> fst (es ! i) = k \<and> map_of es k = Some (snd (es ! i))"
    using assms by simp
qed

text \<open>C8: an account has an inclusion proof exactly when it is in the ledger; the leaf commits to its
  cash, its holdings of the instrument and its salt, and the proof verifies against the published
  ledger root.\<close>

theorem ledger_proofs_verify:
  "(case om_find l k of
      None \<Rightarrow> ledger_account_proof l inst k = None
    | Some acc \<Rightarrow> (\<exists>p. ledger_account_proof l inst k = Some p \<and> aip_leaf p = account_leaf inst (k, acc)
        \<and> merkle_verify (aip_proof p) (compute_ledger_root l inst) (aip_leaf p)))"
proof -
  let ?es = "om_entries l"
  let ?find = "find (\<lambda>i. fst (?es ! i) = k) (rev [0..<length ?es])"
  note keys = find_key_index [OF om.entries_distinct, of l k]
  show ?thesis
  proof (cases "om_find l k")
    case None
    then have "?find = None" using keys(1) by (simp add: om_find_entries)
    with None show ?thesis by (simp add: ledger_account_proof_def leaf_scan_fold)
  next
    case (Some acc)
    then obtain i where i: "?find = Some i" using keys(1) by (auto simp: om_find_entries)
    from keys(2) [OF i] Some have entry: "i < length ?es" "?es ! i = (k, acc)"
      by (auto simp: om_find_entries intro: prod_eqI)
    let ?leaves = "map (account_leaf inst) ?es"
    have len: "i < length ?leaves" using entry(1) by simp
    obtain p where p: "generate_proof (new_merkle_tree ?leaves) i = Some p"
      using generate_proof_path [OF len] by blast
    have "merkle_verify p (compute_ledger_root l inst) (?leaves ! i)"
      using generated_proof_verifies [OF len p] entry(1)
      by (auto simp: compute_ledger_root_def om_is_empty_def)
    with Some i p entry show ?thesis by (simp add: ledger_account_proof_def leaf_scan_fold)
  qed
qed

section \<open>The ledger root determines the ledger\<close>

abbreviation digests :: "bytes list \<Rightarrow> bool" where
  "digests xs \<equiv> list_all (\<lambda>x. length x = 32) xs"

definition account_preimages :: "instrument_id \<Rightarrow> ledger \<Rightarrow> salted_account_preimage list" where
  "account_preimages inst l = map (account_preimage inst) (om_entries l)"

text \<open>The tree behind the root of a ledger: its leaves are the encodings of the accounts.\<close>

definition ledger_tree :: "instrument_id \<Rightarrow> ledger \<Rightarrow> hash_tree" where
  "ledger_tree inst l = merkle_tree_of (map canonical_encode_account (account_preimages inst l))"

lemma ledger_root_tree: "compute_ledger_root l inst = tree_hash (ledger_tree inst l)"
proof -
  have "map (account_leaf inst) (om_entries l)
      = map commit_raw_bytes (map canonical_encode_account (account_preimages inst l))"
    by (simp add: account_leaf_def account_preimages_def)
  moreover have "ledger_tree inst l = Padding" if "om_is_empty l"
    using that by (simp add: ledger_tree_def account_preimages_def om_is_empty_def merkle_tree_of_def tree_over.simps)
  ultimately show ?thesis
    unfolding compute_ledger_root_def ledger_tree_def by (simp add: root_of_tree del: map_map)
qed

definition salted :: "ledger \<Rightarrow> bool" where
  "salted l \<longleftrightarrow> list_all (\<lambda>(k, acc). length (acc_salt acc) = 32) (om_entries l)"

text \<open>C12: two ledgers with the same root for an instrument have the same accounts, each with the same
  cash, the same holdings of that instrument and the same salt, or the trees behind the two roots
  contain a collision of the hash, which comparing them from the root down finds.  The ledgers need
  not have equally many accounts, and the holdings of other instruments are not committed to.\<close>

theorem ledger_root_binds:
  assumes "salted l" and "salted l'" and "compute_ledger_root l inst = compute_ledger_root l' inst"
  shows "account_preimages inst l = account_preimages inst l'
    \<or> collision (tree_collision (ledger_tree inst l) (ledger_tree inst l'))"
proof (cases "ledger_tree inst l = ledger_tree inst l'")
  case True
  have adm: "salted m \<Longrightarrow> list_all admissible_account (account_preimages inst m)" for m
    by (auto simp: salted_def account_preimages_def account_preimage_def admissible_account_def list_all_iff)
  have "map canonical_encode_account (account_preimages inst l) = map canonical_encode_account (account_preimages inst l')"
    using arg_cong [OF True, of frontier] by (simp add: ledger_tree_def frontier_of_tree)
  moreover have "inj_on canonical_encode_account (set (account_preimages inst l) \<union> set (account_preimages inst l'))"
    using adm [OF assms(1)] adm [OF assms(2)] account_codec.encode_inject by (auto simp: inj_on_def list_all_iff)
  ultimately show ?thesis by (simp add: map_inj_on)
next
  case False
  then show ?thesis using assms(3) tree_collision_sound by (simp add: ledger_root_tree)
qed

text \<open>Two ledgers that differ in the holdings of another instrument only.\<close>

definition holding_other :: "qty \<Rightarrow> ledger" where
  "holding_other other = insert_account (the_value (credit_inventory 8 other (new_account 1 5))) om_empty"

lemma holding_other_eq:
  "holding_other other = insert_account ((new_account 1 5)\<lparr>acc_inventory := om_assign 8 other om_empty\<rparr>) om_empty"
  by (simp add: holding_other_def credit_inventory_def new_account_def inventory_of_def qty_checked_add_def)

theorem ledger_root_binds_witness:
  "holding_other 3 \<noteq> holding_other 4 \<and> compute_ledger_root (holding_other 3) 7 = compute_ledger_root (holding_other 4) 7
   \<and> (account_preimages 7 (holding_other 3) = account_preimages 7 (holding_other 4)
      \<or> collision (tree_collision (ledger_tree 7 (holding_other 3)) (ledger_tree 7 (holding_other 4))))"
proof -
  have "account_preimages 7 (holding_other 3) = account_preimages 7 (holding_other 4)"
    by (simp add: holding_other_eq account_preimages_def account_preimage_def insert_account_def inventory_of_def new_account_def)
  then have same: "compute_ledger_root (holding_other 3) 7 = compute_ledger_root (holding_other 4) 7"
    by (simp add: ledger_root_tree ledger_tree_def)
  moreover have "salted (holding_other other)" for other
    by (simp add: salted_def holding_other_eq insert_account_def new_account_def zero_salt_def)
  moreover have "holding_other 3 \<noteq> holding_other 4" by code_simp
  ultimately show ?thesis using ledger_root_binds [OF _ _ same] by blast
qed

end
