(* ===== verification/Accounting.thy ===== *)
theory Accounting
  imports Batch_Allocation Commitments
begin

text \<open>
  \<open>engine/accounting.hpp\<close> and \<open>accounting.cpp\<close>: the manifest that assigns every committed order
  exactly one disposition, and its verification.  The lemmas show that the built manifest
  verifies, and what a verified manifest guarantees.
\<close>

datatype disposition_kind = FullyExecuted | PartiallyExecuted | Unfilled | Cancelled | Expired

record order_disposition =
  disp_kind :: disposition_kind
  disp_fill_qty :: qty
  disp_unfilled_qty :: qty

definition fully_executed :: "qty \<Rightarrow> order_disposition" where
  "fully_executed q = \<lparr>disp_kind = FullyExecuted, disp_fill_qty = q, disp_unfilled_qty = 0\<rparr>"

definition partially_executed :: "qty \<Rightarrow> qty \<Rightarrow> order_disposition" where
  "partially_executed q r = \<lparr>disp_kind = PartiallyExecuted, disp_fill_qty = q, disp_unfilled_qty = r\<rparr>"

definition unfilled :: order_disposition where
  "unfilled = \<lparr>disp_kind = Unfilled, disp_fill_qty = 0, disp_unfilled_qty = 0\<rparr>"

record order_accounting_record =
  rec_leaf_index :: nat
  rec_order_id :: order_id
  rec_commitment :: bytes
  rec_disposition :: order_disposition

record complete_input_accounting =
  cia_records :: "order_accounting_record list"
  cia_total_committed :: nat
  cia_total_fully :: nat
  cia_total_partially :: nat
  cia_total_unfilled :: nat
  cia_total_cancelled :: nat
  cia_total_expired :: nat

definition allocation_quantities :: "batch_allocation \<Rightarrow> (u64, qty) omap" where
  "allocation_quantities alloc =
     foldl (\<lambda>m a. om_assign (al_order_id a) (al_allocated_qty a) m) om_empty (ba_allocations alloc)"

definition allocated_to :: "(u64, qty) omap \<Rightarrow> order_id \<Rightarrow> qty" where
  "allocated_to m k = (case om_find m k of Some q \<Rightarrow> q | None \<Rightarrow> 0)"

definition disposition_of :: "qty \<Rightarrow> qty \<Rightarrow> order_disposition" where
  "disposition_of allocated q =
     (if allocated = q then fully_executed allocated
      else if allocated \<noteq> 0 \<and> allocated < q then partially_executed allocated (q - allocated)
      else unfilled)"

type_synonym accounting_state = "order_accounting_record list \<times> nat \<times> nat \<times> nat"

definition account_order ::
  "(u64, qty) omap \<Rightarrow> bytes list \<Rightarrow> accounting_state \<Rightarrow> nat \<times> salted_order_preimage \<Rightarrow> accounting_state" where
  "account_order alloc_map leaves = (\<lambda>(records, full, part, unf) (idx, p).
     let o1 = pre_order p;
         allocated = allocated_to alloc_map (ord_id o1);
         (full', part', unf') =
           (if allocated = ord_qty o1 then (full + 1, part, unf)
            else if allocated \<noteq> 0 \<and> allocated < ord_qty o1 then (full, part + 1, unf)
            else (full, part, unf + 1))
     in (records @ [\<lparr>rec_leaf_index = idx, rec_order_id = ord_id o1, rec_commitment = leaves ! idx,
                     rec_disposition = disposition_of allocated (ord_qty o1)\<rparr>], full', part', unf'))"

definition build_complete_input_accounting ::
  "batch \<Rightarrow> salted_order_preimage list \<Rightarrow> batch_allocation \<Rightarrow> merkle_tree \<times> complete_input_accounting" where
  "build_complete_input_accounting b preimages alloc =
     (let leaves = map commit_order preimages;
          (records, full, part, unf) =
            foldl (account_order (allocation_quantities alloc) leaves) ([], 0, 0, 0) (enumerate 0 preimages)
      in (new_merkle_tree leaves,
          \<lparr>cia_records = records, cia_total_committed = length preimages, cia_total_fully = full,
           cia_total_partially = part, cia_total_unfilled = unf, cia_total_cancelled = 0,
           cia_total_expired = 0\<rparr>))"

definition accounting_error :: "string \<Rightarrow> error" where
  "accounting_error msg = DomainError OrderValidationFailed msg"

definition order_index :: "order list \<Rightarrow> (u64, order) omap" where
  "order_index orders = foldl (\<lambda>m o1. om_assign (ord_id o1) o1 m) om_empty orders"

definition check_record ::
  "merkle_tree \<Rightarrow> (u64, order) omap \<Rightarrow> (u64, qty) omap \<Rightarrow> nat set \<times> u64 set \<Rightarrow>
     order_accounting_record \<Rightarrow> (nat set \<times> u64 set) result" where
  "check_record tree order_map alloc_map = (\<lambda>(seen_indices, seen_ids) r.
     reject_if (rec_leaf_index r \<in> seen_indices) (accounting_error ''DuplicateLeaf'')
    (reject_if (rec_order_id r \<in> seen_ids) (accounting_error ''DuplicateOrderId'')
    (case generate_proof tree (rec_leaf_index r) of
       None \<Rightarrow> Err (accounting_error ''OmittedLeaf'')
     | Some p \<Rightarrow>
         reject_if (\<not> merkle_verify p (merkle_root tree) (rec_commitment r))
           (accounting_error ''MerkleInclusionFailed'')
        (case om_find order_map (rec_order_id r) of
           None \<Rightarrow> Err (accounting_error ''DispositionMismatch: order not in batch'')
         | Some o1 \<Rightarrow>
             reject_if (rec_disposition r \<noteq> disposition_of (allocated_to alloc_map (rec_order_id r)) (ord_qty o1))
               (accounting_error ''DispositionMismatch'')
             (Ok (insert (rec_leaf_index r) seen_indices, insert (rec_order_id r) seen_ids))))))"

definition verify_complete_input_accounting ::
  "batch \<Rightarrow> merkle_tree \<Rightarrow> complete_input_accounting \<Rightarrow> batch_allocation \<Rightarrow> unit result" where
  "verify_complete_input_accounting b tree acc alloc =
     (let n = length (bat_orders b) in
      reject_if (leaf_count tree \<noteq> n) (accounting_error ''MerkleLeafCountMismatch'')
     (reject_if (length (cia_records acc) \<noteq> n \<or> cia_total_committed acc \<noteq> n)
        (accounting_error ''TotalCountMismatch'')
     (and_then (loop_result (check_record tree (order_index (bat_orders b)) (allocation_quantities alloc))
                  ({}, {}) (cia_records acc)) (\<lambda>(seen_indices, seen_ids).
      loop_result (\<lambda>u idx. reject_if (idx \<notin> seen_indices) (accounting_error ''OmittedLeaf'') (Ok ()))
        () [0..<n]))))"

section \<open>What each step does\<close>

lemma find_order_index:
  "distinct (map ord_id orders) \<Longrightarrow> om_find (order_index orders) k = Some o1 \<longleftrightarrow> o1 \<in> set orders \<and> ord_id o1 = k"
proof (induction orders rule: rev_induct)
  case (snoc o2 orders)
  then show ?case by (auto simp: order_index_def image_iff)
qed (simp add: order_index_def)

definition record_ok :: "merkle_tree \<Rightarrow> (u64, order) omap \<Rightarrow> (u64, qty) omap \<Rightarrow> order_accounting_record \<Rightarrow> bool" where
  "record_ok tree order_map alloc_map r \<longleftrightarrow>
     (\<exists>p o1. generate_proof tree (rec_leaf_index r) = Some p
        \<and> merkle_verify p (merkle_root tree) (rec_commitment r)
        \<and> om_find order_map (rec_order_id r) = Some o1
        \<and> rec_disposition r = disposition_of (allocated_to alloc_map (rec_order_id r)) (ord_qty o1))"

lemma check_record_Ok:
  "check_record tree om am (is, ids) r = Ok s \<longleftrightarrow>
     rec_leaf_index r \<notin> is \<and> rec_order_id r \<notin> ids \<and> record_ok tree om am r
     \<and> s = (insert (rec_leaf_index r) is, insert (rec_order_id r) ids)"
  by (auto simp: check_record_def record_ok_def result_simps split: option.splits)

lemma check_records_Ok:
  "loop_result (check_record tree om am) (is, ids) rs = Ok s \<longleftrightarrow>
     distinct (map rec_leaf_index rs) \<and> distinct (map rec_order_id rs)
     \<and> rec_leaf_index ` set rs \<inter> is = {} \<and> rec_order_id ` set rs \<inter> ids = {}
     \<and> list_all (record_ok tree om am) rs
     \<and> s = (is \<union> rec_leaf_index ` set rs, ids \<union> rec_order_id ` set rs)"
proof (induction rs arbitrary: "is" ids)
  case (Cons r rs)
  have "loop_result (check_record tree om am) (is, ids) (r # rs) = Ok s \<longleftrightarrow>
     rec_leaf_index r \<notin> is \<and> rec_order_id r \<notin> ids \<and> record_ok tree om am r
     \<and> loop_result (check_record tree om am) (insert (rec_leaf_index r) is, insert (rec_order_id r) ids) rs = Ok s"
    by (auto simp: and_then_Ok_iff check_record_Ok)
  also have "\<dots> \<longleftrightarrow> distinct (map rec_leaf_index (r # rs)) \<and> distinct (map rec_order_id (r # rs))
     \<and> rec_leaf_index ` set (r # rs) \<inter> is = {} \<and> rec_order_id ` set (r # rs) \<inter> ids = {}
     \<and> list_all (record_ok tree om am) (r # rs)
     \<and> s = (is \<union> rec_leaf_index ` set (r # rs), ids \<union> rec_order_id ` set (r # rs))"
    unfolding Cons.IH by auto
  finally show ?case .
qed auto

lemma all_seen_Ok:
  "loop_result (\<lambda>u idx. reject_if (idx \<notin> S) e (Ok ())) () xs = Ok u \<longleftrightarrow> set xs \<subseteq> S"
  by (induction xs) (auto simp: result_simps)

lemma verify_accounting_Ok:
  "verify_complete_input_accounting b tree acc alloc = Ok () \<longleftrightarrow>
     leaf_count tree = length (bat_orders b) \<and> length (cia_records acc) = length (bat_orders b)
     \<and> cia_total_committed acc = length (bat_orders b)
     \<and> distinct (map rec_leaf_index (cia_records acc)) \<and> distinct (map rec_order_id (cia_records acc))
     \<and> list_all (record_ok tree (order_index (bat_orders b)) (allocation_quantities alloc)) (cia_records acc)
     \<and> {..<length (bat_orders b)} \<subseteq> rec_leaf_index ` set (cia_records acc)"
  by (auto simp: verify_complete_input_accounting_def Let_def result_simps check_records_Ok all_seen_Ok
      atLeast0LessThan split: prod.splits)

section \<open>The built manifest verifies\<close>

definition built_record :: "(u64, qty) omap \<Rightarrow> bytes list \<Rightarrow> nat \<times> salted_order_preimage \<Rightarrow> order_accounting_record" where
  "built_record am leaves = (\<lambda>(idx, p).
     \<lparr>rec_leaf_index = idx, rec_order_id = ord_id (pre_order p), rec_commitment = leaves ! idx,
      rec_disposition = disposition_of (allocated_to am (ord_id (pre_order p))) (ord_qty (pre_order p))\<rparr>)"

lemma account_orders_fold:
  "\<exists>full' part' unf'. foldl (account_order am leaves) (rs, full, part, unf) ps =
      (rs @ map (built_record am leaves) ps, full', part', unf')
    \<and> full' + part' + unf' = full + part + unf + length ps"
proof (induction ps arbitrary: rs full part unf)
  case (Cons p ps)
  have "\<exists>full1 part1 unf1. account_order am leaves (rs, full, part, unf) p
      = (rs @ [built_record am leaves p], full1, part1, unf1)
      \<and> full1 + part1 + unf1 = Suc (full + part + unf)"
    by (cases p) (auto simp: account_order_def built_record_def Let_def)
  then obtain full1 part1 unf1 where step: "account_order am leaves (rs, full, part, unf) p
      = (rs @ [built_record am leaves p], full1, part1, unf1)"
    and sum: "full1 + part1 + unf1 = Suc (full + part + unf)" by blast
  show ?case
    using Cons.IH [of "rs @ [built_record am leaves p]" full1 part1 unf1] sum by (auto simp: step)
qed simp

lemma build_eq:
  obtains full part unf where
    "build_complete_input_accounting b preimages alloc =
      (new_merkle_tree (map commit_order preimages),
       \<lparr>cia_records = map (built_record (allocation_quantities alloc) (map commit_order preimages)) (enumerate 0 preimages),
        cia_total_committed = length preimages, cia_total_fully = full, cia_total_partially = part,
        cia_total_unfilled = unf, cia_total_cancelled = 0, cia_total_expired = 0\<rparr>)"
    and "full + part + unf = length preimages"
  using account_orders_fold [of "allocation_quantities alloc" "map commit_order preimages" "[]" 0 0 0 "enumerate 0 preimages"]
  by (auto simp: build_complete_input_accounting_def Let_def intro: that)

lemma build_then_verify:
  assumes "wf_batch b" and "mset (map pre_order preimages) = mset (bat_orders b)"
  shows "case build_complete_input_accounting b preimages alloc of (tree, acc) \<Rightarrow>
    verify_complete_input_accounting b tree acc alloc = Ok ()
    \<and> cia_total_fully acc + cia_total_partially acc + cia_total_unfilled acc = cia_total_committed acc"
proof -
  let ?am = "allocation_quantities alloc" and ?leaves = "map commit_order preimages"
  let ?rs = "map (built_record ?am ?leaves) (enumerate 0 preimages)"
  have ids: "distinct (map ord_id (bat_orders b))" using assms(1) by (simp add: wf_batch_def)
  have len: "length preimages = length (bat_orders b)" using assms(2) by (metis length_map size_mset)
  have idx: "map rec_leaf_index ?rs = [0..<length preimages]"
    by (auto simp: built_record_def intro!: nth_equalityI simp: nth_enumerate_eq)
  have oid: "map rec_order_id ?rs = map (\<lambda>p. ord_id (pre_order p)) preimages"
    by (auto simp: built_record_def intro!: nth_equalityI simp: nth_enumerate_eq)
  have "mset (map ord_id (map pre_order preimages)) = mset (map ord_id (bat_orders b))"
    using assms(2) by (metis mset_map)
  then have "distinct (map rec_order_id ?rs)"
    unfolding oid using ids by (metis (no_types, lifting) comp_apply map_eq_conv map_map mset_eq_imp_distinct_iff)
  moreover have "record_ok (new_merkle_tree ?leaves) (order_index (bat_orders b)) ?am r" if "r \<in> set ?rs" for r
  proof -
    obtain i where i: "i < length preimages" and r: "r = built_record ?am ?leaves (i, preimages ! i)"
      using \<open>r \<in> set ?rs\<close> by (auto simp: in_set_enumerate_eq)
    have "pre_order (preimages ! i) \<in> set (bat_orders b)"
      using i assms(2) by (metis image_eqI list.set_map mset_eq_setD nth_mem)
    then have "om_find (order_index (bat_orders b)) (ord_id (pre_order (preimages ! i))) = Some (pre_order (preimages ! i))"
      by (simp add: find_order_index [OF ids])
    moreover have "i < length ?leaves" using i by simp
    ultimately show ?thesis
      using generate_proof_path [of i ?leaves] generated_proof_verifies [of i ?leaves]
      by (auto simp: record_ok_def r built_record_def)
  qed
  moreover have "{..<length (bat_orders b)} \<subseteq> rec_leaf_index ` set ?rs"
  proof -
    have "set (map rec_leaf_index ?rs) = {..<length (bat_orders b)}" unfolding idx len by auto
    then show ?thesis by (simp only: set_map)
  qed
  ultimately have ok: "verify_complete_input_accounting b (new_merkle_tree ?leaves)
      \<lparr>cia_records = ?rs, cia_total_committed = length preimages, cia_total_fully = full,
       cia_total_partially = part, cia_total_unfilled = unf, cia_total_cancelled = 0, cia_total_expired = 0\<rparr>
      alloc = Ok ()" for full part unf
    using len idx by (simp add: verify_accounting_Ok leaf_count_def list_all_iff)
       (simp add: new_merkle_tree_def)
  show ?thesis by (rule build_eq [of b preimages alloc]) (simp add: ok)
qed

text \<open>The manifest built for the orders of a valid batch, in whatever order they were committed,
  verifies against its own tree, and its counts add up to the number of committed orders.\<close>

theorem built_accounting_verifies:
  assumes "wf_batch b" and "mset (map pre_order preimages) = mset (bat_orders b)"
  shows "case build_complete_input_accounting b preimages alloc of (tree, acc) \<Rightarrow>
    verify_complete_input_accounting b tree acc alloc = Ok ()
    \<and> cia_total_fully acc + cia_total_partially acc + cia_total_unfilled acc = cia_total_committed acc"
  by (rule build_then_verify [OF assms])

definition sample_preimages :: "salted_order_preimage list" where
  "sample_preimages = map (\<lambda>o1. \<lparr>pre_order = o1, pre_nonce = replicate 32 (ucast (ord_id o1))\<rparr>) (rev (bat_orders sample_batch))"

definition sample_allocation :: batch_allocation where
  "sample_allocation = the_value (allocate_batch sample_batch (Some 103) 3)"

definition sample_manifest :: complete_input_accounting where
  "sample_manifest = snd (build_complete_input_accounting sample_batch sample_preimages sample_allocation)"

lemma sample_build:
  "wf_batch sample_batch" "mset (map pre_order sample_preimages) = mset (bat_orders sample_batch)"
  "build_complete_input_accounting sample_batch sample_preimages sample_allocation
    = (new_merkle_tree (map commit_order sample_preimages), sample_manifest)"
proof -
  show "wf_batch sample_batch" by code_simp
  show "mset (map pre_order sample_preimages) = mset (bat_orders sample_batch)"
    by (simp add: sample_preimages_def comp_def)
  show "build_complete_input_accounting sample_batch sample_preimages sample_allocation
    = (new_merkle_tree (map commit_order sample_preimages), sample_manifest)"
    by (rule build_eq [of sample_batch sample_preimages sample_allocation]) (simp add: sample_manifest_def)
qed

lemma sample_verified:
  "verify_complete_input_accounting sample_batch (new_merkle_tree (map commit_order sample_preimages))
     sample_manifest sample_allocation = Ok ()"
  using build_then_verify [OF sample_build(1,2), of sample_allocation] by (simp add: sample_build(3))

theorem built_accounting_verifies_witness:
  "verify_complete_input_accounting sample_batch (new_merkle_tree (map commit_order sample_preimages))
     sample_manifest sample_allocation = Ok ()"
  using built_accounting_verifies [OF sample_build(1,2), of sample_allocation] by (simp add: sample_build(3))

section \<open>What a verified manifest guarantees\<close>

lemma distinct_cover:
  assumes "distinct xs" "distinct ys" "length xs = length ys" "set xs \<subseteq> set ys"
  shows "mset xs = mset ys"
proof -
  have "set xs = set ys"
    by (rule card_subset_eq) (use assms in \<open>simp_all add: distinct_card\<close>)
  then show ?thesis using assms(1,2) by (simp flip: set_eq_iff_mset_eq_distinct)
qed

lemma recorded_commitment:
  assumes "digests leaves" "length (rec_commitment r) = 32"
    and "record_ok (new_merkle_tree leaves) index quantities r"
  shows "rec_commitment r = leaves ! rec_leaf_index r
    \<or> collision (let path = proof_path (rec_leaf_index r) (build_layers leaves)
                 in extract_collision (leaves ! rec_leaf_index r) path (rec_commitment r) path)"
proof -
  obtain p where p: "generate_proof (new_merkle_tree leaves) (rec_leaf_index r) = Some p"
    "merkle_verify p (merkle_root (new_merkle_tree leaves)) (rec_commitment r)"
    using assms(3) by (auto simp: record_ok_def)
  then have i: "rec_leaf_index r < length leaves"
    by (auto simp: generate_proof_def leaf_count_def new_merkle_tree_def split: if_splits)
  have path: "mp_path p = proof_path (rec_leaf_index r) (build_layers leaves)"
    using p(1) by (auto simp: generate_proof_path [OF i])
  then show ?thesis
    using extract_collision_generated [OF assms(1) p(1) p(2) _ refl] siblings_32 [OF assms(1) i] assms(2)
    by (auto simp: path Let_def)
qed

text \<open>C13: a verified manifest names every leaf position and every order of the batch exactly once,
  assigns each order the disposition its allocation dictates, and commits to the leaf at its
  position, or a collision of the hash is computed from the record and the tree.\<close>

theorem verified_accounting_is_complete:
  assumes "wf_batch b" and "digests leaves"
    and "list_all (\<lambda>r. length (rec_commitment r) = 32) (cia_records acc)"
    and "verify_complete_input_accounting b (new_merkle_tree leaves) acc alloc = Ok ()"
  shows "mset (map rec_leaf_index (cia_records acc)) = mset [0..<length (bat_orders b)]
    \<and> mset (map rec_order_id (cia_records acc)) = mset (map ord_id (bat_orders b))
    \<and> list_all (\<lambda>r. \<exists>o1. o1 \<in> set (bat_orders b) \<and> ord_id o1 = rec_order_id r
          \<and> rec_disposition r = disposition_of (allocated_to (allocation_quantities alloc) (ord_id o1)) (ord_qty o1))
        (cia_records acc)
    \<and> list_all (\<lambda>r. rec_commitment r = leaves ! rec_leaf_index r
          \<or> collision (let path = proof_path (rec_leaf_index r) (build_layers leaves)
                       in extract_collision (leaves ! rec_leaf_index r) path (rec_commitment r) path))
        (cia_records acc)"
proof -
  let ?rs = "cia_records acc" and ?n = "length (bat_orders b)"
  have ids: "distinct (map ord_id (bat_orders b))" using assms(1) by (simp add: wf_batch_def)
  from assms(4) have v: "length ?rs = ?n" "distinct (map rec_leaf_index ?rs)" "distinct (map rec_order_id ?rs)"
    "\<And>r. r \<in> set ?rs \<Longrightarrow> record_ok (new_merkle_tree leaves) (order_index (bat_orders b)) (allocation_quantities alloc) r"
    "{..<?n} \<subseteq> set (map rec_leaf_index ?rs)"
    by (auto simp: verify_accounting_Ok list_all_iff)
  have idx: "mset (map rec_leaf_index ?rs) = mset [0..<?n]"
    by (rule distinct_cover [symmetric]) (use v in \<open>auto simp: atLeast0LessThan\<close>)
  have each: "\<exists>o1. o1 \<in> set (bat_orders b) \<and> ord_id o1 = rec_order_id r
      \<and> rec_disposition r = disposition_of (allocated_to (allocation_quantities alloc) (ord_id o1)) (ord_qty o1)"
    if "r \<in> set ?rs" for r
    using v(4) [OF that] by (auto simp: record_ok_def find_order_index [OF ids])
  have sub: "set (map rec_order_id ?rs) \<subseteq> set (map ord_id (bat_orders b))"
    by (auto simp: image_iff) (metis each)
  have oid: "mset (map rec_order_id ?rs) = mset (map ord_id (bat_orders b))"
    by (rule distinct_cover [OF v(3) ids _ sub]) (use v(1) in simp)
  have "rec_commitment r = leaves ! rec_leaf_index r
      \<or> collision (let path = proof_path (rec_leaf_index r) (build_layers leaves)
                   in extract_collision (leaves ! rec_leaf_index r) path (rec_commitment r) path)"
    if "r \<in> set ?rs" for r
    using recorded_commitment [OF assms(2) _ v(4) [OF that]] assms(3) that by (simp add: list_all_iff)
  with idx oid each show ?thesis by (simp add: list_all_iff)
qed

theorem verified_accounting_is_complete_witness:
  "mset (map rec_leaf_index (cia_records sample_manifest)) = mset [0..<length (bat_orders sample_batch)]"
proof -
  have ok: "verify_complete_input_accounting sample_batch (new_merkle_tree (map commit_order sample_preimages))
     sample_manifest sample_allocation = Ok ()"
    by (rule sample_verified)
  have dig: "digests (map commit_order sample_preimages)" by (simp add: list_all_iff commit_order_def)
  have "list_all (\<lambda>r. length (rec_commitment r) = 32) (cia_records sample_manifest)"
    by (rule build_eq [of sample_batch sample_preimages sample_allocation])
       (auto simp: sample_manifest_def list_all_iff built_record_def in_set_enumerate_eq commit_order_def)
  from verified_accounting_is_complete [OF sample_build(1) dig this ok] show ?thesis by (rule conjunct1)
qed

end
