(* ===== verification/Constraints.thy ===== *)
theory Constraints
  imports R1CS Accounting Oracle
begin

text \<open>
  \<open>proof/constraints.hpp\<close> and \<open>proof/constraints/*.cpp\<close>: the seven subrelations of the single-batch
  statement.  Each takes the constraint system and the witness scalars of its subrelation and
  returns them extended.  When a subrelation fails, its caller drops the system and the scalars, so
  the error alone is the result.
\<close>

record allocated_order_var =
  aov_id :: variable
  aov_account :: variable
  aov_instrument :: variable
  aov_side :: variable
  aov_price :: variable
  aov_qty :: variable
  aov_sequence :: variable

record proof_complexity_metrics =
  pcm_num_constraints :: nat
  pcm_num_public :: nat
  pcm_num_witness :: nat
  pcm_num_candidates :: nat

definition constraint_error :: "string \<Rightarrow> 'a result" where
  "constraint_error msg = Err (DomainError OrderValidationFailed msg)"

section \<open>Order validity\<close>

definition synthesize_order :: "u64 \<Rightarrow> nat \<times> order \<Rightarrow> synthesis \<Rightarrow> allocated_order_var \<times> synthesis" where
  "synthesize_order batch_instrument = (\<lambda>(idx, o1) s0.
     let side_val = (if ord_side o1 = Buy then 0 else 1);
         (id_var, s1) = alloc_scalar (ord_id o1) s0;
         (acc_var, s2) = alloc_scalar (ord_account o1) s1;
         (inst_var, s3) = alloc_scalar (ord_instrument o1) s2;
         (side_var, s4) = alloc_scalar side_val s3;
         (price_var, s5) = alloc_scalar (ord_price o1) s4;
         (qty_var, s6) = alloc_scalar (ord_qty o1) s5;
         (seq_var, s7) = alloc_scalar (ord_seq o1) s6;
         tag = ''order_'' @ dec_string idx;
         s8 = enforce_in (from_var side_var) (add_term side_var (- 1) (from_constant 1)) lc_zero
                (tag @ ''_boolean_side'') s7;
         s9 = enforce_equal_in (from_var inst_var) (from_constant (ucast batch_instrument))
                (tag @ ''_instrument_match'') s8;
         s10 = enforce_equal_in (from_var seq_var) (from_constant (of_nat idx)) (tag @ ''_sequence_match'') s9;
         (inv_price_var, s11) = alloc_scalar (if ord_price o1 \<noteq> 0 then 1 else 0) s10;
         (inv_qty_var, s12) = alloc_scalar (if ord_qty o1 \<noteq> 0 then 1 else 0) s11;
         s13 = enforce_in (from_var price_var) (from_var inv_price_var) (from_var price_var)
                 (tag @ ''_price_nonzero'') s12;
         s14 = enforce_in (from_var qty_var) (from_var inv_qty_var) (from_var qty_var)
                 (tag @ ''_qty_nonzero'') s13
     in (\<lparr>aov_id = id_var, aov_account = acc_var, aov_instrument = inst_var, aov_side = side_var,
          aov_price = price_var, aov_qty = qty_var, aov_sequence = seq_var\<rparr>, s14))"

definition synthesize_order_validity ::
  "u64 \<Rightarrow> order list \<Rightarrow> synthesis \<Rightarrow> allocated_order_var list \<times> synthesis" where
  "synthesize_order_validity batch_instrument orders s =
     foldl (\<lambda>(allocated, s) io. case synthesize_order batch_instrument io s of
                                  (v, s') \<Rightarrow> (allocated @ [v], s'))
       ([], s) (enumerate 0 orders)"

section \<open>Merkle inclusion and complete-input accounting\<close>

text \<open>The loop that folds the first eight bytes of a digest into a scalar.\<close>

definition root_scalar :: "bytes \<Rightarrow> u64" where
  "root_scalar bs = foldl (\<lambda>acc i. acc OR push_bit (i * 8) (ucast (bs ! i))) 0 [0..<8]"

definition synthesize_merkle_inclusion ::
  "variable \<Rightarrow> bytes \<Rightarrow> bytes \<Rightarrow> merkle_proof \<Rightarrow> synthesis \<Rightarrow> synthesis result" where
  "synthesize_merkle_inclusion root_pub_var expected_root leaf proof1 s =
     (if \<not> merkle_verify proof1 expected_root leaf then
        constraint_error (''MerkleProofInvalid: leaf_index '' @ dec_string (mp_leaf_index proof1))
      else
        let current = foldl verify_step leaf (mp_path proof1);
            (root_wit_var, s1) = alloc_scalar (root_scalar current) s
        in Ok (enforce_equal_in (from_var root_wit_var) (from_var root_pub_var)
             (''merkle_inclusion_root_leaf_'' @ dec_string (mp_leaf_index proof1)) s1))"

definition implied_disposition :: "order_allocation \<Rightarrow> order_disposition" where
  "implied_disposition a =
     (if al_allocated_qty a = 0 then unfilled
      else if al_allocated_qty a = al_original_qty a then fully_executed (al_allocated_qty a)
      else partially_executed (al_allocated_qty a)
        (if al_allocated_qty a < al_original_qty a then al_original_qty a - al_allocated_qty a else 0))"

definition synthesize_record ::
  "variable \<Rightarrow> salted_order_preimage list \<Rightarrow> merkle_tree \<Rightarrow> batch_allocation \<Rightarrow>
     synthesis \<times> linear_combination \<Rightarrow> nat \<times> order_accounting_record \<Rightarrow>
     (synthesis \<times> linear_combination) result" where
  "synthesize_record root_pub_var preimages tree alloc = (\<lambda>(s, count_lc) (idx, r).
     let leaf = commit_order (preimages ! idx);
         (seq_var, s1) = alloc_scalar (of_nat (rec_leaf_index r)) s;
         s2 = enforce_equal_in (from_var seq_var) (from_constant (of_nat idx))
                (''record_'' @ dec_string idx @ ''_sequential_index'') s1
     in (case generate_proof tree idx of
           None \<Rightarrow> constraint_error (''MerkleProofInvalid: leaf_index '' @ dec_string idx)
         | Some p \<Rightarrow>
             and_then (synthesize_merkle_inclusion root_pub_var (merkle_root tree) leaf p s2) (\<lambda>s3.
               (case find (\<lambda>a. al_order_id a = rec_order_id r) (ba_allocations alloc) of
                  None \<Rightarrow> constraint_error ''InvalidWitness: order not found in allocation''
                | Some a \<Rightarrow>
                    if rec_disposition r \<noteq> implied_disposition a then
                      constraint_error (''record_'' @ dec_string idx @ ''_disposition_match'')
                    else Ok (s3, add_term one_var 1 count_lc)))))"

definition synthesize_complete_input_accounting ::
  "batch \<Rightarrow> salted_order_preimage list \<Rightarrow> merkle_tree \<Rightarrow> complete_input_accounting \<Rightarrow> batch_allocation \<Rightarrow>
     synthesis \<Rightarrow> synthesis result" where
  "synthesize_complete_input_accounting b preimages tree acc alloc s =
     (case verify_complete_input_accounting b tree acc alloc of
        Err e \<Rightarrow> constraint_error (''complete_input_accounting_invariant: '' @ error_to_string e)
      | Ok u \<Rightarrow>
          if length (bat_orders b) \<noteq> length (cia_records acc) then
            constraint_error (''accounting_cardinality: expected batch_size == ''
              @ dec_string (length (bat_orders b)) @ '', got '' @ dec_string (length (cia_records acc)))
          else
            let (batch_len_var, cs1) = alloc_public (fst s); (root_pub_var, cs2) = alloc_public cs1 in
            and_then (loop_result (synthesize_record root_pub_var preimages tree alloc)
                        ((cs2, snd s), lc_zero) (enumerate 0 (cia_records acc)))
              (\<lambda>(s', count_lc). Ok (enforce_equal_in count_lc (from_var batch_len_var)
                 ''total_accounting_cardinality_equality'' s')))"

section \<open>Clearing optimality\<close>

definition synthesize_candidate ::
  "order list \<Rightarrow> variable \<Rightarrow> u64 \<Rightarrow> synthesis \<Rightarrow> price \<Rightarrow> synthesis result" where
  "synthesize_candidate orders vol_pub_var vol_raw s price =
     or_fail (demand_from_orders orders price) ''InvalidWitness: arithmetic overflow computing demand'' (\<lambda>d.
     or_fail (supply_from_orders orders price) ''InvalidWitness: arithmetic overflow computing supply'' (\<lambda>sup.
       let v = min d sup;
           (d_var, s1) = alloc_scalar d s;
           (s_var, s2) = alloc_scalar sup s1;
           (v_var, s3) = alloc_scalar v s2;
           (slack_var, s4) = alloc_scalar (if v < vol_raw then vol_raw - v else 0) s3;
           price_tag = to_string price;
           s5 = enforce_equal_in (add_term v_var (- 1) (from_var vol_pub_var)) (from_var slack_var)
                  (''optimality_slack_at_price_'' @ price_tag) s4
       in Ok (enforce_in (from_var d_var) (from_var s_var) (from_constant (wrapping_mul (ucast d) (ucast sup)))
                (''supply_demand_bound_'' @ price_tag) s5)))"

definition synthesize_clearing_optimality ::
  "batch \<Rightarrow> price option \<Rightarrow> qty \<Rightarrow> synthesis \<Rightarrow> (proof_complexity_metrics \<times> synthesis) result" where
  "synthesize_clearing_optimality b clearing_price cleared_volume s =
     or_fail (determine_clearing_outcome b) ''InvalidWitness: engine failed to determine clearing outcome'' (\<lambda>honest.
     if clearing_price \<noteq> out_price honest then constraint_error ''clearing_price_optimality_and_tie_break''
     else if cleared_volume \<noteq> out_volume honest then constraint_error ''cleared_volume_maximality''
     else
       let (cp_pub_var, cs1) = alloc_public (fst s);
           (vol_pub_var, cs2) = alloc_public cs1;
           cp_raw = (case clearing_price of Some p \<Rightarrow> p | None \<Rightarrow> 0);
           vol_raw = cleared_volume;
           prices = candidate_prices_from_orders (bat_orders b)
       in and_then (loop_result (synthesize_candidate (bat_orders b) vol_pub_var vol_raw) (cs2, snd s) prices) (\<lambda>s1.
            let (cp_wit_var, s2) = alloc_scalar cp_raw s1;
                (vol_wit_var, s3) = alloc_scalar vol_raw s2;
                s4 = enforce_equal_in (from_var cp_wit_var) (from_var cp_pub_var) ''clearing_price_equality'' s3;
                s5 = enforce_equal_in (from_var vol_wit_var) (from_var vol_pub_var) ''cleared_volume_equality'' s4
            in Ok (\<lparr>pcm_num_constraints = length (cs_constraints (fst s5)),
                    pcm_num_public = cs_num_public (fst s5), pcm_num_witness = cs_num_witness (fst s5),
                    pcm_num_candidates = length prices\<rparr>, s5)))"

section \<open>Deterministic allocation\<close>

type_synonym allocation_synthesis = "synthesis \<times> linear_combination \<times> linear_combination"

definition synthesize_order_allocation ::
  "order list \<Rightarrow> price \<Rightarrow> allocation_synthesis \<Rightarrow> order_allocation \<Rightarrow> allocation_synthesis result" where
  "synthesize_order_allocation orders cp = (\<lambda>(s, total_buy_lc, total_sell_lc) a.
     case find (\<lambda>o1. ord_id o1 = al_order_id a) orders of
       None \<Rightarrow> constraint_error ''InvalidWitness: order not in batch''
     | Some o1 \<Rightarrow>
         let (alloc_qty_var, s1) = alloc_scalar (al_allocated_qty a) s;
             (order_qty_var, s2) = alloc_scalar (ord_qty o1) s1;
             buy_lc = (if ord_side o1 = Buy then add_term alloc_qty_var 1 total_buy_lc else total_buy_lc);
             sell_lc = (if ord_side o1 = Buy then total_sell_lc else add_term alloc_qty_var 1 total_sell_lc);
             id_tag = to_string (ord_id o1);
             bounded = (let rem_val = (if al_allocated_qty a < ord_qty o1 then ord_qty o1 - al_allocated_qty a else 0);
                            (rem_var, s3) = alloc_scalar rem_val s2
                        in enforce_equal_in (add_term alloc_qty_var (- 1) (from_var order_qty_var))
                             (from_var rem_var) (''order_'' @ id_tag @ ''_fill_bound'') s3);
             s4 = (case classify_order o1 cp of
                     InTheMoney \<Rightarrow> bounded
                   | AtTheMoney \<Rightarrow> bounded
                   | OutOfTheMoney \<Rightarrow> enforce_equal_in (from_var alloc_qty_var) lc_zero
                       (''otm_order_'' @ id_tag @ ''_zero_fill'') s2)
         in Ok (s4, buy_lc, sell_lc))"

definition synthesize_allocation ::
  "batch \<Rightarrow> price \<Rightarrow> qty \<Rightarrow> batch_allocation \<Rightarrow> synthesis \<Rightarrow> synthesis result" where
  "synthesize_allocation b clearing_price cleared_volume alloc s =
     or_fail (allocate_batch b (Some clearing_price) cleared_volume)
       ''InvalidWitness: engine failed to allocate batch'' (\<lambda>honest.
     if alloc \<noteq> honest then constraint_error ''deterministic_allocation_rule_match''
     else
       let (vol_pub_var, cs1) = alloc_public (fst s) in
       and_then (loop_result (synthesize_order_allocation (bat_orders b) clearing_price)
                   ((cs1, snd s), lc_zero, lc_zero) (ba_allocations alloc))
         (\<lambda>(s1, total_buy_lc, total_sell_lc).
            Ok (enforce_equal_in total_sell_lc (from_var vol_pub_var) ''total_sell_allocation_conservation''
                 (enforce_equal_in total_buy_lc (from_var vol_pub_var) ''total_buy_allocation_conservation'' s1))))"

section \<open>Fill bounds\<close>

definition synthesize_fill ::
  "u64 \<Rightarrow> variable \<Rightarrow> order list \<Rightarrow> synthesis \<Rightarrow> fill \<Rightarrow> synthesis result" where
  "synthesize_fill cp_val cp_var orders s f =
     (case find (\<lambda>o1. ord_id o1 = fill_order_id f) orders of
        None \<Rightarrow> constraint_error ''InvalidWitness: fill refers to unknown order id''
      | Some o1 \<Rightarrow>
          let fill_qty_val = fill_qty f; order_qty_val = ord_qty o1;
              consideration_val = ucast (fill_consideration f) :: u64;
              id_tag = to_string (ord_id o1)
          in if order_qty_val < fill_qty_val then constraint_error (''order_'' @ id_tag @ ''_no_overfill'')
             else
               let (fill_qty_var, s1) = alloc_scalar fill_qty_val s;
                   (order_qty_var, s2) = alloc_scalar order_qty_val s1;
                   (rem_qty_var, s3) = alloc_scalar (order_qty_val - fill_qty_val) s2;
                   (consideration_var, s4) = alloc_scalar consideration_val s3;
                   s5 = enforce_equal_in (add_term fill_qty_var (- 1) (from_var order_qty_var))
                          (from_var rem_qty_var) (''order_'' @ id_tag @ ''_remaining_qty_bound'') s4;
                   s6 = enforce_in (from_var cp_var) (from_var fill_qty_var) (from_var consideration_var)
                          (''fill_'' @ to_string (fill_id f) @ ''_consideration_product'') s5;
                   limit_val = ord_price o1;
                   (limit_var, s7) = alloc_scalar limit_val s6
               in if ord_side o1 = Buy then
                    if limit_val < cp_val \<and> 0 < fill_qty_val then
                      constraint_error (''buy_order_'' @ id_tag @ ''_limit_price'')
                    else
                      let (slack_var, s8) = alloc_scalar (if cp_val < limit_val then limit_val - cp_val else 0) s7
                      in Ok (enforce_equal_in (add_term cp_var (- 1) (from_var limit_var)) (from_var slack_var)
                           (''buy_order_'' @ id_tag @ ''_limit_slack'') s8)
                  else
                    if cp_val < limit_val \<and> 0 < fill_qty_val then
                      constraint_error (''sell_order_'' @ id_tag @ ''_limit_price'')
                    else
                      let (slack_var, s8) = alloc_scalar (if limit_val < cp_val then cp_val - limit_val else 0) s7
                      in Ok (enforce_equal_in (add_term limit_var (- 1) (from_var cp_var)) (from_var slack_var)
                           (''sell_order_'' @ id_tag @ ''_limit_slack'') s8))"

definition synthesize_fill_bounds ::
  "price \<Rightarrow> order list \<Rightarrow> fill list \<Rightarrow> synthesis \<Rightarrow> synthesis result" where
  "synthesize_fill_bounds clearing_price orders fills s =
     (let (cp_var, s1) = alloc_scalar clearing_price s
      in loop_result (synthesize_fill clearing_price cp_var orders) s1 fills)"

section \<open>Conservation\<close>

text \<open>The loop over the fills of one account, which extends its expected cash and inventory.\<close>

type_synonym account_synthesis = "synthesis \<times> linear_combination \<times> linear_combination"

definition synthesize_account_fill :: "account_id \<Rightarrow> account_synthesis \<Rightarrow> fill \<Rightarrow> account_synthesis" where
  "synthesize_account_fill k = (\<lambda>(s, cash_lc, inv_lc) f.
     if fill_account_id f \<noteq> k then (s, cash_lc, inv_lc)
     else
       let (consideration_var, s1) = alloc_scalar (ucast (fill_consideration f)) s;
           (fill_qty_var, s2) = alloc_scalar (fill_qty f) s1
       in if fill_side f = Buy
          then (s2, add_term consideration_var (- 1) cash_lc, add_term fill_qty_var 1 inv_lc)
          else (s2, add_term consideration_var 1 cash_lc, add_term fill_qty_var (- 1) inv_lc))"

record ledger_totals =
  lt_pre_cash :: linear_combination
  lt_post_cash :: linear_combination
  lt_pre_inv :: linear_combination
  lt_post_inv :: linear_combination

definition synthesize_account ::
  "ledger \<Rightarrow> fill list \<Rightarrow> instrument_id \<Rightarrow> synthesis \<times> ledger_totals \<Rightarrow> account_id \<times> account_state \<Rightarrow>
     synthesis \<times> ledger_totals" where
  "synthesize_account post fills inst = (\<lambda>(s, t) (k, acc).
     let pre_cash = ucast (acc_cash acc) :: u64;
         pre_inv = inventory_of acc inst;
         post_cash = (case get_account post k of Some p \<Rightarrow> ucast (acc_cash p) | None \<Rightarrow> 0) :: u64;
         post_inv = (case get_account post k of Some p \<Rightarrow> inventory_of p inst | None \<Rightarrow> 0);
         (pre_cash_var, s1) = alloc_scalar pre_cash s;
         (post_cash_var, s2) = alloc_scalar post_cash s1;
         (pre_inv_var, s3) = alloc_scalar pre_inv s2;
         (post_inv_var, s4) = alloc_scalar post_inv s3;
         t' = \<lparr>lt_pre_cash = add_term pre_cash_var 1 (lt_pre_cash t),
               lt_post_cash = add_term post_cash_var 1 (lt_post_cash t),
               lt_pre_inv = add_term pre_inv_var 1 (lt_pre_inv t),
               lt_post_inv = add_term post_inv_var 1 (lt_post_inv t)\<rparr>;
         (s5, cash_lc, inv_lc) =
            foldl (synthesize_account_fill k) (s4, from_var pre_cash_var, from_var pre_inv_var) fills;
         acc_tag = to_string k;
         s6 = enforce_equal_in (from_var post_cash_var) cash_lc (''account_'' @ acc_tag @ ''_cash_transition'') s5
     in (enforce_equal_in (from_var post_inv_var) inv_lc (''account_'' @ acc_tag @ ''_inv_transition'') s6, t'))"

definition synthesize_conservation ::
  "ledger \<Rightarrow> ledger \<Rightarrow> fill list \<Rightarrow> instrument_id \<Rightarrow> synthesis \<Rightarrow> synthesis result" where
  "synthesize_conservation pre post fills inst s =
     (let (s1, t) = foldl (synthesize_account post fills inst)
            (s, \<lparr>lt_pre_cash = lc_zero, lt_post_cash = lc_zero, lt_pre_inv = lc_zero, lt_post_inv = lc_zero\<rparr>)
            (om_entries pre)
      in Ok (enforce_equal_in (lt_pre_inv t) (lt_post_inv t) ''global_asset_conservation''
           (enforce_equal_in (lt_pre_cash t) (lt_post_cash t) ''global_cash_conservation'' s1)))"

section \<open>Oracle freshness and collar\<close>

definition synthesize_oracle_freshness ::
  "instrument_id \<Rightarrow> u64 \<Rightarrow> price \<Rightarrow> reference_price_policy \<Rightarrow> reference_price_snapshot option \<Rightarrow>
     synthesis \<Rightarrow> synthesis result" where
  "synthesize_oracle_freshness inst batch_timestamp clearing_price policy snapshot s =
     (case snapshot of
        None \<Rightarrow> Ok s
      | Some snap \<Rightarrow>
          (case validate_reference_price_snapshot policy snap inst batch_timestamp (Some clearing_price) of
             Err e \<Rightarrow> constraint_error (''oracle_policy_validation: '' @ error_to_string e)
           | Ok u \<Rightarrow>
               let cp_val = clearing_price; p_oracle_val = snap_price snap;
                   (t_batch_var, s1) = alloc_scalar batch_timestamp s;
                   (t_oracle_var, s2) = alloc_scalar (snap_timestamp snap) s1;
                   (cp_var, s3) = alloc_scalar cp_val s2;
                   (p_oracle_var, s4) = alloc_scalar p_oracle_val s3;
                   age = (if snap_timestamp snap < batch_timestamp then batch_timestamp - snap_timestamp snap else 0);
                   (age_var, s5) = alloc_scalar age s4;
                   s6 = enforce_equal_in (add_term t_oracle_var (- 1) (from_var t_batch_var)) (from_var age_var)
                          ''oracle_timestamp_delta'' s5;
                   max_staleness = pol_max_staleness policy;
                   fresh_slack = (if age < max_staleness then max_staleness - age else 0);
                   (fresh_slack_var, s7) = alloc_scalar fresh_slack s6;
                   s8 = enforce_equal_in (add_term age_var (- 1) (from_constant (ucast max_staleness)))
                          (from_var fresh_slack_var) ''oracle_freshness_slack'' s7;
                   diff = (if p_oracle_val < cp_val then cp_val - p_oracle_val else p_oracle_val - cp_val);
                   (diff_var, s9) = alloc_scalar diff s8;
                   max_collar = pol_max_deviation policy;
                   collar_slack = (if diff < max_collar then max_collar - diff else 0);
                   (collar_slack_var, s10) = alloc_scalar collar_slack s9
               in Ok (enforce_equal_in (add_term diff_var (- 1) (from_constant (ucast max_collar)))
                    (from_var collar_slack_var) ''oracle_collar_slack'' s10)))"

end
