(* ===== verification/Prover.thy ===== *)
theory Prover
  imports Constraints Checker
begin

text \<open>
  \<open>proof/statement.hpp\<close>, \<open>proof/prover.cpp\<close> and \<open>proof/verifier.cpp\<close>: the single-batch statement,
  the prover that binds the public inputs to the witness and synthesises the constraint system, and
  the verifier of the transparent certificate.  The certificate is its bytes.
\<close>

record batch_proof_public_inputs =
  pi_pre_state_root :: bytes
  pi_post_state_root :: bytes
  pi_batch_header_hash :: bytes
  pi_oracle_snapshot_hash :: bytes
  pi_clearing_price :: u64
  pi_cleared_volume :: u64

record batch_proof_witness =
  bw_pre_state :: ledger
  bw_post_state :: ledger
  bw_batch :: batch
  bw_preimages :: "salted_order_preimage list"
  bw_allocation :: batch_allocation
  bw_fills :: "fill list"
  bw_accounting :: complete_input_accounting
  bw_oracle_snapshot :: "reference_price_snapshot option"
  bw_oracle_policy :: "reference_price_policy option"
  bw_batch_cutoff :: u64

record batch_proof =
  bp_version :: u8
  bp_public_inputs :: batch_proof_public_inputs
  bp_bytes :: bytes

definition proof_error :: "string \<Rightarrow> error" where
  "proof_error msg = DomainError OrderValidationFailed msg"

section \<open>The prover\<close>

text \<open>The loop that binds each preimage to the batch leaf at its position and collects the leaves.\<close>

definition bind_leaf :: "bytes list \<Rightarrow> salted_order_preimage \<times> order \<Rightarrow> bytes list result" where
  "bind_leaf leaves = (\<lambda>(p, o1).
     reject_if (pre_order p \<noteq> o1)
       (proof_error ''InputBindingFailed: preimage order does not match batch leaf'')
       (Ok (leaves @ [commit_order p])))"

text \<open>The loop that files each accounting record under its leaf index.\<close>

definition file_record ::
  "nat \<Rightarrow> order_accounting_record option list \<Rightarrow> order_accounting_record \<Rightarrow>
     order_accounting_record option list result" where
  "file_record batch_len slots r =
     reject_if (batch_len \<le> rec_leaf_index r \<or> slots ! rec_leaf_index r \<noteq> None)
       (proof_error ''InputBindingFailed: invalid accounting leaf index'')
       (Ok (slots[rec_leaf_index r := Some r]))"

definition check_slot ::
  "order list \<Rightarrow> bytes list \<Rightarrow> order_accounting_record option list \<Rightarrow>
     order_accounting_record list \<Rightarrow> nat \<Rightarrow> order_accounting_record list result" where
  "check_slot orders leaves slots records idx =
     (case slots ! idx of
        None \<Rightarrow> Err (proof_error ''InputBindingFailed: omitted accounting leaf'')
      | Some r \<Rightarrow>
          reject_if (rec_order_id r \<noteq> ord_id (orders ! idx))
            (proof_error ''InputBindingFailed: accounting order does not match batch leaf'')
         (reject_if (rec_commitment r \<noteq> leaves ! idx)
            (proof_error ''InputBindingFailed: accounting commitment does not match preimage'')
         (Ok (records @ [r]))))"

definition reconstructed_header :: "batch_proof_witness \<Rightarrow> merkle_tree \<Rightarrow> batch_header" where
  "reconstructed_header w tree =
     \<lparr>bh_semantic_version = 1, bh_batch_id = bat_id (bw_batch w),
      bh_instrument_id = bat_instrument (bw_batch w), bh_cutoff = bw_batch_cutoff w,
      bh_order_count = of_nat (length (bat_orders (bw_batch w))), bh_orders_root = merkle_root tree\<rparr>"

text \<open>Steps 1 and 2: the leaves, the tree and the accounting in leaf order.\<close>

definition bind_inputs ::
  "batch_proof_public_inputs \<Rightarrow> batch_proof_witness \<Rightarrow> (merkle_tree \<times> complete_input_accounting) result" where
  "bind_inputs pub w =
     (let orders = bat_orders (bw_batch w); batch_len = length orders in
      reject_if (length (bw_preimages w) \<noteq> batch_len)
        (proof_error ''InputBindingFailed: preimage count does not match batch length'')
     (reject_if (unat (max_raw :: u32) < batch_len)
        (proof_error ''InputBindingFailed: batch length exceeds uint32 order count'')
     (and_then (loop_result bind_leaf [] (zip (bw_preimages w) orders)) (\<lambda>leaves.
      let tree = new_merkle_tree leaves in
      reject_if (compute_batch_commitment (reconstructed_header w tree) \<noteq> pi_batch_header_hash pub)
        (proof_error ''PublicInputMismatch: batch_header_hash'')
     (reject_if (length (cia_records (bw_accounting w)) \<noteq> batch_len)
        (proof_error ''InputBindingFailed: accounting count does not match batch length'')
     (and_then (loop_result (file_record batch_len) (replicate batch_len None) (cia_records (bw_accounting w)))
        (\<lambda>slots.
      and_then (loop_result (check_slot orders leaves slots) [] [0..<batch_len]) (\<lambda>records.
        Ok (tree, (bw_accounting w)\<lparr>cia_records := records\<rparr>)))))))))"

definition published_price :: "batch_proof_public_inputs \<Rightarrow> price option" where
  "published_price pub = (if 0 < pi_clearing_price pub then Some (pi_clearing_price pub) else None)"

definition proposed_result :: "batch_proof_public_inputs \<Rightarrow> batch_proof_witness \<Rightarrow> batch_execution_result" where
  "proposed_result pub w =
     \<lparr>res_outcome = \<lparr>out_price = published_price pub, out_volume = pi_cleared_volume pub\<rparr>,
      res_allocation = bw_allocation w, res_fills = bw_fills w, res_post_state = bw_post_state w\<rparr>"

text \<open>Step 3: the plaintext invariants, the state roots and the oracle commitment.\<close>

definition check_statement ::
  "batch_proof_public_inputs \<Rightarrow> batch_proof_witness \<Rightarrow> merkle_tree \<Rightarrow> complete_input_accounting \<Rightarrow> unit result" where
  "check_statement pub w tree acc =
     (case verify_transition (bw_pre_state w) (bw_batch w) (proposed_result pub w) of
        Err e \<Rightarrow> Err (proof_error (''StateTransitionInvariantFailed: '' @ error_to_string e))
      | Ok u \<Rightarrow>
     (case verify_complete_input_accounting (bw_batch w) tree acc (bw_allocation w) of
        Err e \<Rightarrow> Err (proof_error (''CompleteInputAccountingFailed: '' @ error_to_string e))
      | Ok u \<Rightarrow>
      reject_if (pi_pre_state_root pub \<noteq> compute_ledger_root (bw_pre_state w) (bat_instrument (bw_batch w)))
        (proof_error ''PublicInputMismatch: pre_state_root'')
     (reject_if (pi_post_state_root pub \<noteq> compute_ledger_root (bw_post_state w) (bat_instrument (bw_batch w)))
        (proof_error ''PublicInputMismatch: post_state_root'')
     (reject_if (pi_oracle_snapshot_hash pub \<noteq>
                 compute_oracle_snapshot_commitment (bw_oracle_snapshot w) (bw_oracle_policy w))
        (proof_error ''PublicInputMismatch: oracle_snapshot_hash'')
      (Ok ())))))"

text \<open>Step 4: the subrelations, each with scalars of its own, and the concatenated witness.\<close>

definition synthesize_statement ::
  "batch_proof_public_inputs \<Rightarrow> batch_proof_witness \<Rightarrow> merkle_tree \<Rightarrow> complete_input_accounting \<Rightarrow> synthesis result" where
  "synthesize_statement pub w tree acc =
     (let b = bw_batch w;
          (vars, cs1, order_wit) =
            synthesize_order_validity (bat_instrument b) (bat_orders b) (new_constraint_system, [])
      in and_then_conv (synthesize_complete_input_accounting b (bw_preimages w) tree acc (bw_allocation w) (cs1, []))
           (\<lambda>(cs2, acct_wit).
         and_then_conv (synthesize_clearing_optimality b (published_price pub) (pi_cleared_volume pub) (cs2, []))
           (\<lambda>(metrics, cs3, opt_wit).
         and_then_conv (case published_price pub of
             None \<Rightarrow> Ok (cs3, [])
           | Some cp \<Rightarrow> synthesize_allocation b cp (pi_cleared_volume pub) (bw_allocation w) (cs3, []))
           (\<lambda>(cs4, alloc_wit).
         and_then_conv (case published_price pub of
             None \<Rightarrow> Ok (cs4, [])
           | Some cp \<Rightarrow> synthesize_fill_bounds cp (bat_orders b) (bw_fills w) (cs4, []))
           (\<lambda>(cs5, fills_wit).
         and_then_conv (synthesize_conservation (bw_pre_state w) (bw_post_state w) (bw_fills w)
             (bat_instrument b) (cs5, []))
           (\<lambda>(cs6, conserv_wit).
         and_then_conv (case (bw_oracle_snapshot w, bw_oracle_policy w, published_price pub) of
             (Some snap, Some policy, Some cp) \<Rightarrow>
               synthesize_oracle_freshness (bat_instrument b) (bw_batch_cutoff w) cp policy (Some snap) (cs6, [])
           | _ \<Rightarrow> Ok (cs6, []))
           (\<lambda>(cs7, oracle_wit).
             Ok (cs7, order_wit @ acct_wit @ opt_wit @ alloc_wit @ fills_wit @ conserv_wit @ oracle_wit))))))))"

definition public_scalars :: "batch_proof_public_inputs \<Rightarrow> batch_proof_witness \<Rightarrow> merkle_tree \<Rightarrow> u64 list" where
  "public_scalars pub w tree =
     [of_nat (length (bat_orders (bw_batch w))), root_scalar (merkle_root tree),
      pi_clearing_price pub, pi_cleared_volume pub, pi_cleared_volume pub]"

definition certificate :: "nat \<Rightarrow> nat \<Rightarrow> bytes" where
  "certificate num_constraints num_public_inputs =
     bytes_of_string (''FC-R1CS-V1:constraints='' @ dec_string num_constraints
       @ '':public_inputs_len='' @ dec_string num_public_inputs @ '':status=SAT'')"

definition prove :: "batch_proof_public_inputs \<Rightarrow> batch_proof_witness \<Rightarrow> batch_proof result" where
  "prove pub w =
     and_then (bind_inputs pub w) (\<lambda>(tree, acc).
     and_then (check_statement pub w tree acc) (\<lambda>u.
     and_then (synthesize_statement pub w tree acc) (\<lambda>(cs, full_witness).
     (case is_satisfied (public_scalars pub w tree) full_witness cs of
        Err e \<Rightarrow> Err (proof_error (''R1CSUnsatisfied: '' @ error_to_string e))
      | Ok u \<Rightarrow>
          Ok \<lparr>bp_version = 1, bp_public_inputs = pub,
              bp_bytes = certificate (length (cs_constraints cs)) (length (public_scalars pub w tree))\<rparr>))))"

section \<open>The verifier\<close>

definition is_digit :: "u8 \<Rightarrow> bool" where
  "is_digit x \<longleftrightarrow> byte_of CHR ''0'' \<le> x \<and> x \<le> byte_of CHR ''9''"

definition digits_value :: "bytes \<Rightarrow> nat" where
  "digits_value ds = foldl (\<lambda>n d. 10 * n + unat (d - byte_of CHR ''0'')) 0 ds"

text \<open>
  \<open>std::from_chars\<close> to a 64-bit unsigned integer: the longest run of decimal digits, an error when
  there is none or when its value does not fit, and the characters that are left.
\<close>

definition from_chars :: "bytes \<Rightarrow> u64 option \<times> bytes" where
  "from_chars bs =
     (let ds = takeWhile is_digit bs in
      (if ds = [] \<or> 2 ^ 64 \<le> digits_value ds then None else Some (of_nat (digits_value ds)),
       dropWhile is_digit bs))"

definition cert_prefix :: bytes where
  "cert_prefix = bytes_of_string ''FC-R1CS-V1:constraints=''"

definition cert_suffix :: bytes where
  "cert_suffix = bytes_of_string '':public_inputs_len=5:status=SAT''"

definition starts_with :: "bytes \<Rightarrow> bytes \<Rightarrow> bool" where
  "starts_with s p \<longleftrightarrow> take (length p) s = p"

definition ends_with :: "bytes \<Rightarrow> bytes \<Rightarrow> bool" where
  "ends_with s p \<longleftrightarrow> length p \<le> length s \<and> drop (length s - length p) s = p"

definition verify_batch_proof :: "batch_proof_public_inputs \<Rightarrow> batch_proof \<Rightarrow> unit result" where
  "verify_batch_proof expected prf =
     (let proof_sv = bp_bytes prf; got = bp_public_inputs prf in
      reject_if (bp_version prf \<noteq> 1) (proof_error ''Unsupported proof version'')
     (reject_if (pi_pre_state_root expected \<noteq> pi_pre_state_root got
          \<or> pi_post_state_root expected \<noteq> pi_post_state_root got
          \<or> pi_batch_header_hash expected \<noteq> pi_batch_header_hash got
          \<or> pi_oracle_snapshot_hash expected \<noteq> pi_oracle_snapshot_hash got
          \<or> pi_clearing_price expected \<noteq> pi_clearing_price got
          \<or> pi_cleared_volume expected \<noteq> pi_cleared_volume got)
        (proof_error ''PublicInputMismatch'')
     (reject_if (\<not> starts_with proof_sv cert_prefix \<or> \<not> ends_with proof_sv cert_suffix
          \<or> length proof_sv \<le> length cert_prefix + length cert_suffix)
        (proof_error ''InvalidTransparentCertificate'')
     (let count_text = take (length proof_sv - length cert_prefix - length cert_suffix)
                         (drop (length cert_prefix) proof_sv);
          (constraint_count, rest) = from_chars count_text
      in reject_if (constraint_count = None \<or> rest \<noteq> [] \<or> constraint_count = Some 0)
           (proof_error ''InvalidTransparentCertificate'')
           (Ok ())))))"

end
