(* ===== verification/Session.thy ===== *)
theory Session
  imports Prover
begin

text \<open>
  \<open>proof/recursive/*\<close>: the running state of a multi-batch session, the fold of one batch into it, and
  the session prover and verifier.
\<close>

record running_state =
  rs_ledger_root :: bytes
  rs_history :: bytes
  rs_batch_id :: batch_id
  rs_timestamp :: u64
  rs_instrument :: instrument_id

definition genesis :: "bytes \<Rightarrow> instrument_id \<Rightarrow> running_state" where
  "genesis initial_root inst =
     \<lparr>rs_ledger_root = initial_root, rs_history = replicate 32 0, rs_batch_id = 0, rs_timestamp = 0,
      rs_instrument = inst\<rparr>"

text \<open>\<open>H_k = Hash(H_{k-1} || header_hash || clearing price || volume)\<close>.\<close>

definition history_payload :: "bytes \<Rightarrow> batch_proof_public_inputs \<Rightarrow> bytes" where
  "history_payload hist pub =
     append_le64 (append_le64 (hist @ pi_batch_header_hash pub) (pi_clearing_price pub)) (pi_cleared_volume pub)"

definition next_history :: "bytes \<Rightarrow> batch_proof_public_inputs \<Rightarrow> bytes" where
  "next_history hist pub = commit_raw_bytes (history_payload hist pub)"

definition fold_step ::
  "batch_proof_public_inputs \<Rightarrow> batch_proof_witness \<Rightarrow> u64 \<Rightarrow> running_state \<Rightarrow> running_state result" where
  "fold_step pub w step_timestamp st =
     (let expected_batch_id = rs_batch_id st + 1 in
      reject_if (bat_id (bw_batch w) \<noteq> expected_batch_id)
        (DomainError OrderValidationFailed ''BatchSequenceContinuityFailed'')
     (reject_if (bat_instrument (bw_batch w) \<noteq> rs_instrument st)
        (DomainError InstrumentMismatch ''InstrumentContinuityFailed'')
     (reject_if (step_timestamp < rs_timestamp st)
        (DomainError OrderValidationFailed ''TimestampMonotonicityFailed'')
     (reject_if (pi_pre_state_root pub \<noteq> rs_ledger_root st)
        (DomainError OrderValidationFailed ''pre_state_root_continuity'')
     (and_then_conv (prove pub w) (\<lambda>prf.
        Ok \<lparr>rs_ledger_root = pi_post_state_root pub, rs_history = next_history (rs_history st) pub,
            rs_batch_id = bat_id (bw_batch w), rs_timestamp = step_timestamp,
            rs_instrument = rs_instrument st\<rparr>))))))"

record recursive_step =
  step_public_inputs :: batch_proof_public_inputs
  step_witness :: batch_proof_witness
  step_timestamp :: u64

record session_public_inputs =
  sp_initial_state :: running_state
  sp_final_state :: running_state

record session_proof =
  sn_version :: u32
  sn_num_batches :: nat
  sn_public_inputs :: session_public_inputs
  sn_step_proofs :: "batch_proof list"
  sn_certificate :: bytes

section \<open>The session prover\<close>

definition prove_step ::
  "running_state \<times> batch_proof list \<Rightarrow> nat \<times> recursive_step \<Rightarrow> (running_state \<times> batch_proof list) result" where
  "prove_step = (\<lambda>(current, step_proofs) (idx, stp).
     case fold_step (step_public_inputs stp) (step_witness stp) (step_timestamp stp) current of
       Err e \<Rightarrow> Err (proof_error (''step_'' @ dec_string idx @ ''_fold: '' @ error_to_string e))
     | Ok current' \<Rightarrow>
         (case prove (step_public_inputs stp) (step_witness stp) of
            Err e \<Rightarrow> Err (proof_error (''step_'' @ dec_string idx @ ''_prove: '' @ error_to_string e))
          | Ok prf \<Rightarrow> Ok (current', step_proofs @ [prf])))"

definition session_certificate :: "nat \<Rightarrow> running_state \<Rightarrow> bytes" where
  "session_certificate n final =
     bytes_of_string (''FC-SESSION-PROOF-V1:batches='' @ dec_string n
       @ '':history_acc='' @ to_hex (rs_history final)
       @ '':final_batch='' @ to_string (rs_batch_id final))"

definition prove_session :: "running_state \<Rightarrow> recursive_step list \<Rightarrow> session_proof result" where
  "prove_session start steps =
     reject_if (steps = []) (proof_error ''InvalidWitness: cannot prove empty session'')
     (and_then (loop_result prove_step (start, []) (enumerate 0 steps)) (\<lambda>(final, step_proofs).
        Ok \<lparr>sn_version = 1, sn_num_batches = length steps,
            sn_public_inputs = \<lparr>sp_initial_state = start, sp_final_state = final\<rparr>,
            sn_step_proofs = step_proofs, sn_certificate = session_certificate (length steps) final\<rparr>))"

section \<open>The session verifier\<close>

definition replay_proof :: "bytes \<times> bytes \<Rightarrow> nat \<times> batch_proof \<Rightarrow> (bytes \<times> bytes) result" where
  "replay_proof = (\<lambda>(rolling_history, last_ledger_root) (idx, prf).
     case verify_batch_proof (bp_public_inputs prf) prf of
       Err e \<Rightarrow> Err (proof_error (''step_'' @ dec_string idx @ ''_verify: '' @ error_to_string e))
     | Ok u \<Rightarrow>
         reject_if (pi_pre_state_root (bp_public_inputs prf) \<noteq> last_ledger_root)
           (proof_error (''step_'' @ dec_string idx @ ''_pre_state_continuity''))
         (Ok (next_history rolling_history (bp_public_inputs prf), pi_post_state_root (bp_public_inputs prf))))"

definition verify_session :: "session_public_inputs \<Rightarrow> session_proof \<Rightarrow> unit result" where
  "verify_session expected prf =
     reject_if (sn_version prf \<noteq> 1)
       (proof_error (''UnsupportedProofVersion: '' @ to_string (sn_version prf)))
    (reject_if (sn_public_inputs prf \<noteq> expected)
       (proof_error ''PublicInputMismatch: session_public_inputs'')
    (reject_if (length (sn_step_proofs prf) \<noteq> sn_num_batches prf \<or> sn_step_proofs prf = [])
       (proof_error ''InvalidProofArtifact: step proofs count mismatch'')
    (and_then (loop_result replay_proof
        (rs_history (sp_initial_state expected), rs_ledger_root (sp_initial_state expected))
        (enumerate 0 (sn_step_proofs prf)))
       (\<lambda>(rolling_history, last_ledger_root).
     reject_if (last_ledger_root \<noteq> rs_ledger_root (sp_final_state expected))
       (proof_error ''PublicInputMismatch: final_ledger_root'')
    (reject_if (rolling_history \<noteq> rs_history (sp_final_state expected))
       (proof_error ''PublicInputMismatch: final_history_accumulator'')
    (Ok ()))))))"

end
