(* ===== verification/Circuit.thy ===== *)
theory Circuit
  imports Session
begin

text \<open>
  What the constraint system says.  For each subrelation: when it is synthesised, and which condition
  on the execution its constraints add, given that the witness is the one the prover assembles.  From
  these follows when the prover succeeds on what the engine executed.
\<close>

section \<open>Loops of subrelations\<close>

lemma loop_total:
  assumes "\<And>x s. x \<in> set xs \<Longrightarrow> \<exists>s'. step s x = Ok s'"
  shows "\<exists>s'. loop_result step s xs = Ok s'"
  using assms
proof (induction xs arbitrary: s)
  case (Cons x xs)
  then obtain s1 where "step s x = Ok s1" by fastforce
  with Cons show ?case by simp
qed simp

lemma loop_keeps:
  assumes "\<And>x s s'. x \<in> set xs \<Longrightarrow> step s x = Ok s' \<Longrightarrow> p s' = p s"
    and "loop_result step s xs = Ok s'"
  shows "p s' = p s"
  using assms
proof (induction xs arbitrary: s)
  case (Cons x xs)
  from Cons.prems(2) obtain s1 where s1: "step s x = Ok s1" and rest: "loop_result step s1 xs = Ok s'"
    by (auto simp: and_then_Ok_iff)
  have "p s' = p s1" by (rule Cons.IH [OF _ rest]) (rule Cons.prems(1), auto)
  with Cons.prems(1) [OF _ s1] show ?case by simp
qed simp

text \<open>
  A loop that extends a synthesis: \<open>Q\<close> says where the witness is, \<open>S\<close> that the constraints hold, and
  \<open>f\<close> is the value of a linear combination the loop accumulates.
\<close>

lemma loop_meaning:
  fixes f :: "'s \<Rightarrow> 'c::comm_monoid_add"
  assumes "\<And>x s s'. x \<in> set xs \<Longrightarrow> step s x = Ok s' \<Longrightarrow> Q s' \<Longrightarrow> Q s \<and> (S s' \<longleftrightarrow> S s \<and> c x) \<and> f s' = f s + g x"
    and "loop_result step s xs = Ok s'" and "Q s'"
  shows "Q s \<and> (S s' \<longleftrightarrow> S s \<and> list_all c xs) \<and> f s' = f s + sum_list (map g xs)"
  using assms
proof (induction xs arbitrary: s)
  case (Cons x xs)
  from Cons.prems(2) obtain s1 where s1: "step s x = Ok s1" and rest: "loop_result step s1 xs = Ok s'"
    by (auto simp: and_then_Ok_iff)
  have IH: "Q s1 \<and> (S s' \<longleftrightarrow> S s1 \<and> list_all c xs) \<and> f s' = f s1 + sum_list (map g xs)"
    by (rule Cons.IH [OF _ rest Cons.prems(3)]) (rule Cons.prems(1), auto)
  with Cons.prems(1) [OF _ s1] show ?case by (auto simp: add.assoc)
qed simp

section \<open>Order validity\<close>

lemma synthesize_order_public [synth]: "publics (snd (synthesize_order inst io s)) = publics s"
  by (cases io) (simp add: synthesize_order_def Let_def alloc_scalar_push synth)

lemma synthesize_order_meaning:
  assumes "placed W base (snd (synthesize_order inst (idx, o1) s))"
  shows "placed W base s"
    and "satisfies pub W (snd (synthesize_order inst (idx, o1) s))
      \<longleftrightarrow> satisfies pub W s \<and> ord_instrument o1 = inst \<and> (ucast (ord_seq o1) :: scalar) = of_nat idx"
proof -
  show "placed W base s"
    using assms by (simp add: synthesize_order_def Let_def alloc_scalar_push synth)
  show "satisfies pub W (snd (synthesize_order inst (idx, o1) s))
      \<longleftrightarrow> satisfies pub W s \<and> ord_instrument o1 = inst \<and> (ucast (ord_seq o1) :: scalar) = of_nat idx"
    using assms
    by (simp add: synthesize_order_def Let_def alloc_scalar_push synth lc_eval scalar_at_nth split: if_splits)
qed

definition in_sequence :: "instrument_id \<Rightarrow> nat \<times> order \<Rightarrow> bool" where
  "in_sequence inst = (\<lambda>(idx, o1). ord_instrument o1 = inst \<and> (ucast (ord_seq o1) :: scalar) = of_nat idx)"

lemma order_validity_meaning:
  assumes "placed W base (snd (synthesize_order_validity inst orders s))"
  shows "placed W base s
    \<and> (satisfies pub W (snd (synthesize_order_validity inst orders s))
        \<longleftrightarrow> satisfies pub W s \<and> list_all (in_sequence inst) (enumerate 0 orders))"
proof -
  let ?step = "\<lambda>(allocated, s) io. case synthesize_order inst io s of (v, s') \<Rightarrow> (allocated @ [v], s')"
  have "placed W base (snd (foldl ?step (vars, s) ios)) \<Longrightarrow> placed W base s
     \<and> (satisfies pub W (snd (foldl ?step (vars, s) ios))
        \<longleftrightarrow> satisfies pub W s \<and> list_all (in_sequence inst) ios)" for vars ios
  proof (induction ios arbitrary: vars s)
    case (Cons io ios)
    obtain idx o1 where io: "io = (idx, o1)" by (cases io)
    obtain v s1 where s1: "synthesize_order inst io s = (v, s1)" by (cases "synthesize_order inst io s")
    from Cons.prems have p: "placed W base (snd (foldl ?step (vars @ [v], s1) ios))" by (simp add: s1)
    note IH = Cons.IH [OF p]
    then have "placed W base (snd (synthesize_order inst (idx, o1) s))" using s1 io by simp
    from synthesize_order_meaning [OF this] IH show ?case
      by (auto simp: s1 io [symmetric] in_sequence_def) (auto simp: io)
  qed simp
  with assms show ?thesis by (simp add: synthesize_order_validity_def)
qed

lemma order_validity_public: "publics (snd (synthesize_order_validity inst orders s)) = publics s"
proof -
  have "publics (snd (foldl (\<lambda>(allocated, s) io. case synthesize_order inst io s of (v, s') \<Rightarrow> (allocated @ [v], s'))
      (vars, s) ios)) = publics s" for vars ios
    by (induction ios arbitrary: vars s) (auto simp: split_beta synth)
  then show ?thesis by (simp add: synthesize_order_validity_def)
qed

section \<open>Complete-input accounting\<close>

lemma merkle_inclusion_meaning:
  assumes "synthesize_merkle_inclusion (public_var j) root leaf p s = Ok s'"
  shows "publics s' = publics s"
    and "placed W base s' \<Longrightarrow> placed W base s \<and>
      (satisfies pub W s' \<longleftrightarrow> satisfies pub W s \<and> ucast (root_scalar root) = scalar_at pub j)"
  using assms
  by (auto simp: synthesize_merkle_inclusion_def constraint_error_def Let_def alloc_scalar_push synth lc_eval
      scalar_at_nth merkle_verify_def split: if_splits)

lemma merkle_inclusion_Ok:
  "merkle_verify p root leaf \<Longrightarrow> \<exists>s'. synthesize_merkle_inclusion v root leaf p s = Ok s'"
  by (simp add: synthesize_merkle_inclusion_def Let_def alloc_scalar_push)

lemma synthesize_record_meaning:
  assumes "synthesize_record (public_var j) preimages tree alloc (s, lc) (idx, r) = Ok (s', lc')"
  shows "publics s' = publics s"
    and "placed W base s' \<Longrightarrow> placed W base s \<and> evaluate pub W lc' = evaluate pub W lc + 1 \<and>
      (satisfies pub W s' \<longleftrightarrow> satisfies pub W s \<and> (ucast (of_nat (rec_leaf_index r) :: u64) :: scalar) = of_nat idx
         \<and> ucast (root_scalar (merkle_root tree)) = scalar_at pub j)"
proof -
  let ?s2 = "enforce_equal_in (from_var (witness_var (next_var s))) (from_constant (of_nat idx))
      (''record_'' @ dec_string idx @ ''_sequential_index'') (push_scalar (of_nat (rec_leaf_index r)) s)"
  obtain p where p: "synthesize_merkle_inclusion (public_var j) (merkle_root tree) (commit_order (preimages ! idx)) p ?s2 = Ok s'"
    and lc: "lc' = add_term one_var 1 lc"
    using assms
    by (auto simp: synthesize_record_def Let_def alloc_scalar_push constraint_error_def and_then_Ok_iff
        split: option.splits if_splits)
  show "publics s' = publics s" using merkle_inclusion_meaning(1) [OF p] by (simp add: synth)
  assume "placed W base s'"
  from merkle_inclusion_meaning(2) [OF p this] show
    "placed W base s \<and> evaluate pub W lc' = evaluate pub W lc + 1 \<and>
      (satisfies pub W s' \<longleftrightarrow> satisfies pub W s \<and> (ucast (of_nat (rec_leaf_index r) :: u64) :: scalar) = of_nat idx
         \<and> ucast (root_scalar (merkle_root tree)) = scalar_at pub j)"
    by (auto simp: synth lc lc_eval scalar_at_nth)
qed

lemma synthesize_record_Ok:
  assumes "idx < leaf_count tree"
    and "merkle_verify \<lparr>mp_leaf_index = idx, mp_path = proof_path idx (mt_layers tree)\<rparr> (merkle_root tree)
      (commit_order (preimages ! idx))"
    and "find (\<lambda>a. al_order_id a = rec_order_id r) (ba_allocations alloc) = Some a"
    and "rec_disposition r = implied_disposition a"
  shows "\<exists>s'. synthesize_record v preimages tree alloc slc (idx, r) = Ok s'"
proof -
  obtain s lc where slc: "slc = (s, lc)" by fastforce
  show ?thesis
    using assms
    by (auto simp: slc synthesize_record_def Let_def alloc_scalar_push generate_proof_def
        synthesize_merkle_inclusion_def)
qed

lemma accounting_meaning:
  assumes "synthesize_complete_input_accounting b preimages tree acc alloc s = Ok s'"
    and "length pub = 5" "publics s = 0"
    and "ucast (root_scalar (merkle_root tree)) = scalar_at pub 1"
    and "scalar_at pub 0 = of_nat (length (bat_orders b))"
  shows "publics s' = 2"
    and "placed W base s' \<Longrightarrow> placed W base s \<and> (satisfies pub W s' \<longleftrightarrow> satisfies pub W s \<and>
      list_all (\<lambda>(idx, r). (ucast (of_nat (rec_leaf_index r) :: u64) :: scalar) = of_nat idx)
        (enumerate 0 (cia_records acc)))"
proof -
  let ?cs = "snd (alloc_public (snd (alloc_public (fst s))))"
  have pv: "fst (alloc_public (snd (alloc_public (fst s)))) = public_var 1"
    "fst (alloc_public (fst s)) = public_var 0"
    using assms(3) by (simp_all add: alloc_public_def publics_def)
  have pub0: "publics (?cs, snd s) = 2"
    using assms(3) by (simp add: alloc_public_def publics_def)
  have len: "length (cia_records acc) = length (bat_orders b)"
    using assms(1) by (auto simp: synthesize_complete_input_accounting_def constraint_error_def
        split: result.splits if_splits)
  obtain s1 lc where loop: "loop_result (synthesize_record (public_var 1) preimages tree alloc) ((?cs, snd s), lc_zero)
      (enumerate 0 (cia_records acc)) = Ok (s1, lc)"
    and s': "s' = enforce_equal_in lc (from_var (public_var 0)) ''total_accounting_cardinality_equality'' s1"
    using assms(1) pv
    by (auto simp: synthesize_complete_input_accounting_def constraint_error_def Let_def split_beta and_then_Ok_iff
        split: result.splits if_splits)
  have "publics (fst (s1, lc)) = publics (fst ((?cs, snd s), lc_zero))"
    by (rule loop_keeps [OF _ loop, where p = "\<lambda>x. publics (fst x)"])
       (auto dest: synthesize_record_meaning(1))
  with pub0 show "publics s' = 2" by (simp add: s' synth)
  assume "placed W base s'"
  then have Q: "placed W base (fst (s1, lc))" by (simp add: s' synth)
  have "placed W base (fst ((?cs, snd s), lc_zero)) \<and>
    (satisfies pub W (fst (s1, lc)) \<longleftrightarrow> satisfies pub W (fst ((?cs, snd s), lc_zero)) \<and>
      list_all (\<lambda>(idx, r). (ucast (of_nat (rec_leaf_index r) :: u64) :: scalar) = of_nat idx)
        (enumerate 0 (cia_records acc)))
    \<and> evaluate pub W (snd (s1, lc)) = evaluate pub W (snd ((?cs, snd s), lc_zero))
        + sum_list (map (\<lambda>x. 1) (enumerate 0 (cia_records acc)))"
    by (rule loop_meaning [OF _ loop, where Q = "\<lambda>x. placed W base (fst x)"
          and S = "\<lambda>x. satisfies pub W (fst x)" and f = "\<lambda>x. evaluate pub W (snd x)", OF _ Q])
       (auto dest!: synthesize_record_meaning(2) simp: assms(4))
  then show "placed W base s \<and> (satisfies pub W s' \<longleftrightarrow> satisfies pub W s \<and>
      list_all (\<lambda>(idx, r). (ucast (of_nat (rec_leaf_index r) :: u64) :: scalar) = of_nat idx)
        (enumerate 0 (cia_records acc)))"
    using assms(5) len by (simp add: s' synth lc_eval sum_list_triv satisfies_public split_beta)
      (simp add: satisfies_def placed_def alloc_public_def)
qed

section \<open>Clearing optimality\<close>

lemma synthesize_candidate_meaning:
  assumes "synthesize_candidate orders (public_var j) vol s p = Ok s'"
    and "scalar_at pub j = ucast vol"
    and "\<And>d sup. demand_from_orders orders p = Ok d \<Longrightarrow> supply_from_orders orders p = Ok sup \<Longrightarrow> min d sup \<le> vol"
  shows "publics s' = publics s"
    and "placed W base s' \<Longrightarrow> placed W base s \<and> (satisfies pub W s' \<longleftrightarrow> satisfies pub W s)"
proof -
  obtain d sup where d: "demand_from_orders orders p = Ok d" "supply_from_orders orders p = Ok sup"
    using assms(1) by (auto simp: synthesize_candidate_def or_fail_def fail_msg_def split: result.splits)
  let ?v = "min d sup"
  have le: "?v \<le> vol" by (rule assms(3) [OF d])
  have slack: "(ucast vol :: scalar) - ucast ?v = ucast (if ?v < vol then vol - ?v else 0)"
    using le by (auto simp: ucast_scalar_sub unat_sub_fits word_le_nat_alt [symmetric])
  show "publics s' = publics s"
    using assms(1) by (auto simp: synthesize_candidate_def d Let_def alloc_scalar_push synth)
  assume "placed W base s'"
  then show "placed W base s \<and> (satisfies pub W s' \<longleftrightarrow> satisfies pub W s)"
    using assms(1,2) slack
    by (auto simp: synthesize_candidate_def d Let_def alloc_scalar_push synth lc_eval scalar_at_nth
        wrapping_mul_def)
qed

lemma candidate_Ok:
  assumes "totals_fit orders"
  shows "\<exists>s'. synthesize_candidate orders v vol s p = Ok s'"
proof -
  have "demand_at orders p < 2 ^ 64" "supply_at orders p < 2 ^ 64"
    using demand_at_le_total [of orders p] supply_at_le_total [of orders p] assms
    by (simp_all add: totals_fit_def)
  then have "demand_from_orders orders p = Ok (of_nat (demand_at orders p))"
    "supply_from_orders orders p = Ok (of_nat (supply_at orders p))"
    by (simp_all add: demand_from_orders_Ok_iff supply_from_orders_Ok_iff unat_of_nat take_bit_nat_eq_self)
  then show ?thesis by (simp add: synthesize_candidate_def Let_def alloc_scalar_push)
qed

lemma candidate_crossed:
  "demand_from_orders orders p = Ok d \<Longrightarrow> supply_from_orders orders p = Ok sy \<Longrightarrow>
   unat (min d sy) = crossed orders p"
  by (simp add: demand_from_orders_Ok_iff supply_from_orders_Ok_iff crossed_def min_def word_le_nat_alt)

lemma clearing_Ok:
  assumes "wf_batch b" "determine_clearing_outcome b = Ok out"
  shows "\<exists>m s'. synthesize_clearing_optimality b (out_price out) (out_volume out) s = Ok (m, s')"
proof -
  have fit: "totals_fit (bat_orders b)" using outcome_reference [OF assms] by simp
  show ?thesis
    using loop_total [of "candidate_prices_from_orders (bat_orders b)"
        "synthesize_candidate (bat_orders b) (fst (alloc_public (snd (alloc_public (fst s))))) (out_volume out)"
        "(snd (alloc_public (snd (alloc_public (fst s)))), snd s)", OF candidate_Ok [OF fit]]
    by (auto simp: synthesize_clearing_optimality_def assms(2) Let_def split_beta alloc_scalar_push)
qed

lemma clearing_meaning:
  assumes "wf_batch b" "determine_clearing_outcome b = Ok out"
    and "synthesize_clearing_optimality b (out_price out) (out_volume out) s = Ok (m, s')"
    and "publics s = 2"
    and "scalar_at pub 2 = ucast (case out_price out of Some p \<Rightarrow> p | None \<Rightarrow> 0)"
    and "scalar_at pub 3 = ucast (out_volume out)"
  shows "publics s' = 4"
    and "placed W base s' \<Longrightarrow> placed W base s \<and> (satisfies pub W s' \<longleftrightarrow> satisfies pub W s)"
proof -
  let ?cs = "snd (alloc_public (snd (alloc_public (fst s))))"
  let ?o = "bat_orders b" and ?vol = "out_volume out"
  have fit: "totals_fit ?o" and vol: "?vol = vm_max_volume (reference_maximizers ?o)"
    using outcome_reference [OF assms(1,2)] by simp_all
  have pv: "fst (alloc_public (snd (alloc_public (fst s)))) = public_var 3"
    "fst (alloc_public (fst s)) = public_var 2" and pub4: "publics (?cs, snd s) = 4"
    using assms(4) by (simp_all add: alloc_public_def publics_def)
  obtain s1 where loop: "loop_result (synthesize_candidate ?o (public_var 3) ?vol) (?cs, snd s)
      (candidate_prices_from_orders ?o) = Ok s1"
    and s': "s' = enforce_equal_in (from_var (witness_var (Suc (next_var s1)))) (from_var (public_var 3))
        ''cleared_volume_equality''
        (enforce_equal_in (from_var (witness_var (next_var s1))) (from_var (public_var 2)) ''clearing_price_equality''
          (push_scalar ?vol (push_scalar (case out_price out of Some p \<Rightarrow> p | None \<Rightarrow> 0) s1)))"
    using assms(3) pv
    by (auto simp: synthesize_clearing_optimality_def assms(2) Let_def split_beta alloc_scalar_push and_then_Ok_iff
        synth)
  have max: "min d sy \<le> ?vol"
    if "demand_from_orders ?o p = Ok d" "supply_from_orders ?o p = Ok sy" for p d sy
    using crossed_le_max [OF fit, of p] candidate_crossed [OF that] by (simp add: vol word_le_nat_alt)
  note step = synthesize_candidate_meaning [OF _ assms(6) max]
  have "publics s1 = publics (?cs, snd s)"
    by (rule loop_keeps [OF step(1) loop])
  with pub4 show "publics s' = 4" by (simp add: s' synth)
  assume "placed W base s'"
  then have Q: "placed W base s1" by (simp add: s' synth)
  have "placed W base (?cs, snd s) \<and>
    (satisfies pub W s1 \<longleftrightarrow> satisfies pub W (?cs, snd s) \<and> list_all (\<lambda>_. True) (candidate_prices_from_orders ?o))
    \<and> (0 :: nat) = 0 + sum_list (map (\<lambda>_. 0) (candidate_prices_from_orders ?o))"
    by (rule loop_meaning [OF _ loop, where Q = "placed W base" and S = "satisfies pub W", OF _ Q])
       (auto dest!: step(2))
  then show "placed W base s \<and> (satisfies pub W s' \<longleftrightarrow> satisfies pub W s)"
    using assms(5,6) \<open>placed W base s'\<close>
    by (simp add: s' synth lc_eval scalar_at_nth list_all_iff)
       (simp add: satisfies_def placed_def alloc_public_def list_all_iff)
qed

section \<open>Deterministic allocation\<close>

lemma rest_slack:
  fixes a q :: u64
  assumes "a \<le> q"
  shows "(ucast q :: scalar) - ucast a = ucast (if a < q then q - a else 0)"
  using assms by (auto simp: ucast_scalar_sub word_nat)

lemma order_allocation_meaning:
  assumes "synthesize_order_allocation orders cp (s, bl, sl) a = Ok (s', bl', sl')"
    and "find (\<lambda>o1. ord_id o1 = al_order_id a) orders = Some o1"
    and "al_allocated_qty a \<le> ord_qty o1"
    and "classify_order o1 cp = OutOfTheMoney \<Longrightarrow> al_allocated_qty a = 0"
  shows "publics s' = publics s"
    and "placed W base s' \<Longrightarrow> placed W base s \<and> (satisfies pub W s' \<longleftrightarrow> satisfies pub W s)
      \<and> evaluate pub W bl' = evaluate pub W bl + (if ord_side o1 = Buy then ucast (al_allocated_qty a) else 0)
      \<and> evaluate pub W sl' = evaluate pub W sl + (if ord_side o1 = Buy then 0 else ucast (al_allocated_qty a))"
proof -
  note step = assms(1) [unfolded synthesize_order_allocation_def Let_def alloc_scalar_push prod.case assms(2) option.case]
  show "publics s' = publics s"
    using step by (auto simp: synth split: order_moneyness.splits)
  assume "placed W base s'"
  then show "placed W base s \<and> (satisfies pub W s' \<longleftrightarrow> satisfies pub W s)
      \<and> evaluate pub W bl' = evaluate pub W bl + (if ord_side o1 = Buy then ucast (al_allocated_qty a) else 0)
      \<and> evaluate pub W sl' = evaluate pub W sl + (if ord_side o1 = Buy then 0 else ucast (al_allocated_qty a))"
    using step rest_slack [OF assms(3)] assms(4)
    by (cases "classify_order o1 cp"; cases "ord_side o1 = Buy") (auto simp: synth lc_eval scalar_at_nth)
qed

lemma find_by_id:
  assumes "distinct (map ord_id orders)" "o1 \<in> set orders"
  shows "find (\<lambda>o2. ord_id o2 = ord_id o1) orders = Some o1"
  using find_unique [OF assms] .

lemma sum_side_scalars:
  assumes "clearable b cp target" "ts = Buy \<or> ts = Sell"
  shows "sum_list (map (\<lambda>o1. if ord_side o1 = ts then (ucast (order_fill b cp target o1) :: scalar) else 0) (bat_orders b))
    = ucast target"
proof -
  have "sum_list (map (\<lambda>o1. if ord_side o1 = ts then (ucast (order_fill b cp target o1) :: scalar) else 0) orders)
      = of_nat (sum_list (map (\<lambda>o1. if ord_side o1 = ts then unat (order_fill b cp target o1) else 0) orders))"
    for orders by (induction orders) simp_all
  from this [of "bat_orders b"] show ?thesis unfolding sum_side_fills [OF assms] by simp
qed

lemma allocation_meaning:
  assumes clear: "clearable b cp target"
    and "allocate_batch b (Some cp) target = Ok alloc"
    and "synthesize_allocation b cp target alloc s = Ok s'"
    and "publics s = 4" and "scalar_at pub 4 = ucast target"
  shows "placed W base s' \<Longrightarrow> placed W base s \<and> (satisfies pub W s' \<longleftrightarrow> satisfies pub W s)"
    and "publics s' = 5"
proof -
  let ?o = "bat_orders b" and ?cs = "snd (alloc_public (fst s))"
  let ?as = "ba_allocations alloc"
  have wf: "wf_batch b" using clear by (simp add: clearable_def)
  then have d: "distinct (map ord_id ?o)" by (simp add: wf_batch_def)
  have "as": "?as = map (\<lambda>o1. allocation_of o1 (order_fill b cp target o1)) ?o"
    using assms(2) by (auto simp: allocate_batch_eq [OF clear])
  have pv: "fst (alloc_public (fst s)) = public_var 4" and pub5: "publics (?cs, snd s) = 5"
    using assms(4) by (simp_all add: alloc_public_def publics_def)
  obtain s1 bl sl where loop: "loop_result (synthesize_order_allocation ?o cp) ((?cs, snd s), lc_zero, lc_zero) ?as
      = Ok (s1, bl, sl)"
    and s': "s' = enforce_equal_in sl (from_var (public_var 4)) ''total_sell_allocation_conservation''
         (enforce_equal_in bl (from_var (public_var 4)) ''total_buy_allocation_conservation'' s1)"
    using assms(3) pv by (auto simp: synthesize_allocation_def assms(2) Let_def split_beta and_then_Ok_iff)
  have member: "\<exists>o1 \<in> set ?o. find (\<lambda>o2. ord_id o2 = al_order_id a) ?o = Some o1 \<and> al_allocated_qty a \<le> ord_qty o1
      \<and> (classify_order o1 cp = OutOfTheMoney \<longrightarrow> al_allocated_qty a = 0) \<and> al_side a = ord_side o1"
    if "a \<in> set ?as" for a
    using that find_by_id [OF d] order_fill_le [OF clear] order_fill_otm by (auto simp: "as")
  have "publics (fst (s1, bl, sl)) = publics (fst ((?cs, snd s), lc_zero, lc_zero))"
    by (rule loop_keeps [OF _ loop, where p = "\<lambda>x. publics (fst x)"])
       (use member order_allocation_meaning(1) in fastforce)
  with pub5 show "publics s' = 5" by (simp add: s' synth)
  assume "placed W base s'"
  then have Q: "placed W base (fst (s1, bl, sl))" by (simp add: s' synth)
  have step: "placed W base (fst t) \<and> (satisfies pub W (fst t') \<longleftrightarrow> satisfies pub W (fst t) \<and> True)
      \<and> evaluate pub W (fst (snd t')) = evaluate pub W (fst (snd t)) + (if al_side a = Buy then ucast (al_allocated_qty a) else 0)
      \<and> evaluate pub W (snd (snd t')) = evaluate pub W (snd (snd t)) + (if al_side a = Buy then 0 else ucast (al_allocated_qty a))"
    if "a \<in> set ?as" "synthesize_order_allocation ?o cp t a = Ok t'" "placed W base (fst t')" for a t t'
  proof -
    obtain o1 where "find (\<lambda>o2. ord_id o2 = al_order_id a) ?o = Some o1" "al_allocated_qty a \<le> ord_qty o1"
      "classify_order o1 cp = OutOfTheMoney \<longrightarrow> al_allocated_qty a = 0" "al_side a = ord_side o1"
      using member [OF \<open>a \<in> set ?as\<close>] by blast
    with that show ?thesis
      using order_allocation_meaning(2) [of ?o cp "fst t" "fst (snd t)" "snd (snd t)" a "fst t'" "fst (snd t')" "snd (snd t')" o1 W base pub]
      by simp
  qed
  have buy: "placed W base (?cs, snd s) \<and> (satisfies pub W s1 \<longleftrightarrow> satisfies pub W (?cs, snd s) \<and> list_all (\<lambda>_. True) ?as)
    \<and> evaluate pub W bl = evaluate pub W lc_zero + sum_list (map (\<lambda>a. if al_side a = Buy then ucast (al_allocated_qty a) else 0) ?as)"
    using loop_meaning [OF _ loop, where Q = "\<lambda>t. placed W base (fst t)" and S = "\<lambda>t. satisfies pub W (fst t)"
        and c = "\<lambda>_. True" and f = "\<lambda>t. evaluate pub W (fst (snd t))"
        and g = "\<lambda>a. if al_side a = Buy then ucast (al_allocated_qty a) else 0", OF _ Q] step by simp
  have sell: "evaluate pub W sl = evaluate pub W lc_zero + sum_list (map (\<lambda>a. if al_side a = Buy then 0 else ucast (al_allocated_qty a)) ?as)"
    using loop_meaning [OF _ loop, where Q = "\<lambda>t. placed W base (fst t)" and S = "\<lambda>t. satisfies pub W (fst t)"
        and c = "\<lambda>_. True" and f = "\<lambda>t. evaluate pub W (snd (snd t))"
        and g = "\<lambda>a. if al_side a = Buy then 0 else ucast (al_allocated_qty a)", OF _ Q] step by simp
  have "sum_list (map (\<lambda>a. if al_side a = Buy then (ucast (al_allocated_qty a) :: scalar) else 0) ?as) = ucast target"
    unfolding "as" using sum_side_scalars [OF clear, of Buy] by (simp add: comp_def cong: if_cong)
  moreover have "sum_list (map (\<lambda>a. if al_side a = Buy then 0 else (ucast (al_allocated_qty a) :: scalar)) ?as) = ucast target"
  proof -
    have "(if ord_side o1 = Buy then 0 else x) = (if ord_side o1 = Sell then x else (0 :: scalar))" if "o1 \<in> set ?o" for o1 x
      using wf_batch_orderD [OF wf that] by (auto simp: wf_order_def valid_side_def)
    then show ?thesis
      unfolding "as" using sum_side_scalars [OF clear, of Sell] by (simp add: comp_def cong: map_cong if_cong)
  qed
  ultimately show "placed W base s \<and> (satisfies pub W s' \<longleftrightarrow> satisfies pub W s)"
    using buy sell assms(5)
    by (simp add: s' synth lc_eval list_all_iff) (simp add: satisfies_def placed_def alloc_public_def list_all_iff)
qed

lemma allocation_Ok:
  assumes clear: "clearable b cp target" and "allocate_batch b (Some cp) target = Ok alloc"
  shows "\<exists>s'. synthesize_allocation b cp target alloc s = Ok s'"
proof -
  have wf: "wf_batch b" using clear by (simp add: clearable_def)
  then have d: "distinct (map ord_id (bat_orders b))" by (simp add: wf_batch_def)
  have "\<exists>t'. synthesize_order_allocation (bat_orders b) cp t a = Ok t'" if "a \<in> set (ba_allocations alloc)" for a t
    using that find_by_id [OF d] assms(2)
    by (cases t) (auto simp: allocate_batch_eq [OF clear] synthesize_order_allocation_def Let_def split_beta)
  from loop_total [of "ba_allocations alloc" "synthesize_order_allocation (bat_orders b) cp"
      "((snd (alloc_public (fst s)), snd s), lc_zero, lc_zero)", OF this]
  show ?thesis by (auto simp: synthesize_allocation_def assms(2) Let_def split_beta)
qed

section \<open>Fill bounds\<close>

lemma low_half_eq_iff: "ucast (ucast w :: u64) = w \<longleftrightarrow> unat w < 2 ^ 64" for w :: scalar
proof -
  have "unat (ucast (ucast w :: u64) :: scalar) = unat w mod 2 ^ 64"
    by (simp add: unsigned_ucast_eq unsigned_take_bit_eq) (simp add: take_bit_eq_mod)
  then show ?thesis by (auto simp: word_unat_eq_iff)
qed

lemma synthesize_fill_meaning:
  assumes "synthesize_fill cp cv orders s f = Ok s'"
    and "find (\<lambda>o1. ord_id o1 = fill_order_id f) orders = Some o1"
    and "within_limit cp (ord_side o1) (ord_price o1)"
  shows "publics s' = publics s"
    and "placed W base s' \<Longrightarrow> placed W base s"
    and "placed W base s' \<Longrightarrow> var_value pub W cv = ucast cp \<Longrightarrow>
      satisfies pub W s' \<longleftrightarrow> satisfies pub W s
        \<and> ucast cp * ucast (fill_qty f) = (ucast (ucast (fill_consideration f) :: u64) :: scalar)"
proof -
  note step = assms(1) [unfolded synthesize_fill_def Let_def alloc_scalar_push prod.case assms(2) option.case]
  have le: "fill_qty f \<le> ord_qty o1" using step by (auto simp: constraint_error_def not_less split: if_splits)
  have qty: "(ucast (ord_qty o1) :: scalar) - ucast (fill_qty f) = ucast (ord_qty o1 - fill_qty f)"
    using le by (simp add: ucast_scalar_sub word_nat)
  have limit: "(ord_side o1 = Buy \<longrightarrow> cp \<le> ord_price o1) \<and> (ord_side o1 \<noteq> Buy \<longrightarrow> ord_price o1 \<le> cp)"
    using assms(3) by (simp add: within_limit_def split: if_splits)
  show "publics s' = publics s"
    using step by (auto simp: synth constraint_error_def split: if_splits)
  assume p: "placed W base s'"
  then show "placed W base s"
    using step by (auto simp: synth constraint_error_def split: if_splits)
  assume "var_value pub W cv = ucast cp"
  with p show "satisfies pub W s' \<longleftrightarrow> satisfies pub W s
        \<and> ucast cp * ucast (fill_qty f) = (ucast (ucast (fill_consideration f) :: u64) :: scalar)"
    using step qty limit rest_slack [of cp "ord_price o1"] rest_slack [of "ord_price o1" cp]
    by (cases "ord_side o1 = Buy") (auto simp: synth lc_eval scalar_at_nth constraint_error_def split: if_splits)
qed

definition fill_fits :: "fill \<Rightarrow> bool" where
  "fill_fits f \<longleftrightarrow> unat (fill_consideration f) < 2 ^ 64"

text \<open>A canonical fill: of an order of the batch, within its quantity and limit.\<close>

lemma canonical_fill_order:
  assumes clear: "clearable b cp target"
    and "f \<in> set (map (fill_for cp inst) (enumerate n (executed
          (map (\<lambda>o1. allocation_of o1 (order_fill b cp target o1)) (bat_orders b)))))"
  shows "\<exists>o1. find (\<lambda>o2. ord_id o2 = fill_order_id f) (bat_orders b) = Some o1
    \<and> within_limit cp (ord_side o1) (ord_price o1) \<and> fill_qty f \<le> ord_qty o1
    \<and> fill_consideration f = ucast cp * ucast (fill_qty f) \<and> fill_qty f \<noteq> 0
    \<and> fill_account_id f = ord_account o1 \<and> fill_side f = ord_side o1"
proof -
  have d: "distinct (map ord_id (bat_orders b))" using clear by (simp add: clearable_def wf_batch_def)
  obtain o1 where o1: "o1 \<in> set (bat_orders b)" "order_fill b cp target o1 \<noteq> 0"
    "fill_order_id f = ord_id o1" "fill_account_id f = ord_account o1" "fill_side f = ord_side o1"
    "fill_qty f = order_fill b cp target o1" "fill_consideration f = ucast cp * ucast (order_fill b cp target o1)"
    using canonical_fills_members [OF assms(2)] by (auto simp: executed_def)
  moreover have "within_limit cp (ord_side o1) (ord_price o1)"
    using o1(2) order_fill_otm [of o1 cp b target] by (auto simp: otm_iff)
  ultimately show ?thesis
    using find_by_id [OF d o1(1)] order_fill_le [OF clear o1(1)] by auto
qed

lemma fill_bounds_meaning:
  assumes clear: "clearable b cp target"
    and fills: "fills = map (fill_for cp inst) (enumerate 0 (executed
          (map (\<lambda>o1. allocation_of o1 (order_fill b cp target o1)) (bat_orders b))))"
    and syn: "synthesize_fill_bounds cp (bat_orders b) fills s = Ok s'"
  shows "publics s' = publics s"
    and "placed W base s' \<Longrightarrow> placed W base s \<and>
      (satisfies pub W s' \<longleftrightarrow> satisfies pub W s \<and> list_all fill_fits fills)"
proof -
  let ?o = "bat_orders b" and ?cv = "witness_var (next_var s)"
  have loop: "loop_result (synthesize_fill cp ?cv ?o) (push_scalar cp s) fills = Ok s'"
    using syn by (simp add: synthesize_fill_bounds_def alloc_scalar_push)
  note member = canonical_fill_order [OF clear, of _ inst 0, folded fills]
  have "publics s' = publics (push_scalar cp s)"
    by (rule loop_keeps [OF _ loop]) (use member synthesize_fill_meaning(1) in blast)
  then show "publics s' = publics s" by (simp add: synth)
  assume Q: "placed W base s'"
  have earlier: "placed W base t" if "f \<in> set fills" "synthesize_fill cp ?cv ?o t f = Ok t'" "placed W base t'" for f t t'
    using member [OF that(1)] synthesize_fill_meaning(2) [OF that(2) _ _ that(3)] by blast
  have "placed W base (push_scalar cp s) \<and> (True \<longleftrightarrow> True \<and> list_all (\<lambda>_. True) fills)
      \<and> (0 :: nat) = 0 + sum_list (map (\<lambda>_. 0) fills)"
    by (rule loop_meaning [OF _ loop, where Q = "placed W base" and S = "\<lambda>_. True", OF _ Q]) (use earlier in auto)
  then have s: "placed W base (push_scalar cp s)" by simp
  then have cv: "var_value pub W ?cv = ucast cp" by (simp add: synth lc_eval scalar_at_nth)
  have step: "satisfies pub W t' \<longleftrightarrow> satisfies pub W t \<and> fill_fits f"
    if "f \<in> set fills" "synthesize_fill cp ?cv ?o t f = Ok t'" "placed W base t'" for f t t'
  proof -
    obtain o1 where o1: "find (\<lambda>o2. ord_id o2 = fill_order_id f) ?o = Some o1"
      "within_limit cp (ord_side o1) (ord_price o1)" "fill_consideration f = ucast cp * ucast (fill_qty f)"
      using member [OF \<open>f \<in> set fills\<close>] by blast
    then show ?thesis
      using synthesize_fill_meaning(3) [OF that(2) o1(1,2) that(3) cv] low_half_eq_iff [of "fill_consideration f"]
      by (auto simp: fill_fits_def)
  qed
  have "placed W base (push_scalar cp s) \<and> (satisfies pub W s' \<longleftrightarrow> satisfies pub W (push_scalar cp s) \<and> list_all fill_fits fills)
      \<and> (0 :: nat) = 0 + sum_list (map (\<lambda>_. 0) fills)"
    by (rule loop_meaning [OF _ loop, where Q = "placed W base" and S = "satisfies pub W", OF _ Q])
       (use earlier step in auto)
  then show "placed W base s \<and> (satisfies pub W s' \<longleftrightarrow> satisfies pub W s \<and> list_all fill_fits fills)"
    by (simp add: synth)
qed

lemma fill_bounds_Ok:
  assumes clear: "clearable b cp target"
    and fills: "fills = map (fill_for cp inst) (enumerate 0 (executed
          (map (\<lambda>o1. allocation_of o1 (order_fill b cp target o1)) (bat_orders b))))"
  shows "\<exists>s'. synthesize_fill_bounds cp (bat_orders b) fills s = Ok s'"
proof -
  have "\<exists>t'. synthesize_fill cp v (bat_orders b) t f = Ok t'" if "f \<in> set fills" for f t v
  proof -
    obtain o1 where "find (\<lambda>o2. ord_id o2 = fill_order_id f) (bat_orders b) = Some o1"
      "within_limit cp (ord_side o1) (ord_price o1)" "fill_qty f \<le> ord_qty o1"
      using canonical_fill_order [OF clear, of f inst 0, folded fills] \<open>f \<in> set fills\<close> by blast
    then show ?thesis
      by (auto simp: synthesize_fill_def Let_def alloc_scalar_push within_limit_def not_less split: if_splits)
  qed
  from loop_total [of fills "synthesize_fill cp (witness_var (next_var s)) (bat_orders b)", OF this]
  show ?thesis by (simp add: synthesize_fill_bounds_def alloc_scalar_push)
qed

section \<open>Conservation\<close>

text \<open>The cash of an account as the circuit reads it: its low 64 bits.\<close>

definition low_cash :: "ledger \<Rightarrow> account_id \<Rightarrow> scalar" where
  "low_cash l k = of_nat (cash_of l k mod 2 ^ 64)"

lemma low_half: "(ucast (ucast w :: u64) :: scalar) = of_nat (unat w mod 2 ^ 64)" for w :: money
proof -
  have "unat (ucast (ucast w :: u64) :: scalar) = unat w mod 2 ^ 64"
    by (simp add: unsigned_ucast_eq unsigned_take_bit_eq) (simp add: take_bit_eq_mod)
  then show ?thesis by (metis of_nat_unat ucast_id)
qed

lemma low_cash_Some: "om_find l k = Some acc \<Longrightarrow> ucast (ucast (acc_cash acc) :: u64) = low_cash l k"
  by (simp add: low_cash_def cash_of_def low_half)

lemma account_fill_loop:
  assumes "list_all fill_fits fills" "list_all (\<lambda>f. fill_instrument_id f = inst) fills"
    and "foldl (synthesize_account_fill k) (s, cl, il) fills = (s', cl', il')"
  shows "publics s' = publics s"
    and "placed W base s' \<Longrightarrow> placed W base s \<and> (satisfies pub W s' \<longleftrightarrow> satisfies pub W s)
      \<and> evaluate pub W cl' = evaluate pub W cl - of_nat (paid True k fills) + of_nat (paid False k fills)
      \<and> evaluate pub W il' = evaluate pub W il + of_nat (moved True inst k fills) - of_nat (moved False inst k fills)"
proof -
  have "publics s' = publics s \<and> (placed W base s' \<longrightarrow> placed W base s \<and> (satisfies pub W s' \<longleftrightarrow> satisfies pub W s)
      \<and> evaluate pub W cl' = evaluate pub W cl - of_nat (paid True k fills) + of_nat (paid False k fills)
      \<and> evaluate pub W il' = evaluate pub W il + of_nat (moved True inst k fills) - of_nat (moved False inst k fills))"
    using assms
  proof (induction fills arbitrary: s cl il)
    case (Cons f fills)
    obtain s1 cl1 il1 where st: "synthesize_account_fill k (s, cl, il) f = (s1, cl1, il1)" by (cases "synthesize_account_fill k (s, cl, il) f") auto
    with Cons.prems have loop: "foldl (synthesize_account_fill k) (s1, cl1, il1) fills = (s', cl', il')"
      and fits: "fill_fits f" and inst: "fill_instrument_id f = inst" by simp_all
    have c: "ucast (ucast (fill_consideration f) :: u64) = (of_nat (unat (fill_consideration f)) :: scalar)"
      using fits low_half_eq_iff [of "fill_consideration f"] by (simp add: fill_fits_def)
    have q: "(ucast (fill_qty f) :: scalar) = of_nat (unat (fill_qty f))" by simp
    have IH: "publics s' = publics s1 \<and> (placed W base s' \<longrightarrow> placed W base s1 \<and> (satisfies pub W s' \<longleftrightarrow> satisfies pub W s1)
      \<and> evaluate pub W cl' = evaluate pub W cl1 - of_nat (paid True k fills) + of_nat (paid False k fills)
      \<and> evaluate pub W il' = evaluate pub W il1 + of_nat (moved True inst k fills) - of_nat (moved False inst k fills))"
      using Cons.prems by (intro Cons.IH [OF _ _ loop]) simp_all
    show ?case
    proof (cases "fill_account_id f = k")
      case False
      with st IH show ?thesis by (simp add: synthesize_account_fill_def)
    next
      case True
      then show ?thesis
        using st IH inst
        by (cases "fill_side f = Buy")
           (auto simp: synthesize_account_fill_def Let_def alloc_scalar_push synth lc_eval scalar_at_nth c q
             simp del: of_nat_unat)
    qed
  qed simp
  then show "publics s' = publics s"
    and "placed W base s' \<Longrightarrow> placed W base s \<and> (satisfies pub W s' \<longleftrightarrow> satisfies pub W s)
      \<and> evaluate pub W cl' = evaluate pub W cl - of_nat (paid True k fills) + of_nat (paid False k fills)
      \<and> evaluate pub W il' = evaluate pub W il + of_nat (moved True inst k fills) - of_nat (moved False inst k fills)"
    by blast+
qed

text \<open>The transition the circuit demands of one account.\<close>

definition account_moves :: "ledger \<Rightarrow> ledger \<Rightarrow> fill list \<Rightarrow> instrument_id \<Rightarrow> account_id \<Rightarrow> bool" where
  "account_moves pre post fills inst k \<longleftrightarrow>
     low_cash post k = low_cash pre k - of_nat (paid True k fills) + of_nat (paid False k fills)
   \<and> (of_nat (stock_of inst post k) :: scalar)
       = of_nat (stock_of inst pre k) + of_nat (moved True inst k fills) - of_nat (moved False inst k fills)"

lemma synthesize_account_meaning:
  assumes "list_all fill_fits fills" "list_all (\<lambda>f. fill_instrument_id f = inst) fills"
    and "om_find pre k = Some acc"
    and "synthesize_account post fills inst (s, t) (k, acc) = (s', t')"
  shows "publics s' = publics s"
    and "placed W base s' \<Longrightarrow> placed W base s
      \<and> (satisfies pub W s' \<longleftrightarrow> satisfies pub W s \<and> account_moves pre post fills inst k)
      \<and> evaluate pub W (lt_pre_cash t') = evaluate pub W (lt_pre_cash t) + low_cash pre k
      \<and> evaluate pub W (lt_post_cash t') = evaluate pub W (lt_post_cash t) + low_cash post k
      \<and> evaluate pub W (lt_pre_inv t') = evaluate pub W (lt_pre_inv t) + of_nat (stock_of inst pre k)
      \<and> evaluate pub W (lt_post_inv t') = evaluate pub W (lt_post_inv t) + of_nat (stock_of inst post k)"
proof -
  define c0 where "c0 = (ucast (acc_cash acc) :: u64)"
  define i0 where "i0 = inventory_of acc inst"
  define c1 where "c1 = ((case get_account post k of Some p \<Rightarrow> ucast (acc_cash p) | None \<Rightarrow> 0) :: u64)"
  define i1 where "i1 = (case get_account post k of Some p \<Rightarrow> inventory_of p inst | None \<Rightarrow> 0)"
  have v: "(ucast c0 :: scalar) = low_cash pre k" "(ucast i0 :: scalar) = of_nat (stock_of inst pre k)"
    "(ucast c1 :: scalar) = low_cash post k" "(ucast i1 :: scalar) = of_nat (stock_of inst post k)"
    using assms(3) low_cash_Some [of pre k] low_cash_Some [of post k]
    by (auto simp: c0_def i0_def c1_def i1_def get_account_def stock_of_def low_cash_def cash_of_def split: option.splits)
  let ?s4 = "push_scalar i1 (push_scalar i0 (push_scalar c1 (push_scalar c0 s)))"
  obtain s5 cl il where loop: "foldl (synthesize_account_fill k)
      (?s4, from_var (witness_var (next_var s)), from_var (witness_var (Suc (Suc (next_var s))))) fills = (s5, cl, il)"
    by (metis prod_cases3)
  note code = assms(4) [unfolded synthesize_account_def prod.case Let_def alloc_scalar_push,
      folded c0_def i0_def c1_def i1_def, unfolded synth loop prod.case]
  note fills = account_fill_loop [OF assms(1,2) loop]
  note s' = prod.inject [THEN iffD1, OF code, THEN conjunct1, symmetric]
    and t' = prod.inject [THEN iffD1, OF code, THEN conjunct2, symmetric]
  show "publics s' = publics s" using fills(1) by (simp add: s' synth)
  assume "placed W base s'"
  then have p5: "placed W base s5" by (simp add: s' synth)
  from fills(2) [OF p5, of pub] show "placed W base s
      \<and> (satisfies pub W s' \<longleftrightarrow> satisfies pub W s \<and> account_moves pre post fills inst k)
      \<and> evaluate pub W (lt_pre_cash t') = evaluate pub W (lt_pre_cash t) + low_cash pre k
      \<and> evaluate pub W (lt_post_cash t') = evaluate pub W (lt_post_cash t) + low_cash post k
      \<and> evaluate pub W (lt_pre_inv t') = evaluate pub W (lt_pre_inv t) + of_nat (stock_of inst pre k)
      \<and> evaluate pub W (lt_post_inv t') = evaluate pub W (lt_post_inv t) + of_nat (stock_of inst post k)"
    by (simp add: s' t' synth lc_eval scalar_at_nth v account_moves_def)
qed

lemma foldl_as_loop: "loop_result (\<lambda>s x. Ok (f s x)) s xs = Ok (foldl f s xs)"
  by (induction xs arbitrary: s) simp_all

lemma conservation_circuit:
  assumes "list_all fill_fits fills" "list_all (\<lambda>f. fill_instrument_id f = inst) fills"
    and "synthesize_conservation pre post fills inst s = Ok s'"
  shows "publics s' = publics s"
    and "placed W base s' \<Longrightarrow> placed W base s \<and>
      (satisfies pub W s' \<longleftrightarrow> satisfies pub W s
        \<and> list_all (\<lambda>(k, acc). account_moves pre post fills inst k) (om_entries pre)
        \<and> sum_list (map (\<lambda>(k, acc). low_cash pre k) (om_entries pre))
            = sum_list (map (\<lambda>(k, acc). low_cash post k) (om_entries pre))
        \<and> sum_list (map (\<lambda>(k, acc). of_nat (stock_of inst pre k) :: scalar) (om_entries pre))
            = sum_list (map (\<lambda>(k, acc). of_nat (stock_of inst post k)) (om_entries pre)))"
proof -
  let ?t0 = "\<lparr>lt_pre_cash = lc_zero, lt_post_cash = lc_zero, lt_pre_inv = lc_zero, lt_post_inv = lc_zero\<rparr>"
  let ?step = "synthesize_account post fills inst" and ?es = "om_entries pre"
  obtain s1 t where st: "foldl ?step (s, ?t0) ?es = (s1, t)" by (cases "foldl ?step (s, ?t0) ?es")
  then have loop: "loop_result (\<lambda>s x. Ok (?step s x)) (s, ?t0) ?es = Ok (s1, t)"
    by (simp add: foldl_as_loop)
  have s': "s' = enforce_equal_in (lt_pre_inv t) (lt_post_inv t) ''global_asset_conservation''
           (enforce_equal_in (lt_pre_cash t) (lt_post_cash t) ''global_cash_conservation'' s1)"
    using assms(3) st by (simp add: synthesize_conservation_def)
  have entry: "om_find pre (fst e) = Some (snd e)" if "e \<in> set ?es" for e
    using that by (simp flip: om.mem_entries)
  have "publics (fst (s1, t)) = publics (fst (s, ?t0))"
  proof (rule loop_keeps [OF _ loop, where p = "\<lambda>x. publics (fst x)"])
    fix e x x' assume "e \<in> set ?es" "Ok (?step x e) = Ok x'"
    then show "publics (fst x') = publics (fst x)"
      using synthesize_account_meaning(1) [OF assms(1,2) entry, of e post "fst x" "snd x" "fst x'" "snd x'"] by simp
  qed
  then show "publics s' = publics s" by (simp add: s' synth)
  assume "placed W base s'"
  then have Q: "placed W base (fst (s1, t))" by (simp add: s' synth)
  define c where "c = (\<lambda>e :: account_id \<times> account_state. account_moves pre post fills inst (fst e))"
  have step: "placed W base (fst x) \<and> (satisfies pub W (fst x') \<longleftrightarrow> satisfies pub W (fst x) \<and> c e)
      \<and> evaluate pub W (lt_pre_cash (snd x')) = evaluate pub W (lt_pre_cash (snd x)) + low_cash pre (fst e)
      \<and> evaluate pub W (lt_post_cash (snd x')) = evaluate pub W (lt_post_cash (snd x)) + low_cash post (fst e)
      \<and> evaluate pub W (lt_pre_inv (snd x')) = evaluate pub W (lt_pre_inv (snd x)) + of_nat (stock_of inst pre (fst e))
      \<and> evaluate pub W (lt_post_inv (snd x')) = evaluate pub W (lt_post_inv (snd x)) + of_nat (stock_of inst post (fst e))"
    if "e \<in> set ?es" "Ok (?step x e) = Ok x'" "placed W base (fst x')" for e x x'
    using synthesize_account_meaning(2) [OF assms(1,2) entry [OF that(1)], of post "fst x" "snd x" "fst x'" "snd x'" W base pub] that
    by (simp add: c_def)
  note sums = loop_meaning [OF _ loop, where Q = "\<lambda>x. placed W base (fst x)" and S = "\<lambda>x. satisfies pub W (fst x)"
      and c = c, OF _ Q]
  have "placed W base s \<and> (satisfies pub W s1 \<longleftrightarrow> satisfies pub W s \<and> list_all c ?es)
      \<and> evaluate pub W (lt_pre_cash t) = sum_list (map (\<lambda>e. low_cash pre (fst e)) ?es)"
    using sums [where f = "\<lambda>x. evaluate pub W (lt_pre_cash (snd x))" and g = "\<lambda>e. low_cash pre (fst e)"] step
    by (simp add: lc_eval)
  moreover have "evaluate pub W (lt_post_cash t) = sum_list (map (\<lambda>e. low_cash post (fst e)) ?es)"
    using sums [where f = "\<lambda>x. evaluate pub W (lt_post_cash (snd x))" and g = "\<lambda>e. low_cash post (fst e)"] step
    by (simp add: lc_eval)
  moreover have "evaluate pub W (lt_pre_inv t) = sum_list (map (\<lambda>e. of_nat (stock_of inst pre (fst e))) ?es)"
    using sums [where f = "\<lambda>x. evaluate pub W (lt_pre_inv (snd x))" and g = "\<lambda>e. of_nat (stock_of inst pre (fst e))"] step
    by (simp add: lc_eval)
  moreover have "evaluate pub W (lt_post_inv t) = sum_list (map (\<lambda>e. of_nat (stock_of inst post (fst e))) ?es)"
    using sums [where f = "\<lambda>x. evaluate pub W (lt_post_inv (snd x))" and g = "\<lambda>e. of_nat (stock_of inst post (fst e))"] step
    by (simp add: lc_eval)
  ultimately show "placed W base s \<and>
      (satisfies pub W s' \<longleftrightarrow> satisfies pub W s
        \<and> list_all (\<lambda>(k, acc). account_moves pre post fills inst k) ?es
        \<and> sum_list (map (\<lambda>(k, acc). low_cash pre k) ?es) = sum_list (map (\<lambda>(k, acc). low_cash post k) ?es)
        \<and> sum_list (map (\<lambda>(k, acc). of_nat (stock_of inst pre k) :: scalar) ?es)
            = sum_list (map (\<lambda>(k, acc). of_nat (stock_of inst post k)) ?es))"
    by (auto simp: s' synth c_def case_prod_unfold)
qed

end
