(* ===== verification/Prover_Correct.thy ===== *)
theory Prover_Correct
  imports Circuit
begin

text \<open>
  When the prover succeeds.  The circuit adds to the plaintext checks exactly three conditions: the
  orders are numbered by their positions, no consideration needs more than 64 bits, and no account's
  cash crosses a multiple of two to the 64.  Everything else the constraints say follows from the
  correctness of the engine.
\<close>

section \<open>The accounts of a settlement\<close>

lemma apply_fill_known_account:
  assumes "apply_fill l f = Ok l'" "fill_qty f \<noteq> 0" "fill_consideration f \<noteq> 0"
  shows "dom (om_find l') = dom (om_find l)"
proof (rule apply_fill_account [OF assms(1)])
  fix acc
  assume l': "l' = om_assign (fill_account_id f) acc l"
    and cash: "unat (acc_cash acc) + (if fill_side f = Buy then unat (fill_consideration f) else 0)
       = cash_of l (fill_account_id f) + (if fill_side f = Buy then 0 else unat (fill_consideration f))"
    and inv: "\<And>i. unat (inventory_of acc i) + (if fill_side f \<noteq> Buy \<and> fill_instrument_id f = i then unat (fill_qty f) else 0)
       = stock_of i l (fill_account_id f) + (if fill_side f = Buy \<and> fill_instrument_id f = i then unat (fill_qty f) else 0)"
  have pos: "0 < unat (fill_qty f)" "0 < unat (fill_consideration f)"
    using assms(2,3) by (simp_all add: unat_gt_0)
  have "om_find l (fill_account_id f) \<noteq> None"
  proof
    assume "om_find l (fill_account_id f) = None"
    then have "cash_of l (fill_account_id f) = 0" "stock_of i l (fill_account_id f) = 0" for i
      by (simp_all add: cash_of_def stock_of_def)
    with cash inv [of "fill_instrument_id f"] pos show False by (cases "fill_side f = Buy") auto
  qed
  with l' show ?thesis by (auto simp: dom_def)
qed

lemma settle_known_accounts:
  assumes "loop_result apply_fill l fills = Ok l'"
    and "list_all (\<lambda>f. fill_qty f \<noteq> 0 \<and> fill_consideration f \<noteq> 0) fills"
  shows "dom (om_find l') = dom (om_find l)"
  using assms
proof (induction fills arbitrary: l)
  case (Cons f fills)
  then obtain l1 where "apply_fill l f = Ok l1" "loop_result apply_fill l1 fills = Ok l'"
    by (auto simp: result_simps)
  with Cons apply_fill_known_account [of l f l1] show ?case by simp
qed simp

section \<open>Conservation, without the circuit\<close>

definition high_cash :: "ledger \<Rightarrow> account_id \<Rightarrow> nat" where
  "high_cash l k = cash_of l k div 2 ^ 64"

lemma cash_of_less: "cash_of l k < 2 ^ 128"
proof -
  have "unat (c :: money) < 2 ^ 128" for c using unat_less_pow [of c] by simp
  then show ?thesis by (simp add: cash_of_def split: option.split)
qed

lemma cash_split: "(of_nat (cash_of l k) :: scalar) = of_nat (2 ^ 64) * of_nat (high_cash l k) + low_cash l k"
  unfolding low_cash_def high_cash_def of_nat_mult [symmetric] of_nat_add [symmetric] by simp

lemma of_nat_scalar_inject:
  "a < 2 ^ 128 \<Longrightarrow> b < 2 ^ 128 \<Longrightarrow> (of_nat a :: scalar) = of_nat b \<longleftrightarrow> a = b"
  by (simp add: of_nat_inverse word_of_nat_eq_iff take_bit_nat_eq_self)

lemma high_cash_scalar:
  "(of_nat (2 ^ 64) * of_nat (high_cash l k) :: scalar) = of_nat (2 ^ 64) * of_nat (high_cash l' k')
     \<longleftrightarrow> high_cash l k = high_cash l' k'"
proof -
  have le: "2 ^ 64 * high_cash l k < 2 ^ 128" for l k
  proof -
    have "2 ^ 64 * high_cash l k \<le> cash_of l k" by (simp add: high_cash_def)
    then show ?thesis using cash_of_less [of l k] by linarith
  qed
  show ?thesis
    unfolding of_nat_mult [symmetric] of_nat_scalar_inject [OF le le] by simp
qed

lemma account_moves_iff:
  assumes cash: "cash_of post k + paid True k fills = cash_of pre k + paid False k fills"
    and stock: "stock_of inst post k + moved False inst k fills = stock_of inst pre k + moved True inst k fills"
  shows "account_moves pre post fills inst k \<longleftrightarrow> high_cash post k = high_cash pre k"
proof -
  have "(of_nat (cash_of post k) :: scalar) + of_nat (paid True k fills) = of_nat (cash_of pre k) + of_nat (paid False k fills)"
    using cash by (metis of_nat_add)
  then have c: "of_nat (2 ^ 64) * of_nat (high_cash post k) + low_cash post k
      = of_nat (2 ^ 64) * of_nat (high_cash pre k) + (low_cash pre k - of_nat (paid True k fills) + of_nat (paid False k fills))"
    unfolding cash_split by (simp add: algebra_simps)
  have "(of_nat (stock_of inst post k) :: scalar) + of_nat (moved False inst k fills)
      = of_nat (stock_of inst pre k) + of_nat (moved True inst k fills)"
    using stock by (metis of_nat_add)
  then have s: "(of_nat (stock_of inst post k) :: scalar)
      = of_nat (stock_of inst pre k) + of_nat (moved True inst k fills) - of_nat (moved False inst k fills)"
    by (simp add: algebra_simps)
  have "low_cash post k = low_cash pre k - of_nat (paid True k fills) + of_nat (paid False k fills)
      \<longleftrightarrow> (of_nat (2 ^ 64) * of_nat (high_cash post k) :: scalar) = of_nat (2 ^ 64) * of_nat (high_cash pre k)"
    using c by (metis add_left_cancel add_right_cancel)
  then show ?thesis using s unfolding account_moves_def high_cash_scalar by simp
qed

lemma sum_entries_dom:
  "sum_list (map (\<lambda>(k, acc). g k) (om_entries l)) = (\<Sum>k\<in>dom (om_find l). g k)" for g :: "'k::linorder \<Rightarrow> 'c::comm_monoid_add"
  by (rule om.total_sum)

lemma cash_sum_dom: "cash_sum l = (\<Sum>k\<in>dom (om_find l). cash_of l k)"
  unfolding cash_sum_def om.total_sum by (rule sum.cong) (auto simp: cash_of_def)

lemma stock_sum_dom: "stock_sum inst l = (\<Sum>k\<in>dom (om_find l). stock_of inst l k)"
  unfolding stock_sum_def om.total_sum by (rule sum.cong) (auto simp: stock_of_def)

lemma low_cash_totals:
  assumes "dom (om_find post) = dom (om_find pre)" "cash_sum post = cash_sum pre"
    and "\<And>k. k \<in> dom (om_find pre) \<Longrightarrow> high_cash post k = high_cash pre k"
  shows "(\<Sum>k\<in>dom (om_find pre). low_cash post k) = (\<Sum>k\<in>dom (om_find pre). low_cash pre k)"
proof -
  let ?D = "dom (om_find pre)"
  have split: "(of_nat (\<Sum>k\<in>?D. cash_of l k) :: scalar)
      = (\<Sum>k\<in>?D. of_nat (2 ^ 64) * of_nat (high_cash l k)) + (\<Sum>k\<in>?D. low_cash l k)" for l
    unfolding of_nat_sum sum.distrib [symmetric] by (rule sum.cong [OF refl cash_split])
  have "(\<Sum>k\<in>?D. cash_of post k) = (\<Sum>k\<in>?D. cash_of pre k)"
    using assms(1,2) by (simp add: cash_sum_dom)
  then have "(\<Sum>k\<in>?D. of_nat (2 ^ 64) * of_nat (high_cash post k)) + (\<Sum>k\<in>?D. low_cash post k)
      = (\<Sum>k\<in>?D. of_nat (2 ^ 64) * of_nat (high_cash pre k)) + (\<Sum>k\<in>?D. low_cash pre k)"
    unfolding split [symmetric] by simp
  moreover have "(\<Sum>k\<in>?D. of_nat (2 ^ 64) * of_nat (high_cash post k) :: scalar)
      = (\<Sum>k\<in>?D. of_nat (2 ^ 64) * of_nat (high_cash pre k))"
    using assms(3) by (intro sum.cong) auto
  ultimately show ?thesis by simp
qed

lemma conservation_meaning:
  assumes "list_all fill_fits fills" "list_all (\<lambda>f. fill_instrument_id f = inst) fills"
    and "synthesize_conservation pre post fills inst s = Ok s'"
    and dom: "dom (om_find post) = dom (om_find pre)"
    and sums: "cash_sum post = cash_sum pre" "stock_sum inst post = stock_sum inst pre"
    and cash: "\<And>k. cash_of post k + paid True k fills = cash_of pre k + paid False k fills"
    and stock: "\<And>k. stock_of inst post k + moved False inst k fills = stock_of inst pre k + moved True inst k fills"
    and "placed W base s'"
  shows "placed W base s \<and> (satisfies pub W s' \<longleftrightarrow> satisfies pub W s
    \<and> list_all (\<lambda>k. high_cash post k = high_cash pre k) (om_keys pre))"
proof -
  have keys: "set (om_keys pre) = dom (om_find pre)" by (simp add: om_keys_def om.keys_dom [simplified])
  have moves: "list_all (\<lambda>(k, acc). account_moves pre post fills inst k) (om_entries pre)
      \<longleftrightarrow> list_all (\<lambda>k. high_cash post k = high_cash pre k) (om_keys pre)"
    by (simp add: om_keys_def list_all_iff account_moves_iff [OF cash stock] case_prod_unfold)
  have "(\<Sum>k\<in>dom (om_find pre). of_nat (stock_of inst pre k) :: scalar) = (\<Sum>k\<in>dom (om_find pre). of_nat (stock_of inst post k))"
    using sums(2) dom by (simp add: stock_sum_dom flip: of_nat_sum)
  moreover have "(\<Sum>k\<in>dom (om_find pre). low_cash pre k) = (\<Sum>k\<in>dom (om_find pre). low_cash post k)"
    if "list_all (\<lambda>k. high_cash post k = high_cash pre k) (om_keys pre)"
    using that keys low_cash_totals [OF dom sums(1)] by (auto simp: list_all_iff)
  ultimately show ?thesis
    using conservation_circuit(2) [OF assms(1-3) assms(9), of pub] moves
    by (auto simp: sum_entries_dom)
qed

section \<open>Oracle freshness\<close>

lemma oracle_Ok_iff:
  "is_ok (synthesize_oracle_freshness inst t cp policy (Some snap) s)
     \<longleftrightarrow> is_ok (validate_reference_price_snapshot policy snap inst t (Some cp))"
  by (cases "validate_reference_price_snapshot policy snap inst t (Some cp)")
     (auto simp: synthesize_oracle_freshness_def constraint_error_def Let_def alloc_scalar_push)

lemma oracle_meaning:
  assumes "synthesize_oracle_freshness inst t cp policy (Some snap) s = Ok s'"
    and "placed W base s'"
  shows "placed W base s \<and> (satisfies pub W s' \<longleftrightarrow> satisfies pub W s)"
proof -
  have v: "validate_reference_price_snapshot policy snap inst t (Some cp) = Ok ()"
    using assms(1) by (cases "validate_reference_price_snapshot policy snap inst t (Some cp)")
      (auto simp: synthesize_oracle_freshness_def constraint_error_def)
  let ?age = "t - snap_timestamp snap"
  let ?diff = "if snap_price snap < cp then cp - snap_price snap else snap_price snap - cp"
  from v have age: "snap_timestamp snap \<le> t" "?age \<le> pol_max_staleness policy"
    and diff: "?diff \<le> pol_max_deviation policy"
    by (auto simp: validate_reference_price_snapshot_def validate_freshness_def validate_collar_def Let_def
        result_simps not_less le_less split: if_splits)
  have age_eq: "(if snap_timestamp snap < t then t - snap_timestamp snap else 0) = ?age"
    using age(1) by auto
  show ?thesis
    using assms v rest_slack [OF age(1)] rest_slack [OF age(2)] rest_slack [OF diff]
    by (auto simp: synthesize_oracle_freshness_def Let_def alloc_scalar_push age_eq synth lc_eval scalar_at_nth)
qed

end
