(* ===== verification/Input_Binding.thy ===== *)
theory Input_Binding
  imports Prover_Correct
begin

text \<open>
  What the binding of the inputs demands (\<open>prover.cpp\<close>, steps 1 and 2): the preimages are the orders
  of the batch at their positions, the header hash is that of the reconstructed header, and the
  accounting records are, up to their order, one per leaf.
\<close>

section \<open>The leaves\<close>

lemma bind_leaves_Ok:
  "length ps = length orders \<Longrightarrow>
   loop_result bind_leaf leaves (zip ps orders) = Ok leaves'
     \<longleftrightarrow> map pre_order ps = orders \<and> leaves' = leaves @ map commit_order ps"
proof (induction ps orders arbitrary: leaves rule: list_induct2)
  case (Cons p ps o1 orders)
  then show ?case by (auto simp: bind_leaf_def result_simps)
qed auto

section \<open>The records\<close>

lemma file_records_Ok:
  assumes "length slots = n"
  shows "loop_result (file_record n) slots recs = Ok slots' \<longleftrightarrow>
     distinct (map rec_leaf_index recs)
     \<and> (\<forall>r\<in>set recs. rec_leaf_index r < n \<and> slots ! rec_leaf_index r = None)
     \<and> slots' = foldl (\<lambda>s r. s[rec_leaf_index r := Some r]) slots recs"
  using assms
proof (induction recs arbitrary: slots)
  case (Cons r recs)
  show ?case
  proof (cases "rec_leaf_index r < n \<and> slots ! rec_leaf_index r = None")
    case True
    then have "file_record n slots r = Ok (slots[rec_leaf_index r := Some r])"
      by (simp add: file_record_def)
    then show ?thesis
      using True Cons.prems Cons.IH [of "slots[rec_leaf_index r := Some r]"]
      by (auto simp: nth_list_update)
  next
    case False
    then show ?thesis by (auto simp: file_record_def not_less reject_if_def)
  qed
qed auto

lemma filed_record:
  assumes "distinct (map rec_leaf_index recs)" "i < length slots"
  shows "foldl (\<lambda>s r. s[rec_leaf_index r := Some r]) slots recs ! i =
    (case find (\<lambda>r. rec_leaf_index r = i) recs of Some r \<Rightarrow> Some r | None \<Rightarrow> slots ! i)"
  using assms
proof (induction recs arbitrary: slots)
  case (Cons r recs)
  show ?case
  proof (cases "rec_leaf_index r = i")
    case True
    then have "find (\<lambda>r. rec_leaf_index r = i) recs = None"
      using Cons.prems(1) by (auto simp: find_None_iff) (metis image_eqI)
    with True Cons show ?thesis by simp
  next
    case False
    with Cons show ?thesis by (simp add: nth_list_update split: option.split)
  qed
qed simp

lemma check_slots_Ok:
  "loop_result (check_slot orders leaves slots) rs is = Ok rs' \<longleftrightarrow>
     (\<forall>i\<in>set is. \<exists>r. slots ! i = Some r \<and> rec_order_id r = ord_id (orders ! i) \<and> rec_commitment r = leaves ! i)
     \<and> rs' = rs @ map (\<lambda>i. the (slots ! i)) is"
proof (induction "is" arbitrary: rs)
  case (Cons i "is")
  then show ?case by (auto simp: check_slot_def result_simps split: option.splits)
qed auto

text \<open>The canonical records are the given ones, rearranged so that each lies at its leaf index.\<close>

lemma bind_records_Ok:
  assumes "length recs = n" "length orders = n" "length leaves = n"
  shows "and_then (loop_result (file_record n) (replicate n None) recs)
      (\<lambda>slots. loop_result (check_slot orders leaves slots) [] [0..<n]) = Ok rs
    \<longleftrightarrow> mset rs = mset recs \<and> map rec_leaf_index rs = [0..<n]
      \<and> map rec_order_id rs = map ord_id orders \<and> map rec_commitment rs = leaves" (is "?l \<longleftrightarrow> ?r")
proof
  assume ?l
  then obtain slots where dis: "distinct (map rec_leaf_index recs)" and less: "\<forall>r\<in>set recs. rec_leaf_index r < n"
    and slots: "slots = foldl (\<lambda>s r. s[rec_leaf_index r := Some r]) (replicate n None) recs"
    and each: "\<forall>i<n. \<exists>r. slots ! i = Some r \<and> rec_order_id r = ord_id (orders ! i) \<and> rec_commitment r = leaves ! i"
    and rs: "rs = map (\<lambda>i. the (slots ! i)) [0..<n]"
    by (auto simp: and_then_Ok_iff file_records_Ok check_slots_Ok)
  have slot: "slots ! i = find (\<lambda>r. rec_leaf_index r = i) recs" if "i < n" for i
    using filed_record [OF dis, of i "replicate n None"] that by (simp add: slots split: option.split)
  have at: "rs ! i \<in> set recs \<and> rec_leaf_index (rs ! i) = i \<and> rec_order_id (rs ! i) = ord_id (orders ! i)
      \<and> rec_commitment (rs ! i) = leaves ! i" if "i < n" for i
  proof -
    note less = \<open>i < n\<close>
    moreover from this obtain r where "slots ! i = Some r" "rec_order_id r = ord_id (orders ! i)" "rec_commitment r = leaves ! i"
      using each by auto
    moreover from this less have "rs ! i = r" by (simp add: rs)
    ultimately show ?thesis using slot [of i] by (auto simp: find_Some_iff)
  qed
  have idx: "map rec_leaf_index rs = [0..<n]"
    by (rule nth_equalityI) (use at in \<open>auto simp: rs\<close>)
  have drs: "distinct rs" using idx by (metis distinct_map distinct_upt)
  have "set rs \<subseteq> set recs" using at by (auto simp: in_set_conv_nth rs)
  moreover have "card (set rs) = card (set recs)"
    using drs dis assms(1) idx by (simp add: distinct_card distinct_map) (metis length_map length_upt minus_nat.diff_0)
  ultimately have "set rs = set recs" by (simp add: card_subset_eq)
  then have "mset rs = mset recs" using drs dis by (simp add: set_eq_iff_mset_eq_distinct distinct_map)
  moreover have "map rec_order_id rs = map ord_id orders" "map rec_commitment rs = leaves"
    by (rule nth_equalityI; use at assms in \<open>auto simp: rs\<close>)+
  ultimately show ?r using idx by blast
next
  assume r: ?r
  have dis: "distinct (map rec_leaf_index recs)" and "set recs = set rs"
    using r by (metis distinct_upt mset_eq_imp_distinct_iff mset_map) (metis r set_mset_mset)
  have len: "length rs = n" using r by (metis length_map length_upt minus_nat.diff_0)
  have at: "rec_leaf_index (rs ! i) = i \<and> rec_order_id (rs ! i) = ord_id (orders ! i) \<and> rec_commitment (rs ! i) = leaves ! i
      \<and> rs ! i \<in> set recs" if "i < n" for i
  proof -
    have "map rec_leaf_index rs ! i = [0..<n] ! i" "map rec_order_id rs ! i = map ord_id orders ! i"
      "map rec_commitment rs ! i = leaves ! i" using r by simp_all
    then show ?thesis using that len assms \<open>set recs = set rs\<close> by simp
  qed
  let ?slots = "foldl (\<lambda>s r. s[rec_leaf_index r := Some r]) (replicate n None) recs"
  have slot: "?slots ! i = Some (rs ! i)" if "i < n" for i
    using filed_record [OF dis, of i "replicate n None"] find_unique [OF dis, of "rs ! i"] at [OF that] that by simp
  have "rec_leaf_index r < n" if "r \<in> set recs" for r
    using that \<open>set recs = set rs\<close> at len by (auto simp: in_set_conv_nth)
  then have "loop_result (file_record n) (replicate n None) recs = Ok ?slots"
    using dis by (simp add: file_records_Ok)
  moreover have "rs = map (\<lambda>i. the (?slots ! i)) [0..<n]"
    by (rule nth_equalityI) (auto simp: slot len)
  moreover have "\<forall>i\<in>set [0..<n]. \<exists>r. ?slots ! i = Some r \<and> rec_order_id r = ord_id (orders ! i) \<and> rec_commitment r = leaves ! i"
    using at by (simp add: slot)
  ultimately show ?l unfolding and_then_Ok_iff check_slots_Ok by auto
qed

section \<open>The whole binding\<close>

definition well_bound ::
  "batch_proof_public_inputs \<Rightarrow> batch_proof_witness \<Rightarrow> order_accounting_record list \<Rightarrow> bool" where
  "well_bound pub w rs \<longleftrightarrow>
     map pre_order (bw_preimages w) = bat_orders (bw_batch w)
   \<and> length (bat_orders (bw_batch w)) < 2 ^ 32
   \<and> compute_batch_commitment (reconstructed_header w (new_merkle_tree (map commit_order (bw_preimages w))))
       = pi_batch_header_hash pub
   \<and> mset rs = mset (cia_records (bw_accounting w))
   \<and> map rec_leaf_index rs = [0..<length (bat_orders (bw_batch w))]
   \<and> map rec_order_id rs = map ord_id (bat_orders (bw_batch w))
   \<and> map rec_commitment rs = map commit_order (bw_preimages w)"

lemma bind_inputs_Ok:
  "bind_inputs pub w = Ok (tree, acc) \<longleftrightarrow>
     tree = new_merkle_tree (map commit_order (bw_preimages w))
   \<and> (\<exists>rs. acc = (bw_accounting w)\<lparr>cia_records := rs\<rparr> \<and> well_bound pub w rs)" (is "?l \<longleftrightarrow> ?r")
proof -
  let ?n = "length (bat_orders (bw_batch w))" and ?leaves = "map commit_order (bw_preimages w)"
  have max: "unat (max_raw :: u32) < ?n \<longleftrightarrow> \<not> ?n < 2 ^ 32" by (simp add: unat_max_raw) linarith
  show ?thesis
  proof (cases "length (bw_preimages w) = ?n \<and> length (cia_records (bw_accounting w)) = ?n")
    case False
    have "\<not> ?l" using False by (auto simp: bind_inputs_def Let_def result_simps)
    moreover have "\<not> ?r" using False unfolding well_bound_def by (metis length_map length_upt minus_nat.diff_0 size_mset)
    ultimately show ?thesis by blast
  next
    case True
    note recs = bind_records_Ok [of "cia_records (bw_accounting w)" ?n "bat_orders (bw_batch w)" ?leaves, OF conjunct2 [OF True] refl]
    have "?l \<longleftrightarrow> map pre_order (bw_preimages w) = bat_orders (bw_batch w) \<and> ?n < 2 ^ 32
       \<and> compute_batch_commitment (reconstructed_header w (new_merkle_tree ?leaves)) = pi_batch_header_hash pub
       \<and> (\<exists>rs. and_then (loop_result (file_record ?n) (replicate ?n None) (cia_records (bw_accounting w)))
            (\<lambda>slots. loop_result (check_slot (bat_orders (bw_batch w)) ?leaves slots) [] [0..<?n]) = Ok rs
            \<and> tree = new_merkle_tree ?leaves \<and> acc = (bw_accounting w)\<lparr>cia_records := rs\<rparr>)"
      using True unfolding bind_inputs_def Let_def max
      by (auto simp: reject_if_Ok_iff and_then_Ok_iff bind_leaves_Ok)
    then show ?thesis using True by (auto simp: recs well_bound_def)
  qed
qed

end
