(* ===== verification/Statement.thy ===== *)
theory Statement
  imports Input_Binding
begin

text \<open>
  The composed statement (\<open>prover.cpp\<close>, steps 3 to 6): the witness of the prover is the concatenation of
  the scalars of the subrelations, so every variable of the composed system finds the scalar it was
  allocated with; the system is satisfied exactly when the circuit's own three conditions hold.
\<close>

section \<open>Variables and scalars stay in step\<close>

definition gap :: "synthesis \<Rightarrow> int" where
  "gap s = int (next_var s) - int (length (snd s))"

lemma gap_simps [synth]:
  "gap (push_scalar v s) = gap s"
  "gap (enforce_in a b c l s) = gap s"
  "gap (enforce_equal_in lc1 lc2 l s) = gap s"
  "gap (snd (alloc_public cs), sc) = gap (cs, sc)"
  by (simp_all add: gap_def synth) (simp_all add: push_scalar_def enforce_in_def enforce_equal_in_def
      alloc_public_def next_var_def split_beta)

lemma gap_foldl:
  "(\<And>s x. gap (p (step s x)) = gap (p s)) \<Longrightarrow> gap (p (foldl step s xs)) = gap (p s)"
  by (induction xs arbitrary: s) auto

lemma order_validity_gap: "gap (snd (synthesize_order_validity inst orders s)) = gap s"
proof -
  have "gap (snd (synthesize_order inst io s)) = gap s" for io s
    by (cases io) (simp add: synthesize_order_def Let_def alloc_scalar_push synth)
  then show ?thesis
    unfolding synthesize_order_validity_def by (subst gap_foldl [where p = snd]) (auto simp: split_beta)
qed

lemma merkle_inclusion_gap:
  "synthesize_merkle_inclusion v root leaf p s = Ok s' \<Longrightarrow> gap s' = gap s"
  by (auto simp: synthesize_merkle_inclusion_def constraint_error_def Let_def alloc_scalar_push synth split: if_splits)

lemma record_gap:
  "synthesize_record v preimages tree alloc (s, lc) ir = Ok (s', lc') \<Longrightarrow> gap s' = gap s"
  by (cases ir) (auto simp: synthesize_record_def Let_def alloc_scalar_push constraint_error_def and_then_Ok_iff
      synth dest!: merkle_inclusion_gap split: option.splits if_splits)

lemma accounting_gap:
  assumes "synthesize_complete_input_accounting b preimages tree acc alloc s = Ok s'"
  shows "gap s' = gap s"
proof -
  let ?s0 = "(snd (alloc_public (snd (alloc_public (fst s)))), snd s)"
  obtain v s1 lc l1 lc2 lbl where loop: "loop_result (synthesize_record v preimages tree alloc) (?s0, lc_zero)
      (enumerate 0 (cia_records acc)) = Ok (s1, lc)" and s': "s' = enforce_equal_in lc lc2 lbl s1"
    using assms
    by (auto simp: synthesize_complete_input_accounting_def constraint_error_def Let_def split_beta and_then_Ok_iff
        split: result.splits if_splits)
  have "gap (fst (s1, lc)) = gap (fst (?s0, lc_zero))"
    by (rule loop_keeps [OF _ loop, where p = "\<lambda>x. gap (fst x)"]) (auto dest: record_gap)
  then show ?thesis by (simp add: s' synth)
qed

lemma candidate_gap: "synthesize_candidate orders v vol s p = Ok s' \<Longrightarrow> gap s' = gap s"
  by (auto simp: synthesize_candidate_def or_fail_Ok_iff Let_def alloc_scalar_push synth)

lemma clearing_gap:
  assumes "synthesize_clearing_optimality b cp vol s = Ok (m, s')"
  shows "gap s' = gap s"
proof -
  let ?s0 = "(snd (alloc_public (snd (alloc_public (fst s)))), snd s)"
  obtain v s1 where loop: "loop_result (synthesize_candidate (bat_orders b) v vol) ?s0
      (candidate_prices_from_orders (bat_orders b)) = Ok s1" and s': "gap s' = gap s1"
    using assms
    by (auto simp: synthesize_clearing_optimality_def constraint_error_def Let_def split_beta and_then_Ok_iff
        or_fail_Ok_iff alloc_scalar_push synth split: result.splits if_splits)
  have "gap s1 = gap ?s0"
    by (rule loop_keeps [OF _ loop]) (rule candidate_gap)
  then show ?thesis by (simp add: s' synth)
qed

lemma order_allocation_gap:
  "synthesize_order_allocation orders cp (s, bl, sl) a = Ok (s', bl', sl') \<Longrightarrow> gap s' = gap s"
  by (auto simp: synthesize_order_allocation_def constraint_error_def Let_def alloc_scalar_push synth
      split: option.splits order_moneyness.splits)

lemma allocation_gap:
  assumes "synthesize_allocation b cp vol alloc s = Ok s'"
  shows "gap s' = gap s"
proof -
  let ?s0 = "(snd (alloc_public (fst s)), snd s)"
  obtain s1 bl sl where loop: "loop_result (synthesize_order_allocation (bat_orders b) cp) (?s0, lc_zero, lc_zero)
      (ba_allocations alloc) = Ok (s1, bl, sl)" and s': "gap s' = gap s1"
    using assms
    by (auto simp: synthesize_allocation_def constraint_error_def Let_def split_beta and_then_Ok_iff
        or_fail_Ok_iff synth split: if_splits)
  have "gap (fst (s1, bl, sl)) = gap (fst (?s0, lc_zero, lc_zero))"
    by (rule loop_keeps [OF _ loop, where p = "\<lambda>x. gap (fst x)"])
       (metis order_allocation_gap prod.collapse)
  then show ?thesis by (simp add: s' synth)
qed

lemma fill_gap: "synthesize_fill cp v orders s f = Ok s' \<Longrightarrow> gap s' = gap s"
  by (auto simp: synthesize_fill_def constraint_error_def Let_def alloc_scalar_push synth
      split: option.splits if_splits)

lemma fill_bounds_gap:
  assumes "synthesize_fill_bounds cp orders fills s = Ok s'"
  shows "gap s' = gap s"
proof -
  have loop: "loop_result (synthesize_fill cp (witness_var (next_var s)) orders) (push_scalar cp s) fills = Ok s'"
    using assms by (simp add: synthesize_fill_bounds_def alloc_scalar_push)
  have "gap s' = gap (push_scalar cp s)"
    by (rule loop_keeps [OF _ loop]) (rule fill_gap)
  then show ?thesis by (simp add: synth)
qed

lemma account_gap: "gap (fst (synthesize_account post fills inst (s, t) e)) = gap s"
proof -
  obtain k acc where e: "e = (k, acc)" by (cases e)
  have "gap (fst (synthesize_account_fill k x f)) = gap (fst x)" for x f
    by (cases x) (simp add: synthesize_account_fill_def Let_def alloc_scalar_push synth)
  then have "gap (fst (foldl (synthesize_account_fill k) (s, cl, il) fills)) = gap s" for s cl il
    using gap_foldl [where p = fst and step = "synthesize_account_fill k"] by (metis fst_conv)
  then show ?thesis
    by (simp add: e synthesize_account_def Let_def alloc_scalar_push split_beta synth)
qed

lemma conservation_gap:
  assumes "synthesize_conservation pre post fills inst s = Ok s'"
  shows "gap s' = gap s"
proof -
  have "gap (fst (foldl (synthesize_account post fills inst) (s, t) es)) = gap s" for t es
    using gap_foldl [where p = fst and step = "synthesize_account post fills inst"] account_gap
    by (metis fst_conv prod.collapse)
  then show ?thesis using assms by (auto simp: synthesize_conservation_def split_beta synth)
qed

lemma oracle_gap:
  "synthesize_oracle_freshness inst t cp policy snap s = Ok s' \<Longrightarrow> gap s' = gap s"
  by (auto simp: synthesize_oracle_freshness_def constraint_error_def Let_def alloc_scalar_push synth
      split: option.splits result.splits)

section \<open>Composing the subrelations\<close>

text \<open>
  \<open>extends pub C s s'\<close>: the synthesis \<open>s'\<close> continues \<open>s\<close>, and its constraints add exactly the condition
  \<open>C\<close> when the witness is the one its scalars make.
\<close>

definition extends :: "u64 list \<Rightarrow> (u64 list \<Rightarrow> bool) \<Rightarrow> synthesis \<Rightarrow> synthesis \<Rightarrow> bool" where
  "extends pub C s s' \<longleftrightarrow> gap s' = gap s
     \<and> (\<forall>W base. placed W base s' \<longrightarrow> placed W base s \<and> (satisfies pub W s' \<longleftrightarrow> satisfies pub W s \<and> C W))"

lemma extends_refl: "extends pub (\<lambda>W. True) s s"
  by (simp add: extends_def)

lemma extends_parts:
  assumes "extends pub C1 (cs, []) (cs1, w1)" "extends pub C2 (cs1, []) (cs2, w2)"
  shows "extends pub (\<lambda>W. C1 W \<and> C2 W) (cs, []) (cs2, w1 @ w2)"
proof -
  have "gap (cs2, w1 @ w2) = gap (cs, [])"
    using assms by (simp add: extends_def gap_def next_var_def)
  moreover have "placed W base (cs, []) \<and> (satisfies pub W (cs2, w1 @ w2) \<longleftrightarrow> satisfies pub W (cs, []) \<and> C1 W \<and> C2 W)"
    if "placed W base (cs2, w1 @ w2)" for W base
  proof -
    have "placed W (base @ w1) (cs2, w2)" using that by (simp add: placed_def)
    then have 2: "placed W (base @ w1) (cs1, []) \<and> (satisfies pub W (cs2, w2) \<longleftrightarrow> satisfies pub W (cs1, []) \<and> C2 W)"
      using assms(2) unfolding extends_def by blast
    then have "placed W base (cs1, w1)" using placed_next_part [of W base cs1 w1] by blast
    then have "placed W base (cs, []) \<and> (satisfies pub W (cs1, w1) \<longleftrightarrow> satisfies pub W (cs, []) \<and> C1 W)"
      using assms(1) unfolding extends_def by blast
    with 2 show ?thesis unfolding satisfies_part by blast
  qed
  ultimately show ?thesis by (simp add: extends_def)
qed

text \<open>The witness of the prover: all the scalars, and nothing else.\<close>

lemma extends_whole:
  assumes "extends pub C (new_constraint_system, []) (cs, W)"
  shows "list_all (holds pub W) (cs_constraints cs) \<longleftrightarrow> C W"
proof -
  have "gap (cs, W) = 0" using assms by (simp add: extends_def gap_def next_var_def new_constraint_system_def)
  then have "placed W [] (cs, W)" by (simp add: placed_def gap_def next_var_def)
  moreover have "satisfies pub W (new_constraint_system, [])" by (simp add: new_constraint_system_def)
  ultimately show ?thesis using assms by (simp add: extends_def)
qed

lemma extendsI:
  assumes "gap s' = gap s"
    and "\<And>W base. placed W base s' \<Longrightarrow> placed W base s \<and> (satisfies pub W s' \<longleftrightarrow> satisfies pub W s \<and> C W)"
  shows "extends pub C s s'"
  using assms by (simp add: extends_def)

section \<open>Accounting agrees with the allocation\<close>

lemma allocated_to_order:
  assumes "distinct (map ord_id orders)" "ba_allocations alloc = map (\<lambda>o1. allocation_of o1 (q o1)) orders"
    and "o1 \<in> set orders"
  shows "allocated_to (allocation_quantities alloc) (ord_id o1) = q o1"
proof -
  have "om_find (foldl (\<lambda>m a. om_assign (al_order_id a) (al_allocated_qty a) m) om_empty
      (map (\<lambda>o1. allocation_of o1 (q o1)) orders)) (ord_id o1) = Some (q o1)"
    using assms(1,3)
  proof (induction orders rule: rev_induct)
    case (snoc o2 orders)
    then show ?case by (auto simp: image_iff)
  qed simp
  then show ?thesis by (simp add: allocated_to_def allocation_quantities_def assms(2))
qed

lemma implied_disposition_eq:
  "q \<le> ord_qty o1 \<Longrightarrow> ord_qty o1 \<noteq> 0 \<Longrightarrow>
   implied_disposition (allocation_of o1 q) = disposition_of q (ord_qty o1)"
  by (auto simp: implied_disposition_def disposition_of_def)

lemma accounting_synthesis_Ok:
  assumes wf: "wf_batch b" and tree: "tree = new_merkle_tree (map commit_order ps)"
    and ps: "map pre_order ps = bat_orders b"
    and idx: "map rec_leaf_index (cia_records acc) = [0..<length (bat_orders b)]"
    and ids: "map rec_order_id (cia_records acc) = map ord_id (bat_orders b)"
    and alloc: "ba_allocations alloc = map (\<lambda>o1. allocation_of o1 (q o1)) (bat_orders b)"
    and le: "\<And>o1. o1 \<in> set (bat_orders b) \<Longrightarrow> q o1 \<le> ord_qty o1"
    and v: "verify_complete_input_accounting b tree acc alloc = Ok ()"
  shows "\<exists>s'. synthesize_complete_input_accounting b ps tree acc alloc s = Ok s'"
proof -
  let ?o = "bat_orders b" and ?rs = "cia_records acc"
  have d: "distinct (map ord_id ?o)" using wf by (simp add: wf_batch_def)
  have len: "length ?rs = length ?o" using idx by (metis length_map length_upt minus_nat.diff_0)
  have lp: "length ps = length ?o" using ps by (metis length_map)
  have each: "\<exists>t'. synthesize_record v ps tree alloc t ir = Ok t'" if mem: "ir \<in> set (enumerate 0 ?rs)" for ir t v
  proof -
    obtain i where i: "i < length ?o" and ir: "ir = (i, ?rs ! i)"
      using mem len by (auto simp: in_set_enumerate_eq)
    have r: "rec_leaf_index (?rs ! i) = i" "rec_order_id (?rs ! i) = ord_id (?o ! i)"
      using arg_cong [OF idx, of "\<lambda>xs. xs ! i"] arg_cong [OF ids, of "\<lambda>xs. xs ! i"] i len by simp_all
    have o: "?o ! i \<in> set ?o" "ord_qty (?o ! i) \<noteq> 0"
      using i wf_batch_orderD [OF wf, of "?o ! i"] by (auto simp: wf_order_def)
    have rec: "record_ok tree (order_index ?o) (allocation_quantities alloc) (?rs ! i)"
      using v i len by (simp add: verify_accounting_Ok list_all_length)
    have gp: "generate_proof tree i = Some \<lparr>mp_leaf_index = i, mp_path = proof_path i (mt_layers tree)\<rparr>"
      using i lp by (simp add: tree generate_proof_def leaf_count_def) (simp add: new_merkle_tree_def)
    have "i < leaf_count tree" using i lp by (simp add: tree new_merkle_tree_def leaf_count_def)
    moreover have "merkle_verify \<lparr>mp_leaf_index = i, mp_path = proof_path i (mt_layers tree)\<rparr> (merkle_root tree)
        (commit_order (ps ! i))"
      using generated_proof_verifies [of i "map commit_order ps"] gp i lp by (simp add: tree)
    moreover have "find (\<lambda>a. al_order_id a = rec_order_id (?rs ! i)) (ba_allocations alloc)
        = Some (allocation_of (?o ! i) (q (?o ! i)))"
      using find_unique [of al_order_id "ba_allocations alloc" "allocation_of (?o ! i) (q (?o ! i))"] d o(1)
      by (simp add: alloc r comp_def)
    moreover have "rec_disposition (?rs ! i) = implied_disposition (allocation_of (?o ! i) (q (?o ! i)))"
      using rec o implied_disposition_eq [OF le [OF o(1)] o(2)] allocated_to_order [OF d alloc o(1)]
      by (auto simp: record_ok_def r find_order_index [OF d]) (metis d find_unique option.inject)
    ultimately show ?thesis unfolding ir by (rule synthesize_record_Ok)
  qed
  let ?cs1 = "alloc_public (fst s)" and ?cs2 = "alloc_public (snd (alloc_public (fst s)))"
  obtain s1 lc where "loop_result (synthesize_record (fst ?cs2) ps tree alloc) ((snd ?cs2, snd s), lc_zero)
      (enumerate 0 ?rs) = Ok (s1, lc)"
    using loop_total [of "enumerate 0 ?rs" "synthesize_record (fst ?cs2) ps tree alloc"
        "((snd ?cs2, snd s), lc_zero)", OF each] by auto
  then show ?thesis
    by (simp add: synthesize_complete_input_accounting_def v len Let_def split_beta)
qed

section \<open>Conservation, whatever the fills\<close>

definition grows :: "synthesis \<Rightarrow> synthesis \<Rightarrow> bool" where
  "grows s s' \<longleftrightarrow> (\<forall>W base. placed W base s' \<longrightarrow> placed W base s) \<and> (\<forall>pub W. satisfies pub W s' \<longrightarrow> satisfies pub W s)"

lemma grows_rules:
  "grows s s" "grows s t \<Longrightarrow> grows s (push_scalar v t)" "grows s t \<Longrightarrow> grows s (enforce_equal_in a b l t)"
  by (auto simp: grows_def synth)

lemma grows_trans: "grows s t \<Longrightarrow> grows t u \<Longrightarrow> grows s u"
  by (auto simp: grows_def)

lemma grows_foldl:
  "(\<And>s x. grows (p s) (p (step s x))) \<Longrightarrow> grows (p s) (p (foldl step s xs))"
  by (induction xs arbitrary: s) (auto intro: grows_rules grows_trans)

lemma account_grows: "grows s (fst (synthesize_account post fills inst (s, t) e))"
proof -
  obtain k acc where e: "e = (k, acc)" by (cases e)
  have "grows (fst x) (fst (synthesize_account_fill k x f))" for x f
    by (cases x) (simp add: synthesize_account_fill_def Let_def alloc_scalar_push grows_rules)
  from grows_foldl [where p = fst and step = "synthesize_account_fill k", OF this]
  have fills: "grows u (fst (foldl (synthesize_account_fill k) (s4, x) fills))" if "grows u s4" for u s4 x
    using grows_trans [OF that] by (metis fst_conv)
  show ?thesis
    by (simp add: e synthesize_account_def Let_def alloc_scalar_push split_beta grows_rules fills)
qed

lemma conservation_grows:
  assumes "synthesize_conservation pre post fills inst s = Ok s'"
  shows "grows s s'"
proof -
  have "grows (fst (s, t)) (fst (foldl (synthesize_account post fills inst) (s, t) es))" for t es
    by (rule grows_foldl) (metis account_grows prod.collapse)
  then show ?thesis
    using assms by (auto simp: synthesize_conservation_def split_beta intro!: grows_rules)
qed

section \<open>What a verified transition says of the ledgers\<close>

lemma batch_fills_positive:
  assumes "wf_batch b" "batch_stages b out alloc fills" "out_price out \<noteq> Some 0"
  shows "list_all (\<lambda>f. fill_qty f \<noteq> 0 \<and> fill_consideration f \<noteq> 0) fills"
  using assms(1,2)
proof (cases rule: batch_stages_cases)
  case 1
  then show ?thesis by simp
next
  case (2 cp)
  have "fill_qty f \<noteq> 0 \<and> fill_consideration f \<noteq> 0" if mem: "f \<in> set fills" for f
  proof -
    obtain o1 where "fill_consideration f = ucast cp * ucast (fill_qty f)" "fill_qty f \<noteq> 0"
      using canonical_fill_order [OF 2(2), of f "bat_instrument b" 0] mem unfolding 2(3,4) by blast
    moreover have "unat (ucast cp * ucast (fill_qty f) :: money) = unat cp * unat (fill_qty f)"
      by (rule unat_price_times_qty)
    moreover have "unat cp \<noteq> 0" using assms(3) 2(1) by (simp add: unat_eq_0)
    ultimately show ?thesis by (auto simp: unat_eq_0 word_unat_eq_iff [of "fill_consideration f"])
  qed
  then show ?thesis by (simp add: list_all_iff)
qed

text \<open>Only accounts that the ledger has can trade, and no account appears.\<close>

lemma known_accounts:
  assumes "wf_batch b" "execute_batch l b = Ok e"
  shows "fill_account_id ` set (res_fills e) \<subseteq> dom (om_find l)" "dom (om_find (res_post_state e)) = dom (om_find l)"
proof -
  have st: "batch_stages b (res_outcome e) (res_allocation e) (res_fills e)"
    and ap: "loop_result apply_fill l (res_fills e) = Ok (res_post_state e)"
    using assms(2) by (auto simp: execute_batch_Ok_iff apply_batch_transition_Ok_iff)
  have "out_price (res_outcome e) \<noteq> Some 0"
    using clearing_price_nonzero [OF assms(1)] st by (simp add: batch_stages_def)
  from settle_known_accounts [OF ap batch_fills_positive [OF assms(1) st this]]
  show dom: "dom (om_find (res_post_state e)) = dom (om_find l)" .
  show "fill_account_id ` set (res_fills e) \<subseteq> dom (om_find l)"
    unfolding dom [symmetric] using settle_accounts [OF ap] by blast
qed

lemma verified_settlement:
  assumes wf: "wf_batch b" and v: "verify_transition pre b r = Ok ()" and cp: "out_price (res_outcome r) \<noteq> Some 0"
  shows "dom (om_find (res_post_state r)) = dom (om_find pre)"
    and "cash_sum (res_post_state r) = cash_sum pre"
    and "stock_sum (bat_instrument b) (res_post_state r) = stock_sum (bat_instrument b) pre"
    and "cash_of (res_post_state r) k + paid True k (res_fills r) = cash_of pre k + paid False k (res_fills r)"
    and "stock_of (bat_instrument b) (res_post_state r) k + moved False (bat_instrument b) k (res_fills r)
      = stock_of (bat_instrument b) pre k + moved True (bat_instrument b) k (res_fills r)"
    and "list_all (\<lambda>f. fill_instrument_id f = bat_instrument b) (res_fills r)"
proof -
  let ?i = "bat_instrument b" and ?post = "res_post_state r" and ?fs = "res_fills r"
  obtain l where st: "batch_stages b (res_outcome r) (res_allocation r) ?fs"
    and ap: "loop_result apply_fill pre ?fs = Ok l" and same: "same_settlement ?i l ?post"
    using v by (auto simp: verify_transition_Ok apply_batch_transition_Ok_iff)
  have eq: "cash_of ?post k = cash_of l k" "stock_of ?i ?post k = stock_of ?i l k" "dom (om_find ?post) = dom (om_find l)"
    using same by (simp_all add: same_settlement_def)
  show "dom (om_find ?post) = dom (om_find pre)"
    using settle_known_accounts [OF ap batch_fills_positive [OF wf st cp]] eq by simp
  show "cash_sum ?post = cash_sum pre" "stock_sum ?i ?post = stock_sum ?i pre"
    using same_settlement_sums [OF same] settled_totals [OF wf st ap, of ?i] by simp_all
  show "cash_of ?post k + paid True k ?fs = cash_of pre k + paid False k ?fs"
    using settle_cash [OF ap, of k] eq by simp
  show "stock_of ?i ?post k + moved False ?i k ?fs = stock_of ?i pre k + moved True ?i k ?fs"
    using settle_stock [OF ap, of ?i k] eq by simp
  show "list_all (\<lambda>f. fill_instrument_id f = ?i) ?fs"
    using batch_fills_balance [OF wf st] by (auto simp: list_all_iff)
qed

section \<open>The statement is satisfied\<close>

definition numbered :: "order list \<Rightarrow> bool" where
  "numbered orders \<longleftrightarrow> map (\<lambda>o1. unat (ord_seq o1)) orders = [0..<length orders]"

lemma in_sequence_iff:
  assumes "wf_batch b" "length (bat_orders b) < 2 ^ 32"
  shows "list_all (in_sequence (bat_instrument b)) (enumerate 0 (bat_orders b)) \<longleftrightarrow> numbered (bat_orders b)"
proof -
  let ?o = "bat_orders b"
  have one: "in_sequence (bat_instrument b) (i, ?o ! i) \<longleftrightarrow> unat (ord_seq (?o ! i)) = i" if "i < length ?o" for i
  proof -
    have "ord_instrument (?o ! i) = bat_instrument b"
      using wf_batch_orderD [OF assms(1), of "?o ! i"] that by (simp add: wf_order_def)
    moreover have "unat (of_nat i :: scalar) = i"
      using that assms(2) by (simp add: unat_of_nat take_bit_nat_eq_self)
    ultimately show ?thesis by (simp add: in_sequence_def word_unat_eq_iff)
  qed
  have "list_all (in_sequence (bat_instrument b)) (enumerate 0 ?o) \<longleftrightarrow> (\<forall>i<length ?o. unat (ord_seq (?o ! i)) = i)"
    unfolding list_all_length length_enumerate using one by (metis add_0 nth_enumerate_eq)
  also have "\<dots> \<longleftrightarrow> numbered ?o" unfolding numbered_def by (subst list_eq_iff_nth_eq) simp
  finally show ?thesis .
qed

definition circuit_conditions :: "batch_proof_witness \<Rightarrow> bool" where
  "circuit_conditions w \<longleftrightarrow> numbered (bat_orders (bw_batch w)) \<and> list_all fill_fits (bw_fills w)
     \<and> list_all (\<lambda>k. high_cash (bw_post_state w) k = high_cash (bw_pre_state w) k) (om_keys (bw_pre_state w))"

definition oracle_accepts :: "batch_proof_public_inputs \<Rightarrow> batch_proof_witness \<Rightarrow> bool" where
  "oracle_accepts pub w \<longleftrightarrow>
     (case (bw_oracle_snapshot w, bw_oracle_policy w, published_price pub) of
        (Some snap, Some policy, Some cp) \<Rightarrow>
          is_ok (validate_reference_price_snapshot policy snap (bat_instrument (bw_batch w)) (bw_batch_cutoff w) (Some cp))
      | _ \<Rightarrow> True)"

lemma scalar_at_public:
  assumes "length (bat_orders (bw_batch w)) < 2 ^ 32"
  shows "scalar_at (public_scalars pub w tree) 0 = of_nat (length (bat_orders (bw_batch w)))"
    and "scalar_at (public_scalars pub w tree) 1 = ucast (root_scalar (merkle_root tree))"
    and "scalar_at (public_scalars pub w tree) 2 = ucast (pi_clearing_price pub)"
    and "scalar_at (public_scalars pub w tree) 3 = ucast (pi_cleared_volume pub)"
    and "scalar_at (public_scalars pub w tree) 4 = ucast (pi_cleared_volume pub)"
    and "length (public_scalars pub w tree) = 5"
proof -
  let ?n = "length (bat_orders (bw_batch w))"
  have "unat (ucast (of_nat ?n :: u64) :: scalar) = unat (of_nat ?n :: scalar)"
    using assms by (simp add: unat_of_nat take_bit_nat_eq_self)
  then show "scalar_at (public_scalars pub w tree) 0 = of_nat ?n"
    by (simp add: scalar_at_def public_scalars_def word_unat_eq_iff)
qed (simp_all add: scalar_at_def public_scalars_def)

lemma check_statement_Ok:
  "check_statement pub w tree acc = Ok () \<longleftrightarrow>
     verify_transition (bw_pre_state w) (bw_batch w) (proposed_result pub w) = Ok ()
   \<and> verify_complete_input_accounting (bw_batch w) tree acc (bw_allocation w) = Ok ()
   \<and> pi_pre_state_root pub = compute_ledger_root (bw_pre_state w) (bat_instrument (bw_batch w))
   \<and> pi_post_state_root pub = compute_ledger_root (bw_post_state w) (bat_instrument (bw_batch w))
   \<and> pi_oracle_snapshot_hash pub = compute_oracle_snapshot_commitment (bw_oracle_snapshot w) (bw_oracle_policy w)"
  by (auto simp: check_statement_def result_simps split: result.splits)

lemma published_price_raw [simp]: "(case published_price pub of Some p \<Rightarrow> p | None \<Rightarrow> 0) = pi_clearing_price pub"
  by (simp add: published_price_def) (use word_gt_0 in fastforce)

lemma published_price_pos: "published_price pub \<noteq> Some 0"
  by (auto simp: published_price_def)

lemma proposed_result_simps [simp]:
  "out_price (res_outcome (proposed_result pub w)) = published_price pub"
  "out_volume (res_outcome (proposed_result pub w)) = pi_cleared_volume pub"
  "res_allocation (proposed_result pub w) = bw_allocation w"
  "res_fills (proposed_result pub w) = bw_fills w"
  "res_post_state (proposed_result pub w) = bw_post_state w"
  by (simp_all add: proposed_result_def)

text \<open>The seven parts, for a statement whose inputs are bound and whose plaintext checks pass.\<close>

definition checked :: "batch_proof_public_inputs \<Rightarrow> batch_proof_witness \<Rightarrow> merkle_tree \<Rightarrow> complete_input_accounting \<Rightarrow> bool" where
  "checked pub w tree acc \<longleftrightarrow> wf_batch (bw_batch w) \<and> bind_inputs pub w = Ok (tree, acc)
     \<and> check_statement pub w tree acc = Ok ()"

lemma checkedD:
  assumes "checked pub w tree acc"
  shows "wf_batch (bw_batch w)"
    and "tree = new_merkle_tree (map commit_order (bw_preimages w))"
    and "map pre_order (bw_preimages w) = bat_orders (bw_batch w)"
    and "length (bat_orders (bw_batch w)) < 2 ^ 32"
    and "map rec_leaf_index (cia_records acc) = [0..<length (bat_orders (bw_batch w))]"
    and "map rec_order_id (cia_records acc) = map ord_id (bat_orders (bw_batch w))"
    and "verify_transition (bw_pre_state w) (bw_batch w) (proposed_result pub w) = Ok ()"
    and "verify_complete_input_accounting (bw_batch w) tree acc (bw_allocation w) = Ok ()"
    and "batch_stages (bw_batch w) \<lparr>out_price = published_price pub, out_volume = pi_cleared_volume pub\<rparr>
      (bw_allocation w) (bw_fills w)"
  using assms
  by (auto simp: checked_def bind_inputs_Ok well_bound_def check_statement_Ok verify_transition_Ok proposed_result_def)

lemma order_part:
  assumes "checked pub w tree acc"
    and "synthesize_order_validity (bat_instrument (bw_batch w)) (bat_orders (bw_batch w)) (new_constraint_system, []) = (vars, cs1, w1)"
  shows "publics (cs1, []) = 0"
    and "extends (public_scalars pub w tree) (\<lambda>W. numbered (bat_orders (bw_batch w))) (new_constraint_system, []) (cs1, w1)"
proof -
  let ?i = "bat_instrument (bw_batch w)" and ?o = "bat_orders (bw_batch w)" and ?s = "(new_constraint_system, [])"
  show "publics (cs1, []) = 0"
    using order_validity_public [of ?i ?o ?s] assms(2) by (simp add: publics_def new_constraint_system_def)
  have seq: "list_all (in_sequence ?i) (enumerate 0 ?o) = numbered ?o"
    by (rule in_sequence_iff [OF checkedD(1,4) [OF assms(1)]])
  show "extends (public_scalars pub w tree) (\<lambda>W. numbered ?o) ?s (cs1, w1)"
    using order_validity_gap [of ?i ?o ?s] order_validity_meaning [of _ _ ?i ?o ?s] assms(2)
    by (intro extendsI) (simp_all add: seq)
qed

lemma record_indices:
  assumes "map rec_leaf_index rs = [0..<n]" "n < 2 ^ 32"
  shows "list_all (\<lambda>(idx, r). (ucast (of_nat (rec_leaf_index r) :: u64) :: scalar) = of_nat idx) (enumerate 0 rs)"
proof -
  have len: "length rs = n" using assms(1) by (metis length_map length_upt minus_nat.diff_0)
  have "(ucast (of_nat (rec_leaf_index (rs ! i)) :: u64) :: scalar) = of_nat i" if "i < n" for i
  proof -
    have "rec_leaf_index (rs ! i) = i" using arg_cong [OF assms(1), of "\<lambda>xs. xs ! i"] that len by simp
    moreover have "unat (ucast (of_nat i :: u64) :: scalar) = unat (of_nat i :: scalar)"
      using that assms(2) by (simp add: unat_of_nat take_bit_nat_eq_self)
    ultimately show ?thesis by (simp add: word_unat_eq_iff)
  qed
  then show ?thesis by (simp add: list_all_length nth_enumerate_eq len)
qed

lemma checked_allocation:
  assumes "checked pub w tree acc"
  obtains q where "ba_allocations (bw_allocation w) = map (\<lambda>o1. allocation_of o1 (q o1)) (bat_orders (bw_batch w))"
    and "\<And>o1. o1 \<in> set (bat_orders (bw_batch w)) \<Longrightarrow> q o1 \<le> ord_qty o1"
  using checkedD(1,9) [OF assms]
proof (cases rule: batch_stages_cases)
  case 1
  then show ?thesis using that [of "\<lambda>o1. 0"] by simp
next
  case (2 cp)
  then show ?thesis using that order_fill_le by fastforce
qed

lemma accounting_part:
  assumes "checked pub w tree acc" "publics (cs, []) = 0"
  shows "\<exists>cs2 w2. synthesize_complete_input_accounting (bw_batch w) (bw_preimages w) tree acc (bw_allocation w) (cs, [])
      = Ok (cs2, w2) \<and> publics (cs2, []) = 2 \<and> extends (public_scalars pub w tree) (\<lambda>W. True) (cs, []) (cs2, w2)"
proof -
  note chk = checkedD [OF assms(1)] and pub = scalar_at_public [OF checkedD(4) [OF assms(1)], of pub tree]
  obtain q where q: "ba_allocations (bw_allocation w) = map (\<lambda>o1. allocation_of o1 (q o1)) (bat_orders (bw_batch w))"
    "\<And>o1. o1 \<in> set (bat_orders (bw_batch w)) \<Longrightarrow> q o1 \<le> ord_qty o1"
    by (rule checked_allocation [OF assms(1)]) blast
  obtain s' where s': "synthesize_complete_input_accounting (bw_batch w) (bw_preimages w) tree acc (bw_allocation w) (cs, []) = Ok s'"
    using accounting_synthesis_Ok [OF chk(1,2,3,5,6) q chk(8)] by blast
  note m = accounting_meaning [OF s' pub(6) assms(2) pub(2) [symmetric] pub(1)]
  have "extends (public_scalars pub w tree) (\<lambda>W. True) (cs, []) s'"
    using accounting_gap [OF s'] m(2) record_indices [OF chk(5,4)] by (intro extendsI) simp_all
  moreover have "publics (fst s', []) = 2" using m(1) by (simp add: publics_def)
  ultimately show ?thesis using s' by (cases s') simp
qed

lemma clearing_part:
  assumes "checked pub w tree acc" "publics (cs, []) = 2"
  shows "\<exists>m cs3 w3. synthesize_clearing_optimality (bw_batch w) (published_price pub) (pi_cleared_volume pub) (cs, [])
      = Ok (m, cs3, w3) \<and> publics (cs3, []) = 4 \<and> extends (public_scalars pub w tree) (\<lambda>W. True) (cs, []) (cs3, w3)"
proof -
  let ?out = "\<lparr>out_price = published_price pub, out_volume = pi_cleared_volume pub\<rparr>"
  note chk = checkedD [OF assms(1)] and pub = scalar_at_public [OF checkedD(4) [OF assms(1)], of pub tree]
  have out: "determine_clearing_outcome (bw_batch w) = Ok ?out" using chk(9) by (simp add: batch_stages_def)
  obtain m s' where s': "synthesize_clearing_optimality (bw_batch w) (published_price pub) (pi_cleared_volume pub) (cs, []) = Ok (m, s')"
    using clearing_Ok [OF chk(1) out, of "(cs, [])"] by auto
  note m = clearing_meaning [OF chk(1) out, of "(cs, [])" m s' "public_scalars pub w tree", simplified, OF s' assms(2) pub(3,4)]
  have "extends (public_scalars pub w tree) (\<lambda>W. True) (cs, []) s'"
    using clearing_gap [OF s'] m(2) by (intro extendsI) simp_all
  moreover have "publics (fst s', []) = 4" using m(1) by (simp add: publics_def)
  ultimately show ?thesis using s' by (cases s') simp
qed

lemma checked_clearable:
  assumes "checked pub w tree acc" "published_price pub = Some cp"
  shows "clearable (bw_batch w) cp (pi_cleared_volume pub)"
    and "allocate_batch (bw_batch w) (Some cp) (pi_cleared_volume pub) = Ok (bw_allocation w)"
    and "bw_fills w = map (fill_for cp (bat_instrument (bw_batch w))) (enumerate 0 (executed
      (map (\<lambda>o1. allocation_of o1 (order_fill (bw_batch w) cp (pi_cleared_volume pub) o1)) (bat_orders (bw_batch w)))))"
proof -
  note st = checkedD(9) [OF assms(1)]
  show "allocate_batch (bw_batch w) (Some cp) (pi_cleared_volume pub) = Ok (bw_allocation w)"
    using st assms(2) by (simp add: batch_stages_def)
  show "clearable (bw_batch w) cp (pi_cleared_volume pub)"
    and "bw_fills w = map (fill_for cp (bat_instrument (bw_batch w))) (enumerate 0 (executed
      (map (\<lambda>o1. allocation_of o1 (order_fill (bw_batch w) cp (pi_cleared_volume pub) o1)) (bat_orders (bw_batch w)))))"
    using checkedD(1) [OF assms(1)] st by (cases rule: batch_stages_cases; use assms(2) in simp)+
qed

lemma allocation_part:
  assumes "checked pub w tree acc" "publics (cs, []) = 4"
  shows "\<exists>cs4 w4. (case published_price pub of None \<Rightarrow> Ok (cs, [])
       | Some cp \<Rightarrow> synthesize_allocation (bw_batch w) cp (pi_cleared_volume pub) (bw_allocation w) (cs, [])) = Ok (cs4, w4)
    \<and> extends (public_scalars pub w tree) (\<lambda>W. True) (cs, []) (cs4, w4)"
proof (cases "published_price pub")
  case None
  then show ?thesis by (simp add: extends_refl)
next
  case (Some cp)
  note pub = scalar_at_public [OF checkedD(4) [OF assms(1)], of pub tree]
  note c = checked_clearable [OF assms(1) Some]
  obtain s' where s': "synthesize_allocation (bw_batch w) cp (pi_cleared_volume pub) (bw_allocation w) (cs, []) = Ok s'"
    using allocation_Ok [OF c(1,2)] by blast
  have "extends (public_scalars pub w tree) (\<lambda>W. True) (cs, []) s'"
    using allocation_gap [OF s'] allocation_meaning(1) [OF c(1,2) s' assms(2) pub(5)] by (intro extendsI) simp_all
  then show ?thesis using s' Some by (cases s') simp
qed

lemma fills_part:
  assumes "checked pub w tree acc"
  shows "\<exists>cs5 w5. (case published_price pub of None \<Rightarrow> Ok (cs, [])
       | Some cp \<Rightarrow> synthesize_fill_bounds cp (bat_orders (bw_batch w)) (bw_fills w) (cs, [])) = Ok (cs5, w5)
    \<and> extends (public_scalars pub w tree) (\<lambda>W. list_all fill_fits (bw_fills w)) (cs, []) (cs5, w5)"
proof (cases "published_price pub")
  case None
  have "bw_fills w = []"
    using checkedD(1,9) [OF assms] by (cases rule: batch_stages_cases) (simp_all add: None)
  then show ?thesis using None by (simp add: extends_refl)
next
  case (Some cp)
  note c = checked_clearable [OF assms(1) Some]
  obtain s' where s': "synthesize_fill_bounds cp (bat_orders (bw_batch w)) (bw_fills w) (cs, []) = Ok s'"
    using fill_bounds_Ok [OF c(1,3)] by blast
  have "extends (public_scalars pub w tree) (\<lambda>W. list_all fill_fits (bw_fills w)) (cs, []) s'"
    using fill_bounds_gap [OF s'] fill_bounds_meaning(2) [OF c(1,3) s'] by (intro extendsI) simp_all
  then show ?thesis using s' Some by (cases s') simp
qed

lemma conservation_part:
  assumes "checked pub w tree acc"
  shows "\<exists>cs6 w6 C. synthesize_conservation (bw_pre_state w) (bw_post_state w) (bw_fills w) (bat_instrument (bw_batch w)) (cs, [])
      = Ok (cs6, w6) \<and> extends (public_scalars pub w tree) C (cs, []) (cs6, w6)
    \<and> (list_all fill_fits (bw_fills w) \<longrightarrow> C = (\<lambda>W. list_all (\<lambda>k. high_cash (bw_post_state w) k = high_cash (bw_pre_state w) k) (om_keys (bw_pre_state w))))"
proof -
  note chk = checkedD [OF assms]
  note v = verified_settlement [OF chk(1,7), simplified, OF published_price_pos]
  let ?syn = "synthesize_conservation (bw_pre_state w) (bw_post_state w) (bw_fills w) (bat_instrument (bw_batch w)) (cs, [])"
  let ?C = "\<lambda>W. if list_all fill_fits (bw_fills w)
      then list_all (\<lambda>k. high_cash (bw_post_state w) k = high_cash (bw_pre_state w) k) (om_keys (bw_pre_state w))
      else satisfies (public_scalars pub w tree) W (the_value ?syn)"
  obtain s' where s': "?syn = Ok s'" by (simp add: synthesize_conservation_def split_beta)
  have "extends (public_scalars pub w tree) ?C (cs, []) s'"
  proof (rule extendsI)
    show "gap s' = gap (cs, [])" by (rule conservation_gap [OF s'])
    fix W base assume p: "placed W base s'"
    show "placed W base (cs, []) \<and> (satisfies (public_scalars pub w tree) W s' \<longleftrightarrow>
        satisfies (public_scalars pub w tree) W (cs, []) \<and> ?C W)"
    proof (cases "list_all fill_fits (bw_fills w)")
      case True
      then show ?thesis using conservation_meaning [OF True v(6) s' v(1-5) p] by simp
    next
      case False
      then show ?thesis using conservation_grows [OF s'] p by (auto simp: grows_def s')
    qed
  qed
  then show ?thesis using s' by (intro exI [of _ "fst s'"] exI [of _ "snd s'"] exI [of _ ?C]) auto
qed

lemma oracle_part:
  shows "if oracle_accepts pub w
    then \<exists>cs7 w7. (case (bw_oracle_snapshot w, bw_oracle_policy w, published_price pub) of
             (Some snap, Some policy, Some cp) \<Rightarrow>
               synthesize_oracle_freshness (bat_instrument (bw_batch w)) (bw_batch_cutoff w) cp policy (Some snap) (cs, [])
           | _ \<Rightarrow> Ok (cs, [])) = Ok (cs7, w7)
        \<and> extends scalars (\<lambda>W. True) (cs, []) (cs7, w7)
    else \<not> is_ok (case (bw_oracle_snapshot w, bw_oracle_policy w, published_price pub) of
             (Some snap, Some policy, Some cp) \<Rightarrow>
               synthesize_oracle_freshness (bat_instrument (bw_batch w)) (bw_batch_cutoff w) cp policy (Some snap) (cs, [])
           | _ \<Rightarrow> Ok (cs, []))"
proof (cases "\<exists>snap policy cp. bw_oracle_snapshot w = Some snap \<and> bw_oracle_policy w = Some policy \<and> published_price pub = Some cp")
  case False
  then have "oracle_accepts pub w" by (auto simp: oracle_accepts_def split: option.split)
  with False show ?thesis by (auto simp: extends_refl split: option.split)
next
  case True
  then obtain snap policy cp where eq: "bw_oracle_snapshot w = Some snap" "bw_oracle_policy w = Some policy"
    "published_price pub = Some cp" by blast
  let ?syn = "synthesize_oracle_freshness (bat_instrument (bw_batch w)) (bw_batch_cutoff w) cp policy (Some snap) (cs, [])"
  have acc: "oracle_accepts pub w \<longleftrightarrow> is_ok ?syn" by (simp add: oracle_accepts_def eq oracle_Ok_iff)
  show ?thesis
  proof (cases "oracle_accepts pub w")
    case True
    then obtain s' where s': "?syn = Ok s'" using acc by (auto simp: is_ok_iff)
    have "extends scalars (\<lambda>W. True) (cs, []) s'"
      using oracle_gap [OF s'] oracle_meaning [OF s'] by (intro extendsI) simp_all
    then show ?thesis using True s' eq by (cases s') simp
  next
    case False
    then show ?thesis using acc eq by simp
  qed
qed


lemma synthesis_satisfied_iff:
  assumes "checked pub w tree acc"
  shows "(\<exists>cs W. synthesize_statement pub w tree acc = Ok (cs, W)
       \<and> is_ok (is_satisfied (public_scalars pub w tree) W cs)) \<longleftrightarrow> circuit_conditions w \<and> oracle_accepts pub w"
proof -
  let ?b = "bw_batch w" and ?pub = "public_scalars pub w tree"
  obtain vars cs1 w1 where 1: "synthesize_order_validity (bat_instrument ?b) (bat_orders ?b) (new_constraint_system, []) = (vars, cs1, w1)"
    by (metis prod_cases3)
  note e1 = order_part [OF assms 1]
  obtain cs2 w2 where 2: "synthesize_complete_input_accounting ?b (bw_preimages w) tree acc (bw_allocation w) (cs1, []) = Ok (cs2, w2)"
    and p2: "publics (cs2, []) = 2" and e2: "extends ?pub (\<lambda>W. True) (cs1, []) (cs2, w2)"
    using accounting_part [OF assms e1(1)] by blast
  obtain m cs3 w3 where 3: "synthesize_clearing_optimality ?b (published_price pub) (pi_cleared_volume pub) (cs2, []) = Ok (m, cs3, w3)"
    and p3: "publics (cs3, []) = 4" and e3: "extends ?pub (\<lambda>W. True) (cs2, []) (cs3, w3)"
    using clearing_part [OF assms p2] by blast
  obtain cs4 w4 where 4: "(case published_price pub of None \<Rightarrow> Ok (cs3, [])
       | Some cp \<Rightarrow> synthesize_allocation ?b cp (pi_cleared_volume pub) (bw_allocation w) (cs3, [])) = Ok (cs4, w4)"
    and e4: "extends ?pub (\<lambda>W. True) (cs3, []) (cs4, w4)"
    using allocation_part [OF assms p3] by blast
  obtain cs5 w5 where 5: "(case published_price pub of None \<Rightarrow> Ok (cs4, [])
       | Some cp \<Rightarrow> synthesize_fill_bounds cp (bat_orders ?b) (bw_fills w) (cs4, [])) = Ok (cs5, w5)"
    and e5: "extends ?pub (\<lambda>W. list_all fill_fits (bw_fills w)) (cs4, []) (cs5, w5)"
    using fills_part [OF assms, of cs4] by blast
  obtain cs6 w6 C where 6: "synthesize_conservation (bw_pre_state w) (bw_post_state w) (bw_fills w) (bat_instrument ?b) (cs5, []) = Ok (cs6, w6)"
    and e6: "extends ?pub C (cs5, []) (cs6, w6)"
    and C: "list_all fill_fits (bw_fills w) \<longrightarrow> C = (\<lambda>W. list_all (\<lambda>k. high_cash (bw_post_state w) k = high_cash (bw_pre_state w) k) (om_keys (bw_pre_state w)))"
    using conservation_part [OF assms, of cs5] by blast
  let ?reference = "case (bw_oracle_snapshot w, bw_oracle_policy w, published_price pub) of
             (Some snap, Some policy, Some cp) \<Rightarrow>
               synthesize_oracle_freshness (bat_instrument ?b) (bw_batch_cutoff w) cp policy (Some snap) (cs6, [])
           | _ \<Rightarrow> Ok (cs6, [])"
  have syn: "synthesize_statement pub w tree acc = and_then_conv ?reference
      (\<lambda>(cs7, w7). Ok (cs7, w1 @ w2 @ w3 @ w4 @ w5 @ w6 @ w7))"
    unfolding synthesize_statement_def Let_def 1 2 3 4 5 6 prod.case and_then_conv_simps ..
  show ?thesis
  proof (cases "oracle_accepts pub w")
    case False
    then have "\<not> is_ok ?reference" using oracle_part [of pub w cs6 ?pub] by simp
    then have "\<not> is_ok (synthesize_statement pub w tree acc)"
      unfolding syn by (cases ?reference) simp_all
    then show ?thesis using False by (auto simp: not_is_ok_iff)
  next
    case True
    then obtain cs7 w7 where 7: "?reference = Ok (cs7, w7)" and e7: "extends ?pub (\<lambda>W. True) (cs6, []) (cs7, w7)"
      using oracle_part [of pub w cs6 ?pub] by auto
    let ?W = "w1 @ w2 @ w3 @ w4 @ w5 @ w6 @ w7"
    note whole = extends_parts [OF e1(2) extends_parts [OF e2 extends_parts [OF e3 extends_parts [OF e4 extends_parts
      [OF e5 extends_parts [OF e6 e7]]]]]]
    have "is_ok (is_satisfied ?pub ?W cs7) \<longleftrightarrow> circuit_conditions w"
      unfolding is_satisfied_iff extends_whole [OF whole] circuit_conditions_def using C by auto
    moreover have "synthesize_statement pub w tree acc = Ok (cs7, ?W)"
      unfolding syn 7 by simp
    ultimately show ?thesis using True by simp
  qed
qed

section \<open>The prover\<close>

lemma case_error_Ok_iff:
  "(case r of Err e \<Rightarrow> Err (f e) | Ok u \<Rightarrow> Ok v) = Ok x \<longleftrightarrow> is_ok r \<and> x = v"
  by (cases r) auto

lemma prove_Ok_iff:
  "prove pub w = Ok prf \<longleftrightarrow>
    (\<exists>tree acc cs W. bind_inputs pub w = Ok (tree, acc) \<and> check_statement pub w tree acc = Ok ()
      \<and> synthesize_statement pub w tree acc = Ok (cs, W) \<and> is_ok (is_satisfied (public_scalars pub w tree) W cs)
      \<and> prf = \<lparr>bp_version = 1, bp_public_inputs = pub,
               bp_bytes = certificate (length (cs_constraints cs)) (length (public_scalars pub w tree))\<rparr>)"
  by (auto simp: prove_def and_then_Ok_iff case_error_Ok_iff)

lemma prove_ok_iff:
  assumes "wf_batch (bw_batch w)"
  shows "is_ok (prove pub w) \<longleftrightarrow>
    (\<exists>tree acc. bind_inputs pub w = Ok (tree, acc) \<and> check_statement pub w tree acc = Ok ())
    \<and> circuit_conditions w \<and> oracle_accepts pub w"
proof -
  have "is_ok (prove pub w) \<longleftrightarrow> (\<exists>tree acc. checked pub w tree acc
      \<and> (\<exists>cs W. synthesize_statement pub w tree acc = Ok (cs, W) \<and> is_ok (is_satisfied (public_scalars pub w tree) W cs)))"
    unfolding checked_def is_ok_iff [of "prove pub w"] prove_Ok_iff using assms by blast
  then show ?thesis using synthesis_satisfied_iff assms unfolding checked_def by blast
qed

end
