(* ===== verification/Certificates.thy ===== *)
theory Certificates
  imports Statement
begin

text \<open>
  The certificate and its verification (\<open>verifier.cpp\<close>): which byte strings are accepted, how many
  constraints the prover's system has, and that a produced certificate is accepted.
\<close>

section \<open>Decimal numbers\<close>

lemma byte_of_digit: "k < 10 \<Longrightarrow> byte_of (dec_digit k) = byte_of CHR ''0'' + of_nat k"
proof -
  assume "k < 10"
  then have "k \<in> {0,1,2,3,4,5,6,7,8,9}" by auto
  then show ?thesis by (auto simp: dec_digit_def byte_of_def)
qed

lemma is_digit_byte: "k < 10 \<Longrightarrow> is_digit (byte_of (dec_digit k))"
proof -
  assume "k < 10"
  then have "k \<in> {0,1,2,3,4,5,6,7,8,9}" by auto
  then show ?thesis by (auto simp: dec_digit_def byte_of_def is_digit_def)
qed

lemma digits_of_dec:
  "list_all is_digit (bytes_of_string (dec_string n)) \<and> digits_value (bytes_of_string (dec_string n)) = n
   \<and> dec_string n \<noteq> []"
proof (induction n rule: dec_string.induct)
  case (1 n)
  have last: "unat (byte_of (dec_digit (n mod 10)) - byte_of CHR ''0'') = n mod 10"
    by (simp add: byte_of_digit unat_of_nat take_bit_nat_eq_self)
  show ?case
  proof (cases "n < 10")
    case True
    then show ?thesis
      using last by (subst (1 2 3) dec_string.simps) (simp add: bytes_of_string_def digits_value_def is_digit_byte)
  next
    case False
    then have "dec_string n = dec_string (n div 10) @ [dec_digit (n mod 10)]" by (subst dec_string.simps) simp
    then show ?thesis
      using 1 [OF False] last by (simp add: bytes_of_string_def digits_value_def is_digit_byte)
  qed
qed

lemma from_chars_digits:
  "from_chars bs = (Some v, []) \<longleftrightarrow> list_all is_digit bs \<and> bs \<noteq> [] \<and> digits_value bs < 2 ^ 64 \<and> v = of_nat (digits_value bs)"
proof (cases "list_all is_digit bs")
  case True
  then have tw: "takeWhile is_digit bs = bs" and dw: "dropWhile is_digit bs = []"
    by (simp_all add: list_all_iff takeWhile_eq_all_conv)
  show ?thesis unfolding from_chars_def Let_def tw dw using True by auto
next
  case False
  then have "dropWhile is_digit bs \<noteq> []" by (auto simp: list_all_iff)
  with False show ?thesis by (auto simp: from_chars_def Let_def)
qed

lemma from_chars_accepts:
  "\<not> (fst (from_chars m) = None \<or> snd (from_chars m) \<noteq> [] \<or> fst (from_chars m) = Some 0) \<longleftrightarrow>
     list_all is_digit m \<and> m \<noteq> [] \<and> 0 < digits_value m \<and> digits_value m < 2 ^ 64"
proof -
  have "(of_nat (digits_value m) :: u64) = 0 \<longleftrightarrow> digits_value m = 0" if "digits_value m < 2 ^ 64"
    using that by (auto simp: word_of_nat_eq_0_iff dest: nat_dvd_not_less)
  then have "list_all is_digit m \<and> m \<noteq> [] \<and> 0 < digits_value m \<and> digits_value m < 2 ^ 64
      \<longleftrightarrow> (\<exists>v. from_chars m = (Some v, []) \<and> v \<noteq> 0)"
    unfolding from_chars_digits by (auto simp: neq0_conv)
  also have "\<dots> \<longleftrightarrow> \<not> (fst (from_chars m) = None \<or> snd (from_chars m) \<noteq> [] \<or> fst (from_chars m) = Some 0)"
    by (cases "from_chars m") auto
  finally show ?thesis by (rule sym)
qed

section \<open>Accepted certificates\<close>

definition claimed_count :: "bytes \<Rightarrow> nat \<Rightarrow> bool" where
  "claimed_count bs n \<longleftrightarrow> (\<exists>ds. bs = cert_prefix @ ds @ cert_suffix \<and> ds \<noteq> [] \<and> list_all is_digit ds
     \<and> digits_value ds = n)"

lemma split_affixes:
  "starts_with s p \<and> ends_with s q \<and> length p + length q < length s \<longleftrightarrow>
   s = p @ take (length s - length p - length q) (drop (length p) s) @ q \<and> length p + length q < length s"
    (is "?l \<longleftrightarrow> ?r")
proof
  assume l: ?l
  let ?m = "length s - length p - length q"
  have "s = take (length p) s @ drop (length p) s" by simp
  also have "take (length p) s = p" using l by (simp add: starts_with_def)
  also have "drop (length p) s = take ?m (drop (length p) s) @ drop ?m (drop (length p) s)"
    by (rule append_take_drop_id [symmetric])
  also have "drop ?m (drop (length p) s) = q"
    using l by (simp add: ends_with_def add.commute)
  finally show ?r using l by simp
next
  assume ?r
  then obtain m where "s = p @ m @ q" "length p + length q < length s" by blast
  then show ?l by (simp add: starts_with_def ends_with_def)
qed

lemma verify_batch_proof_Ok:
  "verify_batch_proof expected prf = Ok () \<longleftrightarrow> bp_version prf = 1 \<and> bp_public_inputs prf = expected
     \<and> (\<exists>n. claimed_count (bp_bytes prf) n \<and> 0 < n \<and> n < 2 ^ 64)"
proof -
  let ?s = "bp_bytes prf"
  let ?m = "take (length ?s - length cert_prefix - length cert_suffix) (drop (length cert_prefix) ?s)"
  have same: "(pi_pre_state_root expected \<noteq> pi_pre_state_root (bp_public_inputs prf)
          \<or> pi_post_state_root expected \<noteq> pi_post_state_root (bp_public_inputs prf)
          \<or> pi_batch_header_hash expected \<noteq> pi_batch_header_hash (bp_public_inputs prf)
          \<or> pi_oracle_snapshot_hash expected \<noteq> pi_oracle_snapshot_hash (bp_public_inputs prf)
          \<or> pi_clearing_price expected \<noteq> pi_clearing_price (bp_public_inputs prf)
          \<or> pi_cleared_volume expected \<noteq> pi_cleared_volume (bp_public_inputs prf)) \<longleftrightarrow> bp_public_inputs prf \<noteq> expected"
    by (auto intro!: batch_proof_public_inputs.equality)
  note count = from_chars_accepts [of ?m]
  have shape: "starts_with ?s cert_prefix \<and> ends_with ?s cert_suffix
      \<and> length cert_prefix + length cert_suffix < length ?s \<and> list_all is_digit ?m \<and> ?m \<noteq> []
      \<and> 0 < digits_value ?m \<and> digits_value ?m < 2 ^ 64
    \<longleftrightarrow> (\<exists>n. claimed_count ?s n \<and> 0 < n \<and> n < 2 ^ 64)" (is "?l \<longleftrightarrow> ?r")
  proof
    assume ?l
    then show ?r using split_affixes [of ?s cert_prefix cert_suffix] unfolding claimed_count_def by blast
  next
    assume ?r
    then obtain ds where ds: "?s = cert_prefix @ ds @ cert_suffix" "ds \<noteq> []" "list_all is_digit ds"
      "0 < digits_value ds" "digits_value ds < 2 ^ 64" by (auto simp: claimed_count_def)
    then have "?m = ds" "length cert_prefix + length cert_suffix < length ?s" by simp_all
    with ds show ?l by (simp add: starts_with_def ends_with_def)
  qed
  have "verify_batch_proof expected prf = Ok () \<longleftrightarrow> bp_version prf = 1 \<and> bp_public_inputs prf = expected
      \<and> starts_with ?s cert_prefix \<and> ends_with ?s cert_suffix
      \<and> length cert_prefix + length cert_suffix < length ?s
      \<and> \<not> (fst (from_chars ?m) = None \<or> snd (from_chars ?m) \<noteq> [] \<or> fst (from_chars ?m) = Some 0)"
    unfolding verify_batch_proof_def Let_def split_beta reject_if_Ok_iff same by auto
  then show ?thesis unfolding count shape [symmetric] by blast
qed

lemma certificate_claims: "claimed_count (certificate n 5) n"
proof -
  have "dec_string 5 = ''5''" by (simp add: dec_string.simps dec_digit_def)
  then have "certificate n 5 = cert_prefix @ bytes_of_string (dec_string n) @ cert_suffix"
    by (simp add: certificate_def cert_prefix_def cert_suffix_def bytes_of_string_def)
  moreover have "bytes_of_string (dec_string n) \<noteq> []" using digits_of_dec [of n] by (simp add: bytes_of_string_def)
  ultimately show ?thesis using digits_of_dec [of n] unfolding claimed_count_def by blast
qed

section \<open>The number of constraints\<close>

definition constraints :: "synthesis \<Rightarrow> nat" where
  "constraints s = length (cs_constraints (fst s))"

lemma constraints_simps [synth]:
  "constraints (push_scalar v s) = constraints s"
  "constraints (enforce_in a b c l s) = Suc (constraints s)"
  "constraints (enforce_equal_in lc1 lc2 l s) = Suc (constraints s)"
  "constraints (snd (alloc_public cs), sc) = constraints (cs, sc)"
  by (simp_all add: constraints_def push_scalar_def alloc_witness_def enforce_in_def enforce_equal_in_def
      enforce_def enforce_equal_def alloc_public_def split_beta)

lemma loop_adds:
  assumes "\<And>x s s'. step s x = Ok s' \<Longrightarrow> p s' = p s + k" and "loop_result step s xs = Ok s'"
  shows "p s' = p s + k * length xs"
  using assms(2)
proof (induction xs arbitrary: s)
  case (Cons x xs)
  from Cons.prems obtain s1 where s1: "step s x = Ok s1" and rest: "loop_result step s1 xs = Ok s'"
    by (auto simp: and_then_Ok_iff)
  show ?case using Cons.IH [OF rest] assms(1) [OF s1] by simp
qed simp

lemma foldl_adds: "(\<And>s x. p (step s x) = p s + (k :: nat)) \<Longrightarrow> p (foldl step s xs) = p s + k * length xs"
  by (induction xs arbitrary: s) auto

lemma order_validity_constraints:
  "constraints (snd (synthesize_order_validity inst orders s)) = constraints s + 5 * length orders"
proof -
  have "constraints (snd (synthesize_order inst io s)) = constraints s + 5" for io s
    by (cases io) (simp add: synthesize_order_def Let_def alloc_scalar_push synth)
  then show ?thesis
    unfolding synthesize_order_validity_def
    by (subst foldl_adds [where p = "\<lambda>x. constraints (snd x)" and k = 5]) (auto simp: split_beta)
qed

lemma merkle_inclusion_constraints:
  "synthesize_merkle_inclusion v root leaf p s = Ok s' \<Longrightarrow> constraints s' = Suc (constraints s)"
  by (auto simp: synthesize_merkle_inclusion_def constraint_error_def Let_def alloc_scalar_push synth split: if_splits)

lemma record_constraints:
  "synthesize_record v preimages tree alloc (s, lc) ir = Ok (s', lc') \<Longrightarrow> constraints s' = constraints s + 2"
  by (cases ir) (auto simp: synthesize_record_def Let_def alloc_scalar_push constraint_error_def and_then_Ok_iff
      synth dest!: merkle_inclusion_constraints split: option.splits if_splits)

lemma accounting_constraints:
  assumes "synthesize_complete_input_accounting b preimages tree acc alloc s = Ok s'"
  shows "constraints s' = constraints s + 2 * length (cia_records acc) + 1"
proof -
  let ?s0 = "(snd (alloc_public (snd (alloc_public (fst s)))), snd s)"
  obtain v s1 lc lc2 lbl where loop: "loop_result (synthesize_record v preimages tree alloc) (?s0, lc_zero)
      (enumerate 0 (cia_records acc)) = Ok (s1, lc)" and s': "s' = enforce_equal_in lc lc2 lbl s1"
    using assms
    by (auto simp: synthesize_complete_input_accounting_def constraint_error_def Let_def split_beta and_then_Ok_iff
        split: result.splits if_splits)
  have "constraints (fst (s1, lc)) = constraints (fst (?s0, lc_zero)) + 2 * length (enumerate 0 (cia_records acc))"
    by (rule loop_adds [OF _ loop, where p = "\<lambda>x. constraints (fst x)"]) (metis record_constraints prod.collapse)
  then show ?thesis by (simp add: s' synth)
qed

lemma candidate_constraints:
  "synthesize_candidate orders v vol s p = Ok s' \<Longrightarrow> constraints s' = constraints s + 2"
  by (auto simp: synthesize_candidate_def or_fail_Ok_iff Let_def alloc_scalar_push synth)

lemma clearing_constraints:
  assumes "synthesize_clearing_optimality b cp vol s = Ok (m, s')"
  shows "constraints s' = constraints s + 2 * length (candidate_prices_from_orders (bat_orders b)) + 2"
proof -
  let ?s0 = "(snd (alloc_public (snd (alloc_public (fst s)))), snd s)"
  obtain v s1 where loop: "loop_result (synthesize_candidate (bat_orders b) v vol) ?s0
      (candidate_prices_from_orders (bat_orders b)) = Ok s1" and s': "constraints s' = constraints s1 + 2"
    using assms
    by (auto simp: synthesize_clearing_optimality_def constraint_error_def Let_def split_beta and_then_Ok_iff
        or_fail_Ok_iff alloc_scalar_push synth split: result.splits if_splits)
  have "constraints s1 = constraints ?s0 + 2 * length (candidate_prices_from_orders (bat_orders b))"
    by (rule loop_adds [OF _ loop]) (rule candidate_constraints)
  then show ?thesis by (simp add: s' synth)
qed

lemma order_allocation_constraints:
  "synthesize_order_allocation orders cp (s, bl, sl) a = Ok (s', bl', sl') \<Longrightarrow> constraints s' = constraints s + 1"
  by (auto simp: synthesize_order_allocation_def constraint_error_def Let_def alloc_scalar_push synth
      split: option.splits order_moneyness.splits)

lemma allocation_constraints:
  assumes "synthesize_allocation b cp vol alloc s = Ok s'"
  shows "constraints s' = constraints s + length (ba_allocations alloc) + 2"
proof -
  let ?s0 = "(snd (alloc_public (fst s)), snd s)"
  obtain s1 bl sl where loop: "loop_result (synthesize_order_allocation (bat_orders b) cp) (?s0, lc_zero, lc_zero)
      (ba_allocations alloc) = Ok (s1, bl, sl)" and s': "constraints s' = constraints s1 + 2"
    using assms
    by (auto simp: synthesize_allocation_def constraint_error_def Let_def split_beta and_then_Ok_iff
        or_fail_Ok_iff synth split: if_splits)
  have "constraints (fst (s1, bl, sl)) = constraints (fst (?s0, lc_zero, lc_zero)) + 1 * length (ba_allocations alloc)"
    by (rule loop_adds [OF _ loop, where p = "\<lambda>x. constraints (fst x)"])
       (metis order_allocation_constraints prod.collapse)
  then show ?thesis by (simp add: s' synth)
qed

lemma fill_constraints: "synthesize_fill cp v orders s f = Ok s' \<Longrightarrow> constraints s' = constraints s + 3"
  by (auto simp: synthesize_fill_def constraint_error_def Let_def alloc_scalar_push synth
      split: option.splits if_splits)

lemma fill_bounds_constraints:
  assumes "synthesize_fill_bounds cp orders fills s = Ok s'"
  shows "constraints s' = constraints s + 3 * length fills"
proof -
  have loop: "loop_result (synthesize_fill cp (witness_var (next_var s)) orders) (push_scalar cp s) fills = Ok s'"
    using assms by (simp add: synthesize_fill_bounds_def alloc_scalar_push)
  have "constraints s' = constraints (push_scalar cp s) + 3 * length fills"
    by (rule loop_adds [OF _ loop]) (rule fill_constraints)
  then show ?thesis by (simp add: synth)
qed

lemma conservation_constraints:
  assumes "synthesize_conservation pre post fills inst s = Ok s'"
  shows "constraints s' = constraints s + 2 * length (om_entries pre) + 2"
proof -
  have fill: "constraints (fst (synthesize_account_fill k x f)) = constraints (fst x) + 0" for k x f
    by (cases x) (simp add: synthesize_account_fill_def Let_def alloc_scalar_push synth)
  have fills: "constraints (fst (foldl (synthesize_account_fill k) x fills)) = constraints (fst x)" for k x
    using foldl_adds [of "\<lambda>x. constraints (fst x)" "synthesize_account_fill k" 0 x fills, OF fill] by simp
  have "constraints (fst (synthesize_account post fills inst x e)) = constraints (fst x) + 2" for x e
    by (cases x; cases e) (simp add: synthesize_account_def Let_def alloc_scalar_push split_beta synth fills)
  from foldl_adds [of "\<lambda>x. constraints (fst x)" "synthesize_account post fills inst" 2, OF this]
  have "constraints (fst (foldl (synthesize_account post fills inst) x es)) = constraints (fst x) + 2 * length es" for x es .
  note this [of "(s, t)" for t, unfolded fst_conv]
  then show ?thesis using assms by (auto simp: synthesize_conservation_def split_beta synth)
qed

lemma oracle_constraints:
  "synthesize_oracle_freshness inst t cp policy snap s = Ok s' \<Longrightarrow> constraints s' = constraints s + (if snap = None then 0 else 3)"
  by (auto simp: synthesize_oracle_freshness_def constraint_error_def Let_def alloc_scalar_push synth
      split: option.splits result.splits)

definition crossed_count :: "batch_proof_public_inputs \<Rightarrow> batch_proof_witness \<Rightarrow> nat" where
  "crossed_count pub w =
     (if published_price pub = None then 0
      else length (ba_allocations (bw_allocation w)) + 2 + 3 * length (bw_fills w))"

definition oracle_count :: "batch_proof_public_inputs \<Rightarrow> batch_proof_witness \<Rightarrow> nat" where
  "oracle_count pub w =
     (if bw_oracle_snapshot w \<noteq> None \<and> bw_oracle_policy w \<noteq> None \<and> published_price pub \<noteq> None then 3 else 0)"

definition constraint_count :: "batch_proof_public_inputs \<Rightarrow> batch_proof_witness \<Rightarrow> nat" where
  "constraint_count pub w =
     7 * length (bat_orders (bw_batch w)) + 2 * length (candidate_prices_from_orders (bat_orders (bw_batch w)))
     + 2 * length (om_entries (bw_pre_state w)) + crossed_count pub w + oracle_count pub w + 5"

lemma constraints_next: "constraints (cs, sc) = constraints (cs, [])"
  by (simp add: constraints_def)

lemma statement_constraints:
  assumes "synthesize_statement pub w tree acc = Ok (cs, W)" "length (cia_records acc) = length (bat_orders (bw_batch w))"
  shows "length (cs_constraints cs) = constraint_count pub w"
proof -
  let ?b = "bw_batch w"
  obtain vars cs1 w1 where 1: "synthesize_order_validity (bat_instrument ?b) (bat_orders ?b) (new_constraint_system, []) = (vars, cs1, w1)"
    by (metis prod_cases3)
  obtain cs2 w2 m cs3 w3 cs4 w4 cs5 w5 cs6 w6 w7 where
      2: "synthesize_complete_input_accounting ?b (bw_preimages w) tree acc (bw_allocation w) (cs1, []) = Ok (cs2, w2)"
    and 3: "synthesize_clearing_optimality ?b (published_price pub) (pi_cleared_volume pub) (cs2, []) = Ok (m, cs3, w3)"
    and 4: "(case published_price pub of None \<Rightarrow> Ok (cs3, [])
       | Some cp \<Rightarrow> synthesize_allocation ?b cp (pi_cleared_volume pub) (bw_allocation w) (cs3, [])) = Ok (cs4, w4)"
    and 5: "(case published_price pub of None \<Rightarrow> Ok (cs4, [])
       | Some cp \<Rightarrow> synthesize_fill_bounds cp (bat_orders ?b) (bw_fills w) (cs4, [])) = Ok (cs5, w5)"
    and 6: "synthesize_conservation (bw_pre_state w) (bw_post_state w) (bw_fills w) (bat_instrument ?b) (cs5, []) = Ok (cs6, w6)"
    and 7: "(case (bw_oracle_snapshot w, bw_oracle_policy w, published_price pub) of
             (Some snap, Some policy, Some cp) \<Rightarrow>
               synthesize_oracle_freshness (bat_instrument ?b) (bw_batch_cutoff w) cp policy (Some snap) (cs6, [])
           | _ \<Rightarrow> Ok (cs6, [])) = Ok (cs, w7)"
    using assms(1) unfolding synthesize_statement_def Let_def 1 prod.case
    by (auto simp: and_then_conv_Ok_iff)
  have "constraints (cs1, []) = 5 * length (bat_orders ?b)"
    using order_validity_constraints [of "bat_instrument ?b" "bat_orders ?b" "(new_constraint_system, [])"] 1
    by (simp add: constraints_def new_constraint_system_def)
  moreover have "constraints (cs2, []) = constraints (cs1, []) + 2 * length (bat_orders ?b) + 1"
    using accounting_constraints [OF 2] assms(2) by (simp add: constraints_def)
  moreover have "constraints (cs3, []) = constraints (cs2, []) + 2 * length (candidate_prices_from_orders (bat_orders ?b)) + 2"
    using clearing_constraints [OF 3] by (simp add: constraints_def)
  moreover have "constraints (cs5, []) = constraints (cs3, []) + crossed_count pub w"
    using 4 5 allocation_constraints fill_bounds_constraints
    by (cases "published_price pub") (auto simp: crossed_count_def constraints_def dest!: allocation_constraints fill_bounds_constraints)
  moreover have "constraints (cs6, []) = constraints (cs5, []) + 2 * length (om_entries (bw_pre_state w)) + 2"
    using conservation_constraints [OF 6] by (simp add: constraints_def)
  moreover have "constraints (cs, []) = constraints (cs6, []) + oracle_count pub w"
    using 7 by (auto simp: oracle_count_def constraints_def split: option.splits dest!: oracle_constraints)
  ultimately show ?thesis by (simp add: constraint_count_def constraints_def)
qed

lemma prove_certificate:
  assumes "prove pub w = Ok prf"
  shows "prf = \<lparr>bp_version = 1, bp_public_inputs = pub, bp_bytes = certificate (constraint_count pub w) 5\<rparr>"
proof -
  obtain tree acc cs W where b: "bind_inputs pub w = Ok (tree, acc)" and s: "synthesize_statement pub w tree acc = Ok (cs, W)"
    and eq: "prf = \<lparr>bp_version = 1, bp_public_inputs = pub,
               bp_bytes = certificate (length (cs_constraints cs)) (length (public_scalars pub w tree))\<rparr>"
    using assms by (auto simp: prove_Ok_iff)
  have "length (cia_records acc) = length (bat_orders (bw_batch w))"
  proof -
    obtain rs where "cia_records acc = rs" "map rec_leaf_index rs = [0..<length (bat_orders (bw_batch w))]"
      using b by (auto simp: bind_inputs_Ok well_bound_def)
    then show ?thesis by (metis length_map length_upt minus_nat.diff_0)
  qed
  from statement_constraints [OF s this] show ?thesis by (simp add: eq public_scalars_def numeral_eq_Suc)
qed

lemma proof_verifies:
  assumes "prove pub w = Ok prf"
  shows "verify_batch_proof pub prf = Ok () \<longleftrightarrow> constraint_count pub w < 2 ^ 64"
proof -
  have unique: "n = m" if claim: "claimed_count (certificate m 5) n" for n m
  proof -
    obtain ds where "certificate m 5 = cert_prefix @ ds @ cert_suffix" "digits_value ds = n"
      using claim unfolding claimed_count_def by blast
    moreover obtain ds' where "certificate m 5 = cert_prefix @ ds' @ cert_suffix" "digits_value ds' = m"
      using certificate_claims [of m] unfolding claimed_count_def by blast
    ultimately show ?thesis by simp
  qed
  then show ?thesis
    using certificate_claims [of "constraint_count pub w"]
    by (auto simp: verify_batch_proof_Ok prove_certificate [OF assms]) (auto simp: constraint_count_def)
qed

end
