(* ===== verification/Throwing.thy ===== *)
theory Throwing
  imports Results
begin

text \<open>
  Code that ends with a text for the console instead of a value: a \<open>std::runtime_error\<close> and its
  \<open>what()\<close>, or a command that prints to \<open>std::cerr\<close> and returns 1.
\<close>

type_synonym 'a throws = "string + 'a"

definition throw :: "string \<Rightarrow> 'a throws" where
  "throw msg = Inl msg"

definition try_then :: "'e + 'a \<Rightarrow> ('a \<Rightarrow> 'e + 'b) \<Rightarrow> 'e + 'b" where
  "try_then r f = (case r of Inl msg \<Rightarrow> Inl msg | Inr v \<Rightarrow> f v)"

definition throw_if :: "bool \<Rightarrow> string \<Rightarrow> 'a throws \<Rightarrow> 'a throws" where
  "throw_if b msg r = (if b then Inl msg else r)"

text \<open>A loop over a vector whose body may throw, or leave the loop in another way.\<close>

fun loop_throws :: "('s \<Rightarrow> 'x \<Rightarrow> 'e + 's) \<Rightarrow> 's \<Rightarrow> 'x list \<Rightarrow> 'e + 's" where
  "loop_throws f s [] = Inr s"
| "loop_throws f s (x # xs) = try_then (f s x) (\<lambda>s'. loop_throws f s' xs)"

named_theorems throws_simps "how code that may throw returns a value"

lemma try_then_simps [simp]:
  "try_then (Inr v) f = f v" "try_then (Inl e) f = Inl e" "try_then (throw msg) g = throw msg"
  by (simp_all add: try_then_def throw_def)

lemma throw_not_Inr [simp]: "throw msg \<noteq> Inr v" "Inr v \<noteq> throw msg"
  by (simp_all add: throw_def)

lemma throw_if_simps [simp]: "throw_if True msg r = Inl msg" "throw_if False msg r = r"
  by (simp_all add: throw_if_def)

lemma try_then_Inr_iff [throws_simps]: "try_then r f = Inr b \<longleftrightarrow> (\<exists>a. r = Inr a \<and> f a = Inr b)"
  by (cases r) auto

lemma throw_if_Inr_iff [throws_simps]: "throw_if c msg r = Inr b \<longleftrightarrow> \<not> c \<and> r = Inr b"
  by (cases c) auto

lemma loop_throws_append:
  "loop_throws f s (xs @ ys) = try_then (loop_throws f s xs) (\<lambda>s'. loop_throws f s' ys)"
proof (induction xs arbitrary: s)
  case (Cons x xs)
  then show ?case by (cases "f s x") auto
qed simp

text \<open>\<open>r.value()\<close>\<close>

definition value_of :: "'a result \<Rightarrow> ('a \<Rightarrow> 'b throws) \<Rightarrow> 'b throws" where
  "value_of r f = (case r of Err e \<Rightarrow> throw ''std::get: wrong index for variant'' | Ok v \<Rightarrow> f v)"

lemma value_of_simps [simp]: "value_of (Ok v) f = f v"
  by (simp add: value_of_def)

lemma value_of_Inr_iff [throws_simps]: "value_of r f = Inr x \<longleftrightarrow> (\<exists>v. r = Ok v \<and> f v = Inr x)"
  by (cases r) (auto simp: value_of_def)

end
