(* ===== verification/Cli_Proof.thy ===== *)
theory Cli_Proof
  imports Certificates Throwing
begin

text \<open>
  The part of \<open>cli/main.cpp\<close> that builds and proves a statement: the salted preimages, the public
  inputs and the witness of an executed batch, and the commands \<open>prove\<close> and \<open>prove-session\<close> up to
  the rendering of what they computed.
\<close>

definition demo_venue_secret :: bytes where
  "demo_venue_secret = bytes_of_string ''FairCross-demo-venue-secret-0001''"

definition derive_preimages :: "batch \<Rightarrow> nat \<Rightarrow> salted_order_preimage list" where
  "derive_preimages b batch_index =
     map (\<lambda>(i, o1). \<lparr>pre_order = o1, pre_nonce = replicate 32 (of_nat (batch_index * 10 + i) + 1)\<rparr>)
       (enumerate 0 (bat_orders b))"

text \<open>\<open>if (r.is_err()) { std::cerr << text << r.error_message() << newline; return 1; }\<close>\<close>

definition or_print :: "string \<Rightarrow> 'a result \<Rightarrow> ('a \<Rightarrow> 'b throws) \<Rightarrow> 'b throws" where
  "or_print what r f = (case r of Err e \<Rightarrow> throw (what @ error_to_string e @ [CHR 0x0A]) | Ok v \<Rightarrow> f v)"

text \<open>The header, the public inputs and the witness of an executed batch.\<close>

definition proof_inputs ::
  "bytes \<Rightarrow> ledger \<Rightarrow> batch \<Rightarrow> salted_order_preimage list \<Rightarrow> batch_execution_result \<Rightarrow> u64 \<Rightarrow>
     batch_proof_public_inputs \<times> batch_proof_witness" where
  "proof_inputs pre_root pre b preimages exec cutoff =
     (let (tree, accounting) = build_complete_input_accounting b preimages (res_allocation exec);
          header = \<lparr>bh_semantic_version = 1, bh_batch_id = bat_id b, bh_instrument_id = bat_instrument b,
                    bh_cutoff = cutoff, bh_order_count = of_nat (length (bat_orders b)),
                    bh_orders_root = merkle_root tree\<rparr>
      in (\<lparr>pi_pre_state_root = pre_root,
           pi_post_state_root = compute_ledger_root (res_post_state exec) (bat_instrument b),
           pi_batch_header_hash = compute_batch_commitment header,
           pi_oracle_snapshot_hash = compute_oracle_snapshot_commitment None None,
           pi_clearing_price = (case out_price (res_outcome exec) of Some cp \<Rightarrow> cp | None \<Rightarrow> 0),
           pi_cleared_volume = out_volume (res_outcome exec)\<rparr>,
          \<lparr>bw_pre_state = pre, bw_post_state = res_post_state exec, bw_batch = b, bw_preimages = preimages,
           bw_allocation = res_allocation exec, bw_fills = res_fills exec, bw_accounting = accounting,
           bw_oracle_snapshot = None, bw_oracle_policy = None, bw_batch_cutoff = cutoff\<rparr>))"

definition prove_fixture :: "ledger \<Rightarrow> batch \<Rightarrow> bool \<Rightarrow> (batch_proof_public_inputs \<times> batch_proof) throws" where
  "prove_fixture pre_state b verify =
     (let pre = blind_ledger demo_venue_secret pre_state; preimages = derive_preimages b 0 in
      or_print ''Batch execution error: '' (execute_batch pre b) (\<lambda>exec.
      let (pub, w) = proof_inputs (compute_ledger_root pre (bat_instrument b)) pre b preimages exec 1700000000 in
      or_print ''Proof generation error: '' (prove pub w) (\<lambda>proof1.
      if verify then or_print ''Proof verification error: '' (verify_batch_proof pub proof1) (\<lambda>u. Inr (pub, proof1))
      else Inr (pub, proof1))))"

text \<open>The loop of \<open>prove-session\<close> over the batches of the manifest.\<close>

definition session_step ::
  "ledger \<times> bytes \<times> recursive_step list \<Rightarrow> nat \<times> batch \<Rightarrow> (ledger \<times> bytes \<times> recursive_step list) throws" where
  "session_step = (\<lambda>(ledger, current_root, steps) (idx, b).
     or_print (''Batch '' @ dec_string (idx + 1) @ '' execution error: '') (execute_batch ledger b) (\<lambda>exec.
     let timestamp = 1700000000 + of_nat idx * 10;
         (pub, w) = proof_inputs current_root ledger b (derive_preimages b idx) exec timestamp
     in Inr (res_post_state exec, pi_post_state_root pub,
             steps @ [\<lparr>step_public_inputs = pub, step_witness = w, step_timestamp = timestamp\<rparr>])))"

definition prove_manifest :: "ledger \<Rightarrow> batch list \<Rightarrow> bool \<Rightarrow> session_proof throws" where
  "prove_manifest genesis_ledger batches verify =
     (let start = blind_ledger demo_venue_secret genesis_ledger in
      throw_if (batches = []) (''Session manifest contains zero batches'' @ [CHR 0x0A])
     (let inst = bat_instrument (batches ! 0);
          genesis_root = compute_ledger_root start inst;
          initial = genesis genesis_root inst
      in try_then (loop_throws session_step (start, genesis_root, []) (enumerate 0 batches)) (\<lambda>(ledger, root, steps).
         or_print ''Session prove error: '' (prove_session initial steps) (\<lambda>session.
         if verify then
           or_print ''Session verify error: '' (verify_session (sn_public_inputs session) session) (\<lambda>u. Inr session)
         else Inr session))))"

end
