(* ===== verification/Honest.thy ===== *)
theory Honest
  imports Cli_Proof
begin

text \<open>
  The statement that the command line builds for an executed batch is proved, unless the circuit's own
  conditions fail; and its certificate verifies.
\<close>

lemma derive_preimages_orders: "map pre_order (derive_preimages b idx) = bat_orders b"
  unfolding derive_preimages_def map_map
  by (rule nth_equalityI) (auto simp: nth_enumerate_eq)

lemma length_derive_preimages [simp]: "length (derive_preimages b idx) = length (bat_orders b)"
  by (simp add: derive_preimages_def)

lemma built_record_indices:
  "map rec_leaf_index (map (built_record am leaves) (enumerate 0 ps)) = [0..<length ps]"
  "map rec_order_id (map (built_record am leaves) (enumerate 0 ps)) = map ord_id (map pre_order ps)"
  "length leaves = length ps \<Longrightarrow> map rec_commitment (map (built_record am leaves) (enumerate 0 ps)) = leaves"
  by (rule nth_equalityI; auto simp: built_record_def nth_enumerate_eq)+

text \<open>The conditions that the circuit adds to an execution.\<close>

definition provable :: "ledger \<Rightarrow> batch \<Rightarrow> batch_execution_result \<Rightarrow> bool" where
  "provable pre b e \<longleftrightarrow> is_ok (total_inventory_of pre (bat_instrument b)) \<and> numbered (bat_orders b)
     \<and> list_all fill_fits (res_fills e)
     \<and> list_all (\<lambda>k. high_cash (res_post_state e) k = high_cash pre k) (om_keys pre)"

lemma honest_prove:
  assumes wf: "wf_batch b" and e: "execute_batch pre b = Ok e" and n: "length (bat_orders b) < 2 ^ 32"
    and pw: "proof_inputs (compute_ledger_root pre (bat_instrument b)) pre b (derive_preimages b idx) e cutoff = (pub, w)"
  shows "is_ok (prove pub w) \<longleftrightarrow> provable pre b e"
    and "pi_post_state_root pub = compute_ledger_root (res_post_state e) (bat_instrument b)"
    and "pi_pre_state_root pub = compute_ledger_root pre (bat_instrument b)"
    and "bw_batch w = b" and "bw_pre_state w = pre" and "bw_oracle_snapshot w = None"
    and "bind_inputs pub w = Ok (new_merkle_tree (map commit_order (bw_preimages w)), bw_accounting w)"
proof -
  let ?ps = "derive_preimages b idx" and ?i = "bat_instrument b"
  let ?leaves = "map commit_order ?ps"
  let ?rs = "map (built_record (allocation_quantities (res_allocation e)) ?leaves) (enumerate 0 ?ps)"
  let ?tree = "new_merkle_tree ?leaves"
  obtain full part unf where build: "build_complete_input_accounting b ?ps (res_allocation e) = (?tree,
       \<lparr>cia_records = ?rs, cia_total_committed = length ?ps, cia_total_fully = full,
        cia_total_partially = part, cia_total_unfilled = unf, cia_total_cancelled = 0, cia_total_expired = 0\<rparr>)"
    by (rule build_eq)
  have out: "determine_clearing_outcome b = Ok (res_outcome e)"
    using e by (simp add: execute_batch_Ok_iff batch_stages_def)
  have w: "bw_batch w = b" "bw_pre_state w = pre" "bw_post_state w = res_post_state e" "bw_preimages w = ?ps"
    "bw_allocation w = res_allocation e" "bw_fills w = res_fills e" "bw_oracle_snapshot w = None" "bw_oracle_policy w = None"
    "bw_batch_cutoff w = cutoff"
    "bw_accounting w = \<lparr>cia_records = ?rs, cia_total_committed = length ?ps, cia_total_fully = full,
        cia_total_partially = part, cia_total_unfilled = unf, cia_total_cancelled = 0, cia_total_expired = 0\<rparr>"
    and pub: "pi_pre_state_root pub = compute_ledger_root pre ?i"
    "pi_post_state_root pub = compute_ledger_root (res_post_state e) ?i"
    "pi_oracle_snapshot_hash pub = compute_oracle_snapshot_commitment None None"
    "pi_clearing_price pub = (case out_price (res_outcome e) of Some cp \<Rightarrow> cp | None \<Rightarrow> 0)"
    "pi_cleared_volume pub = out_volume (res_outcome e)"
    "pi_batch_header_hash pub = compute_batch_commitment (reconstructed_header w ?tree)"
    using pw by (auto simp: proof_inputs_def build Let_def reconstructed_header_def)
  then show "pi_post_state_root pub = compute_ledger_root (res_post_state e) ?i"
    "pi_pre_state_root pub = compute_ledger_root pre ?i" "bw_batch w = b" "bw_pre_state w = pre" "bw_oracle_snapshot w = None" by simp_all
  have "published_price pub = out_price (res_outcome e)"
    using clearing_price_nonzero [OF wf out]
    by (auto simp: published_price_def pub word_gt_0 split: option.splits)
  then have result: "proposed_result pub w = e"
    by (cases e) (simp add: proposed_result_def w pub)
  have bound: "well_bound pub w ?rs"
    using n by (simp add: well_bound_def w built_record_indices derive_preimages_orders pub del: map_map)
  have acc: "(bw_accounting w)\<lparr>cia_records := ?rs\<rparr> = bw_accounting w" by (simp add: w)
  have bind_ok: "bind_inputs pub w = Ok (?tree, bw_accounting w)"
    unfolding bind_inputs_Ok w(4) using bound acc by (metis)
  then show "bind_inputs pub w = Ok (new_merkle_tree (map commit_order (bw_preimages w)), bw_accounting w)"
    unfolding w(4) .
  have verified: "verify_complete_input_accounting b ?tree (bw_accounting w) (res_allocation e) = Ok ()"
    using build_then_verify [OF wf, of ?ps "res_allocation e"] by (simp add: build w derive_preimages_orders)
  have trans: "verify_transition pre b e = Ok () \<longleftrightarrow> is_ok (total_inventory_of pre ?i)"
    unfolding verify_transition_engine [OF wf] using e by auto
  have check: "check_statement pub w ?tree (bw_accounting w) = Ok () \<longleftrightarrow> is_ok (total_inventory_of pre ?i)"
    unfolding check_statement_Ok result w(1-8) pub trans using verified by simp
  have "circuit_conditions w \<and> oracle_accepts pub w \<longleftrightarrow> numbered (bat_orders b) \<and> list_all fill_fits (res_fills e)
     \<and> list_all (\<lambda>k. high_cash (res_post_state e) k = high_cash pre k) (om_keys pre)"
    by (simp add: circuit_conditions_def oracle_accepts_def w)
  moreover have "wf_batch (bw_batch w)" using wf w by simp
  ultimately show "is_ok (prove pub w) \<longleftrightarrow> provable pre b e"
    unfolding prove_ok_iff [OF \<open>wf_batch (bw_batch w)\<close>] provable_def bind_ok using check by auto
qed

section \<open>Sizes\<close>

lemma length_candidates: "length (candidate_prices_from_orders orders) \<le> length orders"
proof -
  have "length (candidate_prices_from_orders orders) = card (ord_price ` set orders)"
    unfolding candidates_eq by simp
  also have "\<dots> \<le> length orders" by (metis card_image_le card_length finite_set le_trans)
  finally show ?thesis .
qed

lemma stage_sizes:
  assumes "wf_batch b" "batch_stages b out alloc fills"
  shows "length (ba_allocations alloc) = length (bat_orders b) \<and> length fills \<le> length (bat_orders b)"
  using assms
proof (cases rule: batch_stages_cases)
  case (2 cp)
  have "length (executed (ba_allocations alloc)) \<le> length (ba_allocations alloc)"
    by (simp add: executed_def)
  then show ?thesis by (simp add: 2(3,4))
qed simp

lemma honest_count:
  assumes wf: "wf_batch b" and e: "execute_batch pre b = Ok e" and n: "length (bat_orders b) < 2 ^ 32"
    and pw: "proof_inputs root pre b ps e cutoff = (pub, w)" and "om_size pre < 2 ^ 62"
  shows "constraint_count pub w < 2 ^ 64"
proof -
  have st: "batch_stages b (res_outcome e) (res_allocation e) (res_fills e)"
    using e by (simp add: execute_batch_Ok_iff)
  have w: "bw_batch w = b" "bw_pre_state w = pre" "bw_allocation w = res_allocation e" "bw_fills w = res_fills e"
    using pw by (auto simp: proof_inputs_def Let_def split: prod.splits)
  have "crossed_count pub w \<le> length (bat_orders b) + 2 + 3 * length (bat_orders b)"
    using stage_sizes [OF wf st] by (simp add: crossed_count_def w)
  moreover have "oracle_count pub w \<le> 3" by (simp add: oracle_count_def)
  ultimately show ?thesis
    using n assms(5) length_candidates [of "bat_orders b"] by (simp add: constraint_count_def w om_size_def)
qed

lemma fill_fits_word: "fill_fits f \<longleftrightarrow> fill_consideration f < 18446744073709551616"
  by (simp add: fill_fits_def word_less_nat_alt)

lemma small_cash:
  assumes "list_all (\<lambda>(k, acc). acc_cash acc < 18446744073709551616) (om_entries l)"
  shows "high_cash l k = 0"
proof (cases "om_find l k")
  case None
  then show ?thesis by (simp add: high_cash_def cash_of_def)
next
  case (Some acc)
  then have "(k, acc) \<in> set (om_entries l)" by (simp add: om.mem_entries)
  then have "acc_cash acc < 18446744073709551616" using assms by (auto simp: list_all_iff)
  then show ?thesis using Some by (simp add: high_cash_def cash_of_def word_less_nat_alt)
qed

text \<open>A sufficient condition that evaluates on words.\<close>

definition small_amounts :: "ledger \<Rightarrow> batch \<Rightarrow> batch_execution_result \<Rightarrow> bool" where
  "small_amounts pre b e \<longleftrightarrow> is_ok (total_inventory_of pre (bat_instrument b)) \<and> numbered (bat_orders b)
     \<and> list_all (\<lambda>f. fill_consideration f < 18446744073709551616) (res_fills e)
     \<and> list_all (\<lambda>(k, acc). acc_cash acc < 18446744073709551616) (om_entries (res_post_state e))
     \<and> list_all (\<lambda>(k, acc). acc_cash acc < 18446744073709551616) (om_entries pre)"

lemma small_amounts_provable: "small_amounts pre b e \<Longrightarrow> provable pre b e"
  by (simp add: small_amounts_def provable_def small_cash) (simp add: list_all_iff fill_fits_word)

section \<open>The command\<close>

lemma or_print_Inr_iff [throws_simps]: "or_print what r f = Inr y \<longleftrightarrow> (\<exists>v. r = Ok v \<and> f v = Inr y)"
  by (cases r) (auto simp: or_print_def throw_def)

lemma om_size_blind [simp]: "om_size (blind_ledger secret l) = om_size l"
  by (simp add: blind_ledger_def om_size_card dom_def)

text \<open>C18: the \<open>prove\<close> command, with or without \<open>--verify\<close>, produces a proof for exactly the batches that
  execute and meet the conditions of the circuit: the inventory total of the instrument fits its type, orders
  carry their positions as sequence numbers, no consideration needs more than 64 bits, and no
  account's cash crosses a multiple of two to the 64.\<close>

theorem prove_command_succeeds_iff:
  assumes "wf_batch b" and "length (bat_orders b) < 2 ^ 32" and "om_size pre_state < 2 ^ 62"
  shows "(\<exists>r. prove_fixture pre_state b verify = Inr r) \<longleftrightarrow>
    (\<exists>e. execute_batch (blind_ledger demo_venue_secret pre_state) b = Ok e
       \<and> provable (blind_ledger demo_venue_secret pre_state) b e)"
proof -
  let ?pre = "blind_ledger demo_venue_secret pre_state"
  have "(\<exists>r. (case proof_inputs (compute_ledger_root ?pre (bat_instrument b)) ?pre b (derive_preimages b 0) e 1700000000 of
      (pub, w) \<Rightarrow> or_print ''Proof generation error: '' (prove pub w) (\<lambda>proof1.
        if verify then or_print ''Proof verification error: '' (verify_batch_proof pub proof1) (\<lambda>u. Inr (pub, proof1))
        else Inr (pub, proof1))) = Inr r) \<longleftrightarrow> provable ?pre b e" if e: "execute_batch ?pre b = Ok e" for e
  proof -
    obtain pub w where pw: "proof_inputs (compute_ledger_root ?pre (bat_instrument b)) ?pre b (derive_preimages b 0) e 1700000000 = (pub, w)"
      by fastforce
    have "constraint_count pub w < 2 ^ 64" by (rule honest_count [OF assms(1) e assms(2) pw]) (use assms(3) in simp)
    then have "verify_batch_proof pub proof1 = Ok ()" if "prove pub w = Ok proof1" for proof1
      using proof_verifies [OF that] by simp
    then show ?thesis
      using honest_prove(1) [OF assms(1) e assms(2) pw]
      by (auto simp: pw is_ok_iff throws_simps split: if_splits)
  qed
  then show ?thesis unfolding prove_fixture_def Let_def throws_simps by blast
qed


lemma blinded_sample:
  "case execute_batch (om_map (\<lambda>k acc. set_commitment_salt (f k) acc) sample_ledger) sample_batch of
     Ok e \<Rightarrow> small_amounts (om_map (\<lambda>k acc. set_commitment_salt (f k) acc) sample_ledger) sample_batch e
   | Err e \<Rightarrow> False"
  by code_simp

theorem prove_command_succeeds_iff_witness: "\<exists>r. prove_fixture sample_ledger sample_batch True = Inr r"
proof -
  have "\<exists>e. execute_batch (blind_ledger demo_venue_secret sample_ledger) sample_batch = Ok e
       \<and> provable (blind_ledger demo_venue_secret sample_ledger) sample_batch e"
    using blinded_sample [of "derive_account_salt demo_venue_secret"] small_amounts_provable
    by (auto simp: blind_ledger_def split: result.splits)
  moreover have "length (bat_orders sample_batch) = 2" "om_size sample_ledger = 2" by code_simp+
  ultimately show ?thesis
    using prove_command_succeeds_iff [OF sample_wf, of sample_ledger True] by simp
qed

end
