(* ===== verification/Session_Proofs.thy ===== *)
theory Session_Proofs
  imports Honest
begin

text \<open>
  What a proved session guarantees: its steps form a chain, its certificate chain is accepted by the
  session verifier, and its history accumulator binds the published trades up to a hash collision.
\<close>

section \<open>One fold\<close>

lemma fold_step_Ok:
  "fold_step pub w t st = Ok st' \<longleftrightarrow>
     bat_id (bw_batch w) = rs_batch_id st + 1 \<and> bat_instrument (bw_batch w) = rs_instrument st
   \<and> rs_timestamp st \<le> t \<and> pi_pre_state_root pub = rs_ledger_root st \<and> is_ok (prove pub w)
   \<and> st' = \<lparr>rs_ledger_root = pi_post_state_root pub, rs_history = next_history (rs_history st) pub,
            rs_batch_id = bat_id (bw_batch w), rs_timestamp = t, rs_instrument = rs_instrument st\<rparr>"
  by (auto simp: fold_step_def result_simps not_less is_ok_iff)

lemma prove_step_Ok:
  "prove_step (st, ps) (idx, stp) = Ok (st', ps') \<longleftrightarrow>
     fold_step (step_public_inputs stp) (step_witness stp) (step_timestamp stp) st = Ok st'
   \<and> (\<exists>proof1. prove (step_public_inputs stp) (step_witness stp) = Ok proof1 \<and> ps' = ps @ [proof1])"
  by (auto simp: prove_step_def split: result.splits)

lemma prove_steps_Cons:
  "loop_result prove_step (st, ps) (enumerate k (stp # steps)) = Ok (st', ps') \<longleftrightarrow>
     (\<exists>st1 proof1. fold_step (step_public_inputs stp) (step_witness stp) (step_timestamp stp) st = Ok st1
       \<and> prove (step_public_inputs stp) (step_witness stp) = Ok proof1
       \<and> loop_result prove_step (st1, ps @ [proof1]) (enumerate (Suc k) steps) = Ok (st', ps'))"
proof -
  have "loop_result prove_step (st, ps) (enumerate k (stp # steps)) = Ok (st', ps') \<longleftrightarrow>
     (\<exists>st1 ps1. prove_step (st, ps) (k, stp) = Ok (st1, ps1)
       \<and> loop_result prove_step (st1, ps1) (enumerate (Suc k) steps) = Ok (st', ps'))"
    by (auto simp: and_then_Ok_iff)
  then show ?thesis by (auto simp: prove_step_Ok)
qed

section \<open>The chain of the steps\<close>

text \<open>The running states a session passes through, without the proofs.\<close>

definition step_summary :: "recursive_step \<Rightarrow> running_state \<Rightarrow> running_state" where
  "step_summary stp st =
     \<lparr>rs_ledger_root = pi_post_state_root (step_public_inputs stp),
      rs_history = next_history (rs_history st) (step_public_inputs stp),
      rs_batch_id = rs_batch_id st + 1, rs_timestamp = step_timestamp stp, rs_instrument = rs_instrument st\<rparr>"

fun chained :: "running_state \<Rightarrow> recursive_step list \<Rightarrow> bool" where
  "chained st [] = True"
| "chained st (stp # steps) \<longleftrightarrow>
     bat_id (bw_batch (step_witness stp)) = rs_batch_id st + 1
   \<and> bat_instrument (bw_batch (step_witness stp)) = rs_instrument st
   \<and> rs_timestamp st \<le> step_timestamp stp
   \<and> pi_pre_state_root (step_public_inputs stp) = rs_ledger_root st
   \<and> is_ok (prove (step_public_inputs stp) (step_witness stp))
   \<and> chained (step_summary stp st) steps"

definition the_proof :: "recursive_step \<Rightarrow> batch_proof" where
  "the_proof stp = the_value (prove (step_public_inputs stp) (step_witness stp))"

lemma fold_step_summary:
  "fold_step (step_public_inputs stp) (step_witness stp) (step_timestamp stp) st = Ok st1 \<longleftrightarrow>
     chained st [stp] \<and> st1 = step_summary stp st"
  by (auto simp: fold_step_Ok step_summary_def)

lemma prove_steps_iff:
  "loop_result prove_step (st, ps) (enumerate k steps) = Ok (st', ps') \<longleftrightarrow>
     chained st steps \<and> st' = foldl (\<lambda>st stp. step_summary stp st) st steps \<and> ps' = ps @ map the_proof steps"
proof (induction steps arbitrary: st ps k)
  case (Cons stp steps)
  show ?case
    unfolding prove_steps_Cons Cons.IH fold_step_summary
    by (auto simp: the_proof_def is_ok_iff)
qed auto

lemma prove_session_iff:
  "prove_session start steps = Ok s \<longleftrightarrow> steps \<noteq> [] \<and> chained start steps
     \<and> (let final = foldl (\<lambda>st stp. step_summary stp st) start steps in
        s = \<lparr>sn_version = 1, sn_num_batches = length steps,
             sn_public_inputs = \<lparr>sp_initial_state = start, sp_final_state = final\<rparr>,
             sn_step_proofs = map the_proof steps, sn_certificate = session_certificate (length steps) final\<rparr>)"
  unfolding prove_session_def reject_if_Ok_iff and_then_Ok_iff
  by (auto simp: prove_steps_iff Let_def)

section \<open>The session verifier\<close>

lemma replay_proof_Ok:
  "replay_proof (hist, root) (idx, proof1) = Ok st \<longleftrightarrow>
     verify_batch_proof (bp_public_inputs proof1) proof1 = Ok ()
   \<and> pi_pre_state_root (bp_public_inputs proof1) = root
   \<and> st = (next_history hist (bp_public_inputs proof1), pi_post_state_root (bp_public_inputs proof1))"
  by (auto simp: replay_proof_def result_simps split: result.splits)

lemma replay_proofs_Cons:
  "loop_result replay_proof (hist, root) (enumerate k (proof1 # proofs)) = Ok st \<longleftrightarrow>
     verify_batch_proof (bp_public_inputs proof1) proof1 = Ok ()
   \<and> pi_pre_state_root (bp_public_inputs proof1) = root
   \<and> loop_result replay_proof (next_history hist (bp_public_inputs proof1), pi_post_state_root (bp_public_inputs proof1))
       (enumerate (Suc k) proofs) = Ok st"
  unfolding enumerate_simps loop_result.simps and_then_Ok_iff replay_proof_Ok by blast

lemma replay_chained:
  assumes "chained st steps"
    and "list_all (\<lambda>stp. constraint_count (step_public_inputs stp) (step_witness stp) < 2 ^ 64) steps"
  shows "loop_result replay_proof (rs_history st, rs_ledger_root st) (enumerate k (map the_proof steps)) =
    (let final = foldl (\<lambda>st stp. step_summary stp st) st steps in Ok (rs_history final, rs_ledger_root final))"
  using assms
proof (induction steps arbitrary: st k)
  case (Cons stp steps)
  then obtain proof1 where p: "prove (step_public_inputs stp) (step_witness stp) = Ok proof1"
    by (auto simp: is_ok_iff)
  then have tp: "the_proof stp = proof1" "bp_public_inputs proof1 = step_public_inputs stp"
    using prove_certificate [OF p] by (simp_all add: the_proof_def)
  have v: "verify_batch_proof (step_public_inputs stp) proof1 = Ok ()"
    using proof_verifies [OF p] Cons.prems by simp
  have IH: "loop_result replay_proof (rs_history (step_summary stp st), rs_ledger_root (step_summary stp st))
      (enumerate (Suc k) (map the_proof steps)) =
    (let final = foldl (\<lambda>st stp. step_summary stp st) (step_summary stp st) steps in Ok (rs_history final, rs_ledger_root final))"
    using Cons.prems by (intro Cons.IH) simp_all
  have s: "rs_history (step_summary stp st) = next_history (rs_history st) (step_public_inputs stp)"
    "rs_ledger_root (step_summary stp st) = pi_post_state_root (step_public_inputs stp)"
    by (simp_all add: step_summary_def)
  show ?case
    using IH Cons.prems v
    by (simp add: Let_def replay_proofs_Cons tp s del: enumerate_simps)
qed (simp add: Let_def)

text \<open>A session that was proved is accepted by the session verifier, whose replay recomputes the final
  ledger root and history accumulator, as long as the constraint counts in the certificates fit the
  integer the verifier parses.\<close>

theorem proved_session_verifies:
  assumes "prove_session start steps = Ok s"
    and "list_all (\<lambda>stp. constraint_count (step_public_inputs stp) (step_witness stp) < 2 ^ 64) steps"
  shows "verify_session (sn_public_inputs s) s = Ok ()"
  using assms replay_chained [of start steps 0]
  by (auto simp: prove_session_iff verify_session_def Let_def)

section \<open>What a proved session guarantees\<close>

lemma chained_ids: "chained st steps \<Longrightarrow>
   map (\<lambda>stp. bat_id (bw_batch (step_witness stp))) steps
     = map (\<lambda>i. rs_batch_id st + of_nat i + 1) [0..<length steps]"
proof (induction steps arbitrary: st)
  case (Cons stp steps)
  have "map (\<lambda>stp. bat_id (bw_batch (step_witness stp))) steps
     = map (\<lambda>i. rs_batch_id (step_summary stp st) + of_nat i + 1) [0..<length steps]"
    using Cons by simp
  moreover have "map (\<lambda>i. rs_batch_id (step_summary stp st) + of_nat i + 1) [0..<n]
      = map (\<lambda>i. rs_batch_id st + of_nat i + 1) [Suc 0..<Suc n]" for n
    by (simp add: step_summary_def map_Suc_upt [symmetric] add.assoc del: upt_Suc)
  ultimately show ?case
    using Cons.prems by (simp add: upt_conv_Cons del: upt_Suc)
qed simp

lemma chained_roots: "chained st steps \<Longrightarrow>
   map (\<lambda>stp. pi_pre_state_root (step_public_inputs stp)) steps @ [rs_ledger_root (foldl (\<lambda>st stp. step_summary stp st) st steps)]
     = rs_ledger_root st # map (\<lambda>stp. pi_post_state_root (step_public_inputs stp)) steps"
proof (induction steps arbitrary: st)
  case (Cons stp steps)
  then show ?case using Cons.IH [of "step_summary stp st"] by (simp add: step_summary_def)
qed simp

lemma chained_times: "chained st steps \<Longrightarrow> sorted (rs_timestamp st # map step_timestamp steps)"
proof (induction steps arbitrary: st)
  case (Cons stp steps)
  then have "sorted (rs_timestamp (step_summary stp st) # map step_timestamp steps)" by (intro Cons.IH) simp
  then show ?case using Cons.prems by (auto simp: step_summary_def)
qed simp

lemma chained_instruments: "chained st steps \<Longrightarrow>
   list_all (\<lambda>stp. bat_instrument (bw_batch (step_witness stp)) = rs_instrument st) steps"
  by (induction steps arbitrary: st) (auto simp: step_summary_def list_all_iff)

lemma chained_proved: "chained st steps \<Longrightarrow>
   list_all (\<lambda>stp. is_ok (prove (step_public_inputs stp) (step_witness stp))) steps"
  by (induction steps arbitrary: st) auto

text \<open>C19: the steps of a proved session form a chain: consecutive batch identifiers, one instrument,
  timestamps that never decrease, each step starting from the ledger root where the one before ended
  (the first from the initial state, the last ending in the final state), and a proof of every step.\<close>

theorem proved_session_is_chain:
  assumes "prove_session start steps = Ok s"
  shows "map (\<lambda>stp. bat_id (bw_batch (step_witness stp))) steps
      = map (\<lambda>i. rs_batch_id start + of_nat i + 1) [0..<length steps]
    \<and> list_all (\<lambda>stp. bat_instrument (bw_batch (step_witness stp)) = rs_instrument start) steps
    \<and> sorted (rs_timestamp start # map step_timestamp steps)
    \<and> map (\<lambda>stp. pi_pre_state_root (step_public_inputs stp)) steps @ [rs_ledger_root (sp_final_state (sn_public_inputs s))]
      = rs_ledger_root start # map (\<lambda>stp. pi_post_state_root (step_public_inputs stp)) steps
    \<and> list_all2 (\<lambda>stp proof1. prove (step_public_inputs stp) (step_witness stp) = Ok proof1) steps (sn_step_proofs s)"
proof -
  have c: "chained start steps" and s: "sn_step_proofs s = map the_proof steps"
    "rs_ledger_root (sp_final_state (sn_public_inputs s)) = rs_ledger_root (foldl (\<lambda>st stp. step_summary stp st) start steps)"
    using assms by (simp_all add: prove_session_iff Let_def)
  have "list_all2 (\<lambda>stp proof1. prove (step_public_inputs stp) (step_witness stp) = Ok proof1) steps (map the_proof steps)"
    using chained_proved [OF c] by (auto simp: list_all2_conv_all_nth list_all_length the_proof_def is_ok_iff)
  then show ?thesis
    using chained_ids [OF c] chained_instruments [OF c] chained_times [OF c] chained_roots [OF c] by (simp add: s)
qed

section \<open>The history accumulator\<close>

definition trade :: "batch_proof_public_inputs \<Rightarrow> bytes \<times> u64 \<times> u64" where
  "trade pub = (pi_batch_header_hash pub, pi_clearing_price pub, pi_cleared_volume pub)"

text \<open>What two different histories with one accumulator give away: two messages with the same hash, or a
  message whose hash is the accumulator a session starts from, which is all zeros at genesis.\<close>

datatype hash_break = Collision bytes bytes | Preimage bytes | No_Break

fun breaks :: "bytes \<Rightarrow> hash_break \<Rightarrow> bool" where
  "breaks start (Collision m m') \<longleftrightarrow> collision (m, m')"
| "breaks start (Preimage m) \<longleftrightarrow> sha256_spec m = start"
| "breaks start No_Break \<longleftrightarrow> False"

text \<open>The steps are compared from the last to the first; the lists are in that order.\<close>

abbreviation accumulated :: "bytes \<Rightarrow> batch_proof_public_inputs list \<Rightarrow> bytes" where
  "accumulated start ps \<equiv> foldr (\<lambda>p h. next_history h p) ps start"

fun history_break ::
  "bytes \<Rightarrow> batch_proof_public_inputs list \<Rightarrow> batch_proof_public_inputs list \<Rightarrow> hash_break" where
  "history_break start (p # ps) (q # qs) =
     (if history_payload (accumulated start ps) p = history_payload (accumulated start qs) q then history_break start ps qs
      else Collision (leaf_message (history_payload (accumulated start ps) p))
        (leaf_message (history_payload (accumulated start qs) q)))"
| "history_break start (p # ps) [] = Preimage (leaf_message (history_payload (accumulated start ps) p))"
| "history_break start [] (q # qs) = Preimage (leaf_message (history_payload (accumulated start qs) q))"
| "history_break start [] [] = No_Break"

lemma length_next_history [simp]: "length (next_history h p) = 32"
  by (simp add: next_history_def)

lemma history_payload_inject:
  assumes "length h = 32" "length h' = 32" "length (pi_batch_header_hash p) = 32" "length (pi_batch_header_hash q) = 32"
  shows "history_payload h p = history_payload h' q \<longleftrightarrow> h = h' \<and> trade p = trade q"
  using assms by (simp add: history_payload_def trade_def append_same_length)

lemma next_history_spec: "next_history h p = sha256_spec (leaf_message (history_payload h p))"
  by (simp add: next_history_def scheme_spec leaf_message_def)

lemma length_accumulated: "length start = 32 \<Longrightarrow> length (accumulated start ps) = 32"
  by (cases ps) simp_all

lemma histories_bind:
  assumes "length start = 32" "list_all (\<lambda>p. length (pi_batch_header_hash p) = 32) (ps @ qs)"
    and "accumulated start ps = accumulated start qs"
  shows "map trade ps = map trade qs \<or> breaks start (history_break start ps qs)"
  using assms
proof (induction start ps qs rule: history_break.induct)
  case (1 start p ps q qs)
  let ?h = "accumulated start ps" and ?h' = "accumulated start qs"
  show ?case
  proof (cases "history_payload ?h p = history_payload ?h' q")
    case True
    moreover from True have "?h = ?h'" "trade p = trade q"
      using history_payload_inject [of ?h ?h' p q] 1(3) length_accumulated [OF 1(2)] by simp_all
    ultimately show ?thesis using 1 by simp
  next
    case False
    with 1(4) show ?thesis by (simp add: collision_iff next_history_spec leaf_message_def)
  qed
qed (auto simp: next_history_spec)

lemma replay_history:
  "loop_result replay_proof (hist, root) (enumerate k proofs) = Ok (hist', root') \<Longrightarrow>
   hist' = foldl next_history hist (map bp_public_inputs proofs)"
proof (induction proofs arbitrary: hist root k)
  case (Cons proof1 proofs)
  from Cons.prems have "loop_result replay_proof (next_history hist (bp_public_inputs proof1),
      pi_post_state_root (bp_public_inputs proof1)) (enumerate (Suc k) proofs) = Ok (hist', root')"
    unfolding replay_proofs_Cons by blast
  from Cons.IH [OF this] show ?case by simp
qed simp

lemma verified_history:
  assumes "verify_session expected s = Ok ()"
  shows "foldl next_history (rs_history (sp_initial_state expected)) (map bp_public_inputs (sn_step_proofs s))
      = rs_history (sp_final_state expected)"
    and "length (sn_step_proofs s) = sn_num_batches s"
  using assms replay_history [of "rs_history (sp_initial_state expected)" "rs_ledger_root (sp_initial_state expected)" 0]
  by (auto simp: verify_session_def result_simps)

definition well_sized :: "session_proof \<Rightarrow> bool" where
  "well_sized s \<longleftrightarrow> list_all (\<lambda>p. length (pi_batch_header_hash (bp_public_inputs p)) = 32) (sn_step_proofs s)"

text \<open>C20: the public inputs of a session bind its trades.  Two sessions that are accepted for the same
  public inputs publish the same batch headers, clearing prices and volumes, equally many and in the
  same order, or comparing them from the last step back computes two messages with the same hash or a
  message that hashes to the initial accumulator.\<close>

theorem session_history_binds:
  assumes "verify_session expected s = Ok ()" and "verify_session expected s' = Ok ()"
    and "length (rs_history (sp_initial_state expected)) = 32" and "well_sized s" and "well_sized s'"
  shows "map (\<lambda>p. trade (bp_public_inputs p)) (sn_step_proofs s) = map (\<lambda>p. trade (bp_public_inputs p)) (sn_step_proofs s')
    \<or> breaks (rs_history (sp_initial_state expected)) (history_break (rs_history (sp_initial_state expected))
        (rev (map bp_public_inputs (sn_step_proofs s))) (rev (map bp_public_inputs (sn_step_proofs s'))))"
proof -
  let ?start = "rs_history (sp_initial_state expected)"
  let ?ps = "rev (map bp_public_inputs (sn_step_proofs s))" and ?qs = "rev (map bp_public_inputs (sn_step_proofs s'))"
  have "accumulated ?start ?ps = accumulated ?start ?qs"
    using verified_history(1) [OF assms(1)] verified_history(1) [OF assms(2)] by (simp add: foldr_conv_foldl)
  moreover have "list_all (\<lambda>p. length (pi_batch_header_hash p) = 32) (?ps @ ?qs)"
    using assms(4,5) by (auto simp: well_sized_def list_all_iff)
  ultimately have "map trade ?ps = map trade ?qs \<or> breaks ?start (history_break ?start ?ps ?qs)"
    by (rule histories_bind [OF assms(3), rotated])
  then show ?thesis by (simp add: rev_map [symmetric] comp_def)
qed

section \<open>The session command\<close>

fun sequential :: "instrument_id \<Rightarrow> batch_id \<Rightarrow> ledger \<Rightarrow> batch list \<Rightarrow> bool" where
  "sequential inst k l [] = True"
| "sequential inst k l (b # bs) =
     (case execute_batch l b of
        Err e \<Rightarrow> False
      | Ok e \<Rightarrow> bat_id b = k + 1 \<and> bat_instrument b = inst \<and> provable l b e
          \<and> sequential inst (bat_id b) (res_post_state e) bs)"

definition step_time :: "nat \<Rightarrow> u64" where
  "step_time idx = 1700000000 + of_nat idx * 10"

lemma unat_step_time: "k < 2 ^ 32 \<Longrightarrow> unat (step_time k) = 1700000000 + k * 10"
proof -
  assume "k < 2 ^ 32"
  then have "unat (of_nat (1700000000 + k * 10) :: u64) = 1700000000 + k * 10"
    by (subst unat_of_nat) (simp add: take_bit_nat_eq_self)
  then show ?thesis unfolding step_time_def by (simp only: of_nat_add of_nat_mult of_nat_numeral)
qed

lemma session_step_Inr:
  "session_step (l, root, acc) (idx, b) = Inr x \<longleftrightarrow> (\<exists>e pub w. execute_batch l b = Ok e
     \<and> proof_inputs root l b (derive_preimages b idx) e (step_time idx) = (pub, w)
     \<and> x = (res_post_state e, pi_post_state_root pub,
            acc @ [\<lparr>step_public_inputs = pub, step_witness = w, step_timestamp = step_time idx\<rparr>]))"
proof (cases "execute_batch l b")
  case (Ok e)
  obtain pub w where "proof_inputs root l b (derive_preimages b idx) e (step_time idx) = (pub, w)" by fastforce
  with Ok show ?thesis by (auto simp: session_step_def or_print_def step_time_def)
qed (auto simp: session_step_def or_print_def)

lemma session_steps_Cons:
  "loop_throws session_step (l, root, acc) (enumerate k (b # bs)) = Inr x \<longleftrightarrow> (\<exists>e pub w. execute_batch l b = Ok e
     \<and> proof_inputs root l b (derive_preimages b k) e (step_time k) = (pub, w)
     \<and> loop_throws session_step (res_post_state e, pi_post_state_root pub,
         acc @ [\<lparr>step_public_inputs = pub, step_witness = w, step_timestamp = step_time k\<rparr>]) (enumerate (Suc k) bs) = Inr x)"
  unfolding enumerate_simps loop_throws.simps try_then_Inr_iff session_step_Inr by auto

lemma session_steps_extend:
  "loop_throws session_step (l, root, acc) (enumerate k bs) = Inr (l', root', acc') \<Longrightarrow>
   \<exists>new. acc' = acc @ new \<and> length new = length bs"
proof (induction bs arbitrary: l root acc k)
  case (Cons b bs)
  from Cons.prems obtain e pub w where "execute_batch l b = Ok e" and rest: "loop_throws session_step (res_post_state e, pi_post_state_root pub,
      acc @ [\<lparr>step_public_inputs = pub, step_witness = w, step_timestamp = step_time k\<rparr>]) (enumerate (Suc k) bs)
      = Inr (l', root', acc')"
    unfolding session_steps_Cons by blast
  from Cons.IH [OF rest] show ?case by auto
qed simp

lemma execution_keeps_accounts:
  assumes "wf_batch b" "execute_batch l b = Ok e"
  shows "om_size (res_post_state e) = om_size l"
  by (simp add: om_size_card known_accounts(2) [OF assms])

lemma session_counts:
  assumes "list_all wf_batch bs" "list_all (\<lambda>b. length (bat_orders b) < 2 ^ 32) bs" "om_size l < 2 ^ 62"
    and "loop_throws session_step (l, root, acc) (enumerate k bs) = Inr (l', root', acc @ new)"
  shows "list_all (\<lambda>stp. constraint_count (step_public_inputs stp) (step_witness stp) < 2 ^ 64) new"
  using assms
proof (induction bs arbitrary: l root acc k new)
  case (Cons b bs)
  from Cons.prems(4) obtain e pub w where e: "execute_batch l b = Ok e"
    and pw: "proof_inputs root l b (derive_preimages b k) e (step_time k) = (pub, w)"
    and rest: "loop_throws session_step (res_post_state e, pi_post_state_root pub,
        acc @ [\<lparr>step_public_inputs = pub, step_witness = w, step_timestamp = step_time k\<rparr>]) (enumerate (Suc k) bs)
      = Inr (l', root', acc @ new)"
    unfolding session_steps_Cons by blast
  let ?stp = "\<lparr>step_public_inputs = pub, step_witness = w, step_timestamp = step_time k\<rparr>"
  obtain new' where new: "new = ?stp # new'" using session_steps_extend [OF rest] by auto
  have wf: "wf_batch b" and n: "length (bat_orders b) < 2 ^ 32" using Cons.prems(1,2) by simp_all
  have "constraint_count pub w < 2 ^ 64" by (rule honest_count [OF wf e n pw Cons.prems(3)])
  moreover have "list_all (\<lambda>stp. constraint_count (step_public_inputs stp) (step_witness stp) < 2 ^ 64) new'"
    using Cons.prems rest execution_keeps_accounts [OF wf e]
    by (intro Cons.IH [of "res_post_state e" "pi_post_state_root pub" "acc @ [?stp]" "Suc k" new']) (simp_all add: new)
  ultimately show ?case by (simp add: new)
qed simp

lemma session_chain_iff:
  assumes "list_all wf_batch bs" "list_all (\<lambda>b. length (bat_orders b) < 2 ^ 32) bs" "k + length bs < 2 ^ 32"
    and "rs_instrument st = inst" "rs_ledger_root st = root" "root = compute_ledger_root l inst"
    and "rs_timestamp st \<le> step_time k"
  shows "(\<exists>l' root' new. loop_throws session_step (l, root, acc) (enumerate k bs) = Inr (l', root', acc @ new) \<and> chained st new)
    \<longleftrightarrow> sequential inst (rs_batch_id st) l bs"
  using assms
proof (induction bs arbitrary: k st l root acc)
  case Nil
  show ?case by simp
next
  case (Cons b bs)
  have wf: "wf_batch b" and n: "length (bat_orders b) < 2 ^ 32" using Cons.prems(1,2) by simp_all
  show ?case
  proof (cases "execute_batch l b")
    case (Err err)
    then show ?thesis by (auto simp: session_steps_Cons simp del: enumerate_simps loop_throws.simps)
  next
    case (Ok e)
    obtain pub w where pw: "proof_inputs root l b (derive_preimages b k) e (step_time k) = (pub, w)" by fastforce
    let ?stp = "\<lparr>step_public_inputs = pub, step_witness = w, step_timestamp = step_time k\<rparr>"
    let ?loop = "loop_throws session_step (res_post_state e, pi_post_state_root pub, acc @ [?stp]) (enumerate (Suc k) bs)"
    have "(\<exists>l' root' new. loop_throws session_step (l, root, acc) (enumerate k (b # bs)) = Inr (l', root', acc @ new) \<and> chained st new)
      \<longleftrightarrow> (\<exists>l' root' new. ?loop = Inr (l', root', acc @ new) \<and> chained st new)"
      unfolding session_steps_Cons by (simp add: Ok pw)
    also have "\<dots> \<longleftrightarrow> (\<exists>l' root' new'. ?loop = Inr (l', root', (acc @ [?stp]) @ new') \<and> chained st (?stp # new'))"
      using session_steps_extend [of "res_post_state e" "pi_post_state_root pub" "acc @ [?stp]" "Suc k" bs] by fastforce
    finally have split: "(\<exists>l' root' new. loop_throws session_step (l, root, acc) (enumerate k (b # bs)) = Inr (l', root', acc @ new) \<and> chained st new)
      \<longleftrightarrow> (\<exists>l' root' new'. ?loop = Inr (l', root', (acc @ [?stp]) @ new') \<and> chained st (?stp # new'))" .
    have bw: "bw_batch w = b" using pw by (auto simp: proof_inputs_def Let_def split: prod.splits)
    show ?thesis
    proof (cases "bat_id b = rs_batch_id st + 1 \<and> bat_instrument b = inst")
      case False
      then show ?thesis unfolding split using Ok Cons.prems(4) by (auto simp: bw)
    next
      case True
      have pw': "proof_inputs (compute_ledger_root l (bat_instrument b)) l b (derive_preimages b k) e (step_time k) = (pub, w)"
        using pw True Cons.prems(6) by simp
      note h = honest_prove [OF wf Ok n pw']
      have "step_time k \<le> step_time (Suc k)"
        using Cons.prems(3) by (simp add: word_le_nat_alt unat_step_time)
      then have IH: "(\<exists>l' root' new'. ?loop = Inr (l', root', (acc @ [?stp]) @ new') \<and> chained (step_summary ?stp st) new')
          \<longleftrightarrow> sequential inst (rs_batch_id (step_summary ?stp st)) (res_post_state e) bs"
        using Cons.prems h(2) True by (intro Cons.IH) (simp_all add: step_summary_def)
      have head: "chained st (?stp # new') \<longleftrightarrow> provable l b e \<and> chained (step_summary ?stp st) new'" for new'
        using True Cons.prems h by (simp add: bw)
      have id: "rs_batch_id (step_summary ?stp st) = bat_id b" using True by (simp add: step_summary_def)
      show ?thesis unfolding split head using IH unfolding id by (auto simp: Ok True)
    qed
  qed
qed

lemma manifest_steps:
  assumes "list_all wf_batch bs" "list_all (\<lambda>b. length (bat_orders b) < 2 ^ 32) bs" "length bs < 2 ^ 32"
    and "bs \<noteq> []" "sequential (bat_instrument (bs ! 0)) 0 l bs" "om_size l < 2 ^ 62"
  obtains l' root' steps s where
    "loop_throws session_step (l, compute_ledger_root l (bat_instrument (bs ! 0)), []) (enumerate 0 bs) = Inr (l', root', steps)"
    and "prove_session (genesis (compute_ledger_root l (bat_instrument (bs ! 0))) (bat_instrument (bs ! 0))) steps = Ok s"
    and "list_all (\<lambda>stp. constraint_count (step_public_inputs stp) (step_witness stp) < 2 ^ 64) steps"
    and "length steps = length bs"
proof -
  let ?i = "bat_instrument (bs ! 0)" let ?g = "genesis (compute_ledger_root l ?i) ?i"
  obtain l' root' steps where loop: "loop_throws session_step (l, compute_ledger_root l ?i, []) (enumerate 0 bs) = Inr (l', root', steps)"
    and c: "chained ?g steps"
    using session_chain_iff [OF assms(1,2), of 0 ?g ?i "compute_ledger_root l ?i" l "[]"] assms
    by (auto simp: genesis_def)
  have "length steps = length bs" using session_steps_extend [OF loop] by simp
  moreover from this have "steps \<noteq> []" using assms(4) by auto
  moreover have "list_all (\<lambda>stp. constraint_count (step_public_inputs stp) (step_witness stp) < 2 ^ 64) steps"
    using session_counts [OF assms(1,2,6), of _ "[]"] loop by fastforce
  ultimately show ?thesis using loop c that unfolding prove_session_iff Let_def by blast
qed


text \<open>C21: the \<open>prove-session\<close> command, with or without \<open>--verify\<close>, produces a session proof exactly when
  the manifest has batches that all trade one instrument, are numbered consecutively from 1, and
  each execute on the ledger the one before left behind within the conditions of the circuit.\<close>

theorem session_command_succeeds_iff:
  assumes "list_all wf_batch bs" and "list_all (\<lambda>b. length (bat_orders b) < 2 ^ 32) bs"
    and "length bs < 2 ^ 32" and "om_size l < 2 ^ 62"
  shows "(\<exists>s. prove_manifest l bs verify = Inr s) \<longleftrightarrow>
    bs \<noteq> [] \<and> sequential (bat_instrument (bs ! 0)) 0 (blind_ledger demo_venue_secret l) bs" (is "?l \<longleftrightarrow> ?r")
proof
  let ?start = "blind_ledger demo_venue_secret l" and ?i = "bat_instrument (bs ! 0)"
  let ?root = "compute_ledger_root ?start ?i"
  assume ?l
  then obtain l' root' steps s where "bs \<noteq> []"
    and loop: "loop_throws session_step (?start, ?root, []) (enumerate 0 bs) = Inr (l', root', steps)"
    and s: "prove_session (genesis ?root ?i) steps = Ok s"
    by (auto simp: prove_manifest_def Let_def throws_simps)
  moreover from s have "chained (genesis ?root ?i) steps" by (simp add: prove_session_iff)
  ultimately show ?r
    using session_chain_iff [OF assms(1,2), of 0 "genesis ?root ?i" ?i ?root ?start "[]"] assms(3)
    by (fastforce simp: genesis_def)
next
  let ?start = "blind_ledger demo_venue_secret l" and ?i = "bat_instrument (bs ! 0)"
  let ?root = "compute_ledger_root ?start ?i"
  assume r: ?r
  have size: "om_size ?start < 2 ^ 62" using assms(4) by simp
  obtain l' root' steps s where
    loop: "loop_throws session_step (?start, ?root, []) (enumerate 0 bs) = Inr (l', root', steps)"
    and s: "prove_session (genesis ?root ?i) steps = Ok s"
    and n: "list_all (\<lambda>stp. constraint_count (step_public_inputs stp) (step_witness stp) < 2 ^ 64) steps"
    by (rule manifest_steps [OF assms(1-3) conjunct1 [OF r] conjunct2 [OF r] size])
  have "verify_session (sn_public_inputs s) s = Ok ()"
    using s n replay_chained [of "genesis ?root ?i" steps 0]
    by (auto simp: prove_session_iff verify_session_def Let_def)
  then show ?l using r loop s by (simp add: prove_manifest_def Let_def or_print_def)
qed

section \<open>A session\<close>

lemma sample_sequential: "sequential 7 0 (blind_ledger demo_venue_secret sample_ledger) [sample_batch]"
proof -
  have "bat_id sample_batch = 1" "bat_instrument sample_batch = 7" by (simp_all add: sample_batch_def)
  then show ?thesis
    using blinded_sample [of "derive_account_salt demo_venue_secret"] small_amounts_provable
    by (auto simp: blind_ledger_def split: result.splits)
qed

lemma sample_sizes:
  "list_all wf_batch [sample_batch]" "list_all (\<lambda>b. length (bat_orders b) < 2 ^ 32) [sample_batch]"
  "length [sample_batch] < 2 ^ 32" "om_size sample_ledger < 2 ^ 62" "bat_instrument ([sample_batch] ! 0) = 7"
proof -
  have "length (bat_orders sample_batch) = 2" "om_size sample_ledger = 2" by code_simp+
  then show "list_all (\<lambda>b. length (bat_orders b) < 2 ^ 32) [sample_batch]" "om_size sample_ledger < 2 ^ 62" by simp_all
qed (simp_all add: sample_wf, simp add: sample_batch_def)

theorem session_command_succeeds_iff_witness: "\<exists>s. prove_manifest sample_ledger [sample_batch] True = Inr s"
  using session_command_succeeds_iff [OF sample_sizes(1-4), of True, unfolded sample_sizes(5)] sample_sequential by blast

lemma sample_session:
  obtains start stp s where "prove_session start [stp] = Ok s"
    "list_all (\<lambda>stp. constraint_count (step_public_inputs stp) (step_witness stp) < 2 ^ 64) [stp]"
proof -
  have seq: "sequential (bat_instrument ([sample_batch] ! 0)) 0 (blind_ledger demo_venue_secret sample_ledger) [sample_batch]"
    using sample_sequential sample_sizes(5) by simp
  have "om_size (blind_ledger demo_venue_secret sample_ledger) < 2 ^ 62" using sample_sizes(4) by simp
  from manifest_steps [OF sample_sizes(1-3) _ seq this] obtain steps s where
    s: "prove_session (genesis (compute_ledger_root (blind_ledger demo_venue_secret sample_ledger)
       (bat_instrument ([sample_batch] ! 0))) (bat_instrument ([sample_batch] ! 0))) steps = Ok s"
    and n: "list_all (\<lambda>stp. constraint_count (step_public_inputs stp) (step_witness stp) < 2 ^ 64) steps"
    and "length steps = length [sample_batch]" by blast
  then obtain stp where "steps = [stp]" by (auto simp: length_Suc_conv)
  with s n show thesis using that by blast
qed

theorem proved_session_verifies_witness:
  "\<exists>start stp s. prove_session start [stp] = Ok s \<and> verify_session (sn_public_inputs s) s = Ok ()"
  by (rule sample_session) (use proved_session_verifies in blast)

theorem proved_session_is_chain_witness:
  "\<exists>start stp s. prove_session start [stp] = Ok s \<and> bat_id (bw_batch (step_witness stp)) = rs_batch_id start + 1"
proof -
  obtain start stp s where "prove_session start [stp] = Ok s" by (rule sample_session)
  moreover from this have "bat_id (bw_batch (step_witness stp)) = rs_batch_id start + 1"
    using proved_session_is_chain [of start "[stp]" s] by simp
  ultimately show ?thesis by blast
qed

text \<open>Two sessions that pass through different ledger roots.\<close>

definition forged_step :: "u8 \<Rightarrow> u8 \<Rightarrow> batch_proof" where
  "forged_step a b = \<lparr>bp_version = 1, bp_public_inputs =
     \<lparr>pi_pre_state_root = replicate 32 a, pi_post_state_root = replicate 32 b,
      pi_batch_header_hash = replicate 32 9, pi_oracle_snapshot_hash = replicate 32 0,
      pi_clearing_price = 5, pi_cleared_volume = 6\<rparr>, bp_bytes = certificate 1 5\<rparr>"

definition forged_inputs :: session_public_inputs where
  "forged_inputs = \<lparr>sp_initial_state = genesis (replicate 32 0) 1,
     sp_final_state = \<lparr>rs_ledger_root = replicate 32 2,
       rs_history = foldl next_history (replicate 32 0) (map bp_public_inputs [forged_step 0 1, forged_step 1 2]),
       rs_batch_id = 2, rs_timestamp = 0, rs_instrument = 1\<rparr>\<rparr>"

definition forged_session :: "u8 \<Rightarrow> session_proof" where
  "forged_session a = \<lparr>sn_version = 1, sn_num_batches = 2, sn_public_inputs = forged_inputs,
     sn_step_proofs = [forged_step 0 a, forged_step a 2], sn_certificate = []\<rparr>"

lemma forged_accepted: "verify_session forged_inputs (forged_session a) = Ok ()"
proof -
  have "verify_batch_proof (bp_public_inputs (forged_step x y)) (forged_step x y) = Ok ()" for x y
    using certificate_claims [of 1] by (auto simp: verify_batch_proof_Ok forged_step_def)
  moreover have "next_history h (bp_public_inputs (forged_step x y)) = next_history h (bp_public_inputs (forged_step 0 1))" for h x y
    by (simp add: next_history_def history_payload_def forged_step_def)
  ultimately have "loop_result replay_proof (replicate 32 0, replicate 32 0) (enumerate 0 [forged_step 0 a, forged_step a 2])
      = Ok (foldl next_history (replicate 32 0) (map bp_public_inputs [forged_step 0 1, forged_step 1 2]), replicate 32 2)"
    unfolding replay_proofs_Cons by (simp add: forged_step_def) metis
  then show ?thesis
    by (simp add: verify_session_def forged_session_def forged_inputs_def genesis_def del: enumerate_simps)
qed

theorem session_history_binds_witness:
  "map (\<lambda>p. trade (bp_public_inputs p)) (sn_step_proofs (forged_session 1))
     = map (\<lambda>p. trade (bp_public_inputs p)) (sn_step_proofs (forged_session 3))
   \<or> breaks (replicate 32 0) (history_break (replicate 32 0) (rev (map bp_public_inputs (sn_step_proofs (forged_session 1))))
        (rev (map bp_public_inputs (sn_step_proofs (forged_session 3)))))"
proof -
  have "well_sized (forged_session a)" for a
    by (simp add: well_sized_def forged_session_def forged_step_def)
  moreover have "rs_history (sp_initial_state forged_inputs) = replicate 32 0" by (simp add: forged_inputs_def genesis_def)
  ultimately show ?thesis
    using session_history_binds [OF forged_accepted [of 1] forged_accepted [of 3]] by simp
qed

end
