(* ===== verification/Funding.thy ===== *)
theory Funding
  imports Transition
begin

text \<open>
  When the settlement cannot fail: accounts that can pay for their orders at the limits, and hold what
  they offer, always execute.
\<close>

section \<open>A settlement that cannot fail\<close>

text \<open>Each account can pay for all its purchases, holds all it sells, and has room for what it receives.\<close>

definition settleable :: "ledger \<Rightarrow> fill list \<Rightarrow> bool" where
  "settleable l fills \<longleftrightarrow>
     (\<forall>k. paid True k fills \<le> cash_of l k \<and> cash_of l k + paid False k fills < 2 ^ 128)
     \<and> (\<forall>i k. moved False i k fills \<le> stock_of i l k \<and> stock_of i l k + moved True i k fills < 2 ^ 64)"

lemma settleable_step:
  assumes "apply_fill l f = Ok l'" "settleable l (f # fills)"
  shows "settleable l' fills"
proof -
  have keep: "p1 + P1 \<le> c \<Longrightarrow> c + (p0 + P0) < m \<Longrightarrow> c' + p1 = c + p0 \<Longrightarrow> p1 = 0 \<or> p0 = 0 \<Longrightarrow> P1 \<le> c' \<and> c' + P0 < m"
    for p1 p0 P1 P0 c c' m :: nat by auto
  have "paid True k fills \<le> cash_of l' k \<and> cash_of l' k + paid False k fills < 2 ^ 128" for k
    using assms(2) apply_fill_cash [OF assms(1), of k]
    by (intro keep [of "paid True k [f]" _ "cash_of l k" "paid False k [f]"])
      (simp_all add: settleable_def split: if_splits)
  moreover have "moved False i k fills \<le> stock_of i l' k \<and> stock_of i l' k + moved True i k fills < 2 ^ 64" for i k
    using assms(2) apply_fill_stock [OF assms(1), of i k]
    by (intro keep [of "moved False i k [f]" _ "stock_of i l k" "moved True i k [f]"])
      (simp_all add: settleable_def split: if_splits)
  ultimately show ?thesis by (simp add: settleable_def)
qed

lemma settleable_fill:
  assumes "settleable l (f # fills)"
  shows "\<exists>l'. apply_fill l f = Ok l'"
proof -
  obtain acc l0 where g: "get_or_create_account (fill_account_id f) l = (acc, l0)" by fastforce
  note a = get_or_create(2,3) [OF g]
  have cash: "paid True (fill_account_id f) (f # fills) \<le> unat (acc_cash acc)"
    "unat (acc_cash acc) + paid False (fill_account_id f) (f # fills) < 2 ^ 128"
    and stock: "moved False (fill_instrument_id f) (fill_account_id f) (f # fills) \<le> unat (inventory_of acc (fill_instrument_id f))"
    "unat (inventory_of acc (fill_instrument_id f)) + moved True (fill_instrument_id f) (fill_account_id f) (f # fills) < 2 ^ 64"
    using assms by (simp_all only: settleable_def a)
  show ?thesis
  proof (cases "fill_side f = Buy")
    case True
    obtain acc1 where d: "debit_cash (fill_consideration f) acc = Ok acc1"
      using cash(1) True money_arith.sub_fits [of "fill_consideration f" "acc_cash acc"]
      by (auto simp: debit_cash_def)
    then have "inventory_of acc1 i = inventory_of acc i" for i by (auto simp: debit_cash_Ok_iff)
    then obtain acc2 where "credit_inventory (fill_instrument_id f) (fill_qty f) acc1 = Ok acc2"
      using stock(2) True qty_arith.add_fits [of "inventory_of acc1 (fill_instrument_id f)" "fill_qty f"]
      by (auto simp: credit_inventory_def)
    with d True show ?thesis by (simp add: apply_fill_def g)
  next
    case False
    obtain q where "qty_checked_sub (inventory_of acc (fill_instrument_id f)) (fill_qty f) = Ok q"
      using stock(1) False qty_arith.sub_fits [of "fill_qty f" "inventory_of acc (fill_instrument_id f)"] by auto
    then obtain acc1 where d: "debit_inventory (fill_instrument_id f) (fill_qty f) acc = Ok acc1"
      by (cases "q = 0") (auto simp: debit_inventory_def)
    then have "acc_cash acc1 = acc_cash acc" by (auto simp: debit_inventory_Ok_iff)
    then obtain acc2 where "credit_cash (fill_consideration f) acc1 = Ok acc2"
      using cash(2) False money_arith.add_fits [of "acc_cash acc1" "fill_consideration f"]
      by (auto simp: credit_cash_def)
    with d False show ?thesis by (simp add: apply_fill_def g)
  qed
qed

lemma settleable_settles: "settleable l fills \<Longrightarrow> \<exists>l'. loop_result apply_fill l fills = Ok l'"
proof (induction fills arbitrary: l)
  case (Cons f fills)
  then obtain l1 where l1: "apply_fill l f = Ok l1" using settleable_fill by blast
  with Cons.IH [OF settleable_step [OF l1 Cons.prems]] show ?case by simp
qed simp

section \<open>What orders can cost\<close>

definition cash_needed :: "account_id \<Rightarrow> order list \<Rightarrow> nat" where
  "cash_needed k orders =
     sum_list (map (\<lambda>o1. if ord_side o1 = Buy \<and> ord_account o1 = k then unat (ord_price o1) * unat (ord_qty o1) else 0) orders)"

definition stock_needed :: "account_id \<Rightarrow> order list \<Rightarrow> nat" where
  "stock_needed k orders =
     sum_list (map (\<lambda>o1. if ord_side o1 \<noteq> Buy \<and> ord_account o1 = k then unat (ord_qty o1) else 0) orders)"

lemma fill_for_fields [simp]:
  "fill_side (fill_for cp inst (i, a)) = al_side a" "fill_account_id (fill_for cp inst (i, a)) = al_account a"
  "fill_instrument_id (fill_for cp inst (i, a)) = inst" "fill_qty (fill_for cp inst (i, a)) = al_allocated_qty a"
  "unat (fill_consideration (fill_for cp inst (i, a))) = unat cp * unat (al_allocated_qty a)"
  by (simp_all add: fill_for_def unat_price_times_qty)

lemma executed_simps [simp]:
  "executed [] = []" "executed (a # as) = (if al_allocated_qty a \<noteq> 0 then a # executed as else executed as)"
  by (simp_all add: executed_def)

lemma paid_fills:
  "paid buy k (map (fill_for cp inst) (enumerate n (executed as))) =
     sum_list (map (\<lambda>a. if (al_side a = Buy) = buy \<and> al_account a = k then unat cp * unat (al_allocated_qty a) else 0) as)"
  by (induction "as" arbitrary: n) simp_all

lemma moved_fills:
  "moved buy i k (map (fill_for cp inst) (enumerate n (executed as))) =
     (if i = inst then sum_list (map (\<lambda>a. if (al_side a = Buy) = buy \<and> al_account a = k
        then unat (al_allocated_qty a) else 0) as) else 0)"
proof (cases "i = inst")
  case True
  then show ?thesis by (simp, induction "as" arbitrary: n) simp_all
next
  case False
  then show ?thesis by (simp, induction "as" arbitrary: n) simp_all
qed

lemma sum_list_if_le:
  assumes "\<And>x. x \<in> set xs \<Longrightarrow> P x \<Longrightarrow> f x \<le> (g x :: nat)"
  shows "sum_list (map (\<lambda>x. if P x then f x else 0) xs) \<le> sum_list (map (\<lambda>x. if P x then g x else 0) xs)"
  using assms by (intro sum_list_mono) simp

text \<open>An account never pays more than its limits allow, nor sells more than it offered.\<close>

lemma fills_within_orders:
  assumes "wf_batch b" "batch_stages b out alloc fills"
  shows "paid True k fills \<le> cash_needed k (bat_orders b)"
    and "moved False i k fills \<le> (if i = bat_instrument b then stock_needed k (bat_orders b) else 0)"
proof -
  have "paid True k fills \<le> cash_needed k (bat_orders b)
      \<and> moved False i k fills \<le> (if i = bat_instrument b then stock_needed k (bat_orders b) else 0)"
    using assms
  proof (cases rule: batch_stages_cases)
    case 1
    then show ?thesis by simp
  next
    case (2 cp)
    let ?fill = "order_fill b cp (out_volume out)"
    have le: "unat (?fill o1) \<le> unat (ord_qty o1)" if "o1 \<in> set (bat_orders b)" for o1
      using order_fill_le [OF 2(2) that] by (simp add: word_le_nat_alt)
    have "unat cp * unat (?fill o1) \<le> unat (ord_price o1) * unat (ord_qty o1)"
      if "o1 \<in> set (bat_orders b)" "ord_side o1 = Buy" for o1
    proof (cases "cp \<le> ord_price o1")
      case True
      then show ?thesis using le [OF that(1)] by (intro mult_le_mono) (simp_all add: word_le_nat_alt)
    next
      case False
      then show ?thesis using that(2) by (simp add: order_fill_otm otm_iff within_limit_def)
    qed
    then have "paid True k fills \<le> cash_needed k (bat_orders b)"
      unfolding 2(4) paid_fills 2(3) cash_needed_def
      by (simp add: comp_def) (rule sum_list_if_le, simp)
    moreover have "moved False i k fills \<le> (if i = bat_instrument b then stock_needed k (bat_orders b) else 0)"
      unfolding 2(4) moved_fills 2(3) stock_needed_def using le
      by (simp add: comp_def) (intro impI sum_list_if_le, simp)
    ultimately show ?thesis ..
  qed
  then show "paid True k fills \<le> cash_needed k (bat_orders b)"
    "moved False i k fills \<le> (if i = bat_instrument b then stock_needed k (bat_orders b) else 0)" by simp_all
qed

section \<open>Sums over the accounts\<close>

lemma sum_accounts:
  assumes "finite K"
  shows "(\<Sum>k\<in>K. paid buy k fills) \<le> paid_total buy fills" "(\<Sum>k\<in>K. moved buy i k fills) \<le> moved_total buy i fills"
    and "fill_account_id ` set fills \<subseteq> K \<Longrightarrow> (\<Sum>k\<in>K. paid buy k fills) = paid_total buy fills"
    and "fill_account_id ` set fills \<subseteq> K \<Longrightarrow> (\<Sum>k\<in>K. moved buy i k fills) = moved_total buy i fills"
proof -
  have one: "(\<Sum>k\<in>K. if P \<and> a = k then x else 0) = (if P \<and> a \<in> K then x else (0 :: nat))" for P x and a :: account_id
    using assms by (cases P) (simp_all add: sum.delta')
  have two: "(\<Sum>k\<in>K. if P \<and> a = k \<and> Q then x else 0) = (if P \<and> a \<in> K \<and> Q then x else (0 :: nat))"
    for P Q x and a :: account_id
    using assms by (cases P; cases Q) (simp_all add: sum.delta')
  show "(\<Sum>k\<in>K. paid buy k fills) \<le> paid_total buy fills"
    by (induction fills) (simp_all add: paid_total_def sum.distrib one)
  show "(\<Sum>k\<in>K. moved buy i k fills) \<le> moved_total buy i fills"
    by (induction fills) (simp_all add: moved_total_def sum.distrib two)
  show "(\<Sum>k\<in>K. paid buy k fills) = paid_total buy fills" if "fill_account_id ` set fills \<subseteq> K"
    using that by (induction fills) (simp_all add: paid_total_def sum.distrib one)
  show "(\<Sum>k\<in>K. moved buy i k fills) = moved_total buy i fills" if "fill_account_id ` set fills \<subseteq> K"
    using that by (induction fills) (simp_all add: moved_total_def sum.distrib two)
qed

lemma sum_accounts_le:
  assumes "finite K"
  shows "(\<Sum>k\<in>K. cash_of l k) \<le> cash_sum l" "(\<Sum>k\<in>K. stock_of i l k) \<le> stock_sum i l"
proof -
  have "(\<Sum>k\<in>K. case om_find l k of Some acc \<Rightarrow> f acc | None \<Rightarrow> 0) \<le> sum_list (map (\<lambda>(k, acc). f acc) (om_entries l))"
    for f :: "account_state \<Rightarrow> nat"
  proof -
    let ?g = "\<lambda>k. case om_find l k of Some acc \<Rightarrow> f acc | None \<Rightarrow> 0"
    let ?D = "dom (om_find l)"
    have "sum ?g K = sum ?g (K \<inter> ?D)"
      using assms by (intro sum.mono_neutral_right) (auto split: option.splits)
    also have "\<dots> \<le> sum ?g ?D" by (intro sum_mono2) (auto simp flip: om.keys_dom)
    also have "\<dots> = sum_list (map ?g (map fst (om_entries l)))"
      unfolding om.keys_dom [symmetric] by (rule sum_list_distinct_conv_sum_set [symmetric, OF om.entries_distinct])
    also have "\<dots> = sum_list (map (\<lambda>(k, acc). f acc) (om_entries l))"
      by (auto simp: om.mem_entries intro!: arg_cong [of _ _ sum_list])
    finally show ?thesis .
  qed
  from this [of "\<lambda>acc. unat (acc_cash acc)"] this [of "\<lambda>acc. unat (inventory_of acc i)"]
  show "(\<Sum>k\<in>K. cash_of l k) \<le> cash_sum l" "(\<Sum>k\<in>K. stock_of i l k) \<le> stock_sum i l"
    by (simp_all add: cash_of_def cash_sum_def stock_of_def stock_sum_def)
qed

section \<open>Properties\<close>

text \<open>Every account covers its orders: it can pay for its purchases at their limits and holds what it
  offers for sale.\<close>

definition funded :: "ledger \<Rightarrow> batch \<Rightarrow> bool" where
  "funded l b \<longleftrightarrow> (\<forall>k. cash_needed k (bat_orders b) \<le> cash_of l k
     \<and> stock_needed k (bat_orders b) \<le> stock_of (bat_instrument b) l k)"

lemma funded_settleable:
  assumes "wf_batch b" "batch_stages b out alloc fills" "funded pre b"
    and "2 * cash_sum pre < 2 ^ 128" "2 * stock_sum (bat_instrument b) pre < 2 ^ 64"
  shows "settleable pre fills"
proof -
  let ?K = "fill_account_id ` set fills" and ?i = "bat_instrument b"
  note within = fills_within_orders [OF assms(1,2)]
  note balance = batch_fills_balance [OF assms(1,2)]
  have K: "finite ?K" by simp
  have pays: "paid True k fills \<le> cash_of pre k" for k
    using within(1) [of k] assms(3) by (auto simp: funded_def intro: order_trans)
  have sells: "moved False i k fills \<le> stock_of i pre k" for i k
  proof (cases "i = ?i")
    case True
    then show ?thesis using within(2) [where i = i and k = k] assms(3) by (auto simp: funded_def intro: order_trans)
  qed (use within(2) [where i = i and k = k] in simp)
  have single: "cash_of pre k \<le> cash_sum pre" "stock_of i pre k \<le> stock_sum i pre" for i k
    using sum_accounts_le(1) [of "{k}" pre] sum_accounts_le(2) [where K = "{k}" and l = pre and i = i] by simp_all
  have part: "paid False k fills \<le> paid_total False fills" "moved True i k fills \<le> moved_total True i fills" for i k
    using sum_accounts(1) [where K = "{k}"] sum_accounts(2) [where K = "{k}"] by simp_all
  have "paid_total True fills = (\<Sum>k\<in>?K. paid True k fills)" by (rule sum_accounts(3) [OF K order_refl, symmetric])
  also have "\<dots> \<le> (\<Sum>k\<in>?K. cash_of pre k)" by (rule sum_mono) (rule pays)
  also have "\<dots> \<le> cash_sum pre" by (rule sum_accounts_le(1) [OF K])
  finally have cash: "paid_total False fills \<le> cash_sum pre" using balance by simp
  have stock: "moved_total True i fills \<le> stock_sum i pre" for i
  proof -
    have "moved_total False i fills = (\<Sum>k\<in>?K. moved False i k fills)" by (rule sum_accounts(4) [OF K order_refl, symmetric])
    also have "\<dots> \<le> (\<Sum>k\<in>?K. stock_of i pre k)" by (rule sum_mono) (rule sells)
    also have "\<dots> \<le> stock_sum i pre" by (rule sum_accounts_le(2) [OF K])
    finally show ?thesis using balance [of i] by simp
  qed
  have "cash_of pre k + paid False k fills < 2 ^ 128" for k
    using single(1) [of k] part(1) [of k] cash assms(4) by linarith
  moreover have "stock_of i pre k + moved True i k fills < 2 ^ 64" for i k
  proof (cases "i = ?i")
    case True
    then show ?thesis using single(2) [of i k] part(2) [of i k] stock [of i] assms(5) by (simp only: True)
  next
    case False
    have "moved True i k fills = 0"
      using balance [of i] False by (auto simp: moved_def sum_list_eq_0_iff)
    moreover have "unat (q :: qty) < 2 ^ 64" for q using unat_less_pow [of q] by simp
    ultimately show ?thesis by (simp add: stock_of_def split: option.split)
  qed
  ultimately show ?thesis using pays sells by (simp add: settleable_def)
qed

lemma funded_executes:
  assumes "wf_batch b" "totals_fit (bat_orders b)" "funded pre b"
    and "2 * cash_sum pre < 2 ^ 128" "2 * stock_sum (bat_instrument b) pre < 2 ^ 64"
  obtains r where "execute_batch pre b = Ok r"
proof -
  obtain out alloc fills where st: "batch_stages b out alloc fills"
    using batch_stages_exist [OF assms(1,2)] by blast
  then obtain post where post: "loop_result apply_fill pre fills = Ok post"
    using settleable_settles [OF funded_settleable [OF assms(1) st assms(3-5)]] by blast
  have "is_ok (total_cash pre)" "is_ok (total_inventory_of pre (bat_instrument b))"
    using assms(4,5) by (simp_all add: total_cash_is_ok_iff total_inventory_is_ok_iff cash_sum_def stock_sum_def)
  moreover have "fill_instrument_id ` set fills \<subseteq> {bat_instrument b}" using batch_fills_balance [OF assms(1) st] by blast
  ultimately have "apply_batch_transition pre fills = Ok post"
    using post settled_totals [OF assms(1) st post] by (auto simp: apply_batch_transition_Ok_iff)
  with st that show thesis by (auto simp: execute_batch_def batch_stages_def)
qed

text \<open>C34: A valid batch whose orders are covered by the accounts that placed them always executes: when
  each account can pay for all its purchases at their limits and holds all it offers, and the totals
  of the ledger and of the batch leave room in their types, no step of the execution fails, whatever
  price the auction finds and in whatever order the fills settle.\<close>

theorem funded_batch_executes:
  assumes "wf_batch b" and "totals_fit (bat_orders b)" and "funded pre b"
    and "2 * cash_sum pre < 2 ^ 128" and "2 * stock_sum (bat_instrument b) pre < 2 ^ 64"
  shows "\<exists>r. execute_batch pre b = Ok r"
  using funded_executes [OF assms] by blast

theorem funded_batch_executes_witness: "\<exists>r. execute_batch sample_ledger sample_batch = Ok r"
proof (rule funded_batch_executes [OF sample_wf])
  show "totals_fit (bat_orders sample_batch)" by (simp add: totals_fit_def total_side_def sample_simps)
  have "cash_sum sample_ledger = 1000" "stock_sum (bat_instrument sample_batch) sample_ledger = 50" by code_simp+
  then show "2 * cash_sum sample_ledger < 2 ^ 128" "2 * stock_sum (bat_instrument sample_batch) sample_ledger < 2 ^ 64"
    by simp_all
  have "cash_of sample_ledger 10 = 1000" "stock_of 7 sample_ledger 11 = 50" by code_simp+
  then show "funded sample_ledger sample_batch"
    by (auto simp: funded_def cash_needed_def stock_needed_def sample_simps)
qed

end
