(* ===== verification/Venue.thy ===== *)
theory Venue
  imports Session_Proofs Funding
begin

text \<open>
  The ledger of a venue as a state machine: a batch that executes replaces the ledger, a batch that fails
  leaves it.  The loops of the program that run batch after batch are runs of this machine, and the
  invariants of its reachable states hold for them.
\<close>

inductive venue_step :: "ledger \<Rightarrow> batch \<Rightarrow> ledger \<Rightarrow> bool" where
  executed_step: "execute_batch l b = Ok e \<Longrightarrow> venue_step l b (res_post_state e)"
| skipped_step: "execute_batch l b = Err err \<Longrightarrow> venue_step l b l"

inductive venue_run :: "ledger \<Rightarrow> batch list \<Rightarrow> ledger \<Rightarrow> bool" where
  run_start: "venue_run l [] l"
| run_step: "venue_run l bs l1 \<Longrightarrow> venue_step l1 b l2 \<Longrightarrow> venue_run l (bs @ [b]) l2"

inductive_cases venue_stepE: "venue_step l b l'"

inductive_simps venue_run_empty [simp]: "venue_run l [] l'"

lemma venue_step_total: "\<exists>l'. venue_step l b l'"
  by (cases "execute_batch l b") (auto intro: venue_step.intros)

lemma venue_step_unique: "venue_step l b l1 \<Longrightarrow> venue_step l b l2 \<Longrightarrow> l1 = l2"
  by (auto elim!: venue_stepE)

lemma venue_run_Cons: "venue_step l b l1 \<Longrightarrow> venue_run l1 bs l2 \<Longrightarrow> venue_run l (b # bs) l2"
proof -
  assume step: "venue_step l b l1"
  assume "venue_run l1 bs l2"
  then show "venue_run l (b # bs) l2"
    using step
  proof (induction rule: venue_run.induct)
    case (run_start l1)
    then show ?case using venue_run.run_step [OF venue_run.run_start] by fastforce
  next
    case (run_step l1 bs l2 b' l3)
    then show ?case using venue_run.run_step [of l "b # bs" l2 b' l3] by simp
  qed
qed

section \<open>What settlement leaves alone\<close>

lemma apply_fill_identity:
  assumes "apply_fill l f = Ok l'" "om_find l (fill_account_id f) \<noteq> None"
  shows "map_option acc_salt (om_find l' k) = map_option acc_salt (om_find l k)
    \<and> map_option acc_id (om_find l' k) = map_option acc_id (om_find l k)"
proof -
  obtain acc0 where acc0: "om_find l (fill_account_id f) = Some acc0" using assms(2) by blast
  then have g: "get_or_create_account (fill_account_id f) l = (acc0, l)" by (simp add: get_or_create_account_def)
  have "\<exists>acc. l' = om_assign (fill_account_id f) acc l \<and> acc_salt acc = acc_salt acc0 \<and> acc_id acc = acc_id acc0"
    using assms(1)
    by (auto simp: apply_fill_def g result_simps debit_cash_Ok_iff credit_cash_Ok_iff debit_inventory_Ok_iff
        credit_inventory_Ok_iff split: if_splits)
  then show ?thesis using acc0 by auto
qed

lemma settle_identity:
  assumes "loop_result apply_fill l fills = Ok l'" "fill_account_id ` set fills \<subseteq> dom (om_find l)"
  shows "map_option acc_salt (om_find l' k) = map_option acc_salt (om_find l k)
    \<and> map_option acc_id (om_find l' k) = map_option acc_id (om_find l k)"
  using assms
proof (induction fills arbitrary: l)
  case (Cons f fills)
  then obtain l1 where l1: "apply_fill l f = Ok l1" "loop_result apply_fill l1 fills = Ok l'"
    by (auto simp: result_simps)
  have known: "om_find l (fill_account_id f) \<noteq> None" using Cons.prems(2) by auto
  note id = apply_fill_identity [OF l1(1) known]
  have "om_find l1 j = None \<longleftrightarrow> om_find l j = None" for j using id [of j] by (metis map_option_is_None)
  then have "fill_account_id ` set fills \<subseteq> dom (om_find l1)" using Cons.prems(2) by (auto simp: dom_def)
  from Cons.IH [OF l1(2) this] id [of k] show ?case by simp
qed simp

lemma fill_accounts_of_orders:
  assumes "wf_batch b" "batch_stages b out alloc fills"
  shows "fill_account_id ` set fills \<subseteq> ord_account ` set (bat_orders b)"
  using assms
proof (cases rule: batch_stages_cases)
  case (2 cp)
  have "fill_account_id f \<in> ord_account ` set (bat_orders b)" if "f \<in> set fills" for f
    using canonical_fill_order [OF 2(2), of f "bat_instrument b" 0] that unfolding 2(3,4)
    by (auto simp: find_Some_iff)
  then show ?thesis by blast
qed simp

section \<open>The invariant\<close>

definition all_orders :: "batch list \<Rightarrow> order list" where
  "all_orders bs = concat (map bat_orders bs)"

lemma all_orders_snoc: "all_orders (bs @ [b]) = all_orders bs @ bat_orders b"
  by (simp add: all_orders_def)

lemma needed_append:
  "cash_needed k (xs @ ys) = cash_needed k xs + cash_needed k ys"
  "stock_needed k (xs @ ys) = stock_needed k xs + stock_needed k ys"
  by (simp_all add: cash_needed_def stock_needed_def)

text \<open>What relates a ledger to one it started from, when the batches \<open>bs\<close> were run in between.\<close>

definition keeps_accounts :: "batch list \<Rightarrow> ledger \<Rightarrow> ledger \<Rightarrow> bool" where
  "keeps_accounts bs l l' \<longleftrightarrow>
     cash_sum l' = cash_sum l \<and> (\<forall>i. stock_sum i l' = stock_sum i l)
   \<and> dom (om_find l') = dom (om_find l)
   \<and> (\<forall>k. map_option acc_salt (om_find l' k) = map_option acc_salt (om_find l k))
   \<and> (\<forall>k. map_option acc_id (om_find l' k) = map_option acc_id (om_find l k))
   \<and> (\<forall>k. k \<notin> ord_account ` set (all_orders bs) \<longrightarrow> om_find l' k = om_find l k)
   \<and> (\<forall>k. cash_of l k \<le> cash_of l' k + cash_needed k (all_orders bs))
   \<and> (\<forall>i k. stock_of i l k \<le> stock_of i l' k + stock_needed k (filter (\<lambda>o1. ord_instrument o1 = i) (all_orders bs)))"

lemma executed_keeps_accounts:
  assumes wf: "wf_batch b" and e: "execute_batch l b = Ok e"
  shows "keeps_accounts [b] l (res_post_state e)"
proof -
  have st: "batch_stages b (res_outcome e) (res_allocation e) (res_fills e)"
    and ap: "loop_result apply_fill l (res_fills e) = Ok (res_post_state e)"
    using e by (auto simp: execute_batch_Ok_iff apply_batch_transition_Ok_iff)
  note known = known_accounts [OF wf e]
  have other: "filter (\<lambda>o1. ord_instrument o1 = i) (bat_orders b) = (if i = bat_instrument b then bat_orders b else [])" for i
    using wf by (auto simp: wf_batch_def wf_order_def list_all_iff filter_id_conv filter_empty_conv)
  have stock: "stock_of i l k \<le> stock_of i (res_post_state e) k
      + stock_needed k (filter (\<lambda>o1. ord_instrument o1 = i) (bat_orders b))" for i k
    using settle_stock [OF ap, of i k] fills_within_orders(2) [OF wf st, where i = i and k = k]
    by (cases "i = bat_instrument b") (simp_all add: other)
  have "cash_of l k \<le> cash_of (res_post_state e) k + cash_needed k (bat_orders b)" for k
    using settle_cash [OF ap, of k] fills_within_orders(1) [OF wf st, of k] by linarith
  moreover have "om_find (res_post_state e) k = om_find l k" if "k \<notin> ord_account ` set (bat_orders b)" for k
    using settle_frame [OF ap, of k] fill_accounts_of_orders [OF wf st] that by blast
  ultimately show ?thesis
    using settled_totals [OF wf st ap] known(2) settle_identity [OF ap known(1)] stock
    by (simp add: keeps_accounts_def all_orders_def)
qed

lemma keeps_accounts_trans:
  assumes "keeps_accounts bs l l1" "keeps_accounts [b] l1 l2"
  shows "keeps_accounts (bs @ [b]) l l2"
proof -
  have one: "all_orders [b] = bat_orders b" by (simp add: all_orders_def)
  have "cash_of l k \<le> cash_of l2 k + cash_needed k (all_orders (bs @ [b]))" for k
    using assms by (auto simp: keeps_accounts_def all_orders_snoc needed_append one intro: order_trans dest!: spec [of _ k])
  moreover have "stock_of i l k \<le> stock_of i l2 k
      + stock_needed k (filter (\<lambda>o1. ord_instrument o1 = i) (all_orders (bs @ [b])))" for i k
  proof -
    have "stock_of i l k \<le> stock_of i l1 k + stock_needed k (filter (\<lambda>o1. ord_instrument o1 = i) (all_orders bs))"
      "stock_of i l1 k \<le> stock_of i l2 k + stock_needed k (filter (\<lambda>o1. ord_instrument o1 = i) (bat_orders b))"
      using assms by (simp_all add: keeps_accounts_def one)
    then show ?thesis by (simp add: all_orders_snoc needed_append)
  qed
  moreover have "om_find l2 k = om_find l k" if "k \<notin> ord_account ` set (all_orders (bs @ [b]))" for k
    using assms that by (simp add: keeps_accounts_def all_orders_snoc one image_Un)
  ultimately show ?thesis
    using assms unfolding keeps_accounts_def by (intro conjI allI impI) simp_all
qed

lemma skipped_keeps_accounts: "keeps_accounts [b] l l"
  by (simp add: keeps_accounts_def)

text \<open>C40: however many batches a venue runs, executed or failed, and whatever they trade: the total cash and the
  total of every instrument stay what they were, no account appears or disappears, none changes its
  identifier or its blinding salt, an account without orders is not touched at all, and no account
  loses more cash than its bids offered at their limits, or more of an instrument than it offered
  for sale.\<close>

theorem venue_invariant:
  assumes "venue_run l bs l'" and "list_all wf_batch bs"
  shows "keeps_accounts bs l l'"
  using assms
proof (induction rule: venue_run.induct)
  case (run_start l)
  show ?case by (simp add: keeps_accounts_def)
next
  case (run_step l bs l1 b l2)
  then have wf: "wf_batch b" and "keeps_accounts bs l l1" by simp_all
  moreover from run_step.hyps(2) have "keeps_accounts [b] l1 l2"
    by (rule venue_stepE) (auto intro: executed_keeps_accounts [OF wf] skipped_keeps_accounts)
  ultimately show ?case by (blast intro: keeps_accounts_trans)
qed

section \<open>The loops of the program are runs\<close>

lemma session_loop_run:
  "loop_throws session_step (l, root, acc) (enumerate k bs) = Inr (l', root', acc') \<Longrightarrow> venue_run l bs l'"
proof (induction bs arbitrary: k l root acc)
  case (Cons b bs)
  then obtain e where e: "execute_batch l b = Ok e"
    and "\<exists>root acc. loop_throws session_step (res_post_state e, root, acc) (enumerate (Suc k) bs) = Inr (l', root', acc')"
    unfolding session_steps_Cons by blast
  then show ?case using Cons.IH venue_run_Cons [OF executed_step [OF e]] by blast
qed (auto intro: run_start)

theorem venue_invariant_witness:
  "cash_sum (res_post_state sample_result) = cash_sum sample_ledger
   \<and> cash_of sample_ledger 10 \<le> cash_of (res_post_state sample_result) 10 + 525"
proof -
  have "venue_run sample_ledger [sample_batch] (res_post_state sample_result)"
    using venue_run_Cons [OF executed_step [OF sample_execution] run_start] .
  from venue_invariant [OF this] have k: "keeps_accounts [sample_batch] sample_ledger (res_post_state sample_result)"
    using sample_wf by simp
  have "cash_needed 10 (all_orders [sample_batch]) = 525"
    by (simp add: all_orders_def cash_needed_def sample_simps)
  moreover have "cash_of sample_ledger 10 \<le> cash_of (res_post_state sample_result) 10 + cash_needed 10 (all_orders [sample_batch])"
    using k by (simp add: keeps_accounts_def)
  ultimately show ?thesis using k by (simp add: keeps_accounts_def)
qed

end
