(* ===== verification/Order_Book.thy ===== *)
theory Order_Book
  imports Orders Ordered_Map
begin

text \<open>
  \<open>marketdata/messages.hpp\<close>, \<open>book.hpp\<close> and \<open>book.cpp\<close>: the ITCH messages and the level-3 order
  book.  An operation returns its result and the book, because the source promises that a rejected
  operation does not change the book and that promise is worth proving.
\<close>

section \<open>Messages\<close>

record message_header =
  mh_stock_locate :: u16
  mh_tracking_number :: u16
  mh_timestamp :: u64

datatype itch_message =
    SystemEvent message_header (event_code: u8)
  | StockDirectory message_header (symbol: bytes) (round_lot: u32)
  | AddOrder message_header (ref_number: u64) (add_side: side) (add_shares: u32) (add_symbol: bytes)
      (add_price: u32) (attribution: "bytes option")
  | OrderExecuted message_header (exec_ref: u64) (exec_shares: u32) (exec_match: u64)
  | OrderExecutedWithPrice message_header (execp_ref: u64) (execp_shares: u32) (execp_match: u64)
      (printable: bool) (execp_price: u32)
  | OrderCancel message_header (cancel_ref: u64) (cancel_shares: u32)
  | OrderDelete message_header (delete_ref: u64)
  | OrderReplace message_header (replace_orig: u64) (replace_new: u64) (replace_shares: u32) (replace_price: u32)

fun msg_header :: "itch_message \<Rightarrow> message_header" where
  "msg_header (SystemEvent h c) = h"
| "msg_header (StockDirectory h s r) = h"
| "msg_header (AddOrder h r s q sb p a) = h"
| "msg_header (OrderExecuted h r q m) = h"
| "msg_header (OrderExecutedWithPrice h r q m pr p) = h"
| "msg_header (OrderCancel h r q) = h"
| "msg_header (OrderDelete h r) = h"
| "msg_header (OrderReplace h r r' q p) = h"

definition timestamp_of :: "itch_message \<Rightarrow> u64" where
  "timestamp_of m = mh_timestamp (msg_header m)"

section \<open>The book\<close>

record book_order =
  bo_ref :: u64
  bo_side :: side
  bo_price :: price
  bo_shares :: qty

type_synonym levels = "(u64, qty) omap"

record order_book =
  ob_last_timestamp :: u64
  ob_orders :: "(u64, book_order) omap"
  ob_bids :: levels
  ob_asks :: levels

definition empty_book :: order_book where
  "empty_book = \<lparr>ob_last_timestamp = 0, ob_orders = om_empty, ob_bids = om_empty, ob_asks = om_empty\<rparr>"

text \<open>\<open>auto& levels = (side == Side::Buy) ? bids_by_price_ : asks_by_price_\<close>.\<close>

definition levels_of :: "side \<Rightarrow> order_book \<Rightarrow> levels" where
  "levels_of s b = (if s = Buy then ob_bids b else ob_asks b)"

definition set_levels :: "side \<Rightarrow> levels \<Rightarrow> order_book \<Rightarrow> order_book" where
  "set_levels s l b = (if s = Buy then b\<lparr>ob_bids := l\<rparr> else b\<lparr>ob_asks := l\<rparr>)"

text \<open>\<open>levels[p]\<close> inserts a zero when there is no entry.\<close>

definition level_at :: "levels \<Rightarrow> u64 \<Rightarrow> qty" where
  "level_at l p = (case om_find l p of Some q \<Rightarrow> q | None \<Rightarrow> 0)"

definition add_order :: "u64 \<Rightarrow> side \<Rightarrow> price \<Rightarrow> qty \<Rightarrow> order_book \<Rightarrow> unit result \<times> order_book" where
  "add_order ref s price shares b =
     (if \<not> is_buy s \<and> \<not> is_sell s then (Err (PrimitiveError InvalidSide ''OrderBook::add_order''), b)
      else if price = 0 then (Err (PrimitiveError ZeroValue ''Price''), b)
      else if shares = 0 then (Err (PrimitiveError ZeroValue ''Qty''), b)
      else if om_find (ob_orders b) ref \<noteq> None then
        (Err (DomainError DuplicateOrderId ''Order already in book''), b)
      else
        (case qty_checked_add (level_at (levels_of s b) price) shares of
           Err e \<Rightarrow> (convert_error e, b)
         | Ok tot \<Rightarrow>
             let b1 = b\<lparr>ob_orders := om_emplace ref \<lparr>bo_ref = ref, bo_side = s, bo_price = price, bo_shares = shares\<rparr>
                         (ob_orders b)\<rparr>
             in (Ok (), set_levels s (om_assign price tot (levels_of s b1)) b1)))"

definition reduce_level :: "u64 \<Rightarrow> qty \<Rightarrow> bool \<Rightarrow> levels \<Rightarrow> levels" where
  "reduce_level p shares erase_zero l =
     (let l1 = om_assign p (qty_saturating_sub (level_at l p) shares) l in
      if erase_zero \<and> level_at l1 p = 0 then om_erase p l1 else l1)"

definition execute_order :: "u64 \<Rightarrow> qty \<Rightarrow> order_book \<Rightarrow> unit result \<times> order_book" where
  "execute_order ref shares b =
     (case om_find (ob_orders b) ref of
        None \<Rightarrow> (Err (DomainError AccountNotFound ''Order not in book''), b)
      | Some o1 \<Rightarrow>
          if shares = 0 then (Err (PrimitiveError ZeroValue ''Qty''), b)
          else if bo_shares o1 < shares then
            (Err (DomainError OrderValidationFailed ''Executed quantity exceeds resting order''), b)
          else if shares = bo_shares o1 then
            let b1 = set_levels (bo_side o1)
                       (reduce_level (bo_price o1) (bo_shares o1) True (levels_of (bo_side o1) b)) b
            in (Ok (), b1\<lparr>ob_orders := om_erase ref (ob_orders b1)\<rparr>)
          else
            let b1 = b\<lparr>ob_orders := om_assign ref (o1\<lparr>bo_shares := qty_saturating_sub (bo_shares o1) shares\<rparr>)
                         (ob_orders b)\<rparr>
            in (Ok (), set_levels (bo_side o1)
                  (reduce_level (bo_price o1) shares False (levels_of (bo_side o1) b1)) b1))"

definition cancel_order :: "u64 \<Rightarrow> qty \<Rightarrow> order_book \<Rightarrow> unit result \<times> order_book" where
  "cancel_order ref shares b = execute_order ref shares b"

definition delete_order :: "u64 \<Rightarrow> order_book \<Rightarrow> unit result \<times> order_book" where
  "delete_order ref b =
     (case om_find (ob_orders b) ref of
        None \<Rightarrow> (Err (DomainError AccountNotFound ''Order not in book''), b)
      | Some o1 \<Rightarrow> execute_order ref (bo_shares o1) b)"

definition book_inconsistency :: error where
  "book_inconsistency = DomainError OrderValidationFailed ''Order book index inconsistency''"

definition replace_order :: "u64 \<Rightarrow> u64 \<Rightarrow> qty \<Rightarrow> price \<Rightarrow> order_book \<Rightarrow> unit result \<times> order_book" where
  "replace_order orig_ref new_ref new_shares new_price b =
     (case om_find (ob_orders b) orig_ref of
        None \<Rightarrow> (Err (DomainError AccountNotFound ''Original order not in book''), b)
      | Some o1 \<Rightarrow>
          if new_ref \<noteq> orig_ref \<and> om_find (ob_orders b) new_ref \<noteq> None then
            (Err (DomainError DuplicateOrderId ''Replacement order already in book''), b)
          else if new_price = 0 then (Err (PrimitiveError ZeroValue ''Price''), b)
          else if new_shares = 0 then (Err (PrimitiveError ZeroValue ''Qty''), b)
          else
            let s = bo_side o1; old_raw = bo_price o1; lv = levels_of s b in
            (case om_find lv old_raw of
               None \<Rightarrow> (Err book_inconsistency, b)
             | Some old_level \<Rightarrow>
                 (case qty_checked_sub old_level (bo_shares o1) of
                    Err e \<Rightarrow> (convert_error e, b)
                  | Ok old_remaining \<Rightarrow>
                      let base = (if new_price = old_raw then old_remaining else level_at lv new_price) in
                      (case qty_checked_add base new_shares of
                         Err e \<Rightarrow> (convert_error e, b)
                       | Ok new_total \<Rightarrow>
                           let lv1 = (if new_price \<noteq> old_raw
                                      then if old_remaining = 0 then om_erase old_raw lv
                                           else om_assign old_raw old_remaining lv
                                      else lv);
                               lv2 = om_assign new_price new_total lv1;
                               orders1 = om_emplace new_ref \<lparr>bo_ref = new_ref, bo_side = s,
                                   bo_price = new_price, bo_shares = new_shares\<rparr> (om_erase orig_ref (ob_orders b))
                           in (Ok (), (set_levels s lv2 b)\<lparr>ob_orders := orders1\<rparr>)))))"

definition best_bid :: "order_book \<Rightarrow> price option" where
  "best_bid b = (if om_is_empty (ob_bids b) then None else Some (fst (last (om_entries (ob_bids b)))))"

definition best_ask :: "order_book \<Rightarrow> price option" where
  "best_ask b = (if om_is_empty (ob_asks b) then None else Some (fst (hd (om_entries (ob_asks b)))))"

definition mid_price :: "order_book \<Rightarrow> price option" where
  "mid_price b =
     (case (best_bid b, best_ask b) of
        (Some bid, Some ask) \<Rightarrow>
          let low = (if bid < ask then bid else ask); high = (if bid < ask then ask else bid);
              mid = low + (high - low) div 2
          in (case price_create mid of Ok p \<Rightarrow> Some p | Err e \<Rightarrow> None)
      | _ \<Rightarrow> None)"

definition apply_message :: "itch_message \<Rightarrow> order_book \<Rightarrow> unit result \<times> order_book" where
  "apply_message m b0 =
     (let b = b0\<lparr>ob_last_timestamp := timestamp_of m\<rparr> in
      case m of
        AddOrder h ref s shares sb price attr \<Rightarrow> add_order ref s (ucast price) (ucast shares) b
      | OrderExecuted h ref shares mn \<Rightarrow> cancel_order ref (ucast shares) b
      | OrderExecutedWithPrice h ref shares mn pr price \<Rightarrow> cancel_order ref (ucast shares) b
      | OrderCancel h ref shares \<Rightarrow> cancel_order ref (ucast shares) b
      | OrderDelete h ref \<Rightarrow> delete_order ref b
      | OrderReplace h orig new shares price \<Rightarrow> replace_order orig new (ucast shares) (ucast price) b
      | _ \<Rightarrow> (Ok (), b))"

section \<open>The invariant\<close>

text \<open>
  The volume resting at a price on a side, computed from the orders alone.  A book is well formed
  when both level indices hold exactly these volumes and no empty level.
\<close>

definition contribution :: "side \<Rightarrow> u64 \<Rightarrow> u64 \<Rightarrow> book_order \<Rightarrow> nat" where
  "contribution s p k o1 = (if bo_side o1 = s \<and> bo_price o1 = p then unat (bo_shares o1) else 0)"

definition resting :: "side \<Rightarrow> u64 \<Rightarrow> (u64, book_order) omap \<Rightarrow> nat" where
  "resting s p m = sum_list (map (\<lambda>(k, o1). contribution s p k o1) (om_entries m))"

definition wf_book_order :: "u64 \<Rightarrow> book_order \<Rightarrow> bool" where
  "wf_book_order k o1 \<longleftrightarrow> bo_ref o1 = k \<and> valid_side (bo_side o1) \<and> bo_price o1 \<noteq> 0 \<and> bo_shares o1 \<noteq> 0"

definition wf_levels :: "side \<Rightarrow> (u64, book_order) omap \<Rightarrow> levels \<Rightarrow> bool" where
  "wf_levels s m l \<longleftrightarrow> (\<forall>p. unat (level_at l p) = resting s p m \<and> om_find l p \<noteq> Some 0)"

definition wf_book :: "order_book \<Rightarrow> bool" where
  "wf_book b \<longleftrightarrow> list_all (\<lambda>(k, o1). wf_book_order k o1) (om_entries (ob_orders b))
     \<and> wf_levels Buy (ob_orders b) (ob_bids b) \<and> wf_levels Sell (ob_orders b) (ob_asks b)"

lemma wf_book_orderD: "wf_book b \<Longrightarrow> om_find (ob_orders b) k = Some o1 \<Longrightarrow> wf_book_order k o1"
  by (auto simp: wf_book_def list_all_iff om.mem_entries)

lemma wf_book_levelsD:
  "wf_book b \<Longrightarrow> valid_side s \<Longrightarrow> wf_levels s (ob_orders b) (levels_of s b)"
  by (auto simp: wf_book_def levels_of_def valid_side_def)

lemma wf_orders_iff:
  "list_all (\<lambda>(k, o1). wf_book_order k o1) (om_entries m)
     \<longleftrightarrow> (\<forall>k o1. om_find m k = Some o1 \<longrightarrow> wf_book_order k o1)"
  by (auto simp: list_all_iff om.mem_entries)

lemma level_at_assign [simp]: "level_at (om_assign p q l) p' = (if p' = p then q else level_at l p')"
  by (simp add: level_at_def)

lemma level_at_erase [simp]: "level_at (om_erase p l) p' = (if p' = p then 0 else level_at l p')"
  by (simp add: level_at_def)

lemma resting_assign:
  "resting s p (om_assign k v m) + (case om_find m k of None \<Rightarrow> 0 | Some w \<Rightarrow> contribution s p k w)
     = resting s p m + contribution s p k v"
  unfolding resting_def by (rule om.total_assign)

lemma resting_erase:
  "resting s p (om_erase k m) + (case om_find m k of None \<Rightarrow> 0 | Some w \<Rightarrow> contribution s p k w)
     = resting s p m"
  unfolding resting_def by (rule om.total_erase)

lemma wf_levels_at: "wf_levels s m l \<Longrightarrow> unat (level_at l p) = resting s p m"
  by (simp add: wf_levels_def)

lemma wf_levels_cong:
  "wf_levels s m l \<Longrightarrow> (\<And>p. resting s p m' = resting s p m) \<Longrightarrow> wf_levels s m' l"
  by (simp add: wf_levels_def)

lemma wf_levels_assign:
  assumes "wf_levels s m l" "\<And>p'. p' \<noteq> p \<Longrightarrow> resting s p' m' = resting s p' m"
    and "resting s p m' = unat t" "t \<noteq> 0"
  shows "wf_levels s m' (om_assign p t l)"
  using assms by (auto simp: wf_levels_def)

lemma wf_levels_erase:
  assumes "wf_levels s m l" "\<And>p'. p' \<noteq> p \<Longrightarrow> resting s p' m' = resting s p' m"
    and "resting s p m' = 0"
  shows "wf_levels s m' (om_erase p l)"
  using assms by (auto simp: wf_levels_def)

lemma resting_other_side:
  assumes "om_find m k = Some o1" "bo_side o1 \<noteq> s"
  shows "resting s p (om_erase k m) = resting s p m"
  using resting_erase [of s p k m] assms by (simp add: contribution_def)

lemma wf_book_setI:
  assumes "valid_side s" "list_all (\<lambda>(k, o1). wf_book_order k o1) (om_entries m)"
    and "wf_levels s m l" "\<And>s' p. s' \<noteq> s \<Longrightarrow> resting s' p m = resting s' p (ob_orders b)" "wf_book b"
  shows "wf_book ((set_levels s l b)\<lparr>ob_orders := m\<rparr>)"
  using assms
  by (auto simp: wf_book_def set_levels_def valid_side_def intro: wf_levels_cong)

lemma level_of_order:
  assumes "wf_book b" "om_find (ob_orders b) k = Some o1"
  shows "unat (bo_shares o1) \<le> unat (level_at (levels_of (bo_side o1) b) (bo_price o1))"
proof -
  have "valid_side (bo_side o1)" using wf_book_orderD [OF assms] by (simp add: wf_book_order_def)
  then have "unat (level_at (levels_of (bo_side o1) b) (bo_price o1))
      = resting (bo_side o1) (bo_price o1) (ob_orders b)"
    by (intro wf_levels_at wf_book_levelsD [OF assms(1)])
  moreover have "unat (bo_shares o1) \<le> resting (bo_side o1) (bo_price o1) (ob_orders b)"
    using resting_erase [of "bo_side o1" "bo_price o1" k "ob_orders b"] assms(2)
    by (simp add: contribution_def)
  ultimately show ?thesis by simp
qed

section \<open>The operations, with their effect on a well-formed book\<close>

text \<open>The book without its indices: what each operation is supposed to do to the orders.\<close>

definition spec_add ::
  "u64 \<Rightarrow> side \<Rightarrow> price \<Rightarrow> qty \<Rightarrow> (u64, book_order) omap \<Rightarrow> (u64, book_order) omap option" where
  "spec_add ref s price shares m =
     (if valid_side s \<and> price \<noteq> 0 \<and> shares \<noteq> 0 \<and> om_find m ref = None
         \<and> resting s price m + unat shares < 2 ^ 64
      then Some (om_assign ref \<lparr>bo_ref = ref, bo_side = s, bo_price = price, bo_shares = shares\<rparr> m)
      else None)"

definition spec_reduce :: "u64 \<Rightarrow> qty \<Rightarrow> (u64, book_order) omap \<Rightarrow> (u64, book_order) omap option" where
  "spec_reduce ref shares m =
     (case om_find m ref of
        None \<Rightarrow> None
      | Some o1 \<Rightarrow>
          if shares = 0 \<or> bo_shares o1 < shares then None
          else if shares = bo_shares o1 then Some (om_erase ref m)
          else Some (om_assign ref (o1\<lparr>bo_shares := bo_shares o1 - shares\<rparr>) m))"

definition spec_replace ::
  "u64 \<Rightarrow> u64 \<Rightarrow> qty \<Rightarrow> price \<Rightarrow> (u64, book_order) omap \<Rightarrow> (u64, book_order) omap option" where
  "spec_replace orig new shares price m =
     (case om_find m orig of
        None \<Rightarrow> None
      | Some o1 \<Rightarrow> spec_add new (bo_side o1) price shares (om_erase orig m))"

definition spec_step :: "itch_message \<Rightarrow> (u64, book_order) omap \<Rightarrow> (u64, book_order) omap option" where
  "spec_step msg m =
     (case msg of
        AddOrder h ref s shares sb price attr \<Rightarrow> spec_add ref s (ucast price) (ucast shares) m
      | OrderExecuted h ref shares mn \<Rightarrow> spec_reduce ref (ucast shares) m
      | OrderExecutedWithPrice h ref shares mn pr price \<Rightarrow> spec_reduce ref (ucast shares) m
      | OrderCancel h ref shares \<Rightarrow> spec_reduce ref (ucast shares) m
      | OrderDelete h ref \<Rightarrow> (if om_find m ref = None then None else Some (om_erase ref m))
      | OrderReplace h orig new shares price \<Rightarrow> spec_replace orig new (ucast shares) (ucast price) m
      | _ \<Rightarrow> Some m)"

definition simulates ::
  "unit result \<times> order_book \<Rightarrow> (u64, book_order) omap option \<Rightarrow> order_book \<Rightarrow> bool" where
  "simulates rb spec b =
     (case fst rb of
        Ok u \<Rightarrow> spec = Some (ob_orders (snd rb)) \<and> wf_book (snd rb)
                \<and> ob_last_timestamp (snd rb) = ob_last_timestamp b
      | Err e \<Rightarrow> spec = None \<and> snd rb = b)"

lemma simulates_Err [simp]: "simulates (Err e, b') spec b \<longleftrightarrow> spec = None \<and> b' = b"
  "simulates (convert_error e', b') spec b \<longleftrightarrow> spec = None \<and> b' = b"
  by (simp_all add: simulates_def convert_error_def fail_msg_def)

lemma simulates_Ok:
  "simulates (Ok u, b') spec b \<longleftrightarrow>
     spec = Some (ob_orders b') \<and> wf_book b' \<and> ob_last_timestamp b' = ob_last_timestamp b"
  by (simp add: simulates_def)

lemma level_selectors [simp]:
  "levels_of s (b\<lparr>ob_orders := m\<rparr>) = levels_of s b"
  "ob_orders (set_levels s l b) = ob_orders b"
  "ob_last_timestamp (set_levels s l b) = ob_last_timestamp b"
  "set_levels s l (b\<lparr>ob_orders := m\<rparr>) = (set_levels s l b)\<lparr>ob_orders := m\<rparr>"
  by (simp_all add: levels_of_def set_levels_def)

lemma resting_new:
  assumes "om_find m k = None"
  shows "resting s p (om_assign k v m) = resting s p m + contribution s p k v"
  using resting_assign [of s p k v m] assms by simp

lemma wf_orders_assign:
  "wf_book_order k v \<Longrightarrow> list_all (\<lambda>(k, o1). wf_book_order k o1) (om_entries m)
     \<Longrightarrow> list_all (\<lambda>(k, o1). wf_book_order k o1) (om_entries (om_assign k v m))"
  by (simp only: wf_orders_iff) simp

lemma wf_orders_erase:
  "list_all (\<lambda>(k, o1). wf_book_order k o1) (om_entries m)
     \<Longrightarrow> list_all (\<lambda>(k, o1). wf_book_order k o1) (om_entries (om_erase k m))"
  by (simp only: wf_orders_iff) simp

lemma wf_book_ordersD:
  "wf_book b \<Longrightarrow> list_all (\<lambda>(k, o1). wf_book_order k o1) (om_entries (ob_orders b))"
  by (simp add: wf_book_def)

lemma add_order_simulates:
  assumes wf: "wf_book b"
  shows "simulates (add_order ref s price shares b) (spec_add ref s price shares (ob_orders b)) b"
proof (cases "valid_side s \<and> price \<noteq> 0 \<and> shares \<noteq> 0 \<and> om_find (ob_orders b) ref = None")
  case False
  then show ?thesis by (auto simp: add_order_def spec_add_def is_buy_def is_sell_def valid_side_def)
next
  case True
  let ?o = "\<lparr>bo_ref = ref, bo_side = s, bo_price = price, bo_shares = shares\<rparr>"
  let ?m = "om_assign ref ?o (ob_orders b)"
  from True have v: "valid_side s" and new: "om_find (ob_orders b) ref = None" by auto
  have lv: "wf_levels s (ob_orders b) (levels_of s b)" by (rule wf_book_levelsD [OF wf v])
  note at = wf_levels_at [OF lv, of price]
  have code: "add_order ref s price shares b =
     (case qty_checked_add (level_at (levels_of s b) price) shares of
        Err e \<Rightarrow> (convert_error e, b)
      | Ok tot \<Rightarrow> (Ok (), (set_levels s (om_assign price tot (levels_of s b)) b)\<lparr>ob_orders := ?m\<rparr>))"
    using True by (auto simp: add_order_def is_buy_def is_sell_def valid_side_def Let_def om_emplace_def
        split: result.splits)
  show ?thesis
  proof (cases "qty_checked_add (level_at (levels_of s b) price) shares")
    case (Err e)
    then have "2 ^ 64 \<le> resting s price (ob_orders b) + unat shares"
      using qty_arith.add_fits [of "level_at (levels_of s b) price" shares] at by fastforce
    with Err show ?thesis by (simp add: code spec_add_def)
  next
    case (Ok t)
    then have t: "unat t = resting s price (ob_orders b) + unat shares"
      by (simp add: qty_arith.add_Ok_iff at)
    have "wf_book ((set_levels s (om_assign price t (levels_of s b)) b)\<lparr>ob_orders := ?m\<rparr>)"
    proof (rule wf_book_setI [OF v _ _ _ wf])
      show "list_all (\<lambda>(k, o1). wf_book_order k o1) (om_entries ?m)"
        using True by (intro wf_orders_assign wf_book_ordersD [OF wf]) (simp add: wf_book_order_def)
      show "wf_levels s ?m (om_assign price t (levels_of s b))"
      proof (rule wf_levels_assign [OF lv])
        show "t \<noteq> 0" using t True by (auto simp: unat_0_iff)
      qed (simp_all add: resting_new [OF new] contribution_def t)
    qed (simp add: resting_new [OF new] contribution_def)
    moreover have "resting s price (ob_orders b) + unat shares < 2 ^ 64"
      using t unat_less_pow [of t] by simp
    ultimately show ?thesis using True by (simp add: code Ok simulates_Ok spec_add_def)
  qed
qed

lemma qty_saturating_sub_unat: "unat (qty_saturating_sub a b) = unat a - unat b"
  by (simp add: qty_saturating_sub_def word_nat)

text \<open>What a reduction leaves of the volume at each price.\<close>

lemma resting_reduce:
  assumes "om_find m k = Some o1"
  shows "resting s p (om_erase k m) = resting s p m - contribution s p k o1"
    and "unat q \<le> unat (bo_shares o1) \<Longrightarrow>
      resting s p (om_assign k (o1\<lparr>bo_shares := bo_shares o1 - q\<rparr>) m)
        = resting s p m - contribution s p k (o1\<lparr>bo_shares := q\<rparr>)"
  using resting_erase [of s p k m] resting_assign [of s p k "o1\<lparr>bo_shares := bo_shares o1 - q\<rparr>" m] assms
  by (auto simp: contribution_def word_nat split: if_splits)

lemma execute_order_simulates:
  assumes wf: "wf_book b"
  shows "simulates (execute_order ref shares b) (spec_reduce ref shares (ob_orders b)) b"
proof (cases "om_find (ob_orders b) ref")
  case None
  then show ?thesis by (simp add: execute_order_def spec_reduce_def)
next
  case (Some o1)
  let ?s = "bo_side o1" and ?p = "bo_price o1" and ?m = "ob_orders b"
  have o1: "wf_book_order ref o1" by (rule wf_book_orderD [OF wf Some])
  then have v: "valid_side ?s" by (simp add: wf_book_order_def)
  have lv: "wf_levels ?s ?m (levels_of ?s b)" by (rule wf_book_levelsD [OF wf v])
  note at = wf_levels_at [OF lv, of ?p]
  have le: "unat (bo_shares o1) \<le> unat (level_at (levels_of ?s b) ?p)" by (rule level_of_order [OF wf Some])
  consider "shares = 0 \<or> bo_shares o1 < shares" | "shares \<noteq> 0" "shares = bo_shares o1"
    | "shares \<noteq> 0" "shares < bo_shares o1" by fastforce
  then show ?thesis
  proof cases
    case 1
    with Some show ?thesis by (auto simp: execute_order_def spec_reduce_def)
  next
    case 2
    let ?t = "qty_saturating_sub (level_at (levels_of ?s b) ?p) (bo_shares o1)"
    let ?l = "if ?t = 0 then om_erase ?p (om_assign ?p ?t (levels_of ?s b)) else om_assign ?p ?t (levels_of ?s b)"
    have "wf_book ((set_levels ?s ?l b)\<lparr>ob_orders := om_erase ref ?m\<rparr>)"
    proof (rule wf_book_setI [OF v _ _ _ wf])
      show "wf_levels ?s (om_erase ref ?m) ?l"
        using lv wf_levels_at [OF lv] at
        by (auto simp: wf_levels_def resting_reduce [OF Some] contribution_def qty_saturating_sub_unat
            unat_0_iff [symmetric])
      show "list_all (\<lambda>(k, o1). wf_book_order k o1) (om_entries (om_erase ref ?m))"
        by (rule wf_orders_erase [OF wf_book_ordersD [OF wf]])
    qed (simp add: resting_reduce [OF Some] contribution_def)
    with Some 2 show ?thesis
      by (simp add: execute_order_def spec_reduce_def reduce_level_def Let_def simulates_Ok cong: if_cong)
  next
    case 3
    let ?t = "qty_saturating_sub (level_at (levels_of ?s b) ?p) shares"
    let ?o = "o1\<lparr>bo_shares := bo_shares o1 - shares\<rparr>"
    from 3 have lt: "unat shares < unat (bo_shares o1)" by (simp add: word_nat)
    have sat: "qty_saturating_sub (bo_shares o1) shares = bo_shares o1 - shares"
      using 3 by (auto simp: qty_saturating_sub_def dest: less_asym)
    have "wf_book ((set_levels ?s (om_assign ?p ?t (levels_of ?s b)) b)\<lparr>ob_orders := om_assign ref ?o ?m\<rparr>)"
    proof (rule wf_book_setI [OF v _ _ _ wf])
      show "list_all (\<lambda>(k, o1). wf_book_order k o1) (om_entries (om_assign ref ?o ?m))"
        using o1 3 by (intro wf_orders_assign wf_book_ordersD [OF wf]) (auto simp: wf_book_order_def)
      have t: "unat ?t = resting ?s ?p ?m - unat shares" by (simp add: qty_saturating_sub_unat at)
      show "wf_levels ?s (om_assign ref ?o ?m) (om_assign ?p ?t (levels_of ?s b))"
      proof (rule wf_levels_assign [OF lv])
        have "0 < unat ?t" using lt le t at by simp
        then show "?t \<noteq> 0" by auto
      qed (use lt t in \<open>simp_all add: resting_reduce [OF Some] contribution_def\<close>)
    qed (use lt in \<open>simp add: resting_reduce [OF Some] contribution_def\<close>)
    with Some 3 sat show ?thesis
      by (auto simp: execute_order_def spec_reduce_def reduce_level_def Let_def simulates_Ok)
  qed
qed

lemma delete_order_simulates:
  assumes wf: "wf_book b"
  shows "simulates (delete_order ref b)
    (if om_find (ob_orders b) ref = None then None else Some (om_erase ref (ob_orders b))) b"
proof (cases "om_find (ob_orders b) ref")
  case None
  then show ?thesis by (simp add: delete_order_def)
next
  case (Some o1)
  then have "bo_shares o1 \<noteq> 0" using wf_book_orderD [OF wf] by (auto simp: wf_book_order_def)
  with Some execute_order_simulates [OF wf, of ref "bo_shares o1"] show ?thesis
    by (simp add: delete_order_def spec_reduce_def)
qed

text \<open>Removing an order and putting in its replacement, level by level.\<close>

definition without_order :: "u64 \<Rightarrow> qty \<Rightarrow> levels \<Rightarrow> levels" where
  "without_order p rest l = (if rest = 0 then om_erase p l else om_assign p rest l)"

lemma level_at_without [simp]:
  "level_at (without_order p rest l) p' = (if p' = p then rest else level_at l p')"
  by (simp add: without_order_def)

lemma om_assign_without: "om_assign p t (without_order p rest l) = om_assign p t l"
  by (rule omap_eqI) (simp add: without_order_def)

lemma wf_levels_without:
  assumes "wf_levels s m l" "om_find m k = Some o1" "bo_side o1 = s"
    and "unat rest = unat (level_at l (bo_price o1)) - unat (bo_shares o1)"
  shows "wf_levels s (om_erase k m) (without_order (bo_price o1) rest l)"
proof (cases "rest = 0")
  case True
  with assms wf_levels_at [OF assms(1)] show ?thesis
    by (auto simp: without_order_def resting_reduce contribution_def intro: wf_levels_erase)
next
  case False
  with assms wf_levels_at [OF assms(1)] show ?thesis
    by (auto simp: without_order_def resting_reduce contribution_def intro: wf_levels_assign)
qed

lemma wf_levels_add:
  assumes "wf_levels s m l" "om_find m k = None"
    and "unat t = unat (level_at l p) + unat q" "q \<noteq> 0"
  shows "wf_levels s (om_assign k \<lparr>bo_ref = r, bo_side = s, bo_price = p, bo_shares = q\<rparr> m) (om_assign p t l)"
proof (rule wf_levels_assign [OF assms(1)])
  show "t \<noteq> 0" using assms(3,4) by (auto simp: unat_0_iff)
qed (use assms wf_levels_at [OF assms(1)] in \<open>simp_all add: resting_new contribution_def\<close>)

lemma replace_order_simulates:
  assumes wf: "wf_book b"
  shows "simulates (replace_order orig new shares price b)
    (spec_replace orig new shares price (ob_orders b)) b"
proof (cases "om_find (ob_orders b) orig")
  case None
  then show ?thesis by (simp add: replace_order_def spec_replace_def)
next
  case (Some o1)
  let ?s = "bo_side o1" and ?p = "bo_price o1" and ?m = "ob_orders b" and ?m1 = "om_erase orig (ob_orders b)"
  have o1: "wf_book_order orig o1" by (rule wf_book_orderD [OF wf Some])
  then have v: "valid_side ?s" and pos: "bo_shares o1 \<noteq> 0" by (simp_all add: wf_book_order_def)
  have lv: "wf_levels ?s ?m (levels_of ?s b)" by (rule wf_book_levelsD [OF wf v])
  have le: "unat (bo_shares o1) \<le> unat (level_at (levels_of ?s b) ?p)" by (rule level_of_order [OF wf Some])
  show ?thesis
  proof (cases "(new \<noteq> orig \<and> om_find ?m new \<noteq> None) \<or> price = 0 \<or> shares = 0")
    case True
    with Some show ?thesis by (auto simp: replace_order_def spec_replace_def spec_add_def)
  next
    case False
    obtain lvl where lvl: "om_find (levels_of ?s b) ?p = Some lvl"
      using le pos by (cases "om_find (levels_of ?s b) ?p") (auto simp: level_at_def unat_0_iff)
    then have lvl_at: "level_at (levels_of ?s b) ?p = lvl" by (simp add: level_at_def)
    obtain rest where rest: "qty_checked_sub lvl (bo_shares o1) = Ok rest"
      "unat rest = unat lvl - unat (bo_shares o1)"
      using qty_arith.sub_fits [of "bo_shares o1" lvl] le lvl_at by auto
    let ?l1 = "without_order ?p rest (levels_of ?s b)"
    have l1: "wf_levels ?s ?m1 ?l1"
      using rest lvl_at by (intro wf_levels_without [OF lv Some]) simp_all
    note at = wf_levels_at [OF l1, of price]
    have fresh: "om_find ?m1 new = None" using False by auto
    let ?o = "\<lparr>bo_ref = new, bo_side = ?s, bo_price = price, bo_shares = shares\<rparr>"
    have code: "replace_order orig new shares price b =
       (case qty_checked_add (level_at ?l1 price) shares of
          Err e \<Rightarrow> (convert_error e, b)
        | Ok t \<Rightarrow> (Ok (), (set_levels ?s (om_assign price t ?l1) b)\<lparr>ob_orders := om_assign new ?o ?m1\<rparr>))"
    proof (cases "price = ?p")
      case True
      with False Some lvl rest(1) fresh show ?thesis
        by (auto simp: replace_order_def Let_def om_emplace_def om_assign_without split: result.splits)
    next
      case ne: False
      with False Some lvl rest(1) fresh show ?thesis
        by (auto simp: replace_order_def Let_def om_emplace_def without_order_def split: result.splits)
    qed
    show ?thesis
    proof (cases "qty_checked_add (level_at ?l1 price) shares")
      case (Err e)
      then have "2 ^ 64 \<le> resting ?s price ?m1 + unat shares"
        using qty_arith.add_fits [of "level_at ?l1 price" shares] at by fastforce
      with Err Some show ?thesis
        by (simp add: code spec_replace_def spec_add_def del: level_at_without)
    next
      case (Ok t)
      then have t: "unat t = unat (level_at ?l1 price) + unat shares" by (simp add: qty_arith.add_Ok_iff)
      have "wf_book ((set_levels ?s (om_assign price t ?l1) b)\<lparr>ob_orders := om_assign new ?o ?m1\<rparr>)"
      proof (rule wf_book_setI [OF v _ _ _ wf])
        show "list_all (\<lambda>(k, o1). wf_book_order k o1) (om_entries (om_assign new ?o ?m1))"
          using False v
          by (intro wf_orders_assign wf_orders_erase wf_book_ordersD [OF wf]) (simp add: wf_book_order_def)
        show "wf_levels ?s (om_assign new ?o ?m1) (om_assign price t ?l1)"
          using False t by (intro wf_levels_add [OF l1 fresh]) simp_all
      qed (simp add: resting_new [OF fresh] resting_reduce [OF Some] contribution_def)
      moreover have "resting ?s price ?m1 + unat shares < 2 ^ 64"
        using t at unat_less_pow [of t] by simp
      ultimately show ?thesis
        using False Some v fresh
        by (simp add: code Ok simulates_Ok spec_replace_def spec_add_def del: level_at_without)
    qed
  qed
qed

lemma wf_book_timestamp [simp]: "wf_book (b\<lparr>ob_last_timestamp := t\<rparr>) = wf_book b"
  by (simp add: wf_book_def)

lemma apply_message_simulates:
  assumes "wf_book b"
  shows "simulates (apply_message m b) (spec_step m (ob_orders b)) (b\<lparr>ob_last_timestamp := timestamp_of m\<rparr>)"
proof -
  define b1 where "b1 = b\<lparr>ob_last_timestamp := timestamp_of m\<rparr>"
  have wf: "wf_book b1" and m: "ob_orders b1 = ob_orders b" using assms by (simp_all add: b1_def)
  note sims = add_order_simulates [OF wf] execute_order_simulates [OF wf] delete_order_simulates [OF wf]
    replace_order_simulates [OF wf]
  have "simulates (apply_message m b) (spec_step m (ob_orders b1)) b1"
    unfolding apply_message_def Let_def b1_def [symmetric] spec_step_def cancel_order_def
    using sims wf by (simp add: simulates_Ok split: itch_message.split)
  then show ?thesis unfolding m by (simp only: b1_def)
qed

section \<open>Books reached by messages\<close>

text \<open>The book after a sequence of messages, the rejected ones included.\<close>

definition book_after :: "itch_message list \<Rightarrow> order_book" where
  "book_after ms = fold (\<lambda>m b. snd (apply_message m b)) ms empty_book"

lemma wf_empty_book: "wf_book empty_book"
  by (simp add: wf_book_def empty_book_def wf_levels_def level_at_def resting_def)

lemma apply_message_wf: "wf_book b \<Longrightarrow> wf_book (snd (apply_message m b))"
  using apply_message_simulates [of b m] by (auto simp: simulates_def split: result.splits)

lemma wf_fold_messages: "wf_book b \<Longrightarrow> wf_book (fold (\<lambda>m b. snd (apply_message m b)) ms b)"
  by (induction ms arbitrary: b) (simp_all add: apply_message_wf)

lemma wf_book_after: "wf_book (book_after ms)"
  unfolding book_after_def by (intro wf_fold_messages wf_empty_book)

lemma resting_pos_iff:
  assumes "list_all (\<lambda>(k, o1). wf_book_order k o1) (om_entries m)"
  shows "resting s p m \<noteq> 0 \<longleftrightarrow> (\<exists>k o1. om_find m k = Some o1 \<and> bo_side o1 = s \<and> bo_price o1 = p)"
proof -
  have pos: "unat (bo_shares o1) \<noteq> 0" if "om_find m k = Some o1" for k o1
    using assms [unfolded wf_orders_iff] that by (auto simp: wf_book_order_def unat_0_iff)
  have "resting s p m \<noteq> 0 \<longleftrightarrow> (\<exists>e\<in>set (om_entries m). contribution s p (fst e) (snd e) \<noteq> 0)"
    by (simp add: resting_def split_beta)
  also have "\<dots> \<longleftrightarrow> (\<exists>k o1. om_find m k = Some o1 \<and> contribution s p k o1 \<noteq> 0)"
    by (simp only: Bex_def split_paired_Ex fst_conv snd_conv om.mem_entries)
  finally show ?thesis
    using pos by (auto simp: contribution_def)
qed

definition prices_of :: "side \<Rightarrow> order_book \<Rightarrow> u64 list" where
  "prices_of s b = map (bo_price o snd) (filter (\<lambda>(k, o1). bo_side o1 = s) (om_entries (ob_orders b)))"

lemma set_prices_of:
  "set (prices_of s b) = {p. \<exists>k o1. om_find (ob_orders b) k = Some o1 \<and> bo_side o1 = s \<and> bo_price o1 = p}"
  by (force simp: prices_of_def om.mem_entries)

lemma level_prices:
  assumes "wf_book b" "valid_side s"
  shows "dom (om_find (levels_of s b)) = set (prices_of s b)"
proof -
  have lv: "wf_levels s (ob_orders b) (levels_of s b)" by (rule wf_book_levelsD [OF assms])
  have "om_find (levels_of s b) p \<noteq> None \<longleftrightarrow> resting s p (ob_orders b) \<noteq> 0" for p
    using lv [unfolded wf_levels_def, rule_format, of p]
    by (cases "om_find (levels_of s b) p") (auto simp: level_at_def simp flip: unat_0_iff)
  then show ?thesis
    using resting_pos_iff [OF wf_book_ordersD [OF assms(1)], of s] by (auto simp: set_prices_of dom_def)
qed

lemma best_prices:
  assumes "wf_book b"
  shows "best_bid b = (if prices_of Buy b = [] then None else Some (Max (set (prices_of Buy b))))"
    and "best_ask b = (if prices_of Sell b = [] then None else Some (Min (set (prices_of Sell b))))"
proof -
  have b: "dom (om_find (ob_bids b)) = set (prices_of Buy b)"
    and a: "dom (om_find (ob_asks b)) = set (prices_of Sell b)"
    using level_prices [OF assms, of Buy] level_prices [OF assms, of Sell]
    by (simp_all add: levels_of_def valid_side_def)
  have "om_entries (ob_bids b) = [] \<longleftrightarrow> prices_of Buy b = []"
    "om_entries (ob_asks b) = [] \<longleftrightarrow> prices_of Sell b = []"
    using om.keys_dom [of "ob_bids b"] om.keys_dom [of "ob_asks b"] a b by auto
  then show "best_bid b = (if prices_of Buy b = [] then None else Some (Max (set (prices_of Buy b))))"
    and "best_ask b = (if prices_of Sell b = [] then None else Some (Min (set (prices_of Sell b))))"
    using om.last_key [of "ob_bids b"] om.first_key [of "ob_asks b"] a b
    by (auto simp: best_bid_def best_ask_def om_is_empty_def)
qed

section \<open>The properties\<close>

definition demo_header :: "u64 \<Rightarrow> message_header" where
  "demo_header t = \<lparr>mh_stock_locate = 1, mh_tracking_number = 0, mh_timestamp = t\<rparr>"

definition demo_symbol :: bytes where
  "demo_symbol = replicate 8 32"

definition demo_messages :: "itch_message list" where
  "demo_messages =
     [AddOrder (demo_header 1) 10 Buy 300 demo_symbol 1000 None,
      AddOrder (demo_header 2) 11 Buy 50 demo_symbol 1000 None,
      AddOrder (demo_header 3) 12 Sell 40 demo_symbol 1007 None,
      OrderExecuted (demo_header 4) 10 100 77,
      OrderReplace (demo_header 5) 11 13 60 1001,
      OrderDelete (demo_header 6) 99]"

text \<open>C14: Every message acts on a well-formed book as the index-free specification says: it
  succeeds exactly when the specification accepts it, then the orders are the specified ones and
  both level indices are again exactly the volumes resting at each price; otherwise only the clock
  has moved.  In particular the index-inconsistency and underflow errors never occur.\<close>

theorem book_refines_orders:
  assumes "wf_book b"
  shows "case apply_message m b of
      (Ok u, b') \<Rightarrow> spec_step m (ob_orders b) = Some (ob_orders b') \<and> wf_book b'
        \<and> ob_last_timestamp b' = timestamp_of m
    | (Err e, b') \<Rightarrow> spec_step m (ob_orders b) = None \<and> b' = b\<lparr>ob_last_timestamp := timestamp_of m\<rparr>"
  using apply_message_simulates [OF assms, of m]
  by (auto simp: simulates_def split: prod.splits result.splits)

theorem book_refines_orders_witness:
  "spec_step (OrderDelete (demo_header 7) 12) (ob_orders (book_after demo_messages))
     = Some (ob_orders (snd (apply_message (OrderDelete (demo_header 7) 12) (book_after demo_messages))))"
proof -
  let ?m = "OrderDelete (demo_header 7) 12"
  have "is_ok (fst (apply_message ?m (book_after demo_messages)))" by code_simp
  then show ?thesis
    using book_refines_orders [OF wf_book_after [of demo_messages], of ?m]
    by (auto split: prod.splits result.splits)
qed

text \<open>Whatever messages arrive, rejected ones included, the best bid is the highest price of a
  resting buy order and the best ask the lowest price of a resting sell order; there is none exactly
  when no order of that side rests.\<close>

theorem best_prices_of_orders:
  "best_bid (book_after ms) = (let ps = prices_of Buy (book_after ms) in
      if ps = [] then None else Some (Max (set ps)))
   \<and> best_ask (book_after ms) = (let ps = prices_of Sell (book_after ms) in
      if ps = [] then None else Some (Min (set ps)))"
  by (simp add: best_prices [OF wf_book_after] Let_def)

lemma mid_between:
  fixes l h :: u64
  assumes "l \<le> h"
  shows "unat (l + (h - l) div 2) = (unat l + unat h) div 2"
proof -
  have le: "unat l \<le> unat h" and h: "unat h < 2 ^ 64" using assms unat_less_pow [of h] by (simp_all add: word_nat)
  have d: "unat ((h - l) div 2) = (unat h - unat l) div 2" using assms by (simp add: unat_div word_nat)
  then have "unat l + unat ((h - l) div 2) = (unat l + unat h) div 2" using le by simp
  moreover have "(unat l + unat h) div 2 < 2 ^ 64" using le h by linarith
  ultimately show ?thesis by (simp add: unat_add_fits)
qed

lemma best_prices_positive:
  assumes "wf_book b" "best_bid b = Some p \<or> best_ask b = Some p"
  shows "p \<noteq> 0"
proof -
  have "p \<in> set (prices_of Buy b) \<union> set (prices_of Sell b)"
    using assms(2) Max_in [of "set (prices_of Buy b)"] Min_in [of "set (prices_of Sell b)"]
    by (auto simp: best_prices [OF assms(1)] split: if_splits)
  then show ?thesis
    using wf_book_orderD [OF assms(1)] by (auto simp: set_prices_of wf_book_order_def)
qed

lemma mid_price_wf:
  assumes "wf_book b"
  shows "map_option unat (mid_price b)
    = (case (best_bid b, best_ask b) of
         (Some p, Some q) \<Rightarrow> Some ((unat p + unat q) div 2) | _ \<Rightarrow> None)"
proof (cases "best_bid b")
  case (Some p)
  note bid = this
  show ?thesis
  proof (cases "best_ask b")
    case (Some q)
    let ?l = "if p < q then p else q" and ?h = "if p < q then q else p"
    have le: "?l \<le> ?h" by auto
    have pos: "0 < unat p" "0 < unat q"
      using best_prices_positive [OF assms] bid Some by (simp_all add: unat_gt_0)
    have mid: "unat (?l + (?h - ?l) div 2) = (unat p + unat q) div 2"
      unfolding mid_between [OF le] by (simp add: add.commute)
    moreover have "0 < (unat p + unat q) div 2" using pos by linarith
    ultimately have "?l + (?h - ?l) div 2 \<noteq> 0" by (metis less_numeral_extra(3) unat_0)
    with bid Some mid show ?thesis by (simp add: mid_price_def price_create_def Let_def)
  qed (simp add: mid_price_def bid)
qed (simp add: mid_price_def)

text \<open>The mid price is the mean of the best prices rounded down, computed without wrapping even
  for the largest prices, and it exists exactly when both sides have a resting order.\<close>

theorem mid_price_is_mean:
  "map_option unat (mid_price (book_after ms))
     = (case (best_bid (book_after ms), best_ask (book_after ms)) of
          (Some p, Some q) \<Rightarrow> Some ((unat p + unat q) div 2) | _ \<Rightarrow> None)"
  by (rule mid_price_wf [OF wf_book_after])

text \<open>A rejected message is not without effect: the book's clock already shows its time.\<close>

theorem rejected_message_moves_clock:
  "fst (apply_message (OrderDelete (demo_header t) r) empty_book)
      = Err (DomainError AccountNotFound ''Order not in book'')
   \<and> ob_last_timestamp (snd (apply_message (OrderDelete (demo_header t) r) empty_book)) = t"
  by (simp add: apply_message_def delete_order_def empty_book_def timestamp_of_def demo_header_def)

end
