(* ===== verification/Itch_Parser.thy ===== *)
theory Itch_Parser
  imports Order_Book
begin

text \<open>
  \<open>marketdata/parser.cpp\<close> and \<open>packet_source.hpp\<close>: framed Nasdaq ITCH bytes to messages.  The
  parser is strict: each message type has one length.  Every field is read with the code's shifts;
  the indices are in range because each branch has checked the length of the payload.
\<close>

section \<open>Big-endian reads\<close>

definition shift_in :: "u8 \<Rightarrow> 'a::len word \<Rightarrow> 'a word" where
  "shift_in x v = push_bit 8 v OR ucast x"

definition read_u48_be :: "bytes \<Rightarrow> u64" where
  "read_u48_be bs = fold shift_in (take 6 bs) 0"

definition read_u16_be :: "bytes \<Rightarrow> u16" where
  "read_u16_be bs = push_bit 8 (ucast (bs ! 0)) OR ucast (bs ! 1)"

definition read_u32_be :: "bytes \<Rightarrow> u32" where
  "read_u32_be bs = push_bit 24 (ucast (bs ! 0)) OR push_bit 16 (ucast (bs ! 1))
     OR push_bit 8 (ucast (bs ! 2)) OR ucast (bs ! 3)"

definition read_u64_be :: "bytes \<Rightarrow> u64" where
  "read_u64_be bs = fold shift_in (take 8 bs) 0"

section \<open>Payloads\<close>

definition parse_error :: "string \<Rightarrow> 'a result" where
  "parse_error msg = Err (DomainError OrderValidationFailed msg)"

definition read_header :: "bytes \<Rightarrow> message_header" where
  "read_header data = \<lparr>mh_stock_locate = read_u16_be (drop 1 data),
     mh_tracking_number = read_u16_be (drop 3 data), mh_timestamp = read_u48_be (drop 5 data)\<rparr>"

definition slice :: "nat \<Rightarrow> nat \<Rightarrow> bytes \<Rightarrow> bytes" where
  "slice from until data = take (until - from) (drop from data)"

definition read_side :: "u8 \<Rightarrow> side" where
  "read_side x = (if x = byte_of CHR ''B'' then Buy else if x = byte_of CHR ''S'' then Sell else Buy)"

definition parse_add_order :: "bytes \<Rightarrow> bytes option \<Rightarrow> itch_message result" where
  "parse_add_order data attr =
     (let s = read_side (data ! 19) in
      if data ! 19 \<noteq> byte_of CHR ''B'' \<and> data ! 19 \<noteq> byte_of CHR ''S'' then
        Err (PrimitiveError InvalidSide ''Invalid side byte in ITCH Add'')
      else
        Ok (AddOrder (read_header data) (read_u64_be (drop 11 data)) s (read_u32_be (drop 20 data))
          (slice 24 32 data) (read_u32_be (drop 32 data)) attr))"

definition parse_payload :: "bytes \<Rightarrow> itch_message result" where
  "parse_payload payload =
     (if payload = [] then parse_error ''UnexpectedEof''
      else
        let tag = payload ! 0; data = payload; len = length payload; h = read_header data;
            ref = read_u64_be (drop 11 data)
        in
        if tag = byte_of CHR ''S'' then
          (if len \<noteq> 12 then parse_error ''InvalidMessageLength''
           else Ok (SystemEvent h (data ! 11)))
        else if tag = byte_of CHR ''R'' then
          (if len \<noteq> 39 then parse_error ''InvalidMessageLength''
           else Ok (StockDirectory h (slice 11 19 data) (read_u32_be (drop 21 data))))
        else if tag = byte_of CHR ''A'' then
          (if len \<noteq> 36 then parse_error ''InvalidMessageLength''
           else parse_add_order data None)
        else if tag = byte_of CHR ''F'' then
          (if len \<noteq> 40 then parse_error ''InvalidMessageLength''
           else parse_add_order data (Some (slice 36 40 data)))
        else if tag = byte_of CHR ''E'' then
          (if len \<noteq> 31 then parse_error ''InvalidMessageLength''
           else Ok (OrderExecuted h ref (read_u32_be (drop 19 data)) (read_u64_be (drop 23 data))))
        else if tag = byte_of CHR ''C'' then
          (if len \<noteq> 36 then parse_error ''InvalidMessageLength''
           else Ok (OrderExecutedWithPrice h ref (read_u32_be (drop 19 data)) (read_u64_be (drop 23 data))
             (data ! 31 = byte_of CHR ''Y'') (read_u32_be (drop 32 data))))
        else if tag = byte_of CHR ''X'' then
          (if len \<noteq> 23 then parse_error ''InvalidMessageLength''
           else Ok (OrderCancel h ref (read_u32_be (drop 19 data))))
        else if tag = byte_of CHR ''D'' then
          (if len \<noteq> 19 then parse_error ''InvalidMessageLength''
           else Ok (OrderDelete h ref))
        else if tag = byte_of CHR ''U'' then
          (if len \<noteq> 35 then parse_error ''InvalidMessageLength''
           else Ok (OrderReplace h ref (read_u64_be (drop 19 data)) (read_u32_be (drop 27 data))
             (read_u32_be (drop 31 data))))
        else parse_error ''UnknownMessageType'')"

section \<open>Frames and streams\<close>

definition parse_message :: "bytes \<Rightarrow> (itch_message \<times> nat) result" where
  "parse_message bs =
     (if length bs < 3 then parse_error ''UnexpectedEof''
      else
        let len = unat (read_u16_be bs); total_frame_len = 2 + len in
        if length bs < total_frame_len then parse_error ''UnexpectedEof''
        else and_then_conv (parse_payload (slice 2 total_frame_len bs))
               (\<lambda>msg. Ok (msg, total_frame_len)))"

lemma parse_message_consumes:
  assumes "parse_message bs = Ok (m, n)"
  shows "2 \<le> n \<and> n \<le> length bs"
proof -
  have "\<exists>p. n = 2 + unat (read_u16_be bs) \<and> n \<le> length bs"
    using assms
    by (cases "parse_payload (slice 2 (2 + unat (read_u16_be bs)) bs)")
       (auto simp: parse_message_def parse_error_def Let_def split: if_splits)
  then show ?thesis by simp
qed

function parse_stream_from :: "itch_message list \<Rightarrow> bytes \<Rightarrow> itch_message list result" where
  "parse_stream_from messages remaining =
     (if remaining = [] then Ok messages
      else case parse_message remaining of
             Err e \<Rightarrow> convert_error e
           | Ok (msg, consumed) \<Rightarrow> parse_stream_from (messages @ [msg]) (drop consumed remaining))"
  by pat_completeness auto
termination
  by (relation "measure (length \<circ> snd)") (auto dest!: parse_message_consumes)

declare parse_stream_from.simps [simp del]

definition parse_stream :: "bytes \<Rightarrow> itch_message list result" where
  "parse_stream stream = parse_stream_from [] stream"

text \<open>\<open>SlicePacketSource\<close>: a cursor over a framed buffer.\<close>

record packet_source =
  ps_buffer :: bytes
  ps_cursor :: nat

definition ps_remaining :: "packet_source \<Rightarrow> nat" where
  "ps_remaining src =
     (if length (ps_buffer src) \<le> ps_cursor src then 0 else length (ps_buffer src) - ps_cursor src)"

definition next_message :: "packet_source \<Rightarrow> itch_message option result \<times> packet_source" where
  "next_message src =
     (if ps_remaining src = 0 then (Ok None, src)
      else case parse_message (drop (ps_cursor src) (ps_buffer src)) of
             Err e \<Rightarrow> (convert_error e, src)
           | Ok (msg, consumed) \<Rightarrow> (Ok (Some msg), src\<lparr>ps_cursor := ps_cursor src + consumed\<rparr>))"

section \<open>The wire format, written out\<close>

primrec be_bytes :: "nat \<Rightarrow> 'a::len word \<Rightarrow> bytes" where
  "be_bytes 0 w = []"
| "be_bytes (Suc n) w = ucast (drop_bit (8 * n) w) # be_bytes n w"

lemma length_be_bytes [simp]: "length (be_bytes n w) = n"
  by (induction n) simp_all

lemma fold_shift_in_be_bytes:
  "fold shift_in (be_bytes n w) v = push_bit (8 * n) v OR take_bit (8 * n) w"
  for v w :: "'a::len word"
proof (induction n arbitrary: v)
  case (Suc n)
  have "push_bit (8 * n) (push_bit 8 v OR ucast (ucast (drop_bit (8 * n) w) :: u8)) OR take_bit (8 * n) w
      = push_bit (8 * Suc n) v OR take_bit (8 * Suc n) w"
    by (rule bit_word_eqI) (auto simp: bit_simps algebra_simps)
  with Suc show ?case by (simp add: shift_in_def)
qed simp

text \<open>The unrolled reads are the same fold.\<close>

lemma read_u16_be_Cons: "read_u16_be (a # b # bs) = fold shift_in [a, b] 0"
  by (rule bit_word_eqI) (auto simp: read_u16_be_def shift_in_def bit_simps)

lemma read_u32_be_Cons: "read_u32_be (a # b # c # d # bs) = fold shift_in [a, b, c, d] 0"
  by (rule bit_word_eqI) (auto simp: read_u32_be_def shift_in_def bit_simps algebra_simps)

lemma take_bit_all: "take_bit LENGTH('a) (w :: 'a::len word) = w"
  by simp

lemma read_be_bytes [simp]:
  "read_u16_be (be_bytes 2 a @ bs) = a"
  "read_u32_be (be_bytes 4 b @ bs) = b"
  "read_u64_be (be_bytes 8 c @ bs) = c"
  "read_u48_be (be_bytes 6 c @ bs) = take_bit 48 c"
proof -
  have "read_u16_be (be_bytes 2 a @ bs) = fold shift_in (be_bytes 2 a) 0"
    by (simp add: eval_nat_numeral read_u16_be_Cons del: fold_simps)
  then show "read_u16_be (be_bytes 2 a @ bs) = a"
    using take_bit_all [of a] by (simp add: fold_shift_in_be_bytes)
  have "read_u32_be (be_bytes 4 b @ bs) = fold shift_in (be_bytes 4 b) 0"
    by (simp add: eval_nat_numeral read_u32_be_Cons del: fold_simps)
  then show "read_u32_be (be_bytes 4 b @ bs) = b"
    using take_bit_all [of b] by (simp add: fold_shift_in_be_bytes)
  show "read_u64_be (be_bytes 8 c @ bs) = c"
    using take_bit_all [of c] by (simp add: read_u64_be_def fold_shift_in_be_bytes)
  show "read_u48_be (be_bytes 6 c @ bs) = take_bit 48 c"
    by (simp add: read_u48_be_def fold_shift_in_be_bytes)
qed

lemmas read_be_end [simp] = read_be_bytes [where bs = "[]", simplified]

definition encode_itch_header :: "message_header \<Rightarrow> bytes" where
  "encode_itch_header h = be_bytes 2 (mh_stock_locate h) @ be_bytes 2 (mh_tracking_number h)
     @ be_bytes 6 (mh_timestamp h)"

definition side_byte :: "side \<Rightarrow> u8" where
  "side_byte s = (if s = Buy then byte_of CHR ''B'' else byte_of CHR ''S'')"

definition blanks :: "nat \<Rightarrow> bytes" where
  "blanks n = replicate n (byte_of CHR '' '')"

fun encode_payload :: "itch_message \<Rightarrow> bytes" where
  "encode_payload (SystemEvent h c) = byte_of CHR ''S'' # encode_itch_header h @ [c]"
| "encode_payload (StockDirectory h sb r) =
     byte_of CHR ''R'' # encode_itch_header h @ sb @ blanks 2 @ be_bytes 4 r @ blanks 14"
| "encode_payload (AddOrder h r s q sb p a) =
     (case a of None \<Rightarrow> byte_of CHR ''A'' | Some x \<Rightarrow> byte_of CHR ''F'')
       # encode_itch_header h @ be_bytes 8 r @ [side_byte s] @ be_bytes 4 q @ sb @ be_bytes 4 p
       @ (case a of None \<Rightarrow> [] | Some x \<Rightarrow> x)"
| "encode_payload (OrderExecuted h r q m) =
     byte_of CHR ''E'' # encode_itch_header h @ be_bytes 8 r @ be_bytes 4 q @ be_bytes 8 m"
| "encode_payload (OrderExecutedWithPrice h r q m pr p) =
     byte_of CHR ''C'' # encode_itch_header h @ be_bytes 8 r @ be_bytes 4 q @ be_bytes 8 m
       @ [if pr then byte_of CHR ''Y'' else byte_of CHR ''N''] @ be_bytes 4 p"
| "encode_payload (OrderCancel h r q) =
     byte_of CHR ''X'' # encode_itch_header h @ be_bytes 8 r @ be_bytes 4 q"
| "encode_payload (OrderDelete h r) = byte_of CHR ''D'' # encode_itch_header h @ be_bytes 8 r"
| "encode_payload (OrderReplace h r r' q p) =
     byte_of CHR ''U'' # encode_itch_header h @ be_bytes 8 r @ be_bytes 8 r' @ be_bytes 4 q @ be_bytes 4 p"

text \<open>The messages the wire can carry: a 48-bit time, a real side, fixed-size symbols.\<close>

definition wf_message :: "itch_message \<Rightarrow> bool" where
  "wf_message m \<longleftrightarrow> timestamp_of m < 2 ^ 48
     \<and> (case m of
          StockDirectory h sb r \<Rightarrow> length sb = 8
        | AddOrder h r s q sb p a \<Rightarrow> valid_side s \<and> length sb = 8
            \<and> (case a of None \<Rightarrow> True | Some x \<Rightarrow> length x = 4)
        | _ \<Rightarrow> True)"

definition frame :: "itch_message \<Rightarrow> bytes" where
  "frame m = be_bytes 2 (of_nat (length (encode_payload m)) :: u16) @ encode_payload m"

lemma length_encode_itch_header [simp]: "length (encode_itch_header h) = 10"
  by (simp add: encode_itch_header_def)

lemma length_blanks [simp]: "length (blanks n) = n"
  by (simp add: blanks_def)

lemma take_bit_48: "t < 2 ^ 48 \<Longrightarrow> take_bit 48 t = t" for t :: u64
proof (rule unsigned_word_eqI)
  assume "t < 2 ^ 48"
  then have "unat t < 2 ^ 48" by (simp add: word_nat)
  then show "unat (take_bit 48 t) = unat t" by (simp add: unsigned_take_bit_eq take_bit_nat_eq_self)
qed

lemma read_header_encode:
  "mh_timestamp h < 2 ^ 48 \<Longrightarrow> read_header (x # encode_itch_header h @ bs) = h"
  by (simp add: read_header_def encode_itch_header_def take_bit_48)

lemma parse_payload_encode:
  assumes "wf_message m"
  shows "parse_payload (encode_payload m) = Ok m"
  using assms
  by (cases m)
     (auto simp: wf_message_def parse_payload_def parse_add_order_def Let_def read_header_encode
       timestamp_of_def slice_def side_byte_def read_side_def valid_side_def nth_append
       split: option.splits)

section \<open>Frames parse back\<close>

lemma payload_size:
  assumes "wf_message m"
  shows "12 \<le> length (encode_payload m) \<and> length (encode_payload m) \<le> 40"
  using assms by (cases m) (auto simp: wf_message_def split: option.splits)

lemma length_frame [simp]: "length (frame m) = 2 + length (encode_payload m)"
  by (simp add: frame_def)

lemma frame_length_field:
  assumes "wf_message m"
  shows "unat (read_u16_be (frame m @ bs)) = length (encode_payload m)"
proof -
  have "length (encode_payload m) < 2 ^ 16" using payload_size [OF assms] by simp
  then show ?thesis by (simp add: frame_def unat_of_nat take_bit_nat_eq_self)
qed

lemma parse_message_frame:
  assumes "wf_message m"
  shows "parse_message (frame m @ bs) = Ok (m, length (frame m))"
proof -
  have "slice 2 (2 + length (encode_payload m)) (frame m @ bs) = encode_payload m"
    by (simp add: slice_def frame_def)
  then show ?thesis
    using payload_size [OF assms]
    by (auto simp: parse_message_def frame_length_field [OF assms] Let_def parse_payload_encode [OF assms])
qed

lemma parse_message_truncated:
  assumes "wf_message m" "k < length (frame m)"
  shows "parse_message (take k (frame m)) = parse_error ''UnexpectedEof''"
proof (cases "k < 3")
  case True
  then show ?thesis using assms(2) by (simp add: parse_message_def)
next
  case False
  have "frame m = take k (frame m) @ drop k (frame m)" by simp
  moreover have "read_u16_be (take k (frame m) @ xs) = read_u16_be (take k (frame m))" for xs
    using False assms(2) by (simp add: read_u16_be_def nth_append)
  ultimately have "unat (read_u16_be (take k (frame m))) = length (encode_payload m)"
    using frame_length_field [OF assms(1), of "[]"] by (metis append_Nil2)
  then show ?thesis using False assms(2) by (simp add: parse_message_def)
qed

lemma parse_stream_frames:
  assumes "list_all wf_message ms"
  shows "parse_stream_from acc (concat (map frame ms) @ bs) = parse_stream_from (acc @ ms) bs"
  using assms
proof (induction ms arbitrary: acc)
  case (Cons m ms)
  then have "parse_stream_from acc (frame m @ concat (map frame ms) @ bs)
      = parse_stream_from (acc @ [m]) (concat (map frame ms) @ bs)"
    by (subst parse_stream_from.simps) (auto simp: parse_message_frame simp flip: length_0_conv)
  with Cons show ?case by simp
qed simp

lemma convert_parse_error [simp]: "convert_error (DomainError OrderValidationFailed msg) = parse_error msg"
  by (simp add: convert_error_def fail_msg_def parse_error_def)

text \<open>C15: Framing and parsing are inverse: a stream that consists of the frames of messages parses to
  these messages, and a stream that is cut off inside a frame is rejected as truncated, whatever came
  before.\<close>

theorem stream_round_trip:
  assumes "list_all wf_message ms" "wf_message m" "k < length (frame m)"
  shows "parse_stream (concat (map frame ms) @ take k (frame m))
    = (if k = 0 then Ok ms else Err (DomainError OrderValidationFailed ''UnexpectedEof''))"
proof (cases "k = 0")
  case True
  with assms(1) show ?thesis
    by (simp add: parse_stream_def parse_stream_frames [where bs = "[]", simplified])
       (simp add: parse_stream_from.simps)
next
  case False
  then have "take k (frame m) \<noteq> []" using assms(3) by (metis length_0_conv not_gr0 take_eq_Nil less_nat_zero_code)
  then have "parse_stream_from ms (take k (frame m)) = Err (DomainError OrderValidationFailed ''UnexpectedEof'')"
    by (subst parse_stream_from.simps) (simp add: parse_message_truncated [OF assms(2,3)], simp add: parse_error_def)
  with False show ?thesis by (simp add: parse_stream_def parse_stream_frames [OF assms(1)])
qed

theorem stream_round_trip_witness:
  "parse_stream (concat (map frame demo_messages) @ take 17 (frame (OrderDelete (demo_header 9) 12)))
     = Err (DomainError OrderValidationFailed ''UnexpectedEof'')"
proof -
  have "list_all wf_message demo_messages" by code_simp
  moreover have "wf_message (OrderDelete (demo_header 9) 12)" by code_simp
  moreover have "17 < length (frame (OrderDelete (demo_header 9) 12))" by code_simp
  ultimately show ?thesis
    using stream_round_trip [of demo_messages "OrderDelete (demo_header 9) 12" 17] by simp
qed

section \<open>Which payloads are accepted\<close>

definition payload_lengths :: "(char \<times> nat) list" where
  "payload_lengths = [(CHR ''S'', 12), (CHR ''R'', 39), (CHR ''A'', 36), (CHR ''F'', 40), (CHR ''E'', 31),
     (CHR ''C'', 36), (CHR ''X'', 23), (CHR ''D'', 19), (CHR ''U'', 35)]"

definition acceptable :: "bytes \<Rightarrow> bool" where
  "acceptable p \<longleftrightarrow> p \<noteq> []
     \<and> list_ex (\<lambda>(c, n). p ! 0 = byte_of c \<and> length p = n) payload_lengths
     \<and> (p ! 0 \<noteq> byte_of CHR ''A'' \<and> p ! 0 \<noteq> byte_of CHR ''F''
        \<or> p ! 19 = byte_of CHR ''B'' \<or> p ! 19 = byte_of CHR ''S'')"

lemma read_u48_be_bound: "read_u48_be bs < 2 ^ 48"
proof -
  have "\<not> bit (fold shift_in xs 0 :: u64) i" if "8 * length xs \<le> i" for xs :: bytes and i
    using that
  proof (induction xs arbitrary: i rule: rev_induct)
    case (snoc x xs)
    then show ?case by (auto simp: shift_in_def bit_simps dest: bit_imp_le_length)
  qed simp
  then have "take_bit 48 (read_u48_be bs) = read_u48_be bs"
    by (intro bit_word_eqI) (auto simp: read_u48_be_def bit_simps linorder_not_le min_def
        intro: ccontr)
  then have "unat (read_u48_be bs) = take_bit 48 (unat (read_u48_be bs))"
    by (metis unsigned_take_bit_eq)
  then have "unat (read_u48_be bs) < 2 ^ 48" by (metis take_bit_nat_less_exp)
  then show ?thesis by (simp add: word_nat)
qed

lemma payload_acceptance:
  "is_ok (parse_payload p) = acceptable p
   \<and> (\<not> is_ok (parse_payload p) \<or> wf_message (the_value (parse_payload p)))"
  by (auto simp: parse_payload_def parse_add_order_def acceptable_def payload_lengths_def Let_def
      parse_error_def wf_message_def timestamp_of_def read_header_def read_u48_be_bound [simplified] slice_def
      read_side_def valid_side_def)

text \<open>A payload is accepted exactly when its type is known, its length is the one of that type, and,
  for an added order, its side byte is B or S; the message that comes out is then well formed.\<close>

theorem payload_accepted_iff:
  "case parse_payload p of Ok m \<Rightarrow> acceptable p \<and> wf_message m | Err e \<Rightarrow> \<not> acceptable p"
  using payload_acceptance [of p] by (cases "parse_payload p") simp_all

end
