(* ===== verification/Replay.thy ===== *)
theory Replay
  imports Itch_Parser Oracle
begin

text \<open>
  \<open>marketdata/replay.cpp\<close> and \<open>bridge.hpp\<close>: the replay engine.  It applies messages to its book,
  records the quote after each, reads raw streams through the packet source one frame at a time, and
  hands the mid price to the oracle.
\<close>

record bbo_quote =
  q_best_bid :: "price option"
  q_best_ask :: "price option"
  q_mid_price :: "price option"
  q_timestamp :: u64

record replay_engine =
  re_book :: order_book
  re_history :: "bbo_quote list"

definition new_replay_engine :: replay_engine where
  "new_replay_engine = \<lparr>re_book = empty_book, re_history = []\<rparr>"

definition quote_of :: "order_book \<Rightarrow> bbo_quote" where
  "quote_of b = \<lparr>q_best_bid = best_bid b, q_best_ask = best_ask b, q_mid_price = mid_price b,
     q_timestamp = ob_last_timestamp b\<rparr>"

definition replay_step :: "itch_message \<Rightarrow> replay_engine \<Rightarrow> bbo_quote result \<times> replay_engine" where
  "replay_step msg e =
     (case apply_message msg (re_book e) of
        (Err er, b) \<Rightarrow> (convert_error er, e\<lparr>re_book := b\<rparr>)
      | (Ok u, b) \<Rightarrow> (Ok (quote_of b), e\<lparr>re_book := b, re_history := re_history e @ [quote_of b]\<rparr>))"

fun replay_messages :: "itch_message list \<Rightarrow> replay_engine \<Rightarrow> unit result \<times> replay_engine" where
  "replay_messages [] e = (Ok (), e)"
| "replay_messages (msg # msgs) e =
     (case replay_step msg e of
        (Err er, e') \<Rightarrow> (convert_error er, e')
      | (Ok q, e') \<Rightarrow> replay_messages msgs e')"

lemma next_message_consumes:
  assumes "next_message src = (Ok (Some m), src')"
  shows "ps_remaining src' < ps_remaining src"
proof -
  from assms obtain n where "ps_remaining src \<noteq> 0"
    and p: "parse_message (drop (ps_cursor src) (ps_buffer src)) = Ok (m, n)"
    and "src' = src\<lparr>ps_cursor := ps_cursor src + n\<rparr>"
    by (auto simp: next_message_def convert_error_def fail_msg_def split: if_splits result.splits)
  with parse_message_consumes [OF p] show ?thesis by (auto simp: ps_remaining_def split: if_splits)
qed

function replay_source :: "packet_source \<Rightarrow> replay_engine \<Rightarrow> unit result \<times> replay_engine" where
  "replay_source src e =
     (case next_message src of
        (Err er, src') \<Rightarrow> (convert_error er, e)
      | (Ok None, src') \<Rightarrow> (Ok (), e)
      | (Ok (Some msg), src') \<Rightarrow>
          (case replay_step msg e of
             (Err er, e') \<Rightarrow> (convert_error er, e')
           | (Ok q, e') \<Rightarrow> replay_source src' e'))"
  by pat_completeness auto
termination
  by (relation "measure (ps_remaining \<circ> fst)") (auto dest!: next_message_consumes [OF sym])

declare replay_source.simps [simp del]

definition replay_stream :: "bytes \<Rightarrow> replay_engine \<Rightarrow> unit result \<times> replay_engine" where
  "replay_stream stream e = replay_source \<lparr>ps_buffer = stream, ps_cursor = 0\<rparr> e"

definition snapshot_from_book ::
  "order_book \<Rightarrow> u32 \<Rightarrow> instrument_id \<Rightarrow> u64 \<Rightarrow> u64 \<Rightarrow> reference_price_snapshot option" where
  "snapshot_from_book book oracle_id inst timestamp sequence =
     (case mid_price book of
        None \<Rightarrow> None
      | Some mid \<Rightarrow> Some \<lparr>snap_oracle_id = oracle_id, snap_instrument = inst, snap_price = mid,
          snap_timestamp = timestamp, snap_sequence = sequence\<rparr>)"

definition current_reference_price_snapshot ::
  "replay_engine \<Rightarrow> u32 \<Rightarrow> instrument_id \<Rightarrow> u64 \<Rightarrow> reference_price_snapshot option" where
  "current_reference_price_snapshot e oracle_id inst sequence =
     snapshot_from_book (re_book e) oracle_id inst (ob_last_timestamp (re_book e)) sequence"

section \<open>The stream engine is the parser followed by the message engine\<close>

text \<open>The messages of the longest well-framed prefix, and the error that ends it.\<close>

function parse_prefix :: "bytes \<Rightarrow> itch_message list \<times> error option" where
  "parse_prefix bs =
     (if bs = [] then ([], None)
      else case parse_message bs of
             Err e \<Rightarrow> ([], Some e)
           | Ok (m, n) \<Rightarrow> (case parse_prefix (drop n bs) of (ms, er) \<Rightarrow> (m # ms, er)))"
  by pat_completeness auto
termination
  by (relation "measure length") (auto dest!: parse_message_consumes)

declare parse_prefix.simps [simp del]

lemma convert_convert: "convert_error e = Err e' \<Longrightarrow> convert_error e' = Err e'"
  by (auto simp: convert_error_def fail_msg_def)

lemma convert_error_Err: "\<exists>e'. convert_error e = Err e' \<and> convert_error e' = Err e'"
  by (simp add: convert_error_def fail_msg_def)

lemma parse_stream_from_prefix:
  "parse_stream_from acc bs =
     (case parse_prefix bs of (ms, None) \<Rightarrow> Ok (acc @ ms) | (ms, Some e) \<Rightarrow> convert_error e)"
proof (induction bs arbitrary: acc rule: parse_prefix.induct)
  case (1 bs)
  show ?case
    by (subst parse_stream_from.simps, subst parse_prefix.simps)
       (auto simp: 1 split: result.splits option.splits prod.splits)
qed

definition replay_prefix ::
  "itch_message list \<times> error option \<Rightarrow> replay_engine \<Rightarrow> unit result \<times> replay_engine" where
  "replay_prefix pre e =
     (case replay_messages (fst pre) e of
        (Err er, e') \<Rightarrow> (Err er, e')
      | (Ok u, e') \<Rightarrow> ((case snd pre of None \<Rightarrow> Ok () | Some er \<Rightarrow> convert_error er), e'))"

lemma replay_step_Err: "replay_step m e = (Err er, e') \<Longrightarrow> convert_error er = Err er"
  using convert_convert by (auto simp: replay_step_def split: prod.splits result.splits)

lemma replay_source_prefix:
  "ps_cursor src \<le> length (ps_buffer src) \<Longrightarrow>
   replay_source src e = replay_prefix (parse_prefix (drop (ps_cursor src) (ps_buffer src))) e"
proof (induction src e rule: replay_source.induct)
  case (1 src e)
  let ?bs = "drop (ps_cursor src) (ps_buffer src)"
  show ?case
  proof (cases "?bs = []")
    case True
    with 1(2) show ?thesis
      by (simp add: replay_source.simps [of src e] next_message_def ps_remaining_def
          parse_prefix.simps [of "[]"] replay_prefix_def)
  next
    case ne: False
    then have rem: "ps_remaining src \<noteq> 0" by (simp add: ps_remaining_def)
    show ?thesis
    proof (cases "parse_message ?bs")
      case (Err er)
      obtain er' where er': "convert_error er = (Err er' :: itch_message option result)"
        "convert_error er = (Err er' :: unit result)" "convert_error er' = (Err er' :: unit result)"
        by (simp add: convert_error_def fail_msg_def)
      with Err ne rem show ?thesis
        by (simp add: replay_source.simps [of src e] next_message_def parse_prefix.simps [of ?bs]
            replay_prefix_def)
    next
      case (Ok mn)
      then obtain m n where mn: "parse_message ?bs = Ok (m, n)" by (cases mn) auto
      let ?src = "src\<lparr>ps_cursor := ps_cursor src + n\<rparr>"
      have next_m: "next_message src = (Ok (Some m), ?src)"
        using mn rem by (simp add: next_message_def)
      obtain ms er where pre: "parse_prefix (drop n ?bs) = (ms, er)" by fastforce
      have pre': "parse_prefix ?bs = (m # ms, er)"
        using ne mn pre by (subst parse_prefix.simps) simp
      obtain r e' where st: "replay_step m e = (r, e')" by fastforce
      show ?thesis
      proof (cases r)
        case (Err er1)
        with st replay_step_Err [of m e er1 e'] show ?thesis
          by (simp add: replay_source.simps [of src e] next_m pre' replay_prefix_def convert_error_def
              fail_msg_def)
      next
        case (Ok q)
        have "n \<le> length ?bs" using parse_message_consumes [OF mn] by simp
        then have "replay_source ?src e' = replay_prefix (ms, er) e'"
          using 1(1) [OF next_m [symmetric] refl refl st [symmetric] Ok] 1(2) pre
          by (simp add: add.commute)
        with Ok st show ?thesis
          by (simp add: replay_source.simps [of src e] next_m pre' replay_prefix_def
              split: prod.splits result.splits)
      qed
    qed
  qed
qed

text \<open>Replaying a stream frame by frame is replaying the messages of its longest well-framed prefix:
  when the strict parser accepts the stream, the engine replays exactly the parsed messages; when it
  rejects it, the engine has replayed everything before the bad frame, and reports the parser's error
  unless a message was rejected first.\<close>

theorem stream_replays_parsed_messages:
  "replay_stream bs e =
     (case replay_messages (fst (parse_prefix bs)) e of
        (Err er, e') \<Rightarrow> (Err er, e')
      | (Ok u, e') \<Rightarrow> (and_then (parse_stream bs) (\<lambda>ms. Ok ()), e'))
   \<and> parse_stream bs = (case snd (parse_prefix bs) of
        None \<Rightarrow> Ok (fst (parse_prefix bs)) | Some er \<Rightarrow> convert_error er)"
proof -
  have "parse_stream bs = (case snd (parse_prefix bs) of
      None \<Rightarrow> Ok (fst (parse_prefix bs)) | Some er \<Rightarrow> convert_error er)"
    unfolding parse_stream_def parse_stream_from_prefix by (simp split: prod.splits option.splits)
  then show ?thesis
    by (simp add: replay_stream_def replay_source_prefix replay_prefix_def convert_error_def fail_msg_def
        split: prod.splits result.splits option.splits)
qed

section \<open>The recorded quotes\<close>

abbreviation book_step :: "order_book \<Rightarrow> itch_message \<Rightarrow> order_book" where
  "book_step b m \<equiv> snd (apply_message m b)"

lemma replay_messages_history:
  "case replay_messages ms e of (r, e') \<Rightarrow>
     (\<exists>k \<le> length ms.
        re_history e' = re_history e @ map (\<lambda>i. quote_of (foldl book_step (re_book e) (take (Suc i) ms))) [0..<k]
      \<and> (k = length ms \<longleftrightarrow> is_ok r)
      \<and> re_book e' = foldl book_step (re_book e) (take (if is_ok r then k else Suc k) ms))"
proof (induction ms arbitrary: e)
  case Nil
  then show ?case by simp
next
  case (Cons m ms)
  let ?b = "book_step (re_book e) m"
  show ?case
  proof (cases "fst (apply_message m (re_book e))")
    case (Err er)
    then have "replay_step m e = (convert_error er, e\<lparr>re_book := ?b\<rparr>)"
      by (simp add: replay_step_def split_beta)
    then show ?thesis by (simp add: convert_error_def fail_msg_def)
  next
    case (Ok u)
    let ?e = "e\<lparr>re_book := ?b, re_history := re_history e @ [quote_of ?b]\<rparr>"
    have st: "replay_step m e = (Ok (quote_of ?b), ?e)"
      using Ok by (simp add: replay_step_def split_beta)
    obtain r e' where re: "replay_messages ms ?e = (r, e')" by fastforce
    with Cons.IH [of ?e] obtain k where k: "k \<le> length ms" "k = length ms \<longleftrightarrow> is_ok r"
      "re_history e' = re_history ?e @ map (\<lambda>i. quote_of (foldl book_step ?b (take (Suc i) ms))) [0..<k]"
      "re_book e' = foldl book_step ?b (take (if is_ok r then k else Suc k) ms)"
      by auto
    have "replay_messages (m # ms) e = (r, e')" by (simp add: st re)
    moreover have "re_history e' = re_history e
        @ map (\<lambda>i. quote_of (foldl book_step (re_book e) (take (Suc i) (m # ms)))) [0..<Suc k]"
      unfolding k(3) by (simp add: upt_conv_Cons map_Suc_upt [symmetric] comp_def del: upt_Suc)
    moreover have "re_book e' = foldl book_step (re_book e) (take (if is_ok r then Suc k else Suc (Suc k)) (m # ms))"
      unfolding k(4) by simp
    ultimately show ?thesis
      using k(1,2) by (intro case_prodI2 exI [where x = "Suc k"]) auto
  qed
qed

lemma foldl_book_step: "foldl book_step empty_book ms = book_after ms"
  by (simp add: book_after_def foldl_conv_fold)

text \<open>The engine records one quote per accepted message, and the quote is the state of the book at
  that message; replay stops at the first rejected message, and nothing after it touches the book.\<close>

theorem replay_records_quotes:
  "let (r, e) = replay_messages ms new_replay_engine; n = length (re_history e) in
     re_history e = map (\<lambda>i. quote_of (book_after (take (Suc i) ms))) [0..<n]
   \<and> is_ok r = (n = length ms) \<and> n \<le> length ms
   \<and> re_book e = book_after (take (if is_ok r then n else Suc n) ms)"
  using replay_messages_history [of ms new_replay_engine]
  by (auto simp: new_replay_engine_def foldl_book_step Let_def split: prod.splits)

text \<open>The reference price the engine hands to the oracle is the rounded mean of its best prices,
  with the time of the last message, and there is one exactly when both sides of the book rest.\<close>

theorem reference_snapshot_of_book:
  "current_reference_price_snapshot (snd (replay_messages ms new_replay_engine)) oracle inst seq =
     (let b = re_book (snd (replay_messages ms new_replay_engine)) in
      if prices_of Buy b = [] \<or> prices_of Sell b = [] then None
      else Some \<lparr>snap_oracle_id = oracle, snap_instrument = inst,
             snap_price = of_nat ((unat (Max (set (prices_of Buy b))) + unat (Min (set (prices_of Sell b)))) div 2),
             snap_timestamp = ob_last_timestamp b, snap_sequence = seq\<rparr>)"
proof -
  let ?b = "re_book (snd (replay_messages ms new_replay_engine))"
  have wf: "wf_book ?b"
    using replay_messages_history [of ms new_replay_engine]
    by (auto simp: new_replay_engine_def foldl_book_step wf_book_after split: prod.splits)
  have mid: "mid_price ?b = (case map_option unat (mid_price ?b) of None \<Rightarrow> None | Some n \<Rightarrow> Some (of_nat n))"
    by (cases "mid_price ?b") simp_all
  show ?thesis
    unfolding current_reference_price_snapshot_def snapshot_from_book_def Let_def
    by (subst mid, unfold mid_price_wf [OF wf] best_prices [OF wf]) simp
qed

end
