(* ===== verification/Prover_Properties.thy ===== *)
theory Prover_Properties
  imports Honest
begin

text \<open>
  The properties of the single-batch proof system: what its constraints say, what the prover accepts,
  and what its certificate is worth.
\<close>

section \<open>Order validity\<close>

text \<open>The order-validity constraints hold for the scalars of the orders exactly when every order trades
  the instrument of the batch and carries its position as sequence number.  They say nothing of its
  price and quantity: the inverse witnesses accept zero.\<close>

theorem order_validity_circuit:
  "case synthesize_order_validity inst orders (new_constraint_system, []) of (vars, cs, scalars) \<Rightarrow>
     is_ok (is_satisfied pub scalars cs) \<longleftrightarrow>
       list_all (\<lambda>(idx, o1). ord_instrument o1 = inst \<and> (ucast (ord_seq o1) :: scalar) = of_nat idx) (enumerate 0 orders)"
proof -
  obtain vars cs w where eq: "synthesize_order_validity inst orders (new_constraint_system, []) = (vars, cs, w)"
    by (metis prod_cases3)
  have "extends pub (\<lambda>W. list_all (in_sequence inst) (enumerate 0 orders)) (new_constraint_system, []) (cs, w)"
    using order_validity_gap [of inst orders "(new_constraint_system, [])"]
      order_validity_meaning [of _ _ inst orders "(new_constraint_system, [])"] eq
    by (intro extendsI) simp_all
  from extends_whole [OF this] show ?thesis by (simp add: eq is_satisfied_iff in_sequence_def)
qed

section \<open>The prover\<close>

text \<open>C16: for a valid batch the prover produces a proof exactly when the witness is bound to the published
  header, its accounting verifies, the engine executes the batch with the published price and volume
  and the allocation and fills of the witness into ledgers that agree with its post-state, both
  published roots and the oracle commitment are recomputed, the pre-state's total of the instrument
  fits its type, a reference-price snapshot that comes with a policy and a clearing price is valid
  under that policy, and the circuit's own conditions hold: positions as sequence numbers,
  considerations of 64 bits, and no account's cash crossing a multiple of two to the 64.\<close>

theorem prover_accepts_iff:
  assumes "wf_batch (bw_batch w)"
  shows "is_ok (prove pub w) \<longleftrightarrow>
    (\<exists>records. well_bound pub w records
       \<and> verify_complete_input_accounting (bw_batch w) (new_merkle_tree (map commit_order (bw_preimages w)))
           ((bw_accounting w)\<lparr>cia_records := records\<rparr>) (bw_allocation w) = Ok ())
  \<and> is_ok (total_inventory_of (bw_pre_state w) (bat_instrument (bw_batch w)))
  \<and> (\<exists>e. execute_batch (bw_pre_state w) (bw_batch w) = Ok e
       \<and> res_outcome e = \<lparr>out_price = published_price pub, out_volume = pi_cleared_volume pub\<rparr>
       \<and> res_allocation e = bw_allocation w \<and> res_fills e = bw_fills w
       \<and> same_settlement (bat_instrument (bw_batch w)) (res_post_state e) (bw_post_state w))
  \<and> pi_pre_state_root pub = compute_ledger_root (bw_pre_state w) (bat_instrument (bw_batch w))
  \<and> pi_post_state_root pub = compute_ledger_root (bw_post_state w) (bat_instrument (bw_batch w))
  \<and> pi_oracle_snapshot_hash pub = compute_oracle_snapshot_commitment (bw_oracle_snapshot w) (bw_oracle_policy w)
  \<and> circuit_conditions w \<and> oracle_accepts pub w"
  unfolding prove_ok_iff [OF assms] bind_inputs_Ok check_statement_Ok verify_transition_engine [OF assms]
  by (auto simp: proposed_result_def)

lemma sample_proof:
  obtains pub w proof1 where "bw_batch w = sample_batch" "prove pub w = Ok proof1" "constraint_count pub w < 2 ^ 64"
    "bw_pre_state w = sample_ledger"
proof -
  have n: "length (bat_orders sample_batch) < 2 ^ 32" "om_size sample_ledger < 2 ^ 62"
  proof -
    have "length (bat_orders sample_batch) = 2" "om_size sample_ledger = 2" by code_simp+
    then show "length (bat_orders sample_batch) < 2 ^ 32" "om_size sample_ledger < 2 ^ 62" by simp_all
  qed
  obtain pub w where pw: "proof_inputs (compute_ledger_root sample_ledger (bat_instrument sample_batch)) sample_ledger
      sample_batch (derive_preimages sample_batch 0) sample_result 0 = (pub, w)" by fastforce
  have "small_amounts sample_ledger sample_batch sample_result" by code_simp
  then have "is_ok (prove pub w)"
    using honest_prove(1) [OF sample_wf sample_execution n(1) pw] small_amounts_provable by blast
  then show thesis
    using that honest_count [OF sample_wf sample_execution n(1) pw n(2)] honest_prove(4,5) [OF sample_wf sample_execution n(1) pw]
    by (auto simp: is_ok_iff)
qed

theorem prover_accepts_iff_witness:
  "\<exists>pub w. is_ok (prove pub w) \<and> bw_batch w = sample_batch
    \<and> pi_pre_state_root pub = compute_ledger_root sample_ledger (bat_instrument sample_batch) \<and> circuit_conditions w"
proof -
  obtain pub w proof1 where w: "bw_batch w = sample_batch" "bw_pre_state w = sample_ledger" "prove pub w = Ok proof1"
    by (rule sample_proof)
  then have "is_ok (prove pub w)" by simp
  moreover have "wf_batch (bw_batch w)" using w sample_wf by simp
  ultimately have "pi_pre_state_root pub = compute_ledger_root sample_ledger (bat_instrument sample_batch)"
    and "circuit_conditions w"
    using prover_accepts_iff [of w pub] w by simp_all
  with w \<open>is_ok (prove pub w)\<close> show ?thesis by blast
qed

text \<open>The circuit is stricter than the engine: a batch whose sequence numbers are not its positions.\<close>

definition late_batch :: batch where
  "late_batch = \<lparr>bat_id = 1, bat_instrument = 7, bat_orders = map (\<lambda>o1. o1\<lparr>ord_seq := ord_seq o1 + 5\<rparr>) sample_orders\<rparr>"

definition late_result :: batch_execution_result where
  "late_result = the_value (execute_batch sample_ledger late_batch)"

text \<open>C17: there is a batch that the batch constructor accepts, the engine executes and the checker approves,
  for which no choice of public inputs and private witness yields a proof: the circuit demands more than the
  plaintext invariants.\<close>

theorem circuit_stricter_than_engine:
  "batch_create (bat_id late_batch) (bat_instrument late_batch) (bat_orders late_batch) = Ok late_batch
   \<and> execute_batch sample_ledger late_batch = Ok late_result
   \<and> verify_transition sample_ledger late_batch late_result = Ok ()
   \<and> \<not> is_ok (prove pub (w\<lparr>bw_batch := late_batch\<rparr>))"
proof -
  have wf: "wf_batch late_batch" and num: "\<not> numbered (bat_orders late_batch)" by code_simp+
  have e: "execute_batch sample_ledger late_batch = Ok late_result" by code_simp
  have "is_ok (total_inventory_of sample_ledger (bat_instrument late_batch))" by code_simp
  then have "verify_transition sample_ledger late_batch late_result = Ok ()"
    unfolding verify_transition_engine [OF wf] using e by auto
  moreover have "\<not> is_ok (prove pub (w\<lparr>bw_batch := late_batch\<rparr>))"
    using prove_ok_iff [of "w\<lparr>bw_batch := late_batch\<rparr>" pub] wf num by (auto simp: circuit_conditions_def)
  ultimately show ?thesis using e wf_batch_create [OF wf] by blast
qed

section \<open>The certificate\<close>

text \<open>A proof carries exactly the number of constraints of the statement, a formula of the sizes of the
  batch, the ledger and the fills, and it is accepted for its own public inputs.\<close>

theorem proof_round_trip:
  assumes "prove pub w = Ok proof1" and "constraint_count pub w < 2 ^ 64"
  shows "bp_bytes proof1 = certificate (constraint_count pub w) 5 \<and> verify_batch_proof pub proof1 = Ok ()"
  using assms prove_certificate [OF assms(1)] proof_verifies [OF assms(1)] by simp

theorem proof_round_trip_witness:
  "\<exists>pub w proof1. bw_batch w = sample_batch \<and> prove pub w = Ok proof1 \<and> verify_batch_proof pub proof1 = Ok ()"
proof -
  obtain pub w proof1 where "bw_batch w = sample_batch" "prove pub w = Ok proof1" "constraint_count pub w < 2 ^ 64"
    by (rule sample_proof)
  then show ?thesis using proof_round_trip by blast
qed

text \<open>The verifier accepts exactly the certificates of version 1 with the expected public inputs whose
  bytes are the fixed prefix, a positive decimal count below two to the 64 and the fixed suffix; it
  looks at nothing that depends on a witness.\<close>

theorem certificate_accepted_iff:
  "verify_batch_proof expected proof1 = Ok () \<longleftrightarrow> bp_version proof1 = 1 \<and> bp_public_inputs proof1 = expected
     \<and> (\<exists>ds. bp_bytes proof1 = cert_prefix @ ds @ cert_suffix \<and> ds \<noteq> [] \<and> list_all is_digit ds
          \<and> 0 < digits_value ds \<and> digits_value ds < 2 ^ 64)"
  unfolding verify_batch_proof_Ok claimed_count_def by auto

end
