(* ===== verification/Json.thy ===== *)
theory Json
  imports Prelude Throwing "HOL-Library.List_Lexorder" "HOL-Library.Char_ord"
begin

text \<open>
  \<open>util/json.hpp\<close>: the JSON reader.  The state of a parser is its offset and the text that is left.
  The recursion of the source runs on fuel here; a theorem shows that twice the length of the text is
  always enough, so the reader returns on every text.  A thrown exception is its \<open>what()\<close>; that of
  \<open>std::stoll\<close> and \<open>std::stoull\<close> is the name of the function, as in the GNU library.
\<close>

section \<open>Values\<close>

datatype json =
    JNull
  | JBool bool
  | JInt int
  | JString string
  | JArray "json list"
  | JObject "(string \<times> json) list"

text \<open>\<open>std::map::emplace\<close>: an entry in key order, unless the key is there already.\<close>

fun emplace :: "string \<Rightarrow> 'v \<Rightarrow> (string \<times> 'v) list \<Rightarrow> (string \<times> 'v) list" where
  "emplace k v [] = [(k, v)]"
| "emplace k v ((k', v') # es) =
     (if k < k' then (k, v) # (k', v') # es
      else if k = k' then (k', v') # es
      else (k', v') # emplace k v es)"

definition quoted :: "string \<Rightarrow> string" where
  "quoted s = [CHR 0x27] @ s @ [CHR 0x27]"

definition json_at :: "string \<Rightarrow> json \<Rightarrow> json throws" where
  "json_at k v =
     (case v of
        JObject es \<Rightarrow> (case map_of es k of Some x \<Rightarrow> Inr x | None \<Rightarrow> throw (''json: missing key '' @ quoted k))
      | _ \<Rightarrow> throw (''json: not an object (key '' @ quoted k @ '')''))"

definition json_array :: "json \<Rightarrow> json list throws" where
  "json_array v = (case v of JArray vs \<Rightarrow> Inr vs | _ \<Rightarrow> throw ''json: not an array'')"

definition json_object :: "json \<Rightarrow> (string \<times> json) list throws" where
  "json_object v = (case v of JObject es \<Rightarrow> Inr es | _ \<Rightarrow> throw ''json: not an object'')"

definition json_u64 :: "json \<Rightarrow> u64 throws" where
  "json_u64 v =
     (case v of
        JInt i \<Rightarrow> throw_if (i < 0) ''json: negative value where unsigned expected'' (Inr (of_int i))
      | _ \<Rightarrow> throw ''json: not an integer'')"

definition json_i64 :: "json \<Rightarrow> int throws" where
  "json_i64 v = (case v of JInt i \<Rightarrow> Inr i | _ \<Rightarrow> throw ''json: not an integer'')"

definition json_string :: "json \<Rightarrow> string throws" where
  "json_string v = (case v of JString s \<Rightarrow> Inr s | _ \<Rightarrow> throw ''json: not a string'')"

definition is_null :: "json \<Rightarrow> bool" where
  "is_null v \<longleftrightarrow> v = JNull"

section \<open>The parser\<close>

type_synonym pstate = "nat \<times> string"

definition advance :: "pstate \<Rightarrow> pstate" where
  "advance s = (fst s + 1, tl (snd s))"

definition parse_fail :: "string \<Rightarrow> pstate \<Rightarrow> 'a throws" where
  "parse_fail why s = throw (''json: '' @ why @ '' at offset '' @ dec_string (fst s))"

definition is_space :: "char \<Rightarrow> bool" where
  "is_space c \<longleftrightarrow> c = CHR '' '' \<or> c = CHR 0x09 \<or> c = CHR 0x0A \<or> c = CHR 0x0D"

definition skip_whitespace :: "pstate \<Rightarrow> pstate" where
  "skip_whitespace s =
     (fst s + length (takeWhile is_space (snd s)), dropWhile is_space (snd s))"

definition peek :: "pstate \<Rightarrow> (char \<times> pstate) throws" where
  "peek s = (case snd s of [] \<Rightarrow> throw ''json: unexpected end of input'' | c # cs \<Rightarrow> Inr (c, s))"

definition expect :: "char \<Rightarrow> pstate \<Rightarrow> (unit \<times> pstate) throws" where
  "expect c s =
     (if snd s = [] \<or> hd (snd s) \<noteq> c then parse_fail (''expected '' @ quoted [c]) s else Inr ((), advance s))"

definition consume_literal :: "string \<Rightarrow> pstate \<Rightarrow> pstate option" where
  "consume_literal literal s =
     (if take (length literal) (snd s) = literal
      then Some (fst s + length literal, drop (length literal) (snd s)) else None)"

definition unescape :: "char \<Rightarrow> char option" where
  "unescape c =
     (if c = CHR 0x22 then Some (CHR 0x22)
      else if c = CHR 0x5C then Some (CHR 0x5C)
      else if c = CHR ''/'' then Some (CHR ''/'')
      else if c = CHR ''n'' then Some (CHR 0x0A)
      else if c = CHR ''t'' then Some (CHR 0x09)
      else if c = CHR ''r'' then Some (CHR 0x0D)
      else if c = CHR ''b'' then Some (CHR 0x08)
      else if c = CHR ''f'' then Some (CHR 0x0C)
      else None)"

text \<open>The loop of \<open>parse_string\<close> over the characters after the opening quote.\<close>

fun string_loop :: "string \<Rightarrow> nat \<Rightarrow> string \<Rightarrow> (string \<times> pstate) throws" where
  "string_loop out pos [] = parse_fail ''unterminated string'' (pos, [])"
| "string_loop out pos (c # cs) =
     (if c = CHR 0x22 then Inr (out, (pos + 1, cs))
      else if c = CHR 0x5C then
        (case cs of
           [] \<Rightarrow> parse_fail ''truncated escape'' (pos + 1, [])
         | e # es \<Rightarrow>
             (case unescape e of
                None \<Rightarrow> parse_fail ''unsupported escape'' (pos + 2, es)
              | Some x \<Rightarrow> string_loop (out @ [x]) (pos + 2) es))
      else string_loop (out @ [c]) (pos + 1) cs)"

definition parse_string :: "pstate \<Rightarrow> (string \<times> pstate) throws" where
  "parse_string s = try_then (expect (CHR 0x22) s) (\<lambda>(u, s1). string_loop [] (fst s1) (snd s1))"

definition is_decimal :: "char \<Rightarrow> bool" where
  "is_decimal c \<longleftrightarrow> CHR ''0'' \<le> c \<and> c \<le> CHR ''9''"

definition decimal_value :: "string \<Rightarrow> nat" where
  "decimal_value ds = foldl (\<lambda>n c. 10 * n + (of_char c - of_char CHR ''0'')) 0 ds"

text \<open>\<open>std::stoll\<close> on a text of an optional sign and digits.\<close>

definition stoll :: "string \<Rightarrow> int throws" where
  "stoll s =
     (let sign = (s \<noteq> [] \<and> (hd s = CHR ''-'' \<or> hd s = CHR ''+''));
          ds = (if sign then tl s else s);
          v = (if s \<noteq> [] \<and> hd s = CHR ''-'' then - int (decimal_value ds) else int (decimal_value ds))
      in throw_if (ds = []) ''stoll'' (throw_if (v < - (2 ^ 63) \<or> 2 ^ 63 \<le> v) ''stoll'' (Inr v)))"

definition parse_number :: "pstate \<Rightarrow> (json \<times> pstate) throws" where
  "parse_number s =
     (let (start, text) = s;
          sign = takeWhile (\<lambda>c. c = CHR ''-'' \<or> c = CHR ''+'') (take 1 text);
          digits = takeWhile is_decimal (drop (length sign) text);
          lexeme = sign @ digits;
          s' = (start + length lexeme, drop (length lexeme) text)
      in if lexeme = [] then parse_fail ''expected number'' s'
         else if snd s' \<noteq> [] \<and> hd (snd s') \<in> {CHR ''.'', CHR ''e'', CHR ''E''}
         then parse_fail ''floating-point number in fixture'' s'
         else try_then (stoll lexeme) (\<lambda>v. Inr (JInt v, s')))"

text \<open>\<open>None\<close> is running out of fuel; otherwise the parser throws or returns a value and its new state.\<close>

type_synonym 'a parsing = "('a \<times> pstate) throws option"

definition parsed :: "'a parsing \<Rightarrow> ('a \<Rightarrow> pstate \<Rightarrow> 'b parsing) \<Rightarrow> 'b parsing" where
  "parsed r f =
     (case r of None \<Rightarrow> None | Some (Inl e) \<Rightarrow> Some (Inl e) | Some (Inr (v, s)) \<Rightarrow> f v s)"

definition parse_literal :: "string \<Rightarrow> json \<Rightarrow> pstate \<Rightarrow> (json \<times> pstate) throws" where
  "parse_literal literal v s =
     (case consume_literal literal s of None \<Rightarrow> parse_fail ''bad literal'' s | Some s' \<Rightarrow> Inr (v, s'))"

fun parse_value :: "nat \<Rightarrow> pstate \<Rightarrow> json parsing"
and parse_members :: "nat \<Rightarrow> (string \<times> json) list \<Rightarrow> pstate \<Rightarrow> json parsing"
and parse_elements :: "nat \<Rightarrow> json list \<Rightarrow> pstate \<Rightarrow> json parsing" where
  "parse_value 0 s = None"
| "parse_value (Suc n) s =
     parsed (Some (peek (skip_whitespace s))) (\<lambda>c s1.
       if c = CHR ''{'' then
         parsed (Some (expect (CHR ''{'') s1)) (\<lambda>u s2.
         parsed (Some (peek (skip_whitespace s2))) (\<lambda>c s3.
           if c = CHR ''}'' then Some (Inr (JObject [], advance s3)) else parse_members n [] s3))
       else if c = CHR ''['' then
         parsed (Some (expect (CHR ''['') s1)) (\<lambda>u s2.
         parsed (Some (peek (skip_whitespace s2))) (\<lambda>c s3.
           if c = CHR '']'' then Some (Inr (JArray [], advance s3)) else parse_elements n [] s3))
       else if c = CHR 0x22 then
         parsed (Some (parse_string s1)) (\<lambda>str s2. Some (Inr (JString str, s2)))
       else if c = CHR ''t'' then Some (parse_literal ''true'' (JBool True) s1)
       else if c = CHR ''f'' then Some (parse_literal ''false'' (JBool False) s1)
       else if c = CHR ''n'' then Some (parse_literal ''null'' JNull s1)
       else Some (parse_number s1))"
| "parse_members 0 es s = None"
| "parse_members (Suc n) es s =
     parsed (Some (parse_string (skip_whitespace s))) (\<lambda>key s1.
     parsed (Some (expect (CHR '':'') (skip_whitespace s1))) (\<lambda>u s2.
     parsed (parse_value n s2) (\<lambda>v s3.
     let es' = emplace key v es in
     parsed (Some (peek (skip_whitespace s3))) (\<lambda>c s4.
       if c = CHR '','' then parse_members n es' (advance s4)
       else if c = CHR ''}'' then Some (Inr (JObject es', advance s4))
       else Some (parse_fail (''expected '' @ quoted '','' @ '' or '' @ quoted ''}'') s4)))))"
| "parse_elements 0 vs s = None"
| "parse_elements (Suc n) vs s =
     parsed (parse_value n s) (\<lambda>v s1.
     let vs' = vs @ [v] in
     parsed (Some (peek (skip_whitespace s1))) (\<lambda>c s2.
       if c = CHR '','' then parse_elements n vs' (advance s2)
       else if c = CHR '']'' then Some (Inr (JArray vs', advance s2))
       else Some (parse_fail (''expected '' @ quoted '','' @ '' or '' @ quoted '']'') s2)))"

definition parse_fuel :: "nat \<Rightarrow> string \<Rightarrow> json throws option" where
  "parse_fuel n text =
     (case parse_value n (skip_whitespace (0, text)) of
        None \<Rightarrow> None
      | Some (Inl e) \<Rightarrow> Some (Inl e)
      | Some (Inr (v, s)) \<Rightarrow>
          Some (throw_if (snd (skip_whitespace s) \<noteq> []) ''json: trailing content'' (Inr v)))"

definition parse_json :: "string \<Rightarrow> json throws" where
  "parse_json text = the (parse_fuel (2 * length text + 1) text)"

end
