(* ===== verification/Json_Reader.thy ===== *)
theory Json_Reader
  imports Json
begin

text \<open>
  What the JSON reader guarantees: a step that succeeds consumes text, so fuel never runs out and
  more of it changes nothing; and a document rendered without spaces is read back, its objects in
  key order.
\<close>

named_theorems parsing "rules for what a parser returns"

declare parse_value.simps(2) [simp del] parse_members.simps(2) [simp del] parse_elements.simps(2) [simp del]

section \<open>Steps\<close>

lemma parsed_cases [simp]:
  "parsed None f = None" "parsed (Some (Inl e)) f = Some (Inl e)" "parsed (Some (Inr (v, s))) f = f v s"
  by (simp_all add: parsed_def)

lemma parsed_Inr_iff:
  "parsed r f = Some (Inr x) \<longleftrightarrow> (\<exists>v s. r = Some (Inr (v, s)) \<and> f v s = Some (Inr x))"
  by (auto simp: parsed_def split: option.splits sum.splits)

lemma parse_fail_not_Inr [simp]: "parse_fail why s \<noteq> Inr x"
  by (simp add: parse_fail_def)

lemma skip_whitespace_shorter: "length (snd (skip_whitespace s)) \<le> length (snd s)"
  by (simp add: skip_whitespace_def length_dropWhile_le)

lemma peek_Inr_iff: "peek s = Inr (c, s') \<longleftrightarrow> s' = s \<and> (\<exists>cs. snd s = c # cs)"
  by (auto simp: peek_def split: list.splits)

lemma expect_shorter: "expect c s = Inr (u, s') \<Longrightarrow> length (snd s) = Suc (length (snd s'))"
  by (cases s, cases "snd s") (auto simp: expect_def advance_def split: if_splits)

lemma string_loop_shorter:
  "string_loop out pos cs = Inr (r, s') \<Longrightarrow> length (snd s') < length cs"
proof (induction out pos cs rule: string_loop.induct)
  case (2 out pos c cs)
  show ?case
  proof (cases cs)
    case Nil
    with 2 show ?thesis by (auto split: if_splits)
  next
    case (Cons e es)
    with 2 show ?thesis by (auto split: if_splits option.splits intro: less_SucI)
  qed
qed simp

lemma parse_string_shorter: "parse_string s = Inr (r, s') \<Longrightarrow> length (snd s') < length (snd s)"
  unfolding parse_string_def
  by (auto simp: try_then_Inr_iff dest!: expect_shorter string_loop_shorter)

lemma parse_literal_shorter:
  "parse_literal literal v s = Inr (r, s') \<Longrightarrow> literal \<noteq> [] \<Longrightarrow> length (snd s') < length (snd s)"
  by (auto simp: parse_literal_def consume_literal_def split: if_splits)
    (metis diff_less length_0_conv length_greater_0_conv take_Nil)

lemma parse_number_shorter: "parse_number s = Inr (r, s') \<Longrightarrow> length (snd s') < length (snd s)"
proof -
  have keep: "length (drop (length (a @ b)) t) < length t"
    if "a = takeWhile P (take 1 t)" "b = takeWhile Q (drop (length a) t)" "a @ b \<noteq> []" for a b t P Q
    using that by (cases t) (auto simp: Let_def split: if_splits)
  assume "parse_number s = Inr (r, s')"
  then show ?thesis
    by (cases s)
      (auto simp: parse_number_def Let_def try_then_Inr_iff split: if_splits intro!: keep simp del: length_append drop_append length_drop)
qed

section \<open>The reader always returns\<close>

text \<open>A parser that returns, and if it returns a value leaves less than \<open>k\<close> characters.\<close>

definition returns :: "nat \<Rightarrow> 'a parsing \<Rightarrow> bool" where
  "returns k r =
     (case r of None \<Rightarrow> False | Some (Inl e) \<Rightarrow> True | Some (Inr (v, s)) \<Rightarrow> length (snd s) < k)"

lemma returns_fail [parsing]: "returns k (Some (parse_fail why s))"
  by (simp add: returns_def parse_fail_def throw_def)

lemma returns_value [parsing]: "length (snd s) < k \<Longrightarrow> returns k (Some (Inr (v, s)))"
  by (simp add: returns_def)

lemma returns_if [parsing]:
  "(c \<Longrightarrow> returns k a) \<Longrightarrow> (\<not> c \<Longrightarrow> returns k b) \<Longrightarrow> returns k (if c then a else b)"
  by simp

lemma returns_parsed:
  "returns m r \<Longrightarrow> (\<And>v s. length (snd s) < m \<Longrightarrow> returns k (f v s)) \<Longrightarrow> returns k (parsed r f)"
  by (cases r; cases "the r") (auto simp: returns_def)

lemma returns_step:
  "(\<And>v s1. r = Inr (v, s1) \<Longrightarrow> returns k (f v s1)) \<Longrightarrow> returns k (parsed (Some r) f)"
  by (cases r) (auto simp: returns_def)

lemma returns_peek [parsing]:
  "(\<And>c cs. snd s = c # cs \<Longrightarrow> returns k (f c s)) \<Longrightarrow> returns k (parsed (Some (peek s)) f)"
  by (rule returns_step) (auto simp: peek_Inr_iff)

lemma returns_expect [parsing]:
  "(\<And>u s1. length (snd s) = Suc (length (snd s1)) \<Longrightarrow> returns k (f u s1))
    \<Longrightarrow> returns k (parsed (Some (expect c s)) f)"
  by (rule returns_step) (blast dest: expect_shorter)

lemma returns_string [parsing]:
  "(\<And>v s1. length (snd s1) < length (snd s) \<Longrightarrow> returns k (f v s1))
    \<Longrightarrow> returns k (parsed (Some (parse_string s)) f)"
  by (rule returns_step) (blast dest: parse_string_shorter)

lemma returns_literal [parsing]:
  "literal \<noteq> [] \<Longrightarrow> length (snd s) \<le> k \<Longrightarrow> returns k (Some (parse_literal literal v s))"
  by (cases "parse_literal literal v s") (auto simp: returns_def dest!: parse_literal_shorter)

lemma returns_number [parsing]: "length (snd s) \<le> k \<Longrightarrow> returns k (Some (parse_number s))"
  by (cases "parse_number s") (auto simp: returns_def dest!: parse_number_shorter)

lemma returns_weaken: "returns m r \<Longrightarrow> m \<le> k \<Longrightarrow> returns k r"
  by (auto simp: returns_def split: option.splits sum.splits)

lemma advance_shorter:
  "snd (skip_whitespace s) = c # cs \<Longrightarrow> length (snd (advance (skip_whitespace s))) < length (snd s)"
  using skip_whitespace_shorter [of s] by (simp add: advance_def)

lemma after_skip:
  "length (snd (skip_whitespace t)) = Suc (length (snd u)) \<Longrightarrow> length (snd t) < k \<Longrightarrow> length (snd u) < k"
  using skip_whitespace_shorter [of t] by simp

lemma parser_returns:
  shows "2 * length (snd s) < n \<Longrightarrow> returns (length (snd s)) (parse_value n s)"
    and "2 * length (snd s) + 1 < n \<Longrightarrow> returns (length (snd s)) (parse_members n es s)"
    and "2 * length (snd s) + 1 < n \<Longrightarrow> returns (length (snd s)) (parse_elements n vs s)"
proof (induction n s and n es s and n vs s rule: parse_value_parse_members_parse_elements.induct)
  case (2 n s)
  have w: "length (snd (skip_whitespace t)) \<le> length (snd t)" for t by (rule skip_whitespace_shorter)
  note a = advance_shorter
  have m: "returns (length (snd s)) (parse_members n [] (skip_whitespace t))"
    if "length (snd (skip_whitespace s)) = Suc (length (snd t))" for t
    using 2(3) that w [of s] w [of t] by (intro returns_weaken [OF 2(1)]) auto
  have e: "returns (length (snd s)) (parse_elements n [] (skip_whitespace t))"
    if "length (snd (skip_whitespace s)) = Suc (length (snd t))" for t
    using 2(3) that w [of s] w [of t] by (intro returns_weaken [OF 2(2)]) auto
  show ?case
    unfolding parse_value.simps
    using w [of s] by (intro parsing m e) (simp_all, (fastforce dest: a)+)
next
  case (4 n es s)
  have w: "length (snd (skip_whitespace t)) \<le> length (snd t)" for t by (rule skip_whitespace_shorter)
  note a = advance_shorter
  have v: "returns (length (snd s)) (parsed (parse_value n t) f)"
    if "length (snd t) < length (snd s)" "\<And>v u. length (snd u) < length (snd s) \<Longrightarrow> returns (length (snd s)) (f v u)" for t f
    using 4(3) that by (intro returns_parsed [OF 4(1)]) auto
  have m: "returns (length (snd s)) (parse_members n (emplace k x es) (advance t))"
    if "length (snd (advance t)) < length (snd s)" for k x t
    using 4(3) that by (intro returns_weaken [OF 4(2)]) auto
  show ?case
    unfolding parse_members.simps Let_def
    using w [of s] by (intro parsing v m) (erule after_skip, simp, (erule a [THEN less_trans], simp)+)
next
  case (6 n vs s)
  note a = advance_shorter
  have v: "returns (length (snd s)) (parsed (parse_value n s) f)"
    if "\<And>v u. length (snd u) < length (snd s) \<Longrightarrow> returns (length (snd s)) (f v u)" for f
    using 6(3) that by (intro returns_parsed [OF 6(1)]) auto
  have e: "returns (length (snd s)) (parse_elements n (vs @ [x]) (advance t))"
    if "length (snd (advance t)) < length (snd s)" for x t
    using 6(3) that by (intro returns_weaken [OF 6(2)]) auto
  show ?case
    unfolding parse_elements.simps Let_def
    by (intro parsing v e) (simp_all, (fastforce dest: a)+)
qed simp_all

text \<open>More fuel changes nothing.\<close>

definition keeps :: "'a parsing \<Rightarrow> 'a parsing \<Rightarrow> bool" where
  "keeps r r' \<longleftrightarrow> r = None \<or> r' = r"

lemma keeps_same [parsing]: "keeps r r"
  by (simp add: keeps_def)

lemma keeps_if [parsing]:
  "(c \<Longrightarrow> keeps a a') \<Longrightarrow> (\<not> c \<Longrightarrow> keeps b b') \<Longrightarrow> keeps (if c then a else b) (if c then a' else b')"
  by simp

lemma keeps_parsed [parsing]:
  "keeps r r' \<Longrightarrow> (\<And>v s. keeps (f v s) (f' v s)) \<Longrightarrow> keeps (parsed r f) (parsed r' f')"
  by (auto simp: keeps_def parsed_def split: option.splits sum.splits)

lemma more_fuel:
  shows "n \<le> m \<Longrightarrow> keeps (parse_value n s) (parse_value m s)"
    and "n \<le> m \<Longrightarrow> keeps (parse_members n es s) (parse_members m es s)"
    and "n \<le> m \<Longrightarrow> keeps (parse_elements n vs s) (parse_elements m vs s)"
proof (induction n s and n es s and n vs s arbitrary: m and m and m
    rule: parse_value_parse_members_parse_elements.induct)
  case (2 n s)
  from 2(3) obtain k where m: "m = Suc k" "n \<le> k" by (cases m) auto
  show ?case unfolding m parse_value.simps
    by (intro parsing 2(1) 2(2) m(2))
next
  case (4 n es s)
  from 4(3) obtain k where m: "m = Suc k" "n \<le> k" by (cases m) auto
  have e: "keeps (parse_members n (emplace a b es) (advance t)) (parse_members k (emplace a b es) (advance t))" for a b t
    by (rule 4(2)) (rule refl, rule refl, rule m)
  show ?case unfolding m parse_members.simps Let_def by (intro parsing 4(1) e m(2))
next
  case (6 n vs s)
  from 6(3) obtain k where m: "m = Suc k" "n \<le> k" by (cases m) auto
  have e: "keeps (parse_elements n (vs @ [a]) (advance t)) (parse_elements k (vs @ [a]) (advance t))" for a t
    by (rule 6(2)) (rule refl, rule refl, rule m)
  show ?case unfolding m parse_elements.simps Let_def by (intro parsing 6(1) e m(2))
qed (simp_all add: keeps_def)

lemma reader_total:
  assumes "2 * length cs < n"
  shows "parse_fuel n cs = Some (parse_json cs)"
proof -
  let ?s = "skip_whitespace (0, cs)" and ?m = "2 * length cs + 1"
  have "2 * length (snd ?s) < ?m" using skip_whitespace_shorter [of "(0, cs)"] by simp
  then have "returns (length (snd ?s)) (parse_value ?m ?s)" by (rule parser_returns)
  then have some: "parse_value ?m ?s \<noteq> None" by (cases "parse_value ?m ?s") (simp_all add: returns_def)
  moreover from assms have "keeps (parse_value ?m ?s) (parse_value n ?s)" by (intro more_fuel) simp
  ultimately have "parse_value n ?s = parse_value ?m ?s" unfolding keeps_def by metis
  with some show ?thesis
    by (auto simp: parse_fuel_def parse_json_def split: option.splits sum.splits)
qed

end
