(* ===== verification/Json_Writer.thy ===== *)
theory Json_Writer
  imports Json_Reader
begin

text \<open>
  \<open>util/json_writer.hpp\<close>: the JSON writer, with its buffer and its \<open>fresh_\<close> flag.  The lemmas of
  the second section let a run of writer calls be read as the value it emits, so that a command's
  output is the rendering of one JSON value.
\<close>

section \<open>The writer\<close>

record json_writer =
  wr_buffer :: string
  wr_fresh :: bool

definition new_writer :: json_writer where
  "new_writer = \<lparr>wr_buffer = [], wr_fresh = True\<rparr>"

definition punctuate :: "json_writer \<Rightarrow> json_writer" where
  "punctuate w =
     (let comma = \<not> wr_fresh w \<and> wr_buffer w \<noteq> []
                  \<and> last (wr_buffer w) \<noteq> CHR ''{'' \<and> last (wr_buffer w) \<noteq> CHR ''[''
                  \<and> last (wr_buffer w) \<noteq> CHR '':''
      in w\<lparr>wr_buffer := (if comma then wr_buffer w @ '','' else wr_buffer w), wr_fresh := False\<rparr>)"

definition write_text :: "string \<Rightarrow> json_writer \<Rightarrow> json_writer" where
  "write_text s w = w\<lparr>wr_buffer := wr_buffer w @ s\<rparr>"

definition set_fresh :: "bool \<Rightarrow> json_writer \<Rightarrow> json_writer" where
  "set_fresh b w = w\<lparr>wr_fresh := b\<rparr>"

definition escape_char :: "char \<Rightarrow> string" where
  "escape_char c =
     (if c = CHR 0x22 then [CHR 0x5C, CHR 0x22]
      else if c = CHR 0x5C then [CHR 0x5C, CHR 0x5C]
      else if c = CHR 0x0A then [CHR 0x5C, CHR ''n'']
      else if c = CHR 0x09 then [CHR 0x5C, CHR ''t'']
      else if c = CHR 0x0D then [CHR 0x5C, CHR ''r'']
      else [c])"

definition escape :: "string \<Rightarrow> string" where
  "escape s = concat (map escape_char s)"

definition begin_object :: "json_writer \<Rightarrow> json_writer" where
  "begin_object w = set_fresh True (write_text ''{'' (punctuate w))"

definition end_object :: "json_writer \<Rightarrow> json_writer" where
  "end_object w = set_fresh False (write_text ''}'' w)"

definition begin_array :: "json_writer \<Rightarrow> json_writer" where
  "begin_array w = set_fresh True (write_text ''['' (punctuate w))"

definition end_array :: "json_writer \<Rightarrow> json_writer" where
  "end_array w = set_fresh False (write_text '']'' w)"

definition write_key :: "string \<Rightarrow> json_writer \<Rightarrow> json_writer" where
  "write_key k w =
     set_fresh True (write_text [CHR 0x22, CHR '':''] (write_text (escape k) (write_text [CHR 0x22] (punctuate w))))"

definition value_u64 :: "u64 \<Rightarrow> json_writer \<Rightarrow> json_writer" where
  "value_u64 v w = set_fresh False (write_text (to_string v) (punctuate w))"

definition value_i64 :: "u64 \<Rightarrow> json_writer \<Rightarrow> json_writer" where
  "value_i64 v w =
     set_fresh False
       (write_text (if sint v < 0 then ''-'' @ dec_string (nat (- sint v)) else dec_string (nat (sint v))) (punctuate w))"

definition value_bool :: "bool \<Rightarrow> json_writer \<Rightarrow> json_writer" where
  "value_bool v w = set_fresh False (write_text (if v then ''true'' else ''false'') (punctuate w))"

definition value_null :: "json_writer \<Rightarrow> json_writer" where
  "value_null w = set_fresh False (write_text ''null'' (punctuate w))"

text \<open>The digits of an unsigned 128-bit value, last one first.\<close>

function u128_digits :: "u128 \<Rightarrow> string" where
  "u128_digits v = (if v = 0 then [] else dec_digit (unat (v mod 10)) # u128_digits (v div 10))"
  by auto

termination
proof (relation "measure unat")
  fix v :: u128
  assume "v \<noteq> 0"
  then have "0 < unat v" by (simp add: unat_gt_0)
  then have "unat v div 10 < unat v" by simp
  then show "(v div 10, v) \<in> measure unat" by (simp add: unat_div)
qed simp

declare u128_digits.simps [simp del]

definition value_u128 :: "u128 \<Rightarrow> json_writer \<Rightarrow> json_writer" where
  "value_u128 v w =
     set_fresh False (write_text (if v = 0 then ''0'' else rev (u128_digits v)) (punctuate w))"

definition value_string :: "string \<Rightarrow> json_writer \<Rightarrow> json_writer" where
  "value_string v w =
     set_fresh False (write_text [CHR 0x22] (write_text (escape v) (write_text [CHR 0x22] (punctuate w))))"

definition field_u64 :: "string \<Rightarrow> u64 \<Rightarrow> json_writer \<Rightarrow> json_writer" where
  "field_u64 k v w = value_u64 v (write_key k w)"

definition field_u128 :: "string \<Rightarrow> u128 \<Rightarrow> json_writer \<Rightarrow> json_writer" where
  "field_u128 k v w = value_u128 v (write_key k w)"

definition field_bool :: "string \<Rightarrow> bool \<Rightarrow> json_writer \<Rightarrow> json_writer" where
  "field_bool k v w = value_bool v (write_key k w)"

definition field_string :: "string \<Rightarrow> string \<Rightarrow> json_writer \<Rightarrow> json_writer" where
  "field_string k v w = value_string v (write_key k w)"

definition field_optional_u64 :: "string \<Rightarrow> u64 option \<Rightarrow> json_writer \<Rightarrow> json_writer" where
  "field_optional_u64 k v w =
     (let w = write_key k w in case v of Some x \<Rightarrow> value_u64 x w | None \<Rightarrow> value_null w)"

section \<open>What the calls emit\<close>

text \<open>The text of a value, written without spaces, and the number a reader must be able to hold.\<close>

definition quote :: "string \<Rightarrow> string" where
  "quote s = CHR 0x22 # escape s @ [CHR 0x22]"

fun join :: "string list \<Rightarrow> string" where
  "join [] = []"
| "join [s] = s"
| "join (s # t # ss) = s @ '','' @ join (t # ss)"

definition decimal :: "int \<Rightarrow> string" where
  "decimal i = (if i < 0 then ''-'' @ dec_string (nat (- i)) else dec_string (nat i))"

primrec render :: "json \<Rightarrow> string" where
  "render JNull = ''null''"
| "render (JBool b) = (if b then ''true'' else ''false'')"
| "render (JInt i) = decimal i"
| "render (JString s) = quote s"
| "render (JArray vs) = ''['' @ join (map render vs) @ '']''"
| "render (JObject es) = ''{'' @ join (map (\<lambda>(k, s). quote k @ '':'' @ s) (map (map_prod id render) es)) @ ''}''"

definition put :: "json \<Rightarrow> json_writer \<Rightarrow> json_writer" where
  "put v w = set_fresh False (write_text (render v) (punctuate w))"

definition in_array :: "json list \<Rightarrow> json_writer \<Rightarrow> json_writer" where
  "in_array vs w = fold put vs (begin_array w)"

definition in_object :: "(string \<times> json) list \<Rightarrow> json_writer \<Rightarrow> json_writer" where
  "in_object es w = fold (\<lambda>(k, v) w. put v (write_key k w)) es (begin_object w)"

named_theorems emits "a run of writer calls as the value it emits"

lemma begin_object_in [emits]: "begin_object w = in_object [] w"
  by (simp add: in_object_def)

lemma begin_array_in [emits]: "begin_array w = in_array [] w"
  by (simp add: in_array_def)

lemma put_in_array [emits]: "put v (in_array vs w) = in_array (vs @ [v]) w"
  by (simp add: in_array_def)

lemma put_in_object [emits]: "put v (write_key k (in_object es w)) = in_object (es @ [(k, v)]) w"
  by (simp add: in_object_def)

lemma dec_string_not_Nil [simp]: "dec_string n \<noteq> []"
  by (subst dec_string.simps) simp

lemma dec_digit_plain: "d < 10 \<Longrightarrow> dec_digit d \<in> set ''0123456789''"
  unfolding dec_digit_def by (rule nth_mem) simp

lemma last_dec_string: "last (dec_string n) \<in> set ''0123456789''"
proof (cases "n < 10")
  case True
  then have "dec_string n = [dec_digit n]" by (subst dec_string.simps) simp
  with dec_digit_plain [OF True] show ?thesis by simp
next
  case False
  then have "dec_string n = dec_string (n div 10) @ [dec_digit (n mod 10)]" by (subst dec_string.simps) simp
  then show ?thesis by (simp only: last_snoc dec_digit_plain mod_less_divisor zero_less_numeral)
qed

definition plain_end :: "string \<Rightarrow> bool" where
  "plain_end s \<longleftrightarrow> s \<noteq> [] \<and> last s \<noteq> CHR ''{'' \<and> last s \<noteq> CHR ''['' \<and> last s \<noteq> CHR '':''"

lemma plain_end_snoc: "c \<notin> {CHR ''{'', CHR ''['', CHR '':''} \<Longrightarrow> plain_end (s @ [c])"
  by (simp add: plain_end_def)

lemma plain_end_dec: "plain_end (dec_string n)"
  using last_dec_string [of n] by (auto simp: plain_end_def)

lemma plain_end_append [intro]: "plain_end t \<Longrightarrow> plain_end (s @ t)" "plain_end t \<Longrightarrow> plain_end (c # t)"
  by (auto simp: plain_end_def)

lemma plain_end_render [simp]: "plain_end (render v)"
proof (cases v)
  case (JInt i)
  then show ?thesis by (auto simp: decimal_def plain_end_dec)
qed (simp_all add: plain_end_def quote_def)

section \<open>Structures\<close>

lemma write_writes [simp]:
  "wr_buffer (write_text s w) = wr_buffer w @ s" "wr_fresh (write_text s w) = wr_fresh w"
  "wr_buffer (set_fresh b w) = wr_buffer w" "wr_fresh (set_fresh b w) = b"
  by (simp_all add: write_text_def set_fresh_def)

lemma punctuate_fresh: "wr_fresh (punctuate w) = False"
  by (simp add: punctuate_def Let_def)

lemma writer_eqI: "wr_buffer w = wr_buffer w' \<Longrightarrow> wr_fresh w = wr_fresh w' \<Longrightarrow> w = (w' :: json_writer)"
  by simp

lemma join_snoc: "join (ss @ [s]) = (if ss = [] then s else join ss @ '','' @ s)"
  by (induction ss rule: join.induct) simp_all

text \<open>A text written as the next item of a structure that has items \<open>ss\<close> already.\<close>

lemma punctuate_item:
  assumes "wr_buffer w = b @ [c] @ join ss" "wr_fresh w \<longleftrightarrow> ss = []" "list_all plain_end ss"
  shows "wr_buffer (punctuate w) @ s = b @ [c] @ join (ss @ [s])"
proof (cases ss rule: rev_cases)
  case Nil
  with assms show ?thesis by (simp add: punctuate_def Let_def)
next
  case (snoc ts t)
  then have "plain_end (join ss)" using assms(3) by (auto simp: join_snoc)
  moreover have "ss \<noteq> []" using snoc by simp
  ultimately show ?thesis using assms(1,2) by (simp add: punctuate_def Let_def plain_end_def join_snoc)
qed

lemma in_array_text:
  "wr_buffer (in_array vs w) = wr_buffer (punctuate w) @ ''['' @ join (map render vs)
    \<and> (wr_fresh (in_array vs w) \<longleftrightarrow> vs = [])"
proof (induction vs rule: rev_induct)
  case (snoc v vs)
  have "in_array (vs @ [v]) w = put v (in_array vs w)" by (simp add: put_in_array)
  with snoc punctuate_item [of "in_array vs w" _ "CHR ''[''" "map render vs" "render v"]
  show ?case by (simp add: put_def list_all_iff)
qed (simp add: in_array_def begin_array_def)

lemma end_array_in [emits]: "end_array (in_array vs w) = put (JArray vs) w"
  using in_array_text [of vs w] by (intro writer_eqI) (simp_all add: end_array_def put_def)

definition member :: "string \<times> json \<Rightarrow> string" where
  "member = (\<lambda>(k, v). quote k @ '':'' @ render v)"

lemma punctuate_after_key: "punctuate (write_key k w) = set_fresh False (write_key k w)"
  by (rule writer_eqI) (simp_all add: punctuate_def Let_def write_key_def)

lemma put_after_key:
  "wr_buffer (put v (write_key k w)) = wr_buffer (punctuate w) @ member (k, v)"
  "wr_fresh (put v (write_key k w)) = False"
  by (simp_all add: put_def punctuate_after_key) (simp add: write_key_def member_def quote_def)

lemma in_object_text:
  "wr_buffer (in_object es w) = wr_buffer (punctuate w) @ ''{'' @ join (map member es)
    \<and> (wr_fresh (in_object es w) \<longleftrightarrow> es = [])"
proof (induction es rule: rev_induct)
  case (snoc e es)
  obtain k v where e: "e = (k, v)" by (cases e)
  have "list_all plain_end (map member es)"
    by (auto simp: list_all_iff member_def intro!: plain_end_append)
  moreover have "in_object (es @ [e]) w = put v (write_key k (in_object es w))" by (simp add: put_in_object e)
  ultimately show ?case
    using snoc punctuate_item [of "in_object es w" _ "CHR ''{''" "map member es" "member e"]
    by (simp add: put_after_key e)
qed (simp add: in_object_def begin_object_def)

lemma render_object: "render (JObject es) = ''{'' @ join (map member es) @ ''}''"
proof -
  have "map (\<lambda>(k, s). quote k @ '':'' @ s) (map (map_prod id render) es) = map member es"
    by (auto simp: member_def)
  then show ?thesis by (simp only: render.simps)
qed

lemma end_object_in [emits]: "end_object (in_object es w) = put (JObject es) w"
  using in_object_text [of es w] by (intro writer_eqI) (simp_all add: end_object_def put_def render_object del: render.simps)

section \<open>Values\<close>

lemma rev_u128_digits: "v \<noteq> 0 \<Longrightarrow> rev (u128_digits v) = dec_string (unat v)"
proof (induction v rule: u128_digits.induct)
  case (1 v)
  show ?case
  proof (cases "v div 10 = 0")
    case True
    moreover have "unat (v div 10) = unat v div 10" by (simp add: unat_div)
    ultimately have "unat v < 10" by (simp add: div_eq_0_iff)
    then show ?thesis using 1(2) True
      by (subst u128_digits.simps) (simp add: u128_digits.simps [of 0] unat_mod dec_string.simps [of "unat v"])
  next
    case False
    then have "\<not> unat v < 10" by (auto simp: word_nat unat_div simp flip: unat_eq_zero)
    with False 1 show ?thesis
      by (subst u128_digits.simps) (simp add: unat_mod unat_div dec_string.simps [of "unat v"])
  qed
qed

lemma values_emit [emits]:
  "value_u64 v w = put (JInt (uint v)) w"
  "value_i64 v w = put (JInt (sint v)) w"
  "value_bool b w = put (JBool b) w"
  "value_null w = put JNull w"
  "value_string s w = put (JString s) w"
  by (simp_all add: value_u64_def value_i64_def value_bool_def value_null_def value_string_def put_def
      decimal_def to_string_def quote_def write_text_def)

lemma value_u128_emits [emits]: "value_u128 v w = put (JInt (uint v)) w"
  using rev_u128_digits [of v]
  by (simp add: value_u128_def put_def decimal_def dec_string.simps [of 0] dec_digit_def)

definition json_optional :: "u64 option \<Rightarrow> json" where
  "json_optional v = (case v of Some x \<Rightarrow> JInt (uint x) | None \<Rightarrow> JNull)"

lemma fields_emit [emits]:
  "field_u64 k x w = put (JInt (uint x)) (write_key k w)"
  "field_u128 k y w = put (JInt (uint y)) (write_key k w)"
  "field_bool k b w = put (JBool b) (write_key k w)"
  "field_string k s w = put (JString s) (write_key k w)"
  "field_optional_u64 k z w = put (json_optional z) (write_key k w)"
  by (simp_all add: field_u64_def field_u128_def field_bool_def field_string_def field_optional_u64_def
      emits json_optional_def split: option.split)

lemma written_text: "wr_buffer (put v new_writer) = render v"
  by (simp add: put_def new_writer_def punctuate_def Let_def)

end
