(* ===== verification/Json_Round_Trip.thy ===== *)
theory Json_Round_Trip
  imports Json_Writer Ordered_Map
begin

text \<open>
  A value written by the writer is read back by the reader: the integers unchanged when they fit in
  64 bits with a sign, the members of an object in key order with the first of equal keys kept.
\<close>

section \<open>What is read back\<close>

primrec normal :: "json \<Rightarrow> json" where
  "normal JNull = JNull"
| "normal (JBool b) = JBool b"
| "normal (JInt i) = JInt i"
| "normal (JString s) = JString s"
| "normal (JArray vs) = JArray (map normal vs)"
| "normal (JObject es) = JObject (foldl (\<lambda>m (k, v). emplace k v m) [] (map (map_prod id normal) es))"

primrec readable :: "json \<Rightarrow> bool" where
  "readable JNull \<longleftrightarrow> True"
| "readable (JBool b) \<longleftrightarrow> True"
| "readable (JInt i) \<longleftrightarrow> - (2 ^ 63) \<le> i \<and> i < 2 ^ 63"
| "readable (JString s) \<longleftrightarrow> True"
| "readable (JArray vs) \<longleftrightarrow> list_all id (map readable vs)"
| "readable (JObject es) \<longleftrightarrow> list_all (\<lambda>(k, r). r) (map (map_prod id readable) es)"

section \<open>Characters and strings\<close>

lemma skip_nothing [simp]: "\<not> is_space c \<Longrightarrow> skip_whitespace (pos, c # cs) = (pos, c # cs)"
  by (simp add: skip_whitespace_def)

lemma peek_Cons [simp]: "peek (pos, c # cs) = Inr (c, (pos, c # cs))"
  by (simp add: peek_def)

lemma expect_Cons [simp]: "expect c (pos, c # cs) = Inr ((), (pos + 1, cs))"
  by (simp add: expect_def advance_def)

lemma advance_Cons [simp]: "advance (pos, c # cs) = (pos + 1, cs)"
  by (simp add: advance_def)

lemma string_loop_escape:
  "\<exists>pos'. string_loop out pos (escape s @ CHR 0x22 # rest) = Inr (out @ s, (pos', rest))"
proof (induction s arbitrary: out pos)
  case (Cons c s)
  from Cons [of "out @ [c]"] show ?case
    by (auto simp: escape_def escape_char_def unescape_def)
qed (simp add: escape_def)

lemma parse_string_quote: "\<exists>pos'. parse_string (pos, quote s @ rest) = Inr (s, (pos', rest))"
  using string_loop_escape [of "[]" "pos + 1" s rest] by (simp add: parse_string_def quote_def)

lemma parse_string_member:
  "\<exists>pos'. parse_string (pos, member (k, v) @ rest) = Inr (k, (pos', CHR '':'' # render v @ rest))"
  using parse_string_quote [of pos k "CHR '':'' # render v @ rest"] by (simp add: member_def)

section \<open>Numbers\<close>

lemma decimal_digit:
  "d < 10 \<Longrightarrow> is_decimal (dec_digit d) \<and> (of_char (dec_digit d) :: nat) - of_char CHR ''0'' = d"
proof -
  have "\<forall>d\<in>set [0..<10]. is_decimal (dec_digit d) \<and> (of_char (dec_digit d) :: nat) - of_char CHR ''0'' = d"
    by code_simp
  then show "d < 10 \<Longrightarrow> is_decimal (dec_digit d) \<and> (of_char (dec_digit d) :: nat) - of_char CHR ''0'' = d"
    by auto
qed

lemma dec_string_decimal: "list_all is_decimal (dec_string n) \<and> decimal_value (dec_string n) = n"
proof (induction n rule: dec_string.induct)
  case (1 n)
  show ?case
  proof (cases "n < 10")
    case True
    with decimal_digit [of n] show ?thesis by (subst (1 2) dec_string.simps) (simp add: decimal_value_def)
  next
    case False
    then have "dec_string n = dec_string (n div 10) @ [dec_digit (n mod 10)]" by (subst dec_string.simps) simp
    with 1 False decimal_digit [of "n mod 10"] show ?thesis by (simp add: decimal_value_def)
  qed
qed

definition stops :: "string \<Rightarrow> bool" where
  "stops rest \<longleftrightarrow> rest = [] \<or> hd rest = CHR '','' \<or> hd rest = CHR '']'' \<or> hd rest = CHR ''}'' \<or> is_space (hd rest)"

lemma decimal_char: "is_decimal c \<longleftrightarrow> of_char c \<in> {48..57::nat}"
  by (auto simp: is_decimal_def less_eq_char_def)

lemma dec_string_first:
  obtains c cs where "dec_string n = c # cs" "is_decimal c"
  using dec_string_decimal [of n] by (cases "dec_string n") auto

text \<open>A numeral: a sign that may be missing, and digits.\<close>

definition numeral_value :: "string \<Rightarrow> string \<Rightarrow> int" where
  "numeral_value sg ds = (if sg = ''-'' then - int (decimal_value ds) else int (decimal_value ds))"

abbreviation sign_text :: "string \<Rightarrow> bool" where
  "sign_text sg \<equiv> sg = [] \<or> sg = ''-'' \<or> sg = ''+''"

lemma numeral_first:
  assumes "sign_text sg" "ds \<noteq> []" "list_all is_decimal ds"
  obtains c cs where "sg @ ds = c # cs" "is_decimal c \<or> c = CHR ''-'' \<or> c = CHR ''+''"
  using assms by (cases ds) auto

lemma stoll_numeral:
  assumes "sign_text sg" "ds \<noteq> []" "list_all is_decimal ds"
  shows "stoll (sg @ ds) = (if readable (JInt (numeral_value sg ds)) then Inr (numeral_value sg ds) else throw ''stoll'')"
proof -
  obtain c cs where c: "ds = c # cs" "is_decimal c" using assms(2,3) by (cases ds) auto
  then have "c \<noteq> CHR ''-''" "c \<noteq> CHR ''+''" by (auto simp: decimal_char)
  with assms(1) c show ?thesis
    by (auto simp: stoll_def numeral_value_def Let_def throw_def throw_if_def)
qed

lemma parse_number_numeral:
  assumes "sign_text sg" "ds \<noteq> []" "list_all is_decimal ds" "rest = [] \<or> \<not> is_decimal (hd rest)"
  shows "parse_number (pos, sg @ ds @ rest) =
    (if rest \<noteq> [] \<and> hd rest \<in> {CHR ''.'', CHR ''e'', CHR ''E''}
     then parse_fail ''floating-point number in fixture'' (pos + length (sg @ ds), rest)
     else try_then (stoll (sg @ ds)) (\<lambda>v. Inr (JInt v, (pos + length (sg @ ds), rest))))"
proof -
  define t where "t = sg @ ds @ rest"
  obtain c cs where c: "ds = c # cs" "is_decimal c" using assms(2,3) by (cases ds) auto
  then have sign: "takeWhile (\<lambda>c. c = CHR ''-'' \<or> c = CHR ''+'') (take 1 t) = sg"
    using assms(1) by (auto simp: t_def decimal_char)
  have "takeWhile is_decimal rest = []" using assms(4) by (cases rest) auto
  then have digits: "takeWhile is_decimal (drop (length sg) t) = ds"
    using assms(3) by (simp add: t_def list_all_iff takeWhile_append2)
  have left: "drop (length (sg @ ds)) t = rest" by (simp add: t_def)
  have "parse_number (pos, t) =
    (if rest \<noteq> [] \<and> hd rest \<in> {CHR ''.'', CHR ''e'', CHR ''E''}
     then parse_fail ''floating-point number in fixture'' (pos + length (sg @ ds), rest)
     else try_then (stoll (sg @ ds)) (\<lambda>v. Inr (JInt v, (pos + length (sg @ ds), rest))))"
    unfolding parse_number_def Let_def prod.case sign digits left using assms(2) by simp
  then show ?thesis unfolding t_def .
qed

lemma decimal_numeral:
  obtains sg ds where "decimal i = sg @ ds" "sign_text sg" "ds \<noteq> []" "list_all is_decimal ds" "numeral_value sg ds = i"
proof (rule that)
  let ?sg = "if i < 0 then ''-'' else []" and ?ds = "dec_string (nat (if i < 0 then - i else i))"
  show "decimal i = ?sg @ ?ds" by (simp add: decimal_def)
  show "?ds \<noteq> []" by (metis dec_string_first list.distinct(1))
  show "numeral_value ?sg ?ds = i" using dec_string_decimal by (simp add: numeral_value_def)
qed (simp_all add: dec_string_decimal)

lemma stops_number:
  "stops rest \<Longrightarrow> rest = [] \<or> \<not> is_decimal (hd rest)"
  "stops rest \<Longrightarrow> \<not> (rest \<noteq> [] \<and> hd rest \<in> {CHR ''.'', CHR ''e'', CHR ''E''})"
  by (auto simp: stops_def is_space_def decimal_char)

lemma stoll_decimal:
  "stoll (decimal i) = (if readable (JInt i) then Inr i else throw ''stoll'')"
  by (rule decimal_numeral [of i]) (simp add: stoll_numeral del: readable.simps)

lemma parse_number_decimal:
  assumes "stops rest"
  shows "parse_number (pos, decimal i @ rest) =
    try_then (stoll (decimal i)) (\<lambda>v. Inr (JInt v, (pos + length (decimal i), rest)))"
proof (rule decimal_numeral [of i])
  fix sg ds
  assume "decimal i = sg @ ds" "sign_text sg" "ds \<noteq> []" "list_all is_decimal ds"
  then show ?thesis
    using parse_number_numeral [of sg ds rest pos] stops_number [OF assms] by auto
qed

text \<open>A numeral where a value is expected.\<close>

lemma parse_value_numeral:
  assumes "sign_text sg" "ds \<noteq> []" "list_all is_decimal ds"
  shows "parse_value (Suc n) (pos, sg @ ds @ rest) = Some (parse_number (pos, sg @ ds @ rest))"
    and "skip_whitespace (pos, sg @ ds @ rest) = (pos, sg @ ds @ rest)"
proof -
  obtain c cs where c: "sg @ ds = c # cs" "is_decimal c \<or> c = CHR ''-'' \<or> c = CHR ''+''" by (rule numeral_first [OF assms])
  then have "\<not> is_space c" "c \<notin> {CHR ''{'', CHR ''['', CHR 0x22, CHR ''t'', CHR ''f'', CHR ''n''}"
    by (auto simp: decimal_char is_space_def)
  moreover have t: "sg @ ds @ rest = c # cs @ rest" using c(1) by (simp flip: append_assoc)
  ultimately show "parse_value (Suc n) (pos, sg @ ds @ rest) = Some (parse_number (pos, sg @ ds @ rest))"
    and "skip_whitespace (pos, sg @ ds @ rest) = (pos, sg @ ds @ rest)"
    unfolding t by (simp_all add: parse_value.simps)
qed

lemma parse_value_decimal:
  assumes "stops rest"
  shows "parse_value (Suc n) (pos, decimal i @ rest) = Some (parse_number (pos, decimal i @ rest))"
  by (rule decimal_numeral [of i]) (simp add: parse_value_numeral)

section \<open>Values\<close>

lemma render_first:
  obtains c cs where "render v = c # cs" "\<not> is_space c" "c \<noteq> CHR '']''" "c \<noteq> CHR ''}''"
proof (cases v)
  case (JInt i)
  obtain c cs where c: "dec_string (nat i) = c # cs" "is_decimal c" by (rule dec_string_first)
  then have "\<not> is_space c" "c \<noteq> CHR '']''" "c \<noteq> CHR ''}''" by (auto simp: decimal_char is_space_def)
  with c show ?thesis using JInt that by (cases "i < 0") (auto simp: decimal_def is_space_def)
next
  case (JBool b)
  with that show ?thesis by (cases b) (auto simp: is_space_def)
qed (use that in \<open>auto simp: quote_def is_space_def\<close>)

lemma fuelE: "Suc N \<le> n \<Longrightarrow> (\<And>m. n = Suc m \<Longrightarrow> N \<le> m \<Longrightarrow> P) \<Longrightarrow> P"
  by (cases n) auto

definition reads :: "json \<Rightarrow> bool" where
  "reads v \<longleftrightarrow> (\<forall>pos rest. stops rest \<longrightarrow>
     (\<exists>N pos'. \<forall>n\<ge>N. parse_value n (pos, render v @ rest) = Some (Inr (normal v, (pos', rest)))))"

lemma readsD:
  assumes "reads v" "stops rest"
  shows "\<exists>N pos'. \<forall>n\<ge>N. parse_value n (pos, render v @ rest) = Some (Inr (normal v, (pos', rest)))"
  using assms unfolding reads_def by blast

lemma read_elements:
  assumes "\<And>v. v \<in> set vs \<Longrightarrow> reads v" "vs \<noteq> []"
  shows "\<exists>N pos'. \<forall>n\<ge>N. parse_elements n acc (pos, join (map render vs) @ CHR '']'' # rest)
           = Some (Inr (JArray (acc @ map normal vs), (pos', rest)))"
  using assms(2,1)
proof (induction vs arbitrary: acc pos rule: list_nonempty_induct)
  case (single v)
  then have "reads v" by simp
  then obtain N pos' where "\<And>n. N \<le> n \<Longrightarrow> parse_value n (pos, render v @ CHR '']'' # rest)
      = Some (Inr (normal v, (pos', CHR '']'' # rest)))"
    using readsD [of v "CHR '']'' # rest" pos] by (auto simp: stops_def)
  then have "\<forall>n\<ge>Suc N. parse_elements n acc (pos, join (map render [v]) @ CHR '']'' # rest)
     = Some (Inr (JArray (acc @ map normal [v]), (pos' + 1, rest)))"
    by (auto simp: parse_elements.simps Let_def is_space_def elim!: fuelE)
  then show ?case by blast
next
  case (cons v vs)
  then obtain w ws where vs: "vs = w # ws" by (cases vs) auto
  from cons(3) have "reads v" by simp
  then obtain N pos1 where 1: "\<And>n. N \<le> n \<Longrightarrow>
      parse_value n (pos, render v @ CHR '','' # join (map render vs) @ CHR '']'' # rest)
      = Some (Inr (normal v, (pos1, CHR '','' # join (map render vs) @ CHR '']'' # rest)))"
    using readsD [of v "CHR '','' # join (map render vs) @ CHR '']'' # rest" pos] by (auto simp: stops_def)
  from cons(2) [of "acc @ [normal v]" "pos1 + 1"] cons(3) obtain M pos' where
    "\<And>n. M \<le> n \<Longrightarrow> parse_elements n (acc @ [normal v]) (pos1 + 1, join (map render vs) @ CHR '']'' # rest)
       = Some (Inr (JArray (acc @ map normal (v # vs)), (pos', rest)))" by auto
  with 1 have "\<forall>n\<ge>Suc (max N M). parse_elements n acc (pos, join (map render (v # vs)) @ CHR '']'' # rest)
     = Some (Inr (JArray (acc @ map normal (v # vs)), (pos', rest)))"
    unfolding vs by (auto simp: parse_elements.simps Let_def is_space_def elim!: fuelE)
  then show ?case by blast
qed

lemma read_members:
  assumes "\<And>k v. (k, v) \<in> set es \<Longrightarrow> reads v" "es \<noteq> []"
  shows "\<exists>N pos'. \<forall>n\<ge>N. parse_members n m (pos, join (map member es) @ CHR ''}'' # rest)
           = Some (Inr (JObject (foldl (\<lambda>m (k, v). emplace k v m) m (map (map_prod id normal) es)), (pos', rest)))"
  using assms(2,1)
proof (induction es arbitrary: m pos rule: list_nonempty_induct)
  case (single e)
  obtain k v where e: "e = (k, v)" by (cases e)
  with single have "reads v" by simp
  obtain pos1 where s: "parse_string (pos, member e @ CHR ''}'' # rest)
      = Inr (k, (pos1, CHR '':'' # render v @ CHR ''}'' # rest))"
    using parse_string_member e by blast
  obtain cs where q: "member e = CHR 0x22 # cs" by (simp add: e member_def quote_def)
  from \<open>reads v\<close> obtain N pos' where "\<And>n. N \<le> n \<Longrightarrow> parse_value n (pos1 + 1, render v @ CHR ''}'' # rest)
      = Some (Inr (normal v, (pos', CHR ''}'' # rest)))"
    using readsD [of v "CHR ''}'' # rest" "pos1 + 1"] by (auto simp: stops_def)
  with s have "\<forall>n\<ge>Suc N. parse_members n m (pos, join (map member [e]) @ CHR ''}'' # rest)
     = Some (Inr (JObject (foldl (\<lambda>m (k, v). emplace k v m) m (map (map_prod id normal) [e])), (pos' + 1, rest)))"
    by (auto simp: parse_members.simps Let_def is_space_def q [unfolded e] e elim!: fuelE)
  then show ?case by blast
next
  case (cons e es)
  obtain k v where e: "e = (k, v)" by (cases e)
  from cons obtain x xs where es: "es = x # xs" by (cases es) auto
  let ?rest = "CHR '','' # join (map member es) @ CHR ''}'' # rest"
  obtain pos1 where s: "parse_string (pos, member e @ ?rest) = Inr (k, (pos1, CHR '':'' # render v @ ?rest))"
    using parse_string_member e by blast
  obtain cs where q: "member e = CHR 0x22 # cs" by (simp add: e member_def quote_def)
  from cons(3) [of k v] have "reads v" by (simp add: e)
  then obtain N pos2 where 1: "\<And>n. N \<le> n \<Longrightarrow>
      parse_value n (pos1 + 1, render v @ ?rest) = Some (Inr (normal v, (pos2, ?rest)))"
    using readsD [of v ?rest "pos1 + 1"] by (auto simp: stops_def)
  have "\<And>j x. (j, x) \<in> set es \<Longrightarrow> reads x" using cons(3) by force
  then obtain M pos' where
    "\<And>n. M \<le> n \<Longrightarrow> parse_members n (emplace k (normal v) m) (pos2 + 1, join (map member es) @ CHR ''}'' # rest)
       = Some (Inr (JObject (foldl (\<lambda>m (k, v). emplace k v m) (emplace k (normal v) m) (map (map_prod id normal) es)), (pos', rest)))"
    using cons(2) [where m = "emplace k (normal v) m" and pos = "pos2 + 1"] by blast
  with 1 s have "\<forall>n\<ge>Suc (max N M). parse_members n m (pos, join (map member (e # es)) @ CHR ''}'' # rest)
     = Some (Inr (JObject (foldl (\<lambda>m (k, v). emplace k v m) m (map (map_prod id normal) (e # es))), (pos', rest)))"
    unfolding es by (auto simp: parse_members.simps Let_def is_space_def q [unfolded e] e elim!: fuelE)
  then show ?case by blast
qed

lemma parse_literal_here:
  "parse_literal l v (pos, l @ rest) = Inr (v, (pos + length l, rest))"
  by (simp add: parse_literal_def consume_literal_def)

lemma read_array:
  assumes "\<And>v. v \<in> set vs \<Longrightarrow> reads v"
  shows "reads (JArray vs)"
  unfolding reads_def
proof (intro allI impI)
  fix pos rest
  show "\<exists>N pos'. \<forall>n\<ge>N. parse_value n (pos, render (JArray vs) @ rest) = Some (Inr (normal (JArray vs), (pos', rest)))"
  proof (cases vs)
    case Nil
    then show ?thesis
      by (intro exI allI) (auto simp: parse_value.simps is_space_def elim!: fuelE)
  next
    case (Cons w ws)
    obtain c cs where c: "render w = c # cs" "\<not> is_space c" "c \<noteq> CHR '']''" by (rule render_first)
    obtain N pos' where "\<And>n. N \<le> n \<Longrightarrow> parse_elements n [] (pos + 1, join (map render vs) @ CHR '']'' # rest)
           = Some (Inr (JArray (map normal vs), (pos', rest)))"
      using read_elements [of vs "[]" "pos + 1" rest] assms Cons by auto
    moreover obtain ds where "join (map render vs) = c # ds" using c Cons by (cases ws) auto
    ultimately have "\<forall>n\<ge>Suc N. parse_value n (pos, render (JArray vs) @ rest) = Some (Inr (normal (JArray vs), (pos', rest)))"
      using c by (auto simp: parse_value.simps is_space_def elim!: fuelE)
    then show ?thesis by blast
  qed
qed

lemma read_object:
  assumes "\<And>k v. (k, v) \<in> set es \<Longrightarrow> reads v"
  shows "reads (JObject es)"
  unfolding reads_def render_object
proof (intro allI impI)
  fix pos rest
  show "\<exists>N pos'. \<forall>n\<ge>N. parse_value n (pos, (''{'' @ join (map member es) @ ''}'') @ rest)
          = Some (Inr (normal (JObject es), (pos', rest)))"
  proof (cases es)
    case Nil
    then show ?thesis
      by (intro exI allI) (auto simp: parse_value.simps is_space_def elim!: fuelE)
  next
    case (Cons e es')
    obtain N pos' where "\<And>n. N \<le> n \<Longrightarrow> parse_members n [] (pos + 1, join (map member es) @ CHR ''}'' # rest)
           = Some (Inr (normal (JObject es), (pos', rest)))"
      using read_members [of es "[]" "pos + 1" rest] assms Cons by auto
    moreover obtain ds where "join (map member es) = CHR 0x22 # ds"
      using Cons by (cases es'; cases e) (auto simp: member_def quote_def)
    ultimately have "\<forall>n\<ge>Suc N. parse_value n (pos, (''{'' @ join (map member es) @ ''}'') @ rest)
        = Some (Inr (normal (JObject es), (pos', rest)))"
      by (auto simp: parse_value.simps is_space_def elim!: fuelE)
    then show ?thesis by blast
  qed
qed

text \<open>A value that is read without recursion.\<close>

lemma reads_leaf:
  assumes "\<And>pos rest. stops rest \<Longrightarrow>
    \<exists>pos'. \<forall>n. parse_value (Suc n) (pos, render v @ rest) = Some (Inr (normal v, (pos', rest)))"
  shows "reads v"
  unfolding reads_def
proof (intro allI impI)
  fix pos rest
  assume "stops rest"
  from assms [OF this] obtain pos' where
    "\<And>n. parse_value (Suc n) (pos, render v @ rest) = Some (Inr (normal v, (pos', rest)))" by blast
  then have "\<forall>n\<ge>Suc 0. parse_value n (pos, render v @ rest) = Some (Inr (normal v, (pos', rest)))"
    by (auto elim!: fuelE)
  then show "\<exists>N pos'. \<forall>n\<ge>N. parse_value n (pos, render v @ rest) = Some (Inr (normal v, (pos', rest)))"
    by blast
qed

lemma read_int: "readable (JInt i) \<Longrightarrow> reads (JInt i)"
  by (rule reads_leaf) (auto simp: parse_value_decimal parse_number_decimal stoll_decimal)

lemma read_rendered: "readable v \<Longrightarrow> reads v"
proof (induction v)
  case (JInt i)
  then show ?case by (rule read_int)
next
  case (JBool b)
  show ?case
    using parse_literal_here [of "''true''"] parse_literal_here [of "''false''"]
    by (intro reads_leaf; cases b) (auto simp: parse_value.simps is_space_def)
next
  case JNull
  show ?case
    using parse_literal_here [of "''null''"]
    by (intro reads_leaf) (auto simp: parse_value.simps is_space_def)
next
  case (JString s)
  show ?case
  proof (rule reads_leaf)
    fix pos rest
    obtain pos' where "parse_string (pos, quote s @ rest) = Inr (s, (pos', rest))"
      using parse_string_quote by blast
    then have "\<forall>n. parse_value (Suc n) (pos, render (JString s) @ rest) = Some (Inr (normal (JString s), (pos', rest)))"
      by (auto simp: parse_value.simps quote_def is_space_def)
    then show "\<exists>pos'. \<forall>n. parse_value (Suc n) (pos, render (JString s) @ rest) = Some (Inr (normal (JString s), (pos', rest)))"
      by blast
  qed
next
  case (JArray vs)
  then show ?case by (intro read_array) (auto simp: list_all_iff)
next
  case (JObject es)
  then show ?case by (intro read_object) (force simp: list_all_iff)
qed

text \<open>Space after the value is skipped.\<close>

lemma parse_rendered:
  assumes "readable v" "list_all is_space ws"
  shows "parse_json (render v @ ws) = Inr (normal v)"
proof -
  have "stops ws" using assms(2) by (cases ws) (auto simp: stops_def)
  then obtain N pos' where N: "\<And>n. N \<le> n \<Longrightarrow> parse_value n (0, render v @ ws) = Some (Inr (normal v, (pos', ws)))"
    using readsD [OF read_rendered [OF assms(1)], of ws 0] by auto
  obtain c cs where "render v = c # cs" "\<not> is_space c" by (rule render_first)
  then have "skip_whitespace (0, render v @ ws) = (0, render v @ ws)" by simp
  moreover have "snd (skip_whitespace (pos', ws)) = []" using assms(2) by (auto simp: skip_whitespace_def list_all_iff)
  ultimately have "parse_fuel n (render v @ ws) = Some (Inr (normal v))" if "N \<le> n" for n
    using N [OF that] by (simp add: parse_fuel_def)
  from this [of "max N (2 * length (render v @ ws) + 1)"] show ?thesis
    using reader_total [of "render v @ ws" "max N (2 * length (render v @ ws) + 1)"] by simp
qed

text \<open>A value with an integer that does not fit is refused as a whole.\<close>

definition refused :: "json \<Rightarrow> bool" where
  "refused v \<longleftrightarrow> (\<forall>pos rest. stops rest \<longrightarrow>
     (\<exists>N. \<forall>n\<ge>N. parse_value n (pos, render v @ rest) = Some (throw ''stoll'')))"

lemma refusedD:
  assumes "refused v" "stops rest"
  shows "\<exists>N. \<forall>n\<ge>N. parse_value n (pos, render v @ rest) = Some (throw ''stoll'')"
  using assms unfolding refused_def by blast

lemma parsed_throw [simp]: "parsed (Some (throw what)) f = Some (throw what)"
  by (simp add: throw_def)

lemma refuse_elements:
  assumes "\<And>v. v \<in> set vs \<Longrightarrow> readable v \<or> refused v" "\<not> list_all readable vs"
  shows "\<exists>N. \<forall>n\<ge>N. parse_elements n acc (pos, join (map render vs) @ CHR '']'' # rest) = Some (throw ''stoll'')"
  using assms
proof (induction vs arbitrary: acc pos)
  case (Cons v vs)
  define tl1 where "tl1 = (if vs = [] then CHR '']'' # rest else CHR '','' # join (map render vs) @ CHR '']'' # rest)"
  have text1: "join (map render (v # vs)) @ CHR '']'' # rest = render v @ tl1" by (cases vs) (simp_all add: tl1_def)
  have stop: "stops tl1" by (simp add: tl1_def stops_def)
  show ?case
  proof (cases "readable v")
    case True
    then have vs: "vs \<noteq> []" "\<not> list_all readable vs" using Cons.prems(2) by auto
    obtain N pos1 where 1: "\<And>n. N \<le> n \<Longrightarrow> parse_value n (pos, render v @ tl1) = Some (Inr (normal v, (pos1, tl1)))"
      using readsD [OF read_rendered [OF True] stop] by blast
    obtain M where 2: "\<And>n. M \<le> n \<Longrightarrow> parse_elements n (acc @ [normal v])
        (pos1 + 1, join (map render vs) @ CHR '']'' # rest) = Some (throw ''stoll'')"
      using Cons.IH [of "acc @ [normal v]" "pos1 + 1"] Cons.prems(1) vs(2) by auto
    have "\<forall>n\<ge>Suc (max N M). parse_elements n acc (pos, join (map render (v # vs)) @ CHR '']'' # rest) = Some (throw ''stoll'')"
      unfolding text1 using 1 2 vs(1) by (auto simp: parse_elements.simps Let_def is_space_def tl1_def elim!: fuelE)
    then show ?thesis by blast
  next
    case False
    then have "refused v" using Cons.prems(1) [of v] by simp
    then obtain N where "\<And>n. N \<le> n \<Longrightarrow> parse_value n (pos, render v @ tl1) = Some (throw ''stoll'')"
      using refusedD [OF _ stop] by blast
    then have "\<forall>n\<ge>Suc N. parse_elements n acc (pos, join (map render (v # vs)) @ CHR '']'' # rest) = Some (throw ''stoll'')"
      unfolding text1 by (auto simp: parse_elements.simps elim!: fuelE)
    then show ?thesis by blast
  qed
qed simp

lemma refuse_members:
  assumes "\<And>k v. (k, v) \<in> set es \<Longrightarrow> readable v \<or> refused v" "\<not> list_all (\<lambda>(k, v). readable v) es"
  shows "\<exists>N. \<forall>n\<ge>N. parse_members n m (pos, join (map member es) @ CHR ''}'' # rest) = Some (throw ''stoll'')"
  using assms
proof (induction es arbitrary: m pos)
  case (Cons e es)
  obtain k v where e: "e = (k, v)" by (cases e)
  define tl1 where "tl1 = (if es = [] then CHR ''}'' # rest else CHR '','' # join (map member es) @ CHR ''}'' # rest)"
  have text1: "join (map member (e # es)) @ CHR ''}'' # rest = member e @ tl1" by (cases es) (simp_all add: tl1_def)
  have stop: "stops tl1" by (simp add: tl1_def stops_def)
  obtain pos1 where s: "parse_string (pos, member e @ tl1) = Inr (k, (pos1, CHR '':'' # render v @ tl1))"
    using parse_string_member e by blast
  obtain cs where q: "member e = CHR 0x22 # cs" by (simp add: e member_def quote_def)
  have start: "parse_members (Suc n) m (pos, member e @ tl1) =
      parsed (parse_value n (pos1 + 1, render v @ tl1)) (\<lambda>v s3.
        let es' = emplace k v m in
        parsed (Some (peek (skip_whitespace s3))) (\<lambda>c s4.
          if c = CHR '','' then parse_members n es' (advance s4)
          else if c = CHR ''}'' then Some (Inr (JObject es', advance s4))
          else Some (parse_fail (''expected '' @ quoted '','' @ '' or '' @ quoted ''}'') s4)))" for n
    using s by (simp add: parse_members.simps q is_space_def)
  show ?case
  proof (cases "readable v")
    case True
    then have es: "es \<noteq> []" "\<not> list_all (\<lambda>(k, v). readable v) es" using Cons.prems(2) by (auto simp: e)
    obtain N pos2 where 1: "\<And>n. N \<le> n \<Longrightarrow> parse_value n (pos1 + 1, render v @ tl1) = Some (Inr (normal v, (pos2, tl1)))"
      using readsD [OF read_rendered [OF True] stop] by blast
    have "\<And>k v. (k, v) \<in> set es \<Longrightarrow> readable v \<or> refused v" using Cons.prems(1) by auto
    then obtain M where 2: "\<And>n. M \<le> n \<Longrightarrow> parse_members n (emplace k (normal v) m)
        (pos2 + 1, join (map member es) @ CHR ''}'' # rest) = Some (throw ''stoll'')"
      using Cons.IH [of "emplace k (normal v) m" "pos2 + 1"] es(2) by auto
    have next1: "skip_whitespace (p, tl1) = (p, tl1)" "peek (p, tl1) = Inr (CHR '','', (p, tl1))"
        "advance (p, tl1) = (p + 1, join (map member es) @ CHR ''}'' # rest)" for p
      using es(1) by (simp_all add: tl1_def is_space_def)
    have "\<forall>n\<ge>Suc (max N M). parse_members n m (pos, join (map member (e # es)) @ CHR ''}'' # rest) = Some (throw ''stoll'')"
      unfolding text1 using 1 2 by (auto simp: start Let_def next1 elim!: fuelE)
    then show ?thesis by blast
  next
    case False
    then have "refused v" using Cons.prems(1) [of k v] by (simp add: e)
    then obtain N where "\<And>n. N \<le> n \<Longrightarrow> parse_value n (pos1 + 1, render v @ tl1) = Some (throw ''stoll'')"
      using refusedD [OF _ stop] by blast
    then have "\<forall>n\<ge>Suc N. parse_members n m (pos, join (map member (e # es)) @ CHR ''}'' # rest) = Some (throw ''stoll'')"
      unfolding text1 by (auto simp: start elim!: fuelE)
    then show ?thesis by blast
  qed
qed simp

lemma parse_elements_refused:
  assumes "\<And>v. v \<in> set vs \<Longrightarrow> readable v \<or> refused v" "\<not> list_all readable vs"
  shows "refused (JArray vs)"
  unfolding refused_def
proof (intro allI impI)
  fix pos rest
  obtain w ws where vs: "vs = w # ws" using assms(2) by (cases vs) auto
  obtain c cs where c: "render w = c # cs" "\<not> is_space c" "c \<noteq> CHR '']''" by (rule render_first)
  obtain N where "\<And>n. N \<le> n \<Longrightarrow> parse_elements n [] (pos + 1, join (map render vs) @ CHR '']'' # rest) = Some (throw ''stoll'')"
    using refuse_elements [of vs "[]" "pos + 1" rest] assms by blast
  moreover obtain ds where "join (map render vs) = c # ds" using c vs by (cases ws) auto
  ultimately have "\<forall>n\<ge>Suc N. parse_value n (pos, render (JArray vs) @ rest) = Some (throw ''stoll'')"
    using c by (auto simp: parse_value.simps is_space_def elim!: fuelE)
  then show "\<exists>N. \<forall>n\<ge>N. parse_value n (pos, render (JArray vs) @ rest) = Some (throw ''stoll'')" by blast
qed

lemma parse_members_refused:
  assumes "\<And>k v. (k, v) \<in> set es \<Longrightarrow> readable v \<or> refused v" "\<not> list_all (\<lambda>(k, v). readable v) es"
  shows "refused (JObject es)"
  unfolding refused_def render_object
proof (intro allI impI)
  fix pos rest
  obtain e es' where es: "es = e # es'" using assms(2) by (cases es) auto
  obtain N where "\<And>n. N \<le> n \<Longrightarrow> parse_members n [] (pos + 1, join (map member es) @ CHR ''}'' # rest) = Some (throw ''stoll'')"
    using refuse_members [of es "[]" "pos + 1" rest] assms by blast
  moreover obtain ds where "join (map member es) = CHR 0x22 # ds"
    using es by (cases es'; cases e) (auto simp: member_def quote_def)
  ultimately have "\<forall>n\<ge>Suc N. parse_value n (pos, (''{'' @ join (map member es) @ ''}'') @ rest) = Some (throw ''stoll'')"
    by (auto simp: parse_value.simps is_space_def elim!: fuelE)
  then show "\<exists>N. \<forall>n\<ge>N. parse_value n (pos, (''{'' @ join (map member es) @ ''}'') @ rest) = Some (throw ''stoll'')" by blast
qed

lemma refused_rendered: "readable v \<or> refused v"
proof (induction v)
  case (JInt i)
  have "refused (JInt i)" if "\<not> readable (JInt i)"
    unfolding refused_def
  proof (intro allI impI)
    fix pos rest
    assume "stops rest"
    then have "parse_value (Suc n) (pos, render (JInt i) @ rest) = Some (throw ''stoll'')" for n
      using that by (simp add: parse_value_decimal parse_number_decimal stoll_decimal throw_def del: readable.simps)
    then have "\<forall>n\<ge>Suc 0. parse_value n (pos, render (JInt i) @ rest) = Some (throw ''stoll'')" by (auto elim!: fuelE)
    then show "\<exists>N. \<forall>n\<ge>N. parse_value n (pos, render (JInt i) @ rest) = Some (throw ''stoll'')" by blast
  qed
  then show ?case by blast
next
  case (JArray vs)
  then show ?case using parse_elements_refused [of vs] by (auto simp: list_all_iff)
next
  case (JObject es)
  then have "\<And>k v. (k, v) \<in> set es \<Longrightarrow> readable v \<or> refused v" by fastforce
  then show ?case using parse_members_refused [of es] by (force simp: list_all_iff)
qed simp_all

text \<open>The text of a value is read back when its integers fit in 64 bits with a sign, and refused otherwise.\<close>

lemma parse_text:
  assumes "list_all is_space ws"
  shows "parse_json (render v @ ws) = (if readable v then Inr (normal v) else throw ''stoll'')"
proof (cases "readable v")
  case True
  then show ?thesis using parse_rendered [OF True assms] by simp
next
  case False
  have "stops ws" using assms by (cases ws) (auto simp: stops_def)
  then obtain N where N: "\<And>n. N \<le> n \<Longrightarrow> parse_value n (0, render v @ ws) = Some (throw ''stoll'')"
    using refusedD [of v ws 0] refused_rendered [of v] False by blast
  obtain c cs where "render v = c # cs" "\<not> is_space c" by (rule render_first)
  then have "skip_whitespace (0, render v @ ws) = (0, render v @ ws)" by simp
  then have "parse_fuel n (render v @ ws) = Some (throw ''stoll'')" if "N \<le> n" for n
    using N [OF that] by (simp add: parse_fuel_def throw_def)
  from this [of "max N (2 * length (render v @ ws) + 1)"] show ?thesis
    using reader_total [of "render v @ ws" "max N (2 * length (render v @ ws) + 1)"] False by simp
qed

section \<open>Looking up what was written\<close>

lemma emplace_ins: "map_of m k = None \<Longrightarrow> emplace k v m = ins_entry k v m"
  by (induction k v m rule: emplace.induct) (auto split: if_splits)

lemma emplace_again: "map_of m k = Some u \<Longrightarrow> ascending m \<Longrightarrow> emplace k v m = m"
  by (induction k v m rule: emplace.induct) (auto split: if_splits dest!: map_of_SomeD)

lemma emplaced:
  assumes "ascending m"
  shows "ascending (foldl (\<lambda>m (k, v). emplace k v m) m es)
    \<and> map_of (foldl (\<lambda>m (k, v). emplace k v m) m es) j = (case map_of m j of None \<Rightarrow> map_of es j | Some x \<Rightarrow> Some x)"
  using assms
proof (induction es arbitrary: m)
  case (Cons e es)
  obtain k v where e: "e = (k, v)" by (cases e)
  show ?case
  proof (cases "map_of m k")
    case None
    have "map_of (ins_entry k v m) j = (if j = k then Some v else map_of m j)"
      using map_of_ins_entry [OF Cons.prems, of k v] by (auto simp: fun_eq_iff)
    with None Cons.IH [OF ascending_ins_entry [OF Cons.prems], of k v] show ?thesis
      by (simp add: e emplace_ins split: option.splits)
  next
    case (Some u)
    with Cons show ?thesis by (auto simp: e emplace_again split: option.splits)
  qed
qed (simp split: option.split)

lemma json_at_normal:
  "json_at k (normal (JObject es)) =
     (case map_of es k of Some x \<Rightarrow> Inr (normal x) | None \<Rightarrow> throw (''json: missing key '' @ quoted k))"
proof -
  have "map_of (map (map_prod id normal) es) k = map_option normal (map_of es k)"
    by (induction es) auto
  with emplaced [of "[]" "map (map_prod id normal) es" k] show ?thesis
    by (simp add: json_at_def split: option.split)
qed

section \<open>Any value through the writer\<close>

text \<open>A client that writes a whole value with the calls of the writer.\<close>

primrec write_value :: "json \<Rightarrow> json_writer \<Rightarrow> json_writer" where
  "write_value JNull = value_null"
| "write_value (JBool b) = value_bool b"
| "write_value (JInt i) = value_i64 (word_of_int i)"
| "write_value (JString s) = value_string s"
| "write_value (JArray vs) = (\<lambda>w. end_array (fold (\<lambda>f. f) (map write_value vs) (begin_array w)))"
| "write_value (JObject es) =
     (\<lambda>w. end_object (fold (\<lambda>(k, f) w. f (write_key k w)) (map (map_prod id write_value) es) (begin_object w)))"

lemma write_value_emits: "readable v \<Longrightarrow> write_value v w = put v w"
proof (induction v arbitrary: w)
  case (JInt i)
  then have "sint (word_of_int i :: u64) = i" by (simp add: sint_sbintrunc' signed_take_bit_int_eq_self)
  then show ?case by (simp add: emits)
next
  case (JArray vs)
  then have "fold (\<lambda>f. f) (map write_value us) w' = fold put us w'" if "set us \<subseteq> set vs" for us w'
    using that by (induction us arbitrary: w') (auto simp: list_all_iff)
  then show ?case by (simp add: end_array_in flip: in_array_def)
next
  case (JObject es)
  then have v: "write_value v w' = put v w'" if "(k, v) \<in> set es" for k v w'
    using that by (force simp: list_all_iff)
  then have "fold (\<lambda>(k, f) w. f (write_key k w)) (map (map_prod id write_value) ds) w'
      = fold (\<lambda>(k, v) w. put v (write_key k w)) ds w'" if "set ds \<subseteq> set es" for ds w'
    using that by (induction ds arbitrary: w') auto
  then show ?case by (simp add: end_object_in flip: in_object_def)
qed (simp_all add: emits)

section \<open>Properties\<close>

lemma parse_numeral:
  assumes "sign_text sg" "ds \<noteq> []" "list_all is_decimal ds" "rest = [] \<or> hd rest \<in> {CHR ''.'', CHR ''e'', CHR ''E''}"
  shows "parse_json (sg @ ds @ rest) =
    (if rest \<noteq> [] then parse_fail ''floating-point number in fixture'' (length (sg @ ds), rest)
     else try_then (stoll (sg @ ds)) (\<lambda>i. Inr (JInt i)))"
proof -
  have num: "rest = [] \<or> \<not> is_decimal (hd rest)" using assms(4) by (auto simp: decimal_char)
  have "parse_fuel (Suc n) (sg @ ds @ rest) =
    Some (if rest \<noteq> [] then parse_fail ''floating-point number in fixture'' (length (sg @ ds), rest)
          else try_then (stoll (sg @ ds)) (\<lambda>i. Inr (JInt i)))" for n
    unfolding parse_fuel_def parse_value_numeral [OF assms(1-3)] parse_number_numeral [OF assms(1-3) num]
    using assms(4) by (cases "stoll (sg @ ds)") (auto simp: parse_fail_def throw_def skip_whitespace_def)
  from this [of "2 * length (sg @ ds @ rest)"] show ?thesis
    using reader_total [of "sg @ ds @ rest" "Suc (2 * length (sg @ ds @ rest))"] by simp
qed

text \<open>C23: a numeral, with or without a sign and leading zeros, is read as its value when that fits in 64
  bits with a sign, and is refused with the exception of \<open>std::stoll\<close> otherwise; a fraction or an
  exponent after the digits is refused with the offset where it begins.  So an unsigned 64-bit integer
  that the writer emits is read back exactly when it is below $2^{63}$.\<close>

theorem json_integer_range:
  assumes "sg = [] \<or> sg = ''-'' \<or> sg = ''+''" and "ds \<noteq> []" and "list_all is_decimal ds"
    and "c \<in> {CHR ''.'', CHR ''e'', CHR ''E''}"
  shows "parse_json (sg @ ds) =
      (if - (2 ^ 63) \<le> numeral_value sg ds \<and> numeral_value sg ds < 2 ^ 63 then Inr (JInt (numeral_value sg ds))
       else throw ''stoll'')
    \<and> parse_json (sg @ ds @ c # rest) =
      throw (''json: floating-point number in fixture at offset '' @ dec_string (length (sg @ ds)))
    \<and> parse_json (wr_buffer (value_u64 v new_writer)) =
      (if v < 2 ^ 63 then Inr (JInt (uint v)) else throw ''stoll'')"
proof -
  have "readable (JInt (uint v)) \<longleftrightarrow> v < 2 ^ 63"
    by (auto simp: word_less_def intro: order_trans [OF _ uint_ge_0])
  then have "parse_json (wr_buffer (value_u64 v new_writer)) = (if v < 2 ^ 63 then Inr (JInt (uint v)) else throw ''stoll'')"
    using parse_text [of "[]" "JInt (uint v)"] by (simp add: emits written_text del: readable.simps)
  then show ?thesis
    using parse_numeral [OF assms(1-3), of "[]"] parse_numeral [OF assms(1-3), of "c # rest"] assms(4)
    by (simp add: stoll_numeral [OF assms(1-3)] parse_fail_def throw_def)
qed

theorem json_integer_range_witness:
  "parse_json ''-009223372036854775808'' = Inr (JInt (- 9223372036854775808))
   \<and> parse_json ''9223372036854775808'' = throw ''stoll''
   \<and> parse_json ''12.5'' = throw ''json: floating-point number in fixture at offset 2''"
proof -
  have "numeral_value ''-'' ''009223372036854775808'' = - 9223372036854775808"
    "numeral_value [] ''9223372036854775808'' = 9223372036854775808"
    "list_all is_decimal ''009223372036854775808''" "list_all is_decimal ''9223372036854775808''" "list_all is_decimal ''12''"
    by (simp_all add: numeral_value_def decimal_value_def decimal_char)
  moreover have "dec_string (Suc (Suc 0)) = ''2''" by (subst dec_string.simps) (simp add: dec_digit_def)
  ultimately show ?thesis
    using json_integer_range [of "''-''" "''009223372036854775808''" "CHR ''.''" "[]" 0]
      json_integer_range [of "[]" "''9223372036854775808''" "CHR ''.''" "[]" 0]
      json_integer_range [of "[]" "''12''" "CHR ''.''" "''5''" 0]
    by simp
qed

text \<open>C24: A JSON value written with the calls of the writer is read back by the reader, with the
  members of every object in key order, when its integers fit in 64 bits with a sign.\<close>

theorem json_round_trip:
  assumes "readable v"
  shows "parse_json (wr_buffer (write_value v new_writer)) = Inr (normal v)"
  using assms parse_rendered [of v "[]"] by (simp add: write_value_emits written_text)

theorem json_round_trip_witness:
  "parse_json (wr_buffer (write_value
     (JObject [(''b'', JArray [JInt (- 5), JString [CHR 0x22, CHR 0x0A], JNull]), (''a'', JBool True)]) new_writer))
   = Inr (JObject [(''a'', JBool True), (''b'', JArray [JInt (- 5), JString [CHR 0x22, CHR 0x0A], JNull])])"
  by (subst json_round_trip) (simp_all add: list_less_def)

end
