(* ===== verification/Render.thy ===== *)
theory Render
  imports Json_Round_Trip Session Transition
begin

text \<open>
  \<open>cli/render.hpp\<close>: what the commands print with \<open>--json\<close>.  Each renderer is a run of writer calls;
  its lemma gives the one JSON value that the run emits.
\<close>

section \<open>Loops over a writer\<close>

lemma fold_in_array [emits]:
  "fold (\<lambda>x. put (f x)) xs (in_array vs w) = in_array (vs @ map f xs) w"
  by (induction xs arbitrary: vs) (simp_all add: put_in_array)

lemma fold_in_object [emits]:
  "fold (\<lambda>(a, b) w. put (g a b) (write_key (k a b) w)) xs (in_object es w)
     = in_object (es @ map (\<lambda>(a, b). (k a b, g a b)) xs) w"
  by (induction xs arbitrary: es) (auto simp: put_in_object)

section \<open>The renderers\<close>

definition side_name :: "side \<Rightarrow> string" where
  "side_name s = (if s = Buy then ''buy'' else ''sell'')"

definition write_bytes :: "bytes \<Rightarrow> json_writer \<Rightarrow> json_writer" where
  "write_bytes bs w = end_array (fold (\<lambda>b w. value_u64 (ucast b) w) bs (begin_array w))"

definition field_commitment :: "string \<Rightarrow> bytes \<Rightarrow> json_writer \<Rightarrow> json_writer" where
  "field_commitment k c w = write_bytes c (write_key k w)"

definition field_byte_string :: "string \<Rightarrow> bytes \<Rightarrow> json_writer \<Rightarrow> json_writer" where
  "field_byte_string k bs w = write_bytes bs (write_key k w)"

definition write_order :: "order \<Rightarrow> json_writer \<Rightarrow> json_writer" where
  "write_order o1 w =
     (let w = begin_object w;
          w = field_u64 ''id'' (ord_id o1) w;
          w = field_u64 ''account'' (ord_account o1) w;
          w = field_u64 ''instrument'' (ord_instrument o1) w;
          w = field_string ''side'' (side_name (ord_side o1)) w;
          w = field_u64 ''price'' (ord_price o1) w;
          w = field_u64 ''qty'' (ord_qty o1) w;
          w = field_u64 ''seq'' (ord_seq o1) w
      in end_object w)"

definition write_account :: "account_id \<Rightarrow> account_state \<Rightarrow> json_writer \<Rightarrow> json_writer" where
  "write_account aid acc w =
     (let w = begin_object w;
          w = field_u64 ''account_id'' aid w;
          w = field_u128 ''cash'' (acc_cash acc) w;
          w = write_key ''inventory'' w;
          w = begin_object w;
          w = fold (\<lambda>(inst, qty) w. field_u64 (to_string inst) qty w) (om_entries (acc_inventory acc)) w;
          w = end_object w
      in end_object w)"

definition write_ledger :: "ledger \<Rightarrow> json_writer \<Rightarrow> json_writer" where
  "write_ledger l w =
     (let w = begin_object w;
          w = write_key ''accounts'' w;
          w = begin_object w;
          w = fold (\<lambda>(aid, acc) w. write_account aid acc (write_key (to_string aid) w)) (om_entries l) w;
          w = end_object w
      in end_object w)"

definition write_allocation :: "order_allocation \<Rightarrow> json_writer \<Rightarrow> json_writer" where
  "write_allocation a w =
     (let w = begin_object w;
          w = field_u64 ''order_id'' (al_order_id a) w;
          w = field_u64 ''account'' (al_account a) w;
          w = field_string ''side'' (side_name (al_side a)) w;
          w = field_u64 ''limit_price'' (al_limit_price a) w;
          w = field_u64 ''original_qty'' (al_original_qty a) w;
          w = field_u64 ''allocated_qty'' (al_allocated_qty a) w;
          w = field_u64 ''seq'' (al_seq a) w
      in end_object w)"

definition write_fill :: "fill \<Rightarrow> json_writer \<Rightarrow> json_writer" where
  "write_fill f w =
     (let w = begin_object w;
          w = field_u64 ''fill_idx'' (fill_id f) w;
          w = field_u64 ''order_id'' (fill_order_id f) w;
          w = field_u64 ''account_id'' (fill_account_id f) w;
          w = field_u64 ''instrument_id'' (fill_instrument_id f) w;
          w = field_string ''side'' (side_name (fill_side f)) w;
          w = field_u64 ''execution_price'' (fill_execution_price f) w;
          w = field_u64 ''fill_qty'' (fill_qty f) w;
          w = field_u128 ''consideration'' (fill_consideration f) w
      in end_object w)"

definition write_execution_result :: "batch \<Rightarrow> batch_execution_result \<Rightarrow> json_writer \<Rightarrow> json_writer" where
  "write_execution_result b exec w =
     (let w = begin_object w;
          w = write_key ''batch'' w;
          w = begin_object w;
          w = field_u64 ''batch_id'' (bat_id b) w;
          w = field_u64 ''instrument'' (bat_instrument b) w;
          w = write_key ''orders'' w;
          w = begin_array w;
          w = fold write_order (bat_orders b) w;
          w = end_array w;
          w = end_object w;
          w = write_key ''clearing_outcome'' w;
          w = begin_object w;
          w = field_optional_u64 ''clearing_price'' (out_price (res_outcome exec)) w;
          w = field_u64 ''executable_volume'' (out_volume (res_outcome exec)) w;
          w = end_object w;
          w = write_key ''allocation'' w;
          w = begin_object w;
          w = field_optional_u64 ''clearing_price'' (ba_clearing_price (res_allocation exec)) w;
          w = field_u64 ''target_volume'' (ba_target_volume (res_allocation exec)) w;
          w = field_u64 ''total_buy_allocated'' (ba_total_buy (res_allocation exec)) w;
          w = field_u64 ''total_sell_allocated'' (ba_total_sell (res_allocation exec)) w;
          w = write_key ''allocations'' w;
          w = begin_array w;
          w = fold write_allocation (ba_allocations (res_allocation exec)) w;
          w = end_array w;
          w = end_object w;
          w = write_key ''fills'' w;
          w = begin_array w;
          w = fold write_fill (res_fills exec) w;
          w = end_array w;
          w = write_key ''post_state'' w;
          w = write_ledger (res_post_state exec) w
      in end_object w)"

definition write_public_inputs :: "batch_proof_public_inputs \<Rightarrow> json_writer \<Rightarrow> json_writer" where
  "write_public_inputs pub w =
     (let w = begin_object w;
          w = field_commitment ''pre_state_root'' (pi_pre_state_root pub) w;
          w = field_commitment ''post_state_root'' (pi_post_state_root pub) w;
          w = field_commitment ''batch_header_hash'' (pi_batch_header_hash pub) w;
          w = field_commitment ''oracle_snapshot_hash'' (pi_oracle_snapshot_hash pub) w;
          w = field_u64 ''clearing_price'' (pi_clearing_price pub) w;
          w = field_u64 ''cleared_volume'' (pi_cleared_volume pub) w
      in end_object w)"

definition write_batch_proof ::
  "batch_proof_public_inputs \<Rightarrow> batch_proof \<Rightarrow> json_writer \<Rightarrow> json_writer" where
  "write_batch_proof pub proof1 w =
     (let w = begin_object w;
          w = field_u64 ''proof_version'' (ucast (bp_version proof1)) w;
          w = write_key ''public_inputs'' w;
          w = write_public_inputs pub w;
          w = field_byte_string ''proof_bytes'' (bp_bytes proof1) w
      in end_object w)"

definition write_running_state :: "running_state \<Rightarrow> json_writer \<Rightarrow> json_writer" where
  "write_running_state st w =
     (let w = begin_object w;
          w = field_commitment ''ledger_root'' (rs_ledger_root st) w;
          w = field_commitment ''history_accumulator'' (rs_history st) w;
          w = field_u64 ''batch_id'' (rs_batch_id st) w;
          w = field_u64 ''timestamp_nanos'' (rs_timestamp st) w;
          w = field_u64 ''instrument_id'' (rs_instrument st) w
      in end_object w)"

section \<open>The documents\<close>

definition json_u :: "'a::len word \<Rightarrow> json" where
  "json_u v = JInt (uint v)"

definition bytes_document :: "bytes \<Rightarrow> json" where
  "bytes_document bs = JArray (map json_u bs)"

definition order_document :: "order \<Rightarrow> json" where
  "order_document o1 = JObject
     [(''id'', json_u (ord_id o1)), (''account'', json_u (ord_account o1)),
      (''instrument'', json_u (ord_instrument o1)), (''side'', JString (side_name (ord_side o1))),
      (''price'', json_u (ord_price o1)), (''qty'', json_u (ord_qty o1)), (''seq'', json_u (ord_seq o1))]"

definition batch_document :: "batch \<Rightarrow> json" where
  "batch_document b = JObject
     [(''batch_id'', json_u (bat_id b)), (''instrument'', json_u (bat_instrument b)),
      (''orders'', JArray (map order_document (bat_orders b)))]"

definition account_document :: "account_id \<Rightarrow> account_state \<Rightarrow> json" where
  "account_document aid acc = JObject
     [(''account_id'', json_u aid), (''cash'', json_u (acc_cash acc)),
      (''inventory'', JObject (map (\<lambda>(inst, qty). (to_string inst, json_u qty)) (om_entries (acc_inventory acc))))]"

definition ledger_document :: "ledger \<Rightarrow> json" where
  "ledger_document l = JObject
     [(''accounts'', JObject (map (\<lambda>(aid, acc). (to_string aid, account_document aid acc)) (om_entries l)))]"

definition allocation_document :: "order_allocation \<Rightarrow> json" where
  "allocation_document a = JObject
     [(''order_id'', json_u (al_order_id a)), (''account'', json_u (al_account a)),
      (''side'', JString (side_name (al_side a))), (''limit_price'', json_u (al_limit_price a)),
      (''original_qty'', json_u (al_original_qty a)), (''allocated_qty'', json_u (al_allocated_qty a)),
      (''seq'', json_u (al_seq a))]"

definition fill_document :: "fill \<Rightarrow> json" where
  "fill_document f = JObject
     [(''fill_idx'', json_u (fill_id f)), (''order_id'', json_u (fill_order_id f)),
      (''account_id'', json_u (fill_account_id f)), (''instrument_id'', json_u (fill_instrument_id f)),
      (''side'', JString (side_name (fill_side f))), (''execution_price'', json_u (fill_execution_price f)),
      (''fill_qty'', json_u (fill_qty f)), (''consideration'', json_u (fill_consideration f))]"

definition execution_document :: "batch \<Rightarrow> batch_execution_result \<Rightarrow> json" where
  "execution_document b exec = JObject
     [(''batch'', batch_document b),
      (''clearing_outcome'', JObject
         [(''clearing_price'', json_optional (out_price (res_outcome exec))),
          (''executable_volume'', json_u (out_volume (res_outcome exec)))]),
      (''allocation'', JObject
         [(''clearing_price'', json_optional (ba_clearing_price (res_allocation exec))),
          (''target_volume'', json_u (ba_target_volume (res_allocation exec))),
          (''total_buy_allocated'', json_u (ba_total_buy (res_allocation exec))),
          (''total_sell_allocated'', json_u (ba_total_sell (res_allocation exec))),
          (''allocations'', JArray (map allocation_document (ba_allocations (res_allocation exec))))]),
      (''fills'', JArray (map fill_document (res_fills exec))),
      (''post_state'', ledger_document (res_post_state exec))]"

definition public_inputs_document :: "batch_proof_public_inputs \<Rightarrow> json" where
  "public_inputs_document pub = JObject
     [(''pre_state_root'', bytes_document (pi_pre_state_root pub)),
      (''post_state_root'', bytes_document (pi_post_state_root pub)),
      (''batch_header_hash'', bytes_document (pi_batch_header_hash pub)),
      (''oracle_snapshot_hash'', bytes_document (pi_oracle_snapshot_hash pub)),
      (''clearing_price'', json_u (pi_clearing_price pub)),
      (''cleared_volume'', json_u (pi_cleared_volume pub))]"

definition proof_document :: "batch_proof_public_inputs \<Rightarrow> batch_proof \<Rightarrow> json" where
  "proof_document pub proof1 = JObject
     [(''proof_version'', json_u (bp_version proof1)),
      (''public_inputs'', public_inputs_document pub),
      (''proof_bytes'', bytes_document (bp_bytes proof1))]"

definition state_document :: "running_state \<Rightarrow> json" where
  "state_document st = JObject
     [(''ledger_root'', bytes_document (rs_ledger_root st)),
      (''history_accumulator'', bytes_document (rs_history st)),
      (''batch_id'', json_u (rs_batch_id st)),
      (''timestamp_nanos'', json_u (rs_timestamp st)),
      (''instrument_id'', json_u (rs_instrument st))]"

lemma json_u_byte: "JInt (uint (ucast (b :: u8) :: u64)) = json_u b"
  by (simp add: json_u_def uint_up_ucast is_up)

lemma write_bytes_emits [emits]: "write_bytes bs w = put (bytes_document bs) w"
  by (simp add: write_bytes_def emits bytes_document_def json_u_byte)

lemma field_bytes_emit [emits]:
  "field_commitment k c w = put (bytes_document c) (write_key k w)"
  "field_byte_string k c w = put (bytes_document c) (write_key k w)"
  by (simp_all add: field_commitment_def field_byte_string_def emits)

lemma write_order_emits [emits]: "write_order = (\<lambda>o1. put (order_document o1))"
  by (intro ext) (simp add: write_order_def order_document_def emits Let_def json_u_def)

lemma write_account_emits [emits]: "write_account aid acc w = put (account_document aid acc) w"
  by (simp add: write_account_def account_document_def emits Let_def json_u_def)

lemma write_ledger_emits [emits]: "write_ledger l w = put (ledger_document l) w"
  by (simp add: write_ledger_def ledger_document_def emits Let_def)

lemma write_allocation_emits [emits]: "write_allocation = (\<lambda>a. put (allocation_document a))"
  by (intro ext) (simp add: write_allocation_def allocation_document_def emits Let_def json_u_def)

lemma write_fill_emits [emits]: "write_fill = (\<lambda>f. put (fill_document f))"
  by (intro ext) (simp add: write_fill_def fill_document_def emits Let_def json_u_def)

lemma write_execution_emits [emits]: "write_execution_result b exec w = put (execution_document b exec) w"
  by (simp add: write_execution_result_def execution_document_def batch_document_def emits Let_def json_u_def)

lemma write_public_inputs_emits [emits]: "write_public_inputs pub w = put (public_inputs_document pub) w"
  by (simp add: write_public_inputs_def public_inputs_document_def emits Let_def json_u_def)

lemma write_batch_proof_emits [emits]: "write_batch_proof pub proof1 w = put (proof_document pub proof1) w"
  by (simp add: write_batch_proof_def proof_document_def emits Let_def json_u_byte)

lemma write_running_state_emits [emits]: "write_running_state st w = put (state_document st) w"
  by (simp add: write_running_state_def state_document_def emits Let_def json_u_def)

end
