(* ===== verification/Fixtures.thy ===== *)
theory Fixtures
  imports Json_Round_Trip Batch Ledgers
begin

text \<open>
  \<open>cli/fixtures.hpp\<close>: the ledgers, batches, fixtures and session manifests the commands load.  The
  contents of a file are an argument; a file that cannot be opened is \<open>None\<close>.  Where C++ leaves the
  order of two arguments' evaluation open, the model takes the first argument first, which matters
  only for the text of the exception when both are missing.
\<close>

section \<open>Loading\<close>

definition side_from_string :: "string \<Rightarrow> side throws" where
  "side_from_string s =
     (if s = ''buy'' then Inr Buy
      else if s = ''sell'' then Inr Sell
      else throw (''unknown side '' @ quoted s))"

text \<open>\<open>std::stoull\<close>: white space, a sign and digits; what follows them is ignored, and a negative
  value wraps around.\<close>

definition is_c_space :: "char \<Rightarrow> bool" where
  "is_c_space c \<longleftrightarrow> c = CHR '' '' \<or> CHR 0x09 \<le> c \<and> c \<le> CHR 0x0D"

definition stoull :: "string \<Rightarrow> u64 throws" where
  "stoull s =
     (let body = dropWhile is_c_space s;
          negative = (body \<noteq> [] \<and> hd body = CHR ''-'');
          sign = (negative \<or> body \<noteq> [] \<and> hd body = CHR ''+'');
          ds = takeWhile is_decimal (if sign then tl body else body);
          v = of_nat (decimal_value ds) :: u64
      in throw_if (ds = []) ''stoull''
        (throw_if (2 ^ 64 \<le> int (decimal_value ds)) ''stoull'' (Inr (if negative then - v else v))))"

text \<open>\<open>if (r.is_err()) throw std::runtime_error(msg);\<close>, and with the message of the error.\<close>

definition or_throw_text :: "string \<Rightarrow> 'a result \<Rightarrow> ('a \<Rightarrow> 'b throws) \<Rightarrow> 'b throws" where
  "or_throw_text msg r f = (case r of Err e \<Rightarrow> throw msg | Ok v \<Rightarrow> f v)"

definition or_throw :: "'a result \<Rightarrow> ('a \<Rightarrow> 'b throws) \<Rightarrow> 'b throws" where
  "or_throw r f = or_throw_text (error_message r) r f"

lemma or_throw_Inr_iff [throws_simps]:
  "or_throw_text msg r f = Inr b \<longleftrightarrow> (\<exists>a. r = Ok a \<and> f a = Inr b)"
  "or_throw r f = Inr b \<longleftrightarrow> (\<exists>a. r = Ok a \<and> f a = Inr b)"
  by (cases r; auto simp: or_throw_text_def or_throw_def)+

definition load_inventory :: "account_state \<Rightarrow> string \<times> json \<Rightarrow> account_state throws" where
  "load_inventory acc = (\<lambda>(inst_str, qty).
     try_then (stoull inst_str) (\<lambda>inst.
     try_then (json_u64 qty) (\<lambda>q.
     or_throw_text ''invalid inventory in fixture'' (credit_inventory inst q acc) Inr)))"

definition load_account :: "ledger \<Rightarrow> json \<Rightarrow> ledger throws" where
  "load_account l acc =
     try_then (try_then (json_at ''account_id'' acc) json_u64) (\<lambda>aid.
     try_then (try_then (json_at ''cash'' acc) json_u64) (\<lambda>cash.
     try_then (try_then (json_at ''inventory'' acc) json_object) (\<lambda>inventory.
     try_then (loop_throws load_inventory (new_account aid (ucast cash)) inventory) (\<lambda>st.
     Inr (insert_account st l)))))"

definition ledger_from_json :: "json \<Rightarrow> ledger throws" where
  "ledger_from_json accounts =
     try_then (json_array accounts) (\<lambda>accs. loop_throws load_account om_empty accs)"

definition field :: "string \<Rightarrow> json \<Rightarrow> u64 throws" where
  "field k v = try_then (json_at k v) json_u64"

definition load_order :: "json \<Rightarrow> order throws" where
  "load_order v =
     try_then (field ''price'' v) (\<lambda>raw_price. or_throw (price_create raw_price) (\<lambda>price.
     try_then (field ''qty'' v) (\<lambda>raw_qty. or_throw (qty_create raw_qty) (\<lambda>qty.
     try_then (field ''id'' v) (\<lambda>oid.
     try_then (field ''account'' v) (\<lambda>aid.
     try_then (field ''instrument'' v) (\<lambda>inst.
     try_then (try_then (try_then (json_at ''side'' v) json_string) side_from_string) (\<lambda>side.
     try_then (field ''seq'' v) (\<lambda>sq.
     Inr \<lparr>ord_id = oid, ord_account = aid, ord_instrument = inst, ord_side = side, ord_price = price,
          ord_qty = qty, ord_seq = sq\<rparr>)))))))))"

definition batch_from_json :: "json \<Rightarrow> batch throws" where
  "batch_from_json doc =
     try_then (try_then (json_at ''orders'' doc) json_array) (\<lambda>vs.
     try_then (loop_throws (\<lambda>orders v. try_then (load_order v) (\<lambda>o1. Inr (orders @ [o1]))) [] vs) (\<lambda>orders.
     try_then (field ''batch_id'' doc) (\<lambda>bid.
     try_then (field ''instrument'' doc) (\<lambda>inst.
     or_throw (batch_create bid inst orders) Inr))))"

definition parse_file :: "string \<Rightarrow> string option \<Rightarrow> json throws" where
  "parse_file path contents =
     (case contents of
        None \<Rightarrow> throw (''json: cannot open '' @ quoted path)
      | Some cs \<Rightarrow> parse_json cs)"

definition load_batch_fixture :: "string \<Rightarrow> string option \<Rightarrow> (ledger \<times> batch) throws" where
  "load_batch_fixture path contents =
     try_then (parse_file path contents) (\<lambda>doc.
     try_then (try_then (json_at ''pre_state'' doc) ledger_from_json) (\<lambda>pre.
     try_then (try_then (json_at ''batch'' doc) batch_from_json) (\<lambda>b.
     Inr (pre, b))))"

definition load_session_manifest :: "string \<Rightarrow> string option \<Rightarrow> (ledger \<times> batch list) throws" where
  "load_session_manifest path contents =
     try_then (parse_file path contents) (\<lambda>doc.
     try_then (try_then (json_at ''genesis_ledger'' doc) ledger_from_json) (\<lambda>genesis_ledger.
     try_then (try_then (json_at ''batches'' doc) json_array) (\<lambda>vs.
     try_then (loop_throws (\<lambda>batches v. try_then (batch_from_json v) (\<lambda>b. Inr (batches @ [b]))) [] vs) (\<lambda>batches.
     Inr (genesis_ledger, batches)))))"

section \<open>What is loaded is well formed\<close>

lemma loop_throws_invariant:
  assumes "loop_throws f s xs = Inr t" "P s"
    and "\<And>s x s'. x \<in> set xs \<Longrightarrow> P s \<Longrightarrow> f s x = Inr s' \<Longrightarrow> P s'"
  shows "P t"
  using assms
proof (induction xs arbitrary: s)
  case (Cons x xs)
  then show ?case by (auto simp: throws_simps)
qed simp

lemma batch_from_json_wf: "batch_from_json doc = Inr b \<Longrightarrow> wf_batch b"
  by (auto simp: batch_from_json_def throws_simps batch_create_eq intro: wf_new_batch)

text \<open>An account that no venue secret has blinded yet, filed under its own identifier.\<close>

definition plain_ledger :: "ledger \<Rightarrow> bool" where
  "plain_ledger l \<longleftrightarrow> (\<forall>k acc. om_find l k = Some acc \<longrightarrow> acc_id acc = k \<and> \<not> is_blinded acc)"

lemma load_inventory_step:
  "load_inventory acc e = Inr acc' \<Longrightarrow> acc_id acc' = acc_id acc \<and> acc_salt acc' = acc_salt acc"
proof -
  assume "load_inventory acc e = Inr acc'"
  then obtain inst q where "credit_inventory inst q acc = Ok acc'"
    by (cases e) (auto simp: load_inventory_def throws_simps)
  then show ?thesis by (auto simp: credit_inventory_Ok_iff)
qed

lemma load_account_plain:
  assumes "plain_ledger l" "load_account l v = Inr l'"
  shows "plain_ledger l'"
proof -
  from assms(2) obtain aid cash inv acc where acc:
    "loop_throws load_inventory (new_account aid (ucast (cash :: u64))) inv = Inr acc"
    and l': "l' = insert_account acc l"
    by (auto simp: load_account_def throws_simps)
  have "acc_salt acc = zero_salt"
    by (rule loop_throws_invariant [OF acc]) (auto simp: new_account_def dest: load_inventory_step)
  with assms(1) show ?thesis by (auto simp: l' plain_ledger_def insert_account_def is_blinded_def)
qed

lemma ledger_from_json_plain:
  assumes "ledger_from_json v = Inr l"
  shows "plain_ledger l"
proof -
  from assms obtain accs where "loop_throws load_account om_empty accs = Inr l"
    by (auto simp: ledger_from_json_def throws_simps)
  then show ?thesis
    by (rule loop_throws_invariant) (erule load_account_plain | simp add: plain_ledger_def)+
qed

lemma manifest_batches_wf:
  assumes "loop_throws (\<lambda>batches v. try_then (batch_from_json v) (\<lambda>b. Inr (batches @ [b]))) [] vs = Inr bs"
  shows "list_all wf_batch bs"
  by (rule loop_throws_invariant [OF assms]) (auto simp: throws_simps intro: batch_from_json_wf)

section \<open>Properties\<close>

text \<open>C25: Whatever a fixture file or a session manifest contains, what the commands load from it is
  well formed: every batch meets the invariant of batches, and every account of the ledger is filed
  under its own identifier and not blinded yet.\<close>

theorem loaded_input_well_formed:
  "(case load_batch_fixture path contents of
      Inl e \<Rightarrow> True
    | Inr (pre, b) \<Rightarrow> plain_ledger pre \<and> wf_batch b)
   \<and> (case load_session_manifest path contents of
      Inl e \<Rightarrow> True
    | Inr (genesis_ledger, bs) \<Rightarrow> plain_ledger genesis_ledger \<and> list_all wf_batch bs)"
  by (auto simp: load_batch_fixture_def load_session_manifest_def throws_simps
      intro: ledger_from_json_plain batch_from_json_wf manifest_batches_wf split: sum.split)

end
