(* ===== verification/Console.thy ===== *)
theory Console
  imports Main
begin

text \<open>
  What a command leaves behind: the text on the two streams and the exit code.
\<close>

record console =
  con_out :: string
  con_err :: string
  con_code :: nat

definition line :: "string \<Rightarrow> string" where
  "line s = s @ [CHR 0x0A]"

definition lines_of :: "string list \<Rightarrow> string" where
  "lines_of ls = concat (map line ls)"

text \<open>\<open>std::cout << text; return 0;\<close> and \<open>std::cerr << text; return 1;\<close>\<close>

definition printed :: "string \<Rightarrow> console" where
  "printed s = \<lparr>con_out = s, con_err = [], con_code = 0\<rparr>"

definition failed :: "string \<Rightarrow> console" where
  "failed s = \<lparr>con_out = [], con_err = s, con_code = 1\<rparr>"

text \<open>A command that computes its output or the text of its complaint.\<close>

definition ends_with :: "string + string \<Rightarrow> console" where
  "ends_with r = (case r of Inl msg \<Rightarrow> failed msg | Inr s \<Rightarrow> printed s)"

text \<open>An exception that reaches \<open>main\<close>, or the rest of the command.\<close>

definition or_caught :: "string + 'a \<Rightarrow> ('a \<Rightarrow> console) \<Rightarrow> console" where
  "or_caught r f = (case r of Inl what \<Rightarrow> failed (line (''Error: '' @ what)) | Inr v \<Rightarrow> f v)"

definition double_rule :: string where
  "double_rule = replicate 60 CHR ''=''"

definition single_rule :: string where
  "single_rule = replicate 60 CHR ''-''"

lemma console_simps [simp]:
  "con_out (printed s) = s" "con_err (printed s) = []" "con_code (printed s) = 0"
  "con_out (failed s) = []" "con_err (failed s) = s" "con_code (failed s) = 1"
  "ends_with (Inr s) = printed s" "ends_with (Inl s) = failed s"
  "or_caught (Inr v) f = f v" "or_caught (Inl s) f = failed (line (''Error: '' @ s))"
  by (simp_all add: printed_def failed_def ends_with_def or_caught_def)

end
