(* ===== verification/Commands.thy ===== *)
theory Commands
  imports Render Fixtures Honest Console
begin

text \<open>
  \<open>cli/main.cpp\<close>: the commands \<open>run\<close>, \<open>prove\<close> and \<open>prove-session\<close>, from the contents of the file
  they are given to the text they print and the exit code.
\<close>

section \<open>\<open>run\<close>\<close>

definition run_summary :: "batch \<Rightarrow> batch_execution_result \<Rightarrow> string" where
  "run_summary b exec = lines_of
     [double_rule,
      '' FairCross Batch Execution Summary'',
      double_rule,
      ''Batch ID:        '' @ to_string (bat_id b),
      ''Instrument:      '' @ to_string (bat_instrument b),
      ''Orders in Batch: '' @ dec_string (length (bat_orders b)),
      (case out_price (res_outcome exec) of
         Some cp \<Rightarrow> ''Clearing Price:  '' @ to_string cp @ '' ticks''
       | None \<Rightarrow> ''Clearing Price:  None (No Trades Crossed)''),
      ''Executed Volume: '' @ to_string (out_volume (res_outcome exec)) @ '' lots'',
      ''Generated Fills: '' @ dec_string (length (res_fills exec)),
      single_rule,
      ''Machine-Readable Output (JSON):'']"

definition run_fixture :: "ledger \<Rightarrow> batch \<Rightarrow> bool \<Rightarrow> string throws" where
  "run_fixture pre_state b json_only =
     (let pre = blind_ledger demo_venue_secret pre_state in
      or_print ''Batch execution error: '' (execute_batch pre b) (\<lambda>exec.
      or_print ''Invariant verification error: '' (verify_transition pre b exec) (\<lambda>u.
      let w = write_execution_result b exec new_writer in
      Inr ((if json_only then [] else run_summary b exec) @ line (wr_buffer w)))))"

definition cmd_run :: "string \<Rightarrow> string option \<Rightarrow> bool \<Rightarrow> console" where
  "cmd_run path contents json_only =
     or_caught (load_batch_fixture path contents) (\<lambda>(pre_state, b). ends_with (run_fixture pre_state b json_only))"

section \<open>\<open>prove\<close> and \<open>prove-session\<close>\<close>

definition string_of_bytes :: "bytes \<Rightarrow> string" where
  "string_of_bytes bs = map (\<lambda>b. char_of (unat b)) bs"

definition proof_report :: "bool \<Rightarrow> bool \<Rightarrow> batch_proof_public_inputs \<times> batch_proof \<Rightarrow> string" where
  "proof_report verify json_only = (\<lambda>(pub, proof1).
     if json_only then line (wr_buffer (write_batch_proof pub proof1 new_writer))
     else lines_of
       [double_rule,
        '' FairCross Single-Batch Transition Proof'',
        double_rule,
        ''Pre-State Root:   '' @ to_hex (pi_pre_state_root pub),
        ''Post-State Root:  '' @ to_hex (pi_post_state_root pub),
        ''Batch Header:     '' @ to_hex (pi_batch_header_hash pub),
        ''Certificate:      '' @ string_of_bytes (bp_bytes proof1)]
      @ (if verify then line ''Verification:     PASSED [SAT]'' else []))"

definition cmd_prove :: "string \<Rightarrow> string option \<Rightarrow> bool \<Rightarrow> bool \<Rightarrow> console" where
  "cmd_prove path contents verify json_only =
     or_caught (load_batch_fixture path contents) (\<lambda>(pre_state, b).
       ends_with (try_then (prove_fixture pre_state b verify) (\<lambda>r. Inr (proof_report verify json_only r))))"

definition write_session :: "session_proof \<Rightarrow> json_writer \<Rightarrow> json_writer" where
  "write_session session w =
     (let w = begin_object w;
          w = field_u64 ''session_version'' (ucast (sn_version session)) w;
          w = field_u64 ''num_batches'' (of_nat (sn_num_batches session)) w;
          w = write_key ''public_inputs'' w;
          w = begin_object w;
          w = write_key ''initial_state'' w;
          w = write_running_state (sp_initial_state (sn_public_inputs session)) w;
          w = write_key ''final_state'' w;
          w = write_running_state (sp_final_state (sn_public_inputs session)) w;
          w = end_object w;
          w = write_key ''step_proofs'' w;
          w = begin_array w;
          w = fold (\<lambda>step. write_batch_proof (bp_public_inputs step) step) (sn_step_proofs session) w;
          w = end_array w;
          w = field_byte_string ''proof_certificate'' (sn_certificate session) w
      in end_object w)"

definition session_report :: "bool \<Rightarrow> bool \<Rightarrow> session_proof \<Rightarrow> string" where
  "session_report verify json_only session =
     (if json_only then line (wr_buffer (write_session session new_writer))
      else let final = sp_final_state (sn_public_inputs session) in lines_of
        [double_rule,
         '' FairCross Multi-Batch Recursive Session Proof'',
         double_rule,
         ''Batches Folded:      '' @ dec_string (sn_num_batches session),
         ''Final Batch ID:      '' @ to_string (rs_batch_id final),
         ''Final History Acc:   '' @ to_hex (rs_history final),
         ''Final Ledger Root:   '' @ to_hex (rs_ledger_root final),
         ''Session Certificate: '' @ string_of_bytes (sn_certificate session)]
        @ (if verify then line ''Verification Check:  PASSED [SAT]'' else []))"

definition cmd_prove_session :: "string \<Rightarrow> string option \<Rightarrow> bool \<Rightarrow> bool \<Rightarrow> console" where
  "cmd_prove_session path contents verify json_only =
     or_caught (load_session_manifest path contents) (\<lambda>(genesis_ledger, batches).
       ends_with (try_then (prove_manifest genesis_ledger batches verify) (\<lambda>s. Inr (session_report verify json_only s))))"

section \<open>Reading a printed batch\<close>

lemma normal_json_u [simp]: "normal (json_u v) = json_u v"
  by (simp add: json_u_def)

lemma json_u64_u [simp]: "json_u64 (json_u (v :: u64)) = Inr v"
  by (simp add: json_u64_def json_u_def)

lemma side_of_name: "valid_side s \<Longrightarrow> side_from_string (side_name s) = Inr s"
  by (auto simp: valid_side_def side_from_string_def side_name_def)

lemma load_order_document:
  assumes "wf_order inst o1"
  shows "load_order (normal (order_document o1)) = Inr o1"
  using assms side_of_name [of "ord_side o1"]
  unfolding order_document_def load_order_def field_def json_at_normal
  by (simp add: wf_order_def price_create_def qty_create_def or_throw_def or_throw_text_def json_string_def)

lemma load_orders:
  assumes "list_all (wf_order inst) os"
  shows "loop_throws (\<lambda>orders v. try_then (load_order v) (\<lambda>o1. Inr (orders @ [o1]))) acc
    (map (\<lambda>o1. normal (order_document o1)) os) = Inr (acc @ os)"
  using assms by (induction os arbitrary: acc) (auto simp: load_order_document)

lemma batch_from_document:
  assumes "wf_batch b"
  shows "batch_from_json (normal (batch_document b)) = Inr b"
  using load_orders [of "bat_instrument b" "bat_orders b" "[]"] assms wf_batch_create [OF assms]
  unfolding batch_document_def batch_from_json_def field_def json_at_normal
  by (simp add: json_array_def or_throw_def or_throw_text_def wf_batch_def comp_def)

section \<open>Properties\<close>

text \<open>C26: On a fixture that loads and a batch that executes, and whose instrument's total inventory fits its
  type, \<open>run --json\<close> prints one JSON document and exits with 0.  When the integers of the document are
  below $2^{63}$, which is all the reader can hold, it is read back as the execution it describes, and its
  batch, given to the fixture loader again, is the batch that was run; otherwise the reader refuses the
  document with the exception of \<open>std::stoll\<close>.\<close>

theorem run_output_round_trip:
  assumes "load_batch_fixture path contents = Inr (pre_state, b)"
    and "execute_batch (blind_ledger demo_venue_secret pre_state) b = Ok exec"
    and "is_ok (total_inventory_of (blind_ledger demo_venue_secret pre_state) (bat_instrument b))"
  shows "con_code (cmd_run path contents True) = 0
    \<and> parse_json (con_out (cmd_run path contents True))
      = (if readable (execution_document b exec) then Inr (normal (execution_document b exec)) else throw ''stoll'')
    \<and> try_then (try_then (parse_json (con_out (cmd_run path contents True))) (json_at ''batch'')) batch_from_json
      = (if readable (execution_document b exec) then Inr b else throw ''stoll'')"
proof -
  have b: "wf_batch b" using assms(1) by (auto simp: load_batch_fixture_def throws_simps intro: batch_from_json_wf)
  then have "verify_transition (blind_ledger demo_venue_secret pre_state) b exec = Ok ()"
    using assms(2,3) by (simp add: verify_transition_engine)
  then have r: "cmd_run path contents True = printed (line (render (execution_document b exec)))"
    using assms(1,2) by (simp add: cmd_run_def run_fixture_def or_print_def write_execution_emits written_text)
  have p: "parse_json (line (render (execution_document b exec)))
      = (if readable (execution_document b exec) then Inr (normal (execution_document b exec)) else throw ''stoll'')"
    unfolding line_def by (rule parse_text) (simp add: is_space_def)
  have "json_at ''batch'' (normal (execution_document b exec)) = Inr (normal (batch_document b))"
    unfolding execution_document_def json_at_normal by simp
  then show ?thesis using b by (simp add: r p batch_from_document throw_def)
qed

definition sample_fixture :: string where
  "sample_fixture = line (render (JObject
     [(''pre_state'', JArray
        [JObject [(''account_id'', JInt 10), (''cash'', JInt 1000), (''inventory'', JObject [])],
         JObject [(''account_id'', JInt 11), (''cash'', JInt 0), (''inventory'', JObject [(''7'', JInt 50)])]]),
      (''batch'', batch_document sample_batch)]))"

lemma sample_fixture_loads: "load_batch_fixture path (Some sample_fixture) = Inr (sample_ledger, sample_batch)"
proof -
  let ?l = "JArray
    [JObject [(''account_id'', JInt 10), (''cash'', JInt 1000), (''inventory'', JObject [])],
     JObject [(''account_id'', JInt 11), (''cash'', JInt 0), (''inventory'', JObject [(''7'', JInt 50)])]]"
  have "parse_json sample_fixture = Inr (normal (JObject [(''pre_state'', ?l), (''batch'', batch_document sample_batch)]))"
    unfolding sample_fixture_def line_def
    by (rule parse_rendered) (code_simp, simp add: is_space_def)
  moreover have "ledger_from_json (normal ?l) = Inr sample_ledger" by code_simp
  ultimately show ?thesis
    by (simp add: load_batch_fixture_def parse_file_def json_at_normal batch_from_document [OF sample_wf] del: normal.simps)
qed

lemma blinded_document:
  "case execute_batch (om_map (\<lambda>k acc. set_commitment_salt (f k) acc) sample_ledger) sample_batch of
     Ok e \<Rightarrow> readable (execution_document sample_batch e)
   | Err e \<Rightarrow> False"
  by code_simp

theorem run_output_round_trip_witness:
  "con_code (cmd_run ''sample.json'' (Some sample_fixture) True) = 0
   \<and> try_then (try_then (parse_json (con_out (cmd_run ''sample.json'' (Some sample_fixture) True))) (json_at ''batch''))
       batch_from_json = Inr sample_batch"
proof -
  let ?pre = "blind_ledger demo_venue_secret sample_ledger"
  obtain e where e: "execute_batch ?pre sample_batch = Ok e" "readable (execution_document sample_batch e)"
      "is_ok (total_inventory_of ?pre (bat_instrument sample_batch))"
    using blinded_document [of "derive_account_salt demo_venue_secret"]
      blinded_sample [of "derive_account_salt demo_venue_secret"]
    by (auto simp: blind_ledger_def small_amounts_def split: result.splits)
  then show ?thesis
    using run_output_round_trip [OF sample_fixture_loads e(1,3), of "''sample.json''"] unfolding if_P [OF e(2)] by blast
qed

text \<open>The command \<open>run\<close> exits with 1, prints nothing on standard output and says why on standard error, exactly
  when the fixture does not load, the batch does not execute, or the instrument's total inventory does
  not fit its type; the checker never objects to anything else.  Otherwise it exits with 0, prints a
  document and no complaint.\<close>

theorem run_exit_code:
  "case cmd_run path contents json_only of console \<Rightarrow>
     con_code console =
       (case load_batch_fixture path contents of
          Inl what \<Rightarrow> 1
        | Inr (pre_state, b) \<Rightarrow>
            (let pre = blind_ledger demo_venue_secret pre_state in
             if is_ok (execute_batch pre b) \<and> is_ok (total_inventory_of pre (bat_instrument b)) then 0 else 1))
     \<and> (con_out console = [] \<longleftrightarrow> con_code console = 1) \<and> (con_err console = [] \<longleftrightarrow> con_code console = 0)"
proof (cases "load_batch_fixture path contents")
  case (Inl what)
  then show ?thesis by (simp add: cmd_run_def line_def)
next
  case (Inr r)
  obtain pre_state b where r: "r = (pre_state, b)" by (cases r)
  with Inr have "wf_batch b" by (auto simp: load_batch_fixture_def throws_simps intro: batch_from_json_wf)
  then have v: "is_ok (total_inventory_of (blind_ledger demo_venue_secret pre_state) (bat_instrument b))
      \<longleftrightarrow> verify_transition (blind_ledger demo_venue_secret pre_state) b exec = Ok ()"
    if "execute_batch (blind_ledger demo_venue_secret pre_state) b = Ok exec" for exec
    using that by (simp add: verify_transition_engine)
  show ?thesis
  proof (cases "execute_batch (blind_ledger demo_venue_secret pre_state) b")
    case (Err e)
    then show ?thesis by (simp add: cmd_run_def Inr r run_fixture_def or_print_def throw_def)
  next
    case (Ok exec)
    then show ?thesis
      using v [OF Ok]
      by (cases "verify_transition (blind_ledger demo_venue_secret pre_state) b exec")
        (auto simp: cmd_run_def Inr r run_fixture_def or_print_def throw_def line_def Let_def)
  qed
qed

end
