(* ===== verification/Adversary.thy ===== *)
theory Adversary
  imports Checker Accounting Oracle Throwing
begin

text \<open>
  \<open>adversary/mutator.hpp\<close> and \<open>mutator.cpp\<close>: an operator who executes a batch with one mutation of
  the honest procedure.  \<open>Result::value\<close> of an error throws, with the text of the GNU library; the
  results of the settlement calls are discarded, so a failing call leaves the account as it is.
\<close>

datatype mutation_type =
    NoMutation
  | ManipulateClearingPrice
  | CensorOrder
  | InjectUnauthorizedOrder
  | ManipulateAllocation
  | ViolateLimitPrice
  | FreezePostState
  | InflatePostStateCash
  | InflatePostStateInventory
  | SpoofCommitmentLeaf
  | ReplayBatchHeader
  | StaleOracleSnapshot

record adversarial_mutation =
  mu_type :: mutation_type
  mu_offset_ticks :: u64
  mu_leaf_index :: nat
  mu_injected_order :: order
  mu_injected_salt :: bytes
  mu_target_order_id :: order_id
  mu_forged_qty :: qty
  mu_bogus_price :: price
  mu_beneficiary :: account_id
  mu_extra_cash :: money
  mu_extra_instrument :: instrument_id
  mu_extra_qty :: qty
  mu_fake_commitment :: bytes
  mu_fake_batch_id :: batch_id
  mu_staleness :: u64

record adversarial_execution =
  ax_batch :: batch
  ax_result :: batch_execution_result
  ax_tree :: merkle_tree
  ax_accounting :: complete_input_accounting
  ax_header :: batch_header
  ax_commitment :: bytes
  ax_snapshot :: "reference_price_snapshot option"
  ax_policy :: "reference_price_policy option"

section \<open>The mutations\<close>

definition mutate_preimages ::
  "adversarial_mutation \<Rightarrow> salted_order_preimage list \<Rightarrow> salted_order_preimage list" where
  "mutate_preimages m preimages =
     (if mu_type m = CensorOrder then
        (if mu_leaf_index m < length preimages
         then take (mu_leaf_index m) preimages @ drop (mu_leaf_index m + 1) preimages
         else preimages)
      else if mu_type m = InjectUnauthorizedOrder then
        preimages @ [\<lparr>pre_order = mu_injected_order m, pre_nonce = mu_injected_salt m\<rparr>]
      else preimages)"

text \<open>The price as a signed number, moved, and never below one.\<close>

definition shifted_price :: "u64 \<Rightarrow> price \<Rightarrow> price" where
  "shifted_price offset p = (let new_raw = p + offset in if sint new_raw < 1 then 1 else new_raw)"

definition mutate_outcome :: "adversarial_mutation \<Rightarrow> clearing_outcome \<Rightarrow> clearing_outcome" where
  "mutate_outcome m out =
     (case (mu_type m, out_price out) of
        (ManipulateClearingPrice, Some cp) \<Rightarrow> out\<lparr>out_price := Some (shifted_price (mu_offset_ticks m) cp)\<rparr>
      | _ \<Rightarrow> out)"

definition mutate_allocation :: "adversarial_mutation \<Rightarrow> batch_allocation \<Rightarrow> batch_allocation" where
  "mutate_allocation m alloc =
     (if mu_type m = ManipulateAllocation then
        alloc\<lparr>ba_allocations := map (\<lambda>a. if al_order_id a = mu_target_order_id m
                                         then a\<lparr>al_allocated_qty := mu_forged_qty m\<rparr> else a)
                                    (ba_allocations alloc)\<rparr>
      else alloc)"

definition violate_limit :: "adversarial_mutation \<Rightarrow> fill list \<Rightarrow> fill \<Rightarrow> fill list throws" where
  "violate_limit m acc f =
     (if fill_order_id f = mu_target_order_id m then
        value_of (money_from_price_qty (mu_bogus_price m) (fill_qty f)) (\<lambda>c.
          Inr (acc @ [f\<lparr>fill_execution_price := mu_bogus_price m, fill_consideration := c\<rparr>]))
      else Inr (acc @ [f]))"

definition mutate_fills :: "adversarial_mutation \<Rightarrow> fill list \<Rightarrow> fill list throws" where
  "mutate_fills m fills =
     (if mu_type m = ViolateLimitPrice then loop_throws (violate_limit m) [] fills else Inr fills)"

text \<open>\<open>auto _ = acc.debit_cash(..)\<close>: the account afterwards, whatever the call returned.\<close>

definition regardless :: "account_state result \<Rightarrow> account_state \<Rightarrow> account_state" where
  "regardless r acc = unwrap_or r acc"

definition settle_regardless :: "ledger \<Rightarrow> fill \<Rightarrow> ledger" where
  "settle_regardless l f =
     (let (acc, l') = get_or_create_account (fill_account_id f) l in
      if fill_side f = Buy then
        let acc1 = regardless (debit_cash (fill_consideration f) acc) acc;
            acc2 = regardless (credit_inventory (fill_instrument_id f) (fill_qty f) acc1) acc1
        in om_assign (fill_account_id f) acc2 l'
      else
        let acc1 = regardless (debit_inventory (fill_instrument_id f) (fill_qty f) acc) acc;
            acc2 = regardless (credit_cash (fill_consideration f) acc1) acc1
        in om_assign (fill_account_id f) acc2 l')"

definition mutate_post_state :: "adversarial_mutation \<Rightarrow> ledger \<Rightarrow> ledger \<Rightarrow> ledger" where
  "mutate_post_state m pre post =
     (if mu_type m = FreezePostState then pre
      else if mu_type m = InflatePostStateCash then
        let (acc, l) = get_or_create_account (mu_beneficiary m) post
        in om_assign (mu_beneficiary m) (regardless (credit_cash (mu_extra_cash m) acc) acc) l
      else if mu_type m = InflatePostStateInventory then
        let (acc, l) = get_or_create_account (mu_beneficiary m) post
        in om_assign (mu_beneficiary m)
             (regardless (credit_inventory (mu_extra_instrument m) (mu_extra_qty m) acc) acc) l
      else post)"

definition spoof_leaf ::
  "adversarial_mutation \<Rightarrow> merkle_tree \<times> complete_input_accounting \<Rightarrow> merkle_tree \<times> complete_input_accounting" where
  "spoof_leaf m = (\<lambda>(tree, acc).
     if mu_type m = SpoofCommitmentLeaf \<and> mu_leaf_index m < length (mt_leaves tree) then
       (new_merkle_tree ((mt_leaves tree)[mu_leaf_index m := mu_fake_commitment m]),
        if mu_leaf_index m < length (cia_records acc)
        then acc\<lparr>cia_records := (cia_records acc)[mu_leaf_index m :=
                (cia_records acc ! mu_leaf_index m)\<lparr>rec_commitment := mu_fake_commitment m\<rparr>]\<rparr>
        else acc)
     else (tree, acc))"

section \<open>The operator\<close>

definition snapshot_time :: "adversarial_mutation \<Rightarrow> u64" where
  "snapshot_time m =
     (if mu_type m = StaleOracleSnapshot then 1700000000000000000 - 1000000000 - mu_staleness m
      else 1700000000000000000 - 500000000)"

definition adversarial_execute ::
  "adversarial_mutation \<Rightarrow> ledger \<Rightarrow> batch \<Rightarrow> salted_order_preimage list \<Rightarrow> adversarial_execution throws" where
  "adversarial_execute m pre b preimages =
     (let working_preimages = mutate_preimages m preimages;
          working_batch = new_batch (bat_id b) (bat_instrument b) (map pre_order working_preimages)
      in value_of (determine_clearing_outcome working_batch) (\<lambda>outcome0.
      let outcome = mutate_outcome m outcome0
      in value_of (allocate_batch working_batch (out_price outcome) (out_volume outcome)) (\<lambda>allocation0.
      let allocation = mutate_allocation m allocation0
      in value_of (generate_canonical_fills working_batch allocation) (\<lambda>fills0.
      try_then (mutate_fills m fills0) (\<lambda>fills.
      let post_state = mutate_post_state m pre (foldl settle_regardless pre fills);
          (tree, accounting) =
            spoof_leaf m (build_complete_input_accounting working_batch working_preimages allocation);
          header = \<lparr>bh_semantic_version = 1,
                    bh_batch_id = (if mu_type m = ReplayBatchHeader then mu_fake_batch_id m else bat_id working_batch),
                    bh_instrument_id = bat_instrument working_batch, bh_cutoff = 1700000000,
                    bh_order_count = of_nat (length (bat_orders working_batch)),
                    bh_orders_root = merkle_root tree\<rparr>;
          ref_price = (case out_price outcome of Some cp \<Rightarrow> cp | None \<Rightarrow> 100)
      in Inr \<lparr>ax_batch = working_batch,
              ax_result = \<lparr>res_outcome = outcome, res_allocation = allocation, res_fills = fills,
                           res_post_state = post_state\<rparr>,
              ax_tree = tree, ax_accounting = accounting, ax_header = header,
              ax_commitment = compute_batch_commitment header,
              ax_snapshot = Some \<lparr>snap_oracle_id = 1, snap_instrument = bat_instrument working_batch,
                                  snap_price = ref_price, snap_timestamp = snapshot_time m, snap_sequence = 1\<rparr>,
              ax_policy = Some \<lparr>pol_max_staleness = 1000000000, pol_max_deviation = 10\<rparr>\<rparr>)))))"

end
