(* ===== verification/Attack_Matrix.thy ===== *)
theory Attack_Matrix
  imports Adversary
begin

text \<open>
  \<open>adversary/matrix.hpp\<close> and \<open>matrix.cpp\<close>: the honest control and the eleven attacks, the three audits
  each of them goes through, and the report.
\<close>

section \<open>The audits\<close>

text \<open>The reason for which an execution is refused; \<open>None\<close> when it passes all audits.\<close>

definition audit :: "ledger \<Rightarrow> batch \<Rightarrow> merkle_tree \<Rightarrow> adversarial_execution \<Rightarrow> string option" where
  "audit pre b original_tree x =
     (let trans_res = verify_transition pre (ax_batch x) (ax_result x);
          acct_res = verify_complete_input_accounting b original_tree (ax_accounting x) (res_allocation (ax_result x));
          oracle_res = (case (ax_policy x, ax_snapshot x) of
                          (Some policy, Some snapshot) \<Rightarrow>
                            validate_oracle_reference snapshot policy 1700000000000000000
                              (out_price (res_outcome (ax_result x)))
                        | _ \<Rightarrow> Ok ())
      in if \<not> is_ok trans_res then Some (''InvariantViolation: '' @ error_message trans_res)
         else if \<not> is_ok acct_res then Some (''AccountingError: '' @ error_message acct_res)
         else if \<not> is_ok oracle_res then Some (''OracleValidationError: '' @ error_message oracle_res)
         else None)"

section \<open>The matrix\<close>

record attack_case =
  tc_name :: string
  tc_desc :: string
  tc_mutation :: adversarial_mutation
  tc_expect_pass :: bool

record attack_evaluation =
  ev_name :: string
  ev_description :: string
  ev_is_control :: bool
  ev_passed :: bool
  ev_reason :: "string option"
  ev_expected_met :: bool

record attack_report =
  rp_batch_id :: u64
  rp_instrument_id :: u64
  rp_total_evaluated :: nat
  rp_total_rejected :: nat
  rp_all_held :: bool
  rp_results :: "attack_evaluation list"

definition make_mut :: "mutation_type \<Rightarrow> adversarial_mutation" where
  "make_mut t =
     \<lparr>mu_type = t, mu_offset_ticks = 0, mu_leaf_index = 0,
      mu_injected_order = \<lparr>ord_id = 0, ord_account = 0, ord_instrument = 0, ord_side = 0, ord_price = 1,
                           ord_qty = 0, ord_seq = 0\<rparr>,
      mu_injected_salt = replicate 32 0, mu_target_order_id = 0, mu_forged_qty = 0, mu_bogus_price = 1,
      mu_beneficiary = 0, mu_extra_cash = 0, mu_extra_instrument = 0, mu_extra_qty = 0,
      mu_fake_commitment = replicate 32 0, mu_fake_batch_id = 0, mu_staleness = 0\<rparr>"

definition attack :: "string \<Rightarrow> string \<Rightarrow> adversarial_mutation \<Rightarrow> attack_case" where
  "attack name desc m = \<lparr>tc_name = name, tc_desc = desc, tc_mutation = m, tc_expect_pass = False\<rparr>"

definition attack_cases :: "batch \<Rightarrow> attack_case list" where
  "attack_cases b =
     (let target_order = (if bat_orders b = [] then 1 else ord_id (bat_orders b ! 0));
          target_account = (if bat_orders b = [] then 1 else ord_account (bat_orders b ! 0))
      in [\<lparr>tc_name = ''honest_baseline'',
           tc_desc = ''Honest operator execution following published deterministic rules'',
           tc_mutation = make_mut NoMutation, tc_expect_pass = True\<rparr>,
          attack ''omitted_order_censorship''
            ''Operator silently drops eligible Order 0 from batch clearing''
            ((make_mut CensorOrder)\<lparr>mu_leaf_index := 0\<rparr>),
          attack ''clearing_price_inflation''
            ''Operator artificially shifts clearing price by +5 ticks''
            ((make_mut ManipulateClearingPrice)\<lparr>mu_offset_ticks := 5\<rparr>),
          attack ''clearing_price_deflation''
            ''Operator artificially shifts clearing price by -5 ticks''
            ((make_mut ManipulateClearingPrice)\<lparr>mu_offset_ticks := - 5\<rparr>),
          attack ''overfill_attack''
            ''Operator allocates 99,999 lots to target order''
            ((make_mut ManipulateAllocation)\<lparr>mu_target_order_id := target_order, mu_forged_qty := 99999\<rparr>),
          attack ''preferential_allocation''
            ''Operator manipulates allocation distribution to favor cartel member''
            ((make_mut ManipulateAllocation)\<lparr>mu_target_order_id := target_order, mu_forged_qty := 1\<rparr>),
          attack ''limit_price_violation''
            ''Operator executes order at non-compliant price''
            ((make_mut ViolateLimitPrice)\<lparr>mu_target_order_id := target_order, mu_bogus_price := 99999\<rparr>),
          attack ''frozen_post_state_attack''
            ''Operator publishes real fills but reports a post-state in which no balance moved''
            (make_mut FreezePostState),
          attack ''cash_creation_attack''
            ''Operator mints $10,000 cash out of thin air''
            ((make_mut InflatePostStateCash)\<lparr>mu_beneficiary := target_account, mu_extra_cash := 10000\<rparr>),
          attack ''inventory_creation_attack''
            ''Operator mints 50 asset lots out of thin air''
            ((make_mut InflatePostStateInventory)\<lparr>mu_beneficiary := target_account,
               mu_extra_instrument := bat_instrument b, mu_extra_qty := 50\<rparr>),
          attack ''commitment_leaf_spoofing''
            ''Operator replaces Merkle leaf with spoofed digest''
            ((make_mut SpoofCommitmentLeaf)\<lparr>mu_leaf_index := 0,
               mu_fake_commitment := 0xEE # replicate 31 0\<rparr>),
          attack ''stale_oracle_reference''
            ''Operator clears batch with stale reference snapshot''
            ((make_mut StaleOracleSnapshot)\<lparr>mu_staleness := 1\<rparr>)])"

text \<open>One turn of the loop: the flag, the count and the results so far.\<close>

definition evaluate_case ::
  "ledger \<Rightarrow> batch \<Rightarrow> salted_order_preimage list \<Rightarrow> merkle_tree \<Rightarrow> bool \<times> nat \<times> attack_evaluation list \<Rightarrow>
     attack_case \<Rightarrow> (bool \<times> nat \<times> attack_evaluation list) throws" where
  "evaluate_case pre b preimages original_tree = (\<lambda>(all_held, total_rejected, results) tc.
     try_then (adversarial_execute (tc_mutation tc) pre b preimages) (\<lambda>x.
     let reason = audit pre b original_tree x;
         passed = (reason = None);
         expected_met = (passed = tc_expect_pass tc)
     in Inr ((if expected_met then all_held else False),
             (if passed then total_rejected else total_rejected + 1),
             results @ [\<lparr>ev_name = tc_name tc, ev_description = tc_desc tc, ev_is_control = tc_expect_pass tc,
                         ev_passed = passed, ev_reason = reason, ev_expected_met = expected_met\<rparr>])))"

definition run_attack_matrix ::
  "ledger \<Rightarrow> batch \<Rightarrow> salted_order_preimage list \<Rightarrow> attack_report throws" where
  "run_attack_matrix pre b preimages =
     (let original_tree = new_merkle_tree (map commit_order preimages)
      in try_then (loop_throws (evaluate_case pre b preimages original_tree) (True, 0, []) (attack_cases b))
           (\<lambda>(all_held, total_rejected, results).
         Inr \<lparr>rp_batch_id = bat_id b, rp_instrument_id = bat_instrument b, rp_total_evaluated = length results,
              rp_total_rejected = total_rejected, rp_all_held = all_held, rp_results = results\<rparr>))"

end
