(* ===== verification/Attack_Audit.thy ===== *)
theory Attack_Audit
  imports Attack_Matrix
begin

text \<open>
  Which mutations the audits of the attack matrix let pass.
\<close>

section \<open>The audits on an honest execution\<close>

lemma audit_None_iff:
  "audit pre b tree x = None \<longleftrightarrow>
     verify_transition pre (ax_batch x) (ax_result x) = Ok ()
     \<and> verify_complete_input_accounting b tree (ax_accounting x) (res_allocation (ax_result x)) = Ok ()
     \<and> (case (ax_policy x, ax_snapshot x) of
          (Some policy, Some snapshot) \<Rightarrow>
            validate_oracle_reference snapshot policy 1700000000000000000 (out_price (res_outcome (ax_result x))) = Ok ()
        | _ \<Rightarrow> True)"
  by (auto simp: audit_def Let_def is_ok_iff split: option.splits)

lemma settle_regardless_Ok: "apply_fill l f = Ok l' \<Longrightarrow> settle_regardless l f = l'"
  by (auto simp: apply_fill_def settle_regardless_def regardless_def result_simps Let_def split: prod.splits if_splits)

lemma settle_regardless_fills: "loop_result apply_fill l fs = Ok l' \<Longrightarrow> foldl settle_regardless l fs = l'"
  by (induction fs arbitrary: l) (auto simp: result_simps settle_regardless_Ok)

lemma honest_stages:
  assumes "execute_batch pre b = Ok e"
  shows "determine_clearing_outcome b = Ok (res_outcome e)"
    and "allocate_batch b (out_price (res_outcome e)) (out_volume (res_outcome e)) = Ok (res_allocation e)"
    and "generate_canonical_fills b (res_allocation e) = Ok (res_fills e)"
    and "foldl settle_regardless pre (res_fills e) = res_post_state e"
  using assms by (auto simp: execute_batch_Ok_iff batch_stages_def apply_batch_transition_Ok_iff settle_regardless_fills)

lemma transition_audit:
  assumes "wf_batch b" "execute_batch pre b = Ok e" "is_ok (total_inventory_of pre (bat_instrument b))"
  shows "verify_transition pre b r = Ok () \<longleftrightarrow>
    res_outcome r = res_outcome e \<and> res_allocation r = res_allocation e \<and> res_fills r = res_fills e
    \<and> same_settlement (bat_instrument b) (res_post_state e) (res_post_state r)"
  using assms by (auto simp: verify_transition_engine)

lemma oracle_audit:
  "validate_oracle_reference \<lparr>snap_oracle_id = 1, snap_instrument = inst, snap_price = (case cp of Some p \<Rightarrow> p | None \<Rightarrow> 100),
      snap_timestamp = snapshot_time m, snap_sequence = 1\<rparr>
     \<lparr>pol_max_staleness = 1000000000, pol_max_deviation = 10\<rparr> 1700000000000000000 cp = Ok ()
   \<longleftrightarrow> mu_type m \<noteq> StaleOracleSnapshot \<or> 1000000000 + mu_staleness m \<le> 1000000000"
proof (cases "mu_type m = StaleOracleSnapshot")
  case True
  define k :: u64 where "k = 1700000000000000000 - 1000000000"
  have k: "unat k = 1699999999000000000" by (simp add: k_def)
  have ts: "snapshot_time m = k - mu_staleness m" using True by (simp add: snapshot_time_def k_def)
  have "unat (mu_staleness m) < 2 ^ 64" using unat_less_pow [of "mu_staleness m"] by simp
  then show ?thesis
    using True by (auto simp: validate_oracle_reference_def validate_reference_price_snapshot_def result_simps
      validate_freshness_Ok validate_collar_Ok ts unat_sub_if' unat_plus_if' word_le_nat_alt k split: option.split)
next
  case False
  then show ?thesis
    by (auto simp: validate_oracle_reference_def validate_reference_price_snapshot_def result_simps
      validate_freshness_Ok validate_collar_Ok snapshot_time_def split: option.split)
qed

section \<open>Executions that keep the batch\<close>

lemma execute_same_batch:
  assumes "wf_batch b" "execute_batch pre b = Ok e" "map pre_order ps = bat_orders b" "mutate_preimages m ps = ps"
    and "adversarial_execute m pre b ps = Inr x"
  obtains alloc0 fills0 fills where
    "allocate_batch b (out_price (mutate_outcome m (res_outcome e))) (out_volume (mutate_outcome m (res_outcome e))) = Ok alloc0"
    "generate_canonical_fills b (mutate_allocation m alloc0) = Ok fills0"
    "mutate_fills m fills0 = Inr fills" "ax_batch x = b"
    "ax_result x = \<lparr>res_outcome = mutate_outcome m (res_outcome e), res_allocation = mutate_allocation m alloc0,
       res_fills = fills, res_post_state = mutate_post_state m pre (foldl settle_regardless pre fills)\<rparr>"
    "ax_accounting x = snd (spoof_leaf m (build_complete_input_accounting b ps (mutate_allocation m alloc0)))"
    "ax_policy x = Some \<lparr>pol_max_staleness = 1000000000, pol_max_deviation = 10\<rparr>"
    "ax_snapshot x = Some \<lparr>snap_oracle_id = 1, snap_instrument = bat_instrument b,
       snap_price = (case out_price (mutate_outcome m (res_outcome e)) of Some p \<Rightarrow> p | None \<Rightarrow> 100),
       snap_timestamp = snapshot_time m, snap_sequence = 1\<rparr>"
proof -
  have nb: "new_batch (bat_id b) (bat_instrument b) (bat_orders b) = b" by (rule wf_batch_new [OF assms(1)])
  from assms(5) show thesis
    unfolding adversarial_execute_def assms(3,4) nb Let_def throws_simps honest_stages(1) [OF assms(2)]
    by (elim exE conjE) (rule that, (force simp: nb split: prod.splits)+)
qed

text \<open>An execution that keeps the batch passes the first audit exactly when every stage is unchanged, and
  the second when the leaves are the committed ones.\<close>

lemma accounting_audit:
  assumes "wf_batch b" "map pre_order ps = bat_orders b"
  shows "verify_complete_input_accounting b (new_merkle_tree (map commit_order ps))
      (snd (build_complete_input_accounting b ps alloc)) alloc = Ok ()"
proof -
  have "mset (map pre_order ps) = mset (bat_orders b)" using assms(2) by simp
  from build_then_verify [OF assms(1) this, of alloc] show ?thesis
    by (simp add: build_complete_input_accounting_def Let_def split: prod.splits)
qed

lemma audit_same_batch:
  assumes "wf_batch b" "execute_batch pre b = Ok e" "map pre_order ps = bat_orders b" "mutate_preimages m ps = ps"
    and "is_ok (total_inventory_of pre (bat_instrument b))" "adversarial_execute m pre b ps = Inr x"
    and "mu_type m \<noteq> SpoofCommitmentLeaf"
  shows "audit pre b (new_merkle_tree (map commit_order ps)) x = None \<longleftrightarrow>
    mutate_outcome m (res_outcome e) = res_outcome e
    \<and> mutate_allocation m (res_allocation e) = res_allocation e
    \<and> mutate_fills m (res_fills e) = Inr (res_fills e)
    \<and> same_settlement (bat_instrument b) (res_post_state e) (mutate_post_state m pre (res_post_state e))
    \<and> (mu_type m \<noteq> StaleOracleSnapshot \<or> 1000000000 + mu_staleness m \<le> 1000000000)"
proof (rule execute_same_batch [OF assms(1-4,6)])
  fix alloc0 fills0 fills
  note h = honest_stages [OF assms(2)]
  assume x: "allocate_batch b (out_price (mutate_outcome m (res_outcome e))) (out_volume (mutate_outcome m (res_outcome e))) = Ok alloc0"
    "generate_canonical_fills b (mutate_allocation m alloc0) = Ok fills0"
    "mutate_fills m fills0 = Inr fills" "ax_batch x = b"
    "ax_result x = \<lparr>res_outcome = mutate_outcome m (res_outcome e), res_allocation = mutate_allocation m alloc0,
       res_fills = fills, res_post_state = mutate_post_state m pre (foldl settle_regardless pre fills)\<rparr>"
    "ax_accounting x = snd (spoof_leaf m (build_complete_input_accounting b ps (mutate_allocation m alloc0)))"
    "ax_policy x = Some \<lparr>pol_max_staleness = 1000000000, pol_max_deviation = 10\<rparr>"
    "ax_snapshot x = Some \<lparr>snap_oracle_id = 1, snap_instrument = bat_instrument b,
       snap_price = (case out_price (mutate_outcome m (res_outcome e)) of Some p \<Rightarrow> p | None \<Rightarrow> 100),
       snap_timestamp = snapshot_time m, snap_sequence = 1\<rparr>"
  have "spoof_leaf m (build_complete_input_accounting b ps alloc) = build_complete_input_accounting b ps alloc" for alloc
    using assms(7) by (simp add: spoof_leaf_def split: prod.splits)
  then have acct: "verify_complete_input_accounting b (new_merkle_tree (map commit_order ps)) (ax_accounting x)
      (res_allocation (ax_result x)) = Ok ()"
    using accounting_audit [OF assms(1,3)] by (simp add: x)
  have oracle1: "(case (ax_policy x, ax_snapshot x) of
          (Some policy, Some snapshot) \<Rightarrow>
            validate_oracle_reference snapshot policy 1700000000000000000 (out_price (res_outcome (ax_result x))) = Ok ()
        | _ \<Rightarrow> True) \<longleftrightarrow> mu_type m \<noteq> StaleOracleSnapshot \<or> 1000000000 + mu_staleness m \<le> 1000000000"
    by (simp add: x oracle_audit)
  show ?thesis
  proof (cases "mutate_outcome m (res_outcome e) = res_outcome e")
    case True
    then have a: "alloc0 = res_allocation e" using x(1) h(2) by simp
    show ?thesis
      unfolding audit_None_iff acct oracle1 x(4) transition_audit [OF assms(1,2,5)]
      using x(2,3) h(3,4) by (auto simp: x(5) True a)
  next
    case False
    then show ?thesis
      unfolding audit_None_iff x(4) transition_audit [OF assms(1,2,5)] by (simp add: x(5))
  qed
qed

section \<open>What each mutation changes\<close>

lemma mutate_allocation_id:
  "mutate_allocation m alloc = alloc \<longleftrightarrow>
     mu_type m \<noteq> ManipulateAllocation
     \<or> list_all (\<lambda>a. al_order_id a \<noteq> mu_target_order_id m \<or> al_allocated_qty a = mu_forged_qty m) (ba_allocations alloc)"
proof -
  have "a\<lparr>al_allocated_qty := q\<rparr> = a \<longleftrightarrow> al_allocated_qty a = q" for a :: order_allocation and q
    by (cases a) auto
  moreover have "map f xs = xs \<longleftrightarrow> list_all (\<lambda>x. f x = x) xs" for f :: "order_allocation \<Rightarrow> order_allocation" and xs
    by (induction xs) auto
  moreover have "alloc\<lparr>ba_allocations := as\<rparr> = alloc \<longleftrightarrow> as = ba_allocations alloc" for as
    by (cases alloc) auto
  ultimately show ?thesis by (auto simp: mutate_allocation_def list_all_iff)
qed

lemma mutate_fills_id:
  assumes "list_all (\<lambda>f. fill_consideration f = ucast (fill_execution_price f) * ucast (fill_qty f)) fills"
  shows "mutate_fills m fills = Inr fills \<longleftrightarrow>
    mu_type m \<noteq> ViolateLimitPrice
    \<or> list_all (\<lambda>f. fill_order_id f \<noteq> mu_target_order_id m \<or> fill_execution_price f = mu_bogus_price m) fills"
proof -
  let ?g = "\<lambda>f. if fill_order_id f = mu_target_order_id m
    then f\<lparr>fill_execution_price := mu_bogus_price m, fill_consideration := ucast (mu_bogus_price m) * ucast (fill_qty f)\<rparr> else f"
  have "loop_throws (violate_limit m) acc fs = Inr (acc @ map ?g fs)" for acc fs
    by (induction fs arbitrary: acc) (simp_all add: violate_limit_def money_from_price_qty_Ok)
  moreover have "map ?g fs = fs \<longleftrightarrow> list_all (\<lambda>f. fill_order_id f \<noteq> mu_target_order_id m
      \<or> fill_execution_price f = mu_bogus_price m) fs"
    if "list_all (\<lambda>f. fill_consideration f = ucast (fill_execution_price f) * ucast (fill_qty f)) fs" for fs
    using that
  proof (induction fs)
    case (Cons f fs)
    then show ?case by (cases f) auto
  qed simp
  ultimately show ?thesis using assms by (auto simp: mutate_fills_def)
qed

lemma executed_considerations:
  assumes "wf_batch b" "execute_batch pre b = Ok e"
  shows "list_all (\<lambda>f. fill_consideration f = ucast (fill_execution_price f) * ucast (fill_qty f)) (res_fills e)"
proof -
  have "batch_stages b (res_outcome e) (res_allocation e) (res_fills e)" using assms(2) by (simp add: execute_batch_Ok_iff)
  from assms(1) this show ?thesis
  proof (cases rule: batch_stages_cases)
    case (2 cp)
    have "fill_consideration f = ucast (fill_execution_price f) * ucast (fill_qty f)" if "f \<in> set (res_fills e)" for f
      using canonical_fills_members [OF that [unfolded 2(4)]] by auto
    then show ?thesis by (simp add: list_all_iff)
  qed simp
qed

lemma settlement_assign:
  assumes "om_find post k = Some acc"
  shows "same_settlement inst post (om_assign k acc' post) \<longleftrightarrow>
    acc_cash acc' = acc_cash acc \<and> inventory_of acc' inst = inventory_of acc inst"
  using assms by (auto simp: same_settlement_def cash_of_def stock_of_def dom_def simp flip: word_unat_eq_iff)

lemma settlement_new_account:
  "om_find post k = None \<Longrightarrow> \<not> same_settlement inst post (om_assign k acc' post')"
  by (auto simp: same_settlement_def dom_def fun_eq_iff set_eq_iff)

lemma inflated_cash:
  "same_settlement inst post (let (acc, l) = get_or_create_account k post
      in om_assign k (regardless (credit_cash extra acc) acc) l) \<longleftrightarrow>
     (case om_find post k of None \<Rightarrow> False
      | Some acc \<Rightarrow> extra = 0 \<or> 2 ^ 128 \<le> unat (acc_cash acc) + unat extra)"
proof (cases "om_find post k")
  case None
  then show ?thesis by (simp add: get_or_create_account_def settlement_new_account)
next
  case (Some acc)
  show ?thesis
  proof (cases "credit_cash extra acc")
    case (Ok acc')
    then obtain c where c: "acc' = acc\<lparr>acc_cash := c\<rparr>" "unat c = unat (acc_cash acc) + unat extra"
      by (auto simp: credit_cash_Ok_iff)
    moreover have "unat c < 2 ^ 128" using unat_less_pow [of c] by simp
    moreover have "c = acc_cash acc \<longleftrightarrow> extra = 0" using c(2) by (simp add: word_unat_eq_iff)
    ultimately show ?thesis
      by (simp add: get_or_create_account_def Some Ok regardless_def settlement_assign)
  next
    case (Err e)
    then have "2 ^ 128 \<le> unat (acc_cash acc) + unat extra"
      using money_arith.add_fits [of "acc_cash acc" extra] by (auto simp: credit_cash_def not_less [symmetric])
    then show ?thesis by (simp add: get_or_create_account_def Some Err regardless_def settlement_assign)
  qed
qed

lemma inflated_inventory:
  "same_settlement inst post (let (acc, l) = get_or_create_account k post
      in om_assign k (regardless (credit_inventory i extra acc) acc) l) \<longleftrightarrow>
     (case om_find post k of None \<Rightarrow> False
      | Some acc \<Rightarrow> i \<noteq> inst \<or> extra = 0 \<or> 2 ^ 64 \<le> unat (inventory_of acc i) + unat extra)"
proof (cases "om_find post k")
  case None
  then show ?thesis by (simp add: get_or_create_account_def settlement_new_account)
next
  case (Some acc)
  show ?thesis
  proof (cases "credit_inventory i extra acc")
    case (Ok acc')
    then obtain q where q: "acc' = acc\<lparr>acc_inventory := om_assign i q (acc_inventory acc)\<rparr>"
      "unat q = unat (inventory_of acc i) + unat extra"
      by (auto simp: credit_inventory_Ok_iff)
    moreover have "unat q < 2 ^ 64" using unat_less_pow [of q] by simp
    moreover have "q = inventory_of acc i \<longleftrightarrow> extra = 0" using q(2) by (simp add: word_unat_eq_iff)
    ultimately show ?thesis
      by (auto simp: get_or_create_account_def Some Ok regardless_def settlement_assign inventory_of_assign)
  next
    case (Err e)
    then have "2 ^ 64 \<le> unat (inventory_of acc i) + unat extra"
      using qty_arith.add_fits [of "inventory_of acc i" extra] by (auto simp: credit_inventory_def not_less [symmetric])
    then show ?thesis by (simp add: get_or_create_account_def Some Err regardless_def settlement_assign)
  qed
qed

section \<open>Harmless mutations\<close>

text \<open>A mutation that changes nothing the audits look at, for an honest execution \<open>e\<close>.\<close>

definition harmless ::
  "ledger \<Rightarrow> batch \<Rightarrow> salted_order_preimage list \<Rightarrow> batch_execution_result \<Rightarrow> adversarial_mutation \<Rightarrow> bool" where
  "harmless pre b ps e m =
     (case mu_type m of
        NoMutation \<Rightarrow> True
      | ReplayBatchHeader \<Rightarrow> True
      | InjectUnauthorizedOrder \<Rightarrow> False
      | CensorOrder \<Rightarrow> length ps \<le> mu_leaf_index m
      | ManipulateClearingPrice \<Rightarrow>
          (case out_price (res_outcome e) of None \<Rightarrow> True | Some cp \<Rightarrow> shifted_price (mu_offset_ticks m) cp = cp)
      | ManipulateAllocation \<Rightarrow>
          list_all (\<lambda>a. al_order_id a \<noteq> mu_target_order_id m \<or> al_allocated_qty a = mu_forged_qty m)
            (ba_allocations (res_allocation e))
      | ViolateLimitPrice \<Rightarrow>
          list_all (\<lambda>f. fill_order_id f \<noteq> mu_target_order_id m \<or> fill_execution_price f = mu_bogus_price m) (res_fills e)
      | FreezePostState \<Rightarrow> same_settlement (bat_instrument b) (res_post_state e) pre
      | InflatePostStateCash \<Rightarrow>
          (case om_find (res_post_state e) (mu_beneficiary m) of
             None \<Rightarrow> False
           | Some acc \<Rightarrow> mu_extra_cash m = 0 \<or> 2 ^ 128 \<le> unat (acc_cash acc) + unat (mu_extra_cash m))
      | InflatePostStateInventory \<Rightarrow>
          (case om_find (res_post_state e) (mu_beneficiary m) of
             None \<Rightarrow> False
           | Some acc \<Rightarrow> mu_extra_instrument m \<noteq> bat_instrument b \<or> mu_extra_qty m = 0
               \<or> 2 ^ 64 \<le> unat (inventory_of acc (mu_extra_instrument m)) + unat (mu_extra_qty m))
      | SpoofCommitmentLeaf \<Rightarrow>
          length ps \<le> mu_leaf_index m
          \<or> (\<exists>p. generate_proof (new_merkle_tree (map commit_order ps)) (mu_leaf_index m) = Some p
               \<and> merkle_verify p (merkle_root (new_merkle_tree (map commit_order ps))) (mu_fake_commitment m))
      | StaleOracleSnapshot \<Rightarrow> 1000000000 + mu_staleness m \<le> 1000000000)"

lemma mutate_outcome_id:
  "mutate_outcome m out = out \<longleftrightarrow> mu_type m \<noteq> ManipulateClearingPrice
     \<or> (case out_price out of None \<Rightarrow> True | Some cp \<Rightarrow> shifted_price (mu_offset_ticks m) cp = cp)"
  by (cases out) (auto simp: mutate_outcome_def split: mutation_type.splits option.splits)

lemma spoofed_accounting:
  assumes "wf_batch b" "map pre_order ps = bat_orders b" "mu_type m = SpoofCommitmentLeaf" "mu_leaf_index m < length ps"
  shows "verify_complete_input_accounting b (new_merkle_tree (map commit_order ps))
      (snd (spoof_leaf m (build_complete_input_accounting b ps alloc))) alloc = Ok () \<longleftrightarrow>
    (\<exists>p. generate_proof (new_merkle_tree (map commit_order ps)) (mu_leaf_index m) = Some p
       \<and> merkle_verify p (merkle_root (new_merkle_tree (map commit_order ps))) (mu_fake_commitment m))"
proof -
  let ?i = "mu_leaf_index m" and ?tree = "new_merkle_tree (map commit_order ps)"
  let ?fake = "mu_fake_commitment m" and ?om = "order_index (bat_orders b)" and ?am = "allocation_quantities alloc"
  define acc where "acc = snd (build_complete_input_accounting b ps alloc)"
  define rs where "rs = cia_records acc"
  have acc: "build_complete_input_accounting b ps alloc = (?tree, acc)"
    by (rule build_eq [of b ps alloc]) (simp add: acc_def)
  have rs: "rs = map (built_record ?am (map commit_order ps)) (enumerate 0 ps)"
    by (rule build_eq [of b ps alloc]) (simp add: rs_def acc_def)
  have i: "?i < length rs" using assms(4) by (simp add: rs)
  define r where "r = (rs ! ?i)\<lparr>rec_commitment := ?fake\<rparr>"
  have r: "rec_leaf_index r = rec_leaf_index (rs ! ?i)" "rec_order_id r = rec_order_id (rs ! ?i)"
    "rec_disposition r = rec_disposition (rs ! ?i)" "rec_commitment r = ?fake"
    by (simp_all add: r_def)
  have ri: "rec_leaf_index (rs ! ?i) = ?i" using i by (simp add: rs built_record_def nth_enumerate_eq)
  from accounting_audit [OF assms(1,2), of alloc]
  have v: "verify_complete_input_accounting b ?tree acc alloc = Ok ()" by (simp add: acc)
  then have ok: "list_all (record_ok ?tree ?om ?am) rs" by (simp add: verify_accounting_Ok rs_def)
  then have "record_ok ?tree ?om ?am (rs ! ?i)" using i by (simp add: list_all_length)
  then have rok: "record_ok ?tree ?om ?am r \<longleftrightarrow>
      (\<exists>p. generate_proof ?tree ?i = Some p \<and> merkle_verify p (merkle_root ?tree) ?fake)"
    by (auto simp: record_ok_def r ri)
  have "list_all (record_ok ?tree ?om ?am) (rs[?i := r]) \<longleftrightarrow> record_ok ?tree ?om ?am r"
    using ok i by (auto simp: list_all_length nth_list_update)
  moreover have "map rec_leaf_index (rs[?i := r]) = map rec_leaf_index rs" "map rec_order_id (rs[?i := r]) = map rec_order_id rs"
    using i by (simp_all add: map_update r flip: nth_map)
  moreover from this(1) have "rec_leaf_index ` set (rs[?i := r]) = rec_leaf_index ` set rs"
    by (simp only: set_map [symmetric])
  moreover have "snd (spoof_leaf m (build_complete_input_accounting b ps alloc)) = acc\<lparr>cia_records := rs[?i := r]\<rparr>"
    using assms(3,4) i by (simp add: acc spoof_leaf_def new_merkle_tree_def r_def rs_def)
  ultimately show ?thesis using v by (simp add: verify_accounting_Ok rok flip: rs_def)
qed

lemma other_batch_rejected:
  assumes "length (mutate_preimages m ps) \<noteq> length (bat_orders b)" "mu_type m \<noteq> SpoofCommitmentLeaf"
    "adversarial_execute m pre b ps = Inr x"
  shows "audit pre b (new_merkle_tree (map commit_order ps)) x \<noteq> None"
proof -
  have spoof: "spoof_leaf m t = t" for t using assms(2) by (simp add: spoof_leaf_def split: prod.splits)
  from assms(3) obtain wb alloc where "ax_accounting x = snd (build_complete_input_accounting wb (mutate_preimages m ps) alloc)"
    unfolding adversarial_execute_def Let_def throws_simps spoof by (auto simp: case_prod_beta)
  then have "length (cia_records (ax_accounting x)) \<noteq> length (bat_orders b)"
    using build_eq [of wb "mutate_preimages m ps" alloc] assms(1) by (metis complete_input_accounting.select_convs(1) length_enumerate length_map snd_conv)
  then show ?thesis by (simp add: audit_None_iff verify_accounting_Ok)
qed

lemma audit_passes_iff:
  assumes "wf_batch b" "execute_batch pre b = Ok e" "map pre_order ps = bat_orders b"
    and "is_ok (total_inventory_of pre (bat_instrument b))" "adversarial_execute m pre b ps = Inr x"
  shows "audit pre b (new_merkle_tree (map commit_order ps)) x = None \<longleftrightarrow> harmless pre b ps e m"
proof -
  have len: "length ps = length (bat_orders b)" using assms(3) by (metis length_map)
  note same = audit_same_batch [OF assms(1,2,3) _ assms(4,5)] mutate_outcome_id mutate_allocation_id
    mutate_fills_id [OF executed_considerations [OF assms(1,2)]]
  show ?thesis
  proof (cases "mu_type m")
    case CensorOrder
    show ?thesis
    proof (cases "mu_leaf_index m < length ps")
      case True
      then have "length (mutate_preimages m ps) \<noteq> length (bat_orders b)"
        using CensorOrder len by (simp add: mutate_preimages_def)
      with other_batch_rejected [OF this _ assms(5)] CensorOrder True show ?thesis by (simp add: harmless_def)
    next
      case False
      then have "mutate_preimages m ps = ps" by (simp add: mutate_preimages_def CensorOrder)
      with False show ?thesis by (simp add: same CensorOrder harmless_def mutate_post_state_def)
    qed
  next
    case InjectUnauthorizedOrder
    then have "length (mutate_preimages m ps) \<noteq> length (bat_orders b)"
      using len by (simp add: mutate_preimages_def)
    with other_batch_rejected [OF this _ assms(5)] InjectUnauthorizedOrder show ?thesis by (simp add: harmless_def)
  next
    case SpoofCommitmentLeaf
    then have keep: "mutate_preimages m ps = ps" by (simp add: mutate_preimages_def)
    show ?thesis
    proof (rule execute_same_batch [OF assms(1,2,3) keep assms(5)])
      fix alloc0 fills0 fills
      have m: "mutate_outcome m out = out" "mutate_allocation m alloc = alloc" "mutate_fills m fs = Inr fs"
        "mutate_post_state m pre post = post" for out alloc fs post
        using SpoofCommitmentLeaf by (simp_all add: mutate_outcome_def mutate_allocation_def mutate_fills_def mutate_post_state_def)
      assume x: "allocate_batch b (out_price (mutate_outcome m (res_outcome e))) (out_volume (mutate_outcome m (res_outcome e))) = Ok alloc0"
        "generate_canonical_fills b (mutate_allocation m alloc0) = Ok fills0"
        "mutate_fills m fills0 = Inr fills" "ax_batch x = b"
        "ax_result x = \<lparr>res_outcome = mutate_outcome m (res_outcome e), res_allocation = mutate_allocation m alloc0,
           res_fills = fills, res_post_state = mutate_post_state m pre (foldl settle_regardless pre fills)\<rparr>"
        "ax_accounting x = snd (spoof_leaf m (build_complete_input_accounting b ps (mutate_allocation m alloc0)))"
        "ax_policy x = Some \<lparr>pol_max_staleness = 1000000000, pol_max_deviation = 10\<rparr>"
        "ax_snapshot x = Some \<lparr>snap_oracle_id = 1, snap_instrument = bat_instrument b,
           snap_price = (case out_price (mutate_outcome m (res_outcome e)) of Some p \<Rightarrow> p | None \<Rightarrow> 100),
           snap_timestamp = snapshot_time m, snap_sequence = 1\<rparr>"
      note x = x [unfolded m]
      note h = honest_stages [OF assms(2)]
      have a: "alloc0 = res_allocation e" "fills = res_fills e" using x(1-3) h by simp_all
      have tr: "verify_transition pre (ax_batch x) (ax_result x) = Ok ()"
        unfolding x(4) transition_audit [OF assms(1,2,4)] by (simp add: x(5) a h)
      have oracle1: "validate_oracle_reference (the (ax_snapshot x)) (the (ax_policy x)) 1700000000000000000
          (out_price (res_outcome (ax_result x))) = Ok ()"
        using SpoofCommitmentLeaf by (simp add: x oracle_audit)
      have "audit pre b (new_merkle_tree (map commit_order ps)) x = None \<longleftrightarrow>
          verify_complete_input_accounting b (new_merkle_tree (map commit_order ps)) (ax_accounting x) alloc0 = Ok ()"
        using tr oracle1 by (simp add: audit_None_iff x)
      also have "\<dots> \<longleftrightarrow> harmless pre b ps e m"
      proof (cases "mu_leaf_index m < length ps")
        case True
        then show ?thesis
          using spoofed_accounting [OF assms(1,3) SpoofCommitmentLeaf True] by (simp add: x harmless_def SpoofCommitmentLeaf)
      next
        case False
        then have "spoof_leaf m (build_complete_input_accounting b ps alloc0) = build_complete_input_accounting b ps alloc0"
          by (rule_tac build_eq [of b ps alloc0]) (simp add: spoof_leaf_def new_merkle_tree_def)
        with False show ?thesis
          using accounting_audit [OF assms(1,3), of alloc0] by (simp add: x harmless_def SpoofCommitmentLeaf)
      qed
      finally show ?thesis .
    qed
  qed (simp_all add: same harmless_def mutate_preimages_def mutate_post_state_def inflated_cash [unfolded Let_def]
      inflated_inventory [unfolded Let_def])
qed

section \<open>The operator always finishes\<close>

lemma allocate_side_total:
  assumes "total_side ts orders < 2 ^ 64"
  shows "is_ok (allocate_side orders cp target ts)"
proof -
  have fits: "\<exists>q :: u64. unat q = volume (of_moneyness mo cp ts orders)" for mo
    using volume_moneyness_le [of mo cp ts orders] assms
    by (intro exI [of _ "of_nat (volume (of_moneyness mo cp ts orders))"])
      (simp add: unsigned_of_nat take_bit_nat_eq_self)
  obtain qi qa :: u64 where "unat qi = volume (of_moneyness InTheMoney cp ts orders)"
    "unat qa = volume (of_moneyness AtTheMoney cp ts orders)" using fits by metis
  then have "loop_result (partition_step cp ts) ([], [], [], 0, 0) orders =
      Ok (of_moneyness InTheMoney cp ts orders, of_moneyness AtTheMoney cp ts orders,
          of_moneyness OutOfTheMoney cp ts orders, qi, qa)"
    by (simp add: partition_loop)
  then show ?thesis by (simp add: allocate_side_def split: prod.split)
qed

lemma allocate_batch_total:
  assumes "totals_fit (bat_orders b)"
  shows "\<exists>alloc. allocate_batch b cp target = Ok alloc"
proof -
  have "is_ok (allocate_side (bat_orders b) p target Buy)" "is_ok (allocate_side (bat_orders b) p target Sell)" for p
    using assms by (simp_all add: totals_fit_def allocate_side_total)
  then show ?thesis by (auto simp: allocate_batch_def is_ok_iff split: option.split) (metis and_then_conv_simps(1))
qed

lemma generate_fills_total: "\<exists>fills. generate_canonical_fills b alloc = Ok fills"
  using fill_loop [of _ "bat_instrument b" 0 "[]" "ba_allocations alloc"]
  by (auto simp: generate_canonical_fills_def split: option.split)

lemma mutate_fills_total: "\<exists>fills. mutate_fills m fills0 = Inr fills"
proof -
  have "\<exists>fills. loop_throws (violate_limit m) acc fs = Inr fills" for acc fs
    by (induction fs arbitrary: acc) (simp_all add: violate_limit_def money_from_price_qty_Ok)
  then show ?thesis by (simp add: mutate_fills_def)
qed

lemma determine_total:
  "sides_valid (bat_orders b) \<Longrightarrow> totals_fit (bat_orders b) \<Longrightarrow> \<exists>out. determine_clearing_outcome b = Ok out"
  using compute_is_ok [of "bat_orders b"] by (auto simp: determine_clearing_outcome_def is_ok_iff)

lemma determine_fits:
  "wf_batch b \<Longrightarrow> determine_clearing_outcome b = Ok out \<Longrightarrow> totals_fit (bat_orders b)"
  using compute_Ok_eq [OF wf_batch_sides_valid] by (auto simp: determine_clearing_outcome_def result_simps)

lemma total_side_mset: "mset xs = mset ys \<Longrightarrow> total_side s xs = total_side s ys"
proof -
  assume "mset xs = mset ys"
  then have "sum_mset (image_mset f (mset xs)) = sum_mset (image_mset f (mset ys))" for f :: "order \<Rightarrow> nat"
    by (simp only:)
  then show ?thesis unfolding total_side_def mset_map [symmetric] sum_mset_sum_list by blast
qed

lemma total_side_drop: "total_side s (take i xs @ drop (i + 1) xs) \<le> total_side s xs"
proof (cases "i < length xs")
  case True
  then have d: "drop i xs = xs ! i # drop (i + 1) xs" by (simp add: Cons_nth_drop_Suc)
  have "total_side s xs = total_side s (take i xs @ drop i xs)" by simp
  then show ?thesis unfolding d by (simp add: total_side_def)
qed (simp add: total_side_def)

lemma executes:
  assumes "wf_batch b" "execute_batch pre b = Ok e" "map pre_order ps = bat_orders b" "mu_type m \<noteq> InjectUnauthorizedOrder"
  shows "\<exists>x. adversarial_execute m pre b ps = Inr x"
proof -
  define os where "os = map pre_order (mutate_preimages m ps)"
  define wb where "wb = new_batch (bat_id b) (bat_instrument b) os"
  have os: "os = bat_orders b \<or> os = take (mu_leaf_index m) (bat_orders b) @ drop (mu_leaf_index m + 1) (bat_orders b)"
    using assms(4) by (auto simp: os_def mutate_preimages_def take_map drop_map simp flip: assms(3))
  have ms: "mset (bat_orders wb) = mset os" by (simp add: wb_def new_batch_def)
  have "set (bat_orders wb) \<subseteq> set (bat_orders b)"
    using os mset_eq_setD [OF ms] by (auto dest: in_set_takeD in_set_dropD)
  then have valid: "sides_valid (bat_orders wb)"
    using wf_batch_sides_valid [OF assms(1)] by (auto simp: sides_valid_def list_all_iff)
  have "total_side s (bat_orders wb) \<le> total_side s (bat_orders b)" for s
    using os total_side_drop [of s "mu_leaf_index m" "bat_orders b"] by (auto simp: total_side_mset [OF ms])
  then have fit: "totals_fit (bat_orders wb)"
    using determine_fits [OF assms(1) honest_stages(1) [OF assms(2)]] by (fastforce simp: totals_fit_def intro: le_less_trans)
  obtain out where "determine_clearing_outcome wb = Ok out" using determine_total [OF valid fit] by blast
  moreover obtain alloc where "allocate_batch wb (out_price (mutate_outcome m out)) (out_volume (mutate_outcome m out)) = Ok alloc"
    using allocate_batch_total [OF fit] by blast
  moreover obtain fills0 where "generate_canonical_fills wb (mutate_allocation m alloc) = Ok fills0"
    using generate_fills_total by blast
  moreover obtain fills where "mutate_fills m fills0 = Inr fills" using mutate_fills_total by blast
  ultimately show ?thesis
    unfolding adversarial_execute_def Let_def os_def [symmetric] wb_def [symmetric] by (simp add: case_prod_beta)
qed

section \<open>The report\<close>

lemma evaluate_cases:
  assumes "wf_batch b" "execute_batch pre b = Ok e" "map pre_order ps = bat_orders b"
    and "is_ok (total_inventory_of pre (bat_instrument b))"
    and "list_all (\<lambda>tc. mu_type (tc_mutation tc) \<noteq> InjectUnauthorizedOrder) cases"
  shows "\<exists>rs. loop_throws (evaluate_case pre b ps (new_merkle_tree (map commit_order ps))) (held, n, rs0) cases =
       Inr (held \<and> list_all (\<lambda>tc. harmless pre b ps e (tc_mutation tc) = tc_expect_pass tc) cases,
            n + length (filter (\<lambda>tc. \<not> harmless pre b ps e (tc_mutation tc)) cases), rs0 @ rs)
     \<and> map ev_name rs = map tc_name cases \<and> map ev_is_control rs = map tc_expect_pass cases
     \<and> map ev_passed rs = map (\<lambda>tc. harmless pre b ps e (tc_mutation tc)) cases
     \<and> list_all (\<lambda>r. (ev_reason r = None) = ev_passed r) rs"
  using assms(5)
proof (induction cases arbitrary: held n rs0)
  case (Cons tc cases)
  let ?h = "harmless pre b ps e (tc_mutation tc)" and ?tree = "new_merkle_tree (map commit_order ps)"
  from Cons.prems obtain x where x: "adversarial_execute (tc_mutation tc) pre b ps = Inr x"
    using executes [OF assms(1-3)] by auto
  let ?r = "\<lparr>ev_name = tc_name tc, ev_description = tc_desc tc, ev_is_control = tc_expect_pass tc,
     ev_passed = ?h, ev_reason = audit pre b ?tree x, ev_expected_met = (?h = tc_expect_pass tc)\<rparr>"
  have p: "audit pre b ?tree x = None \<longleftrightarrow> ?h" by (rule audit_passes_iff [OF assms(1-4) x])
  have "evaluate_case pre b ps ?tree (held, n, rs0) tc =
      Inr (held \<and> (?h = tc_expect_pass tc), (if ?h then n else n + 1), rs0 @ [?r])"
    using p by (auto simp: evaluate_case_def x Let_def)
  moreover from Cons obtain rs where
    "loop_throws (evaluate_case pre b ps ?tree) (held \<and> (?h = tc_expect_pass tc), (if ?h then n else n + 1), rs0 @ [?r]) cases =
       Inr ((held \<and> (?h = tc_expect_pass tc)) \<and> list_all (\<lambda>tc. harmless pre b ps e (tc_mutation tc) = tc_expect_pass tc) cases,
            (if ?h then n else n + 1) + length (filter (\<lambda>tc. \<not> harmless pre b ps e (tc_mutation tc)) cases), (rs0 @ [?r]) @ rs)
     \<and> map ev_name rs = map tc_name cases \<and> map ev_is_control rs = map tc_expect_pass cases
     \<and> map ev_passed rs = map (\<lambda>tc. harmless pre b ps e (tc_mutation tc)) cases
     \<and> list_all (\<lambda>r. (ev_reason r = None) = ev_passed r) rs" by fastforce
  ultimately show ?case using p by (intro exI [of _ "?r # rs"]) (simp add: conj_ac)
qed simp

lemma matrix_report:
  assumes "wf_batch b" "execute_batch pre b = Ok e" "map pre_order ps = bat_orders b"
    and "is_ok (total_inventory_of pre (bat_instrument b))"
  shows "\<exists>rp. run_attack_matrix pre b ps = Inr rp
    \<and> rp_total_evaluated rp = 12
    \<and> map ev_passed (rp_results rp) = map (\<lambda>tc. harmless pre b ps e (tc_mutation tc)) (attack_cases b)
    \<and> rp_total_rejected rp = length (filter (\<lambda>tc. \<not> harmless pre b ps e (tc_mutation tc)) (attack_cases b))
    \<and> rp_all_held rp = list_all (\<lambda>tc. harmless pre b ps e (tc_mutation tc) = tc_expect_pass tc) (attack_cases b)"
proof -
  have "list_all (\<lambda>tc. mu_type (tc_mutation tc) \<noteq> InjectUnauthorizedOrder) (attack_cases b)"
    by (simp add: attack_cases_def attack_def make_mut_def Let_def)
  from evaluate_cases [OF assms this, of True 0 "[]"] obtain rs where
    rs: "loop_throws (evaluate_case pre b ps (new_merkle_tree (map commit_order ps))) (True, 0, []) (attack_cases b) =
       Inr (list_all (\<lambda>tc. harmless pre b ps e (tc_mutation tc) = tc_expect_pass tc) (attack_cases b),
            length (filter (\<lambda>tc. \<not> harmless pre b ps e (tc_mutation tc)) (attack_cases b)), rs)"
    and passed: "map ev_passed rs = map (\<lambda>tc. harmless pre b ps e (tc_mutation tc)) (attack_cases b)" by auto
  have "length rs = 12" using arg_cong [OF passed, of length] by (simp add: attack_cases_def Let_def)
  with passed show ?thesis by (simp add: run_attack_matrix_def rs)
qed

section \<open>Properties\<close>

definition sample_salted :: "order list \<Rightarrow> salted_order_preimage list" where
  "sample_salted = map (\<lambda>o1. \<lparr>pre_order = o1, pre_nonce = replicate 32 1\<rparr>)"

lemma sample_salted_orders: "map pre_order (sample_salted os) = os"
  by (simp add: sample_salted_def comp_def)

text \<open>C27: for every kind of mutation, with any parameters, the audits let the operator's execution pass
  exactly when the mutation changed nothing they look at: the same price, allocation, fills and
  settlement of the instrument, every committed order accounted for under its own leaf, and a fresh
  reference price.  Only an injected order can make the execution itself fail.  The header of the batch
  is not among what is audited, so a replayed header always passes.\<close>

theorem attack_passes_iff_harmless:
  assumes "wf_batch b" and "execute_batch pre b = Ok e" and "map pre_order preimages = bat_orders b"
    and "is_ok (total_inventory_of pre (bat_instrument b))"
  shows "case adversarial_execute m pre b preimages of
      Inl what \<Rightarrow> mu_type m = InjectUnauthorizedOrder
    | Inr x \<Rightarrow> audit pre b (new_merkle_tree (map commit_order preimages)) x = None \<longleftrightarrow> harmless pre b preimages e m"
proof (cases "adversarial_execute m pre b preimages")
  case (Inl what)
  then show ?thesis using executes [OF assms(1-3), of m] by auto
next
  case (Inr x)
  then show ?thesis using audit_passes_iff [OF assms Inr] by simp
qed

lemma sample_conditions:
  "is_ok (total_inventory_of sample_ledger (bat_instrument sample_batch))" "out_price (res_outcome sample_result) = Some 103"
  by code_simp+

theorem attack_passes_iff_harmless_witness:
  "case adversarial_execute ((make_mut ManipulateClearingPrice)\<lparr>mu_offset_ticks := 5\<rparr>) sample_ledger sample_batch
      (sample_salted (bat_orders sample_batch)) of
     Inl what \<Rightarrow> False
   | Inr x \<Rightarrow> audit sample_ledger sample_batch (new_merkle_tree (map commit_order (sample_salted (bat_orders sample_batch)))) x \<noteq> None"
  using attack_passes_iff_harmless [OF sample_wf sample_execution sample_salted_orders sample_conditions(1),
      of "(make_mut ManipulateClearingPrice)\<lparr>mu_offset_ticks := 5\<rparr>"]
  by (simp add: harmless_def make_mut_def sample_conditions(2) shifted_price_def split: sum.splits)

text \<open>The attack matrix on a batch that executes always produces a report on its twelve cases.  A
  case passes exactly when its mutation is harmless for this batch, and the report says that all
  invariants held exactly when the control is the only harmless one.\<close>

theorem attack_matrix_report:
  assumes "wf_batch b" and "execute_batch pre b = Ok e" and "map pre_order preimages = bat_orders b"
    and "is_ok (total_inventory_of pre (bat_instrument b))"
  shows "\<exists>rp. run_attack_matrix pre b preimages = Inr rp
    \<and> rp_total_evaluated rp = 12
    \<and> map ev_passed (rp_results rp) = map (\<lambda>tc. harmless pre b preimages e (tc_mutation tc)) (attack_cases b)
    \<and> rp_total_rejected rp = length (filter (\<lambda>tc. \<not> harmless pre b preimages e (tc_mutation tc)) (attack_cases b))
    \<and> rp_all_held rp = list_all (\<lambda>tc. harmless pre b preimages e (tc_mutation tc) = tc_expect_pass tc) (attack_cases b)"
  by (rule matrix_report [OF assms])

theorem attack_matrix_report_witness:
  "\<exists>rp. run_attack_matrix sample_ledger sample_batch (sample_salted (bat_orders sample_batch)) = Inr rp
    \<and> rp_total_evaluated rp = 12"
  using attack_matrix_report [OF sample_wf sample_execution sample_salted_orders sample_conditions(1)] by blast

text \<open>C28: when the first order of the batch gets no fill (in particular when nothing crosses), the attack
  on its limit price has nothing to change and passes, and the report says that invariants were
  breached, although the execution it audited is the honest one.\<close>

theorem unfilled_target_reported_as_breach:
  assumes "wf_batch b" and "execute_batch pre b = Ok e" and "map pre_order preimages = bat_orders b"
    and "is_ok (total_inventory_of pre (bat_instrument b))"
    and "bat_orders b = o1 # os" and "list_all (\<lambda>f. fill_order_id f \<noteq> ord_id o1) (res_fills e)"
  shows "\<exists>rp. run_attack_matrix pre b preimages = Inr rp \<and> \<not> rp_all_held rp"
proof -
  have "\<not> list_all (\<lambda>tc. harmless pre b preimages e (tc_mutation tc) = tc_expect_pass tc) (attack_cases b)"
    using assms(5,6) by (simp add: attack_cases_def attack_def make_mut_def Let_def harmless_def list_all_iff)
  with matrix_report [OF assms(1-4)] show ?thesis by auto
qed

definition uncrossed_batch :: batch where
  "uncrossed_batch = sample_batch\<lparr>bat_orders := map (\<lambda>o1. if ord_id o1 = 1 then o1\<lparr>ord_price := 100\<rparr> else o1) sample_orders\<rparr>"

theorem unfilled_target_reported_as_breach_witness:
  "\<exists>rp. run_attack_matrix sample_ledger uncrossed_batch (sample_salted (bat_orders uncrossed_batch)) = Inr rp
    \<and> \<not> rp_all_held rp"
proof -
  let ?e = "the_value (execute_batch sample_ledger uncrossed_batch)"
  have "wf_batch uncrossed_batch" "execute_batch sample_ledger uncrossed_batch = Ok ?e"
    "is_ok (total_inventory_of sample_ledger (bat_instrument uncrossed_batch))"
    "list_all (\<lambda>f. fill_order_id f \<noteq> ord_id (hd (bat_orders uncrossed_batch))) (res_fills ?e)"
    by code_simp+
  moreover have "bat_orders uncrossed_batch = hd (bat_orders uncrossed_batch) # tl (bat_orders uncrossed_batch)"
    by (simp add: uncrossed_batch_def sample_orders_def)
  ultimately show ?thesis
    using unfilled_target_reported_as_breach [OF _ _ sample_salted_orders] by blast
qed

end
