(* ===== verification/Rng.thy ===== *)
theory Rng
  imports Prelude
begin

text \<open>
  \<open>simulator/rng.hpp\<close>: the SplitMix64 generator.  A draw returns the value and the new state.  A range
  that spans all of 64 bits has span zero, and the source divides by it; the model leaves the draw
  as it is there, and the lemmas exclude that range.
\<close>

definition next_u64 :: "u64 \<Rightarrow> u64 \<times> u64" where
  "next_u64 state =
     (let state = state + 0x9E3779B97F4A7C15;
          z = state;
          z = (z XOR drop_bit 30 z) * 0xBF58476D1CE4E5B9;
          z = (z XOR drop_bit 27 z) * 0x94D049BB133111EB
      in (z XOR drop_bit 31 z, state))"

definition gen_range_u64 :: "u64 \<Rightarrow> u64 \<Rightarrow> u64 \<Rightarrow> u64 \<times> u64" where
  "gen_range_u64 lo hi state =
     (if hi \<le> lo then (lo, state)
      else let span = hi - lo + 1; (r, state') = next_u64 state in (lo + r mod span, state'))"

definition gen_bool_permille :: "u32 \<Rightarrow> u64 \<Rightarrow> bool \<times> u64" where
  "gen_bool_permille permille state =
     (let (r, state') = next_u64 state in (r mod 1000 < ucast permille, state'))"

lemma gen_range_lower: "lo \<noteq> 0 \<or> hi \<noteq> max_raw \<Longrightarrow> lo \<le> fst (gen_range_u64 lo hi state)"
  and gen_range_upper: "lo \<noteq> 0 \<or> hi \<noteq> max_raw \<Longrightarrow> fst (gen_range_u64 lo hi state) \<le> max lo hi"
proof -
  assume full: "lo \<noteq> 0 \<or> hi \<noteq> max_raw"
  have both: "lo \<le> fst (gen_range_u64 lo hi state) \<and> fst (gen_range_u64 lo hi state) \<le> max lo hi"
  proof (cases "hi \<le> lo")
    case True
    then show ?thesis by (simp add: gen_range_u64_def)
  next
    case False
    define r where "r = fst (next_u64 state)"
    have lt: "unat lo < unat hi" using False by (simp add: word_le_nat_alt)
    have "unat (hi - lo) = unat hi - unat lo" using False by (intro unat_sub) simp
    moreover have "unat hi - unat lo + 1 < 2 ^ 64"
    proof (rule ccontr)
      assume "\<not> ?thesis"
      then have "unat lo = 0" "unat hi = 2 ^ 64 - 1" using unat_less_pow [of hi] by auto
      then have "lo = 0" "hi = max_raw" by (simp_all add: word_unat_eq_iff unat_max_raw)
      with full show False by simp
    qed
    ultimately have span: "unat (hi - lo + 1) = unat hi - unat lo + 1" by (subst unat_add_fits) simp_all
    have "unat (r mod (hi - lo + 1)) \<le> unat hi - unat lo"
      unfolding unat_mod span using mod_less_divisor [of "unat hi - unat lo + 1" "unat r"] by simp
    moreover from this have "unat (lo + r mod (hi - lo + 1)) = unat lo + unat (r mod (hi - lo + 1))"
      using lt unat_less_pow [of hi] by (intro unat_add_fits) simp
    ultimately have "unat lo \<le> unat (lo + r mod (hi - lo + 1))" "unat (lo + r mod (hi - lo + 1)) \<le> unat hi"
      using lt by simp_all
    moreover have "fst (gen_range_u64 lo hi state) = lo + r mod (hi - lo + 1)"
      using False by (simp add: gen_range_u64_def r_def Let_def split: prod.split)
    ultimately show ?thesis using False by (simp add: word_le_nat_alt max_def)
  qed
  then show "lo \<le> fst (gen_range_u64 lo hi state)" "fst (gen_range_u64 lo hi state) \<le> max lo hi" by simp_all
qed

end
