(* ===== verification/Generator.thy ===== *)
theory Generator
  imports Rng Batch Ledgers Encoding
begin

text \<open>
  \<open>simulator/config.hpp\<close>, \<open>generator.hpp\<close> and \<open>generator.cpp\<close>: the synthetic order flow, drawn from a
  seeded generator.  The loops carry the state of the generator and the next order identifier; the
  order of the draws is the order of the source.
\<close>

record synthetic_flow_config =
  cfg_seed :: u64
  cfg_instrument :: instrument_id
  cfg_num_accounts :: nat
  cfg_initial_cash :: money
  cfg_initial_inventory :: qty
  cfg_num_batches :: nat
  cfg_min_orders :: u64
  cfg_max_orders :: u64
  cfg_price_mid :: price
  cfg_price_spread :: u64
  cfg_min_qty :: qty
  cfg_max_qty :: qty
  cfg_buy_permille :: u32

definition default_config :: synthetic_flow_config where
  "default_config =
     \<lparr>cfg_seed = 42, cfg_instrument = 1, cfg_num_accounts = 10, cfg_initial_cash = 1000000,
      cfg_initial_inventory = 10000, cfg_num_batches = 5, cfg_min_orders = 4, cfg_max_orders = 10,
      cfg_price_mid = 100, cfg_price_spread = 5, cfg_min_qty = 1, cfg_max_qty = 20, cfg_buy_permille = 500\<rparr>"

record synthetic_batch_bundle =
  sb_batch :: batch
  sb_preimages :: "salted_order_preimage list"
  sb_cutoff :: u64

record synthetic_session =
  ss_config :: synthetic_flow_config
  ss_genesis :: ledger
  ss_batches :: "synthetic_batch_bundle list"

section \<open>The ledger\<close>

definition funded_account :: "account_id \<Rightarrow> money \<Rightarrow> instrument_id \<Rightarrow> qty \<Rightarrow> account_state" where
  "funded_account aid cash inst inventory =
     (let acc = new_account aid cash in unwrap_or (credit_inventory inst inventory acc) acc)"

definition num_accounts :: "synthetic_flow_config \<Rightarrow> nat" where
  "num_accounts cfg = max (cfg_num_accounts cfg) 2"

definition genesis_ledger :: "synthetic_flow_config \<Rightarrow> ledger" where
  "genesis_ledger cfg =
     foldl (\<lambda>l idx. insert_account
              (funded_account (of_nat idx) (cfg_initial_cash cfg) (cfg_instrument cfg) (cfg_initial_inventory cfg)) l)
       om_empty [1..<num_accounts cfg + 1]"

section \<open>The orders\<close>

text \<open>Saturating arithmetic around the mid price; never below one.\<close>

definition drawn_price :: "bool \<Rightarrow> u64 \<Rightarrow> u64 \<Rightarrow> price" where
  "drawn_price buys mid delta =
     (let price_raw =
        (if buys then
           let added = mid + delta div 2; sub = delta mod 3 in if sub < added then added - sub else 0
         else
           let half = delta div 2; subbed = (if half < mid then mid - half else 0) in subbed + delta mod 3)
      in max price_raw 1)"

text \<open>Four draws of eight bytes, little-endian.\<close>

definition salt_word :: "bytes \<times> u64 \<Rightarrow> nat \<Rightarrow> bytes \<times> u64" where
  "salt_word = (\<lambda>(salt, rng) i. let (r, rng) = next_u64 rng in (salt @ map (le_byte r) [0..<8], rng))"

definition gen_salt :: "u64 \<Rightarrow> bytes \<times> u64" where
  "gen_salt rng = foldl salt_word ([], rng) [0..<4]"

definition gen_order :: "synthetic_flow_config \<Rightarrow> nat \<Rightarrow> u64 \<Rightarrow> u64 \<Rightarrow> salted_order_preimage \<times> u64" where
  "gen_order cfg sq oid rng =
     (let (aid, rng) = gen_range_u64 1 (of_nat (num_accounts cfg)) rng;
          (buys, rng) = gen_bool_permille (cfg_buy_permille cfg) rng;
          (delta, rng) = gen_range_u64 0 (cfg_price_spread cfg) rng;
          price = drawn_price buys (cfg_price_mid cfg) delta;
          (qty, rng) = gen_range_u64 (cfg_min_qty cfg) (cfg_max_qty cfg) rng;
          o1 = \<lparr>ord_id = oid, ord_account = aid, ord_instrument = cfg_instrument cfg,
                ord_side = (if buys then Buy else Sell), ord_price = price, ord_qty = qty, ord_seq = of_nat sq\<rparr>;
          (salt, rng) = gen_salt rng
      in (\<lparr>pre_order = o1, pre_nonce = salt\<rparr>, rng))"

type_synonym order_loop = "order list \<times> salted_order_preimage list \<times> u64 \<times> u64"

definition gen_order_step :: "synthetic_flow_config \<Rightarrow> order_loop \<Rightarrow> nat \<Rightarrow> order_loop" where
  "gen_order_step cfg = (\<lambda>(orders, preimages, next_id, rng) sq.
     let (p, rng) = gen_order cfg sq next_id rng
     in (orders @ [pre_order p], preimages @ [p], next_id + 1, rng))"

section \<open>The batches\<close>

type_synonym batch_loop = "synthetic_batch_bundle list \<times> u64 \<times> u64"

definition gen_batch_step :: "synthetic_flow_config \<Rightarrow> batch_loop \<Rightarrow> nat \<Rightarrow> batch_loop" where
  "gen_batch_step cfg = (\<lambda>(bundles, next_id, rng) idx.
     let cutoff = 1700000000000000000 + of_nat idx * 100000000;
         (order_count, rng) = gen_range_u64 (cfg_min_orders cfg) (cfg_max_orders cfg) rng;
         (orders, preimages, next_id, rng) =
           foldl (gen_order_step cfg) ([], [], next_id, rng) [0..<unat order_count]
     in (bundles @ [\<lparr>sb_batch = new_batch (of_nat idx) (cfg_instrument cfg) orders,
                     sb_preimages = preimages, sb_cutoff = cutoff\<rparr>], next_id, rng))"

definition generate_session :: "synthetic_flow_config \<Rightarrow> synthetic_session" where
  "generate_session cfg =
     (let (bundles, next_id, rng) = foldl (gen_batch_step cfg) ([], 1, cfg_seed cfg) [1..<cfg_num_batches cfg + 1]
      in \<lparr>ss_config = cfg, ss_genesis = genesis_ledger cfg, ss_batches = bundles\<rparr>)"

end
