(* ===== verification/Simulated_Session.thy ===== *)
theory Simulated_Session
  imports Generator
begin

text \<open>
  What the synthetic order flow promises: valid batches over the accounts of its own ledger, with
  identifiers that are consecutive through the whole session.
\<close>

section \<open>One order\<close>

lemma drawn_price_nonzero: "drawn_price buys mid delta \<noteq> 0"
proof -
  have "1 \<le> drawn_price buys mid delta" by (simp add: drawn_price_def Let_def)
  then show ?thesis by auto
qed

lemma salt_length: "length (fst (gen_salt rng)) = 32"
proof -
  have "length (fst (foldl salt_word s is)) = length (fst s) + 8 * length is" for s "is"
    by (induction "is" arbitrary: s) (auto simp: salt_word_def Let_def split: prod.splits)
  then show ?thesis by (simp add: gen_salt_def)
qed

text \<open>An order of the flow, at position \<open>sq\<close> of its batch.\<close>

definition flow_order :: "synthetic_flow_config \<Rightarrow> nat \<Rightarrow> salted_order_preimage \<Rightarrow> bool" where
  "flow_order cfg sq p \<longleftrightarrow> wf_order (cfg_instrument cfg) (pre_order p)
     \<and> ord_seq (pre_order p) = of_nat sq
     \<and> 1 \<le> unat (ord_account (pre_order p)) \<and> unat (ord_account (pre_order p)) \<le> num_accounts cfg
     \<and> cfg_min_qty cfg \<le> ord_qty (pre_order p) \<and> ord_qty (pre_order p) \<le> max (cfg_min_qty cfg) (cfg_max_qty cfg)
     \<and> length (pre_nonce p) = 32"

lemma gen_order_flow:
  assumes "cfg_min_qty cfg \<noteq> 0" "num_accounts cfg < 2 ^ 64" "gen_order cfg sq oid rng = (p, rng')"
  shows "flow_order cfg sq p \<and> ord_id (pre_order p) = oid"
proof -
  define aid where "aid = fst (gen_range_u64 1 (of_nat (num_accounts cfg)) rng)"
  obtain buys delta q s r where p: "p = \<lparr>pre_order = \<lparr>ord_id = oid, ord_account = aid, ord_instrument = cfg_instrument cfg,
      ord_side = (if buys then Buy else Sell), ord_price = drawn_price buys (cfg_price_mid cfg) delta,
      ord_qty = fst (gen_range_u64 (cfg_min_qty cfg) (cfg_max_qty cfg) r), ord_seq = of_nat sq\<rparr>,
      pre_nonce = fst (gen_salt s)\<rparr>"
    using assms(3) by (auto simp: gen_order_def Let_def aid_def split: prod.splits) (metis fst_conv)+
  have "unat (of_nat (num_accounts cfg) :: u64) = num_accounts cfg"
    using assms(2) by (simp add: unsigned_of_nat take_bit_nat_eq_self)
  then have acc: "1 \<le> unat aid" "unat aid \<le> num_accounts cfg"
    using gen_range_lower [of 1 "of_nat (num_accounts cfg)" rng] gen_range_upper [of 1 "of_nat (num_accounts cfg)" rng]
    by (auto simp: aid_def word_le_nat_alt num_accounts_def max_def split: if_splits)
  have q: "cfg_min_qty cfg \<le> fst (gen_range_u64 (cfg_min_qty cfg) (cfg_max_qty cfg) r)"
    "fst (gen_range_u64 (cfg_min_qty cfg) (cfg_max_qty cfg) r) \<le> max (cfg_min_qty cfg) (cfg_max_qty cfg)"
    using assms(1) by (simp_all add: gen_range_lower gen_range_upper)
  then have "fst (gen_range_u64 (cfg_min_qty cfg) (cfg_max_qty cfg) r) \<noteq> 0" using assms(1) by auto
  with acc q show ?thesis
    by (simp add: p flow_order_def wf_order_def valid_side_def drawn_price_nonzero salt_length)
qed

section \<open>One batch\<close>

lemma gen_orders:
  assumes "cfg_min_qty cfg \<noteq> 0" "num_accounts cfg < 2 ^ 64"
  shows "case foldl (gen_order_step cfg) ([], [], oid, rng) [0..<k] of (orders, ps, oid', rng') \<Rightarrow>
    orders = map pre_order ps \<and> length ps = k \<and> oid' = oid + of_nat k
    \<and> map ord_id orders = map (\<lambda>i. oid + of_nat i) [0..<k] \<and> (\<forall>i<k. flow_order cfg i (ps ! i))"
proof (induction k)
  case (Suc k)
  obtain orders ps oid' rng' where s: "foldl (gen_order_step cfg) ([], [], oid, rng) [0..<k] = (orders, ps, oid', rng')"
    by (metis prod_cases4)
  obtain p rng2 where p: "gen_order cfg k oid' rng' = (p, rng2)" by fastforce
  have IH: "orders = map pre_order ps" "length ps = k" "oid' = oid + of_nat k"
    "map ord_id orders = map (\<lambda>i. oid + of_nat i) [0..<k]" "\<forall>i<k. flow_order cfg i (ps ! i)"
    using Suc unfolding s prod.case by blast+
  have step: "foldl (gen_order_step cfg) ([], [], oid, rng) [0..<Suc k] =
      (orders @ [pre_order p], ps @ [p], oid' + 1, rng2)"
    using s by (simp only: upt_Suc_append le0 foldl_append) (simp add: gen_order_step_def p)
  from gen_order_flow [OF assms p] IH show ?case
    unfolding step by (auto simp: nth_append less_Suc_eq)
qed simp

lemma flow_batch:
  assumes "length ps < 2 ^ 64" "\<forall>i<length ps. flow_order cfg i (ps ! i)"
    and "map (\<lambda>p. ord_id (pre_order p)) ps = map (\<lambda>i. oid + of_nat i) [0..<length ps]"
  shows "bat_orders (new_batch bid (cfg_instrument cfg) (map pre_order ps)) = map pre_order ps"
    and "wf_batch (new_batch bid (cfg_instrument cfg) (map pre_order ps))"
proof -
  show "bat_orders (new_batch bid (cfg_instrument cfg) (map pre_order ps)) = map pre_order ps"
    by (rule bat_orders_sequenced) (use assms(1,2) in \<open>simp_all add: flow_order_def\<close>)
  have "of_nat i \<noteq> (of_nat j :: u64)" if "i < j" "j < length ps" for i j
    using that assms(1) by (simp add: word_unat_eq_iff unsigned_of_nat take_bit_nat_eq_self)
  then have "inj_on (\<lambda>i. oid + of_nat i) {0..<length ps}"
    by (auto simp: inj_on_def) (metis nat_neq_iff)
  then have "distinct (map ord_id (map pre_order ps))"
    using assms(3) by (simp add: distinct_map comp_def)
  moreover have "list_all (wf_order (cfg_instrument cfg)) (map pre_order ps)"
    using assms(2) by (simp add: list_all_length flow_order_def)
  ultimately show "wf_batch (new_batch bid (cfg_instrument cfg) (map pre_order ps))" by (rule wf_new_batch [rotated])
qed

section \<open>The session\<close>

text \<open>A batch of the flow, with its salted orders.\<close>

definition flow_bundle :: "synthetic_flow_config \<Rightarrow> synthetic_batch_bundle \<Rightarrow> bool" where
  "flow_bundle cfg bundle \<longleftrightarrow> wf_batch (sb_batch bundle)
     \<and> bat_instrument (sb_batch bundle) = cfg_instrument cfg
     \<and> map pre_order (sb_preimages bundle) = bat_orders (sb_batch bundle)
     \<and> (\<forall>i<length (sb_preimages bundle). flow_order cfg i (sb_preimages bundle ! i))
     \<and> unat (cfg_min_orders cfg) \<le> length (sb_preimages bundle)
     \<and> length (sb_preimages bundle) \<le> max (unat (cfg_min_orders cfg)) (unat (cfg_max_orders cfg))
     \<and> sb_cutoff bundle = 1700000000000000000 + bat_id (sb_batch bundle) * 100000000"

definition bundle_ids :: "synthetic_batch_bundle list \<Rightarrow> order_id list" where
  "bundle_ids bundles = concat (map (\<lambda>bundle. map ord_id (bat_orders (sb_batch bundle))) bundles)"

lemma bundle_ids_snoc: "bundle_ids (bs @ [b]) = bundle_ids bs @ map ord_id (bat_orders (sb_batch b))"
  by (simp add: bundle_ids_def)

lemma gen_batches:
  assumes "cfg_min_qty cfg \<noteq> 0" "num_accounts cfg < 2 ^ 64" "cfg_min_orders cfg \<noteq> 0 \<or> cfg_max_orders cfg \<noteq> max_raw"
  shows "case foldl (gen_batch_step cfg) ([], 1, seed) [1..<n + 1] of (bundles, next_id, rng) \<Rightarrow>
    list_all (flow_bundle cfg) bundles
    \<and> map (bat_id \<circ> sb_batch) bundles = map of_nat [1..<n + 1]
    \<and> next_id = 1 + of_nat (length (bundle_ids bundles))
    \<and> bundle_ids bundles = map (\<lambda>i. 1 + of_nat i) [0..<length (bundle_ids bundles)]"
proof (induction n)
  case 0
  then show ?case by (simp add: bundle_ids_def)
next
  case (Suc n)
  obtain bs oid rng where s: "foldl (gen_batch_step cfg) ([], 1, seed) [1..<n + 1] = (bs, oid, rng)"
    by (metis prod_cases3)
  have IH: "list_all (flow_bundle cfg) bs" "map (bat_id \<circ> sb_batch) bs = map of_nat [1..<n + 1]"
    "oid = 1 + of_nat (length (bundle_ids bs))"
    "bundle_ids bs = map (\<lambda>i. 1 + of_nat i) [0..<length (bundle_ids bs)]"
    using Suc unfolding s prod.case by blast+
  obtain count rng1 where c: "gen_range_u64 (cfg_min_orders cfg) (cfg_max_orders cfg) rng = (count, rng1)" by fastforce
  obtain orders ps oid' rng2 where g: "foldl (gen_order_step cfg) ([], [], oid, rng1) [0..<unat count] = (orders, ps, oid', rng2)"
    by (metis prod_cases4)
  have G: "orders = map pre_order ps" "length ps = unat count" "oid' = oid + of_nat (unat count)"
    "map ord_id orders = map (\<lambda>i. oid + of_nat i) [0..<unat count]" "\<forall>i<unat count. flow_order cfg i (ps ! i)"
    using gen_orders [OF assms(1,2), where oid = oid and rng = rng1 and k = "unat count"] unfolding g prod.case by blast+
  define bid :: u64 where "bid = of_nat (n + 1)"
  let ?bd = "\<lparr>sb_batch = new_batch bid (cfg_instrument cfg) orders, sb_preimages = ps,
     sb_cutoff = 1700000000000000000 + bid * 100000000\<rparr>"
  have step: "foldl (gen_batch_step cfg) ([], 1, seed) [1..<Suc n + 1] = (bs @ [?bd], oid', rng2)"
  proof -
    have "[1..<Suc n + 1] = [1..<n + 1] @ [n + 1]" by simp
    then show ?thesis using s by (simp only: foldl_append) (simp add: gen_batch_step_def c g Let_def bid_def)
  qed
  have range: "cfg_min_orders cfg \<le> count" "count \<le> max (cfg_min_orders cfg) (cfg_max_orders cfg)"
    using gen_range_lower [OF assms(3), of rng] gen_range_upper [OF assms(3), of rng] by (simp_all add: c)
  have small: "length ps < 2 ^ 64" using unat_less_pow [of count] by (simp add: G(2))
  have ids: "map (\<lambda>p. ord_id (pre_order p)) ps = map (\<lambda>i. oid + of_nat i) [0..<length ps]"
    using G by (simp add: comp_def)
  note fb = flow_batch [OF small _ ids, of cfg bid, folded G(1)]
  have "\<forall>i<length ps. flow_order cfg i (ps ! i)" using G by simp
  with fb have wf: "wf_batch (new_batch bid (cfg_instrument cfg) orders)" "bat_orders (new_batch bid (cfg_instrument cfg) orders) = orders" by simp_all
  with G range have "flow_bundle cfg ?bd"
    by (auto simp: flow_bundle_def wf word_le_nat_alt max_def split: if_splits) (simp_all add: new_batch_def)
  moreover have len: "length (bundle_ids (bs @ [?bd])) = length (bundle_ids bs) + unat count"
    using arg_cong [OF G(4), of length] by (simp add: bundle_ids_snoc wf(2))
  moreover have "bundle_ids (bs @ [?bd]) = map (\<lambda>i. 1 + of_nat i) [0..<length (bundle_ids (bs @ [?bd]))]"
  proof -
    let ?m = "length (bundle_ids bs)"
    have "bundle_ids (bs @ [?bd]) = map (\<lambda>i. 1 + of_nat i) [0..<?m] @ map (\<lambda>i. 1 + of_nat (?m + i)) [0..<unat count]"
      using IH(4) G(4) by (simp add: bundle_ids_snoc wf(2) IH(3) add.assoc)
    moreover have "map (\<lambda>i. 1 + of_nat (?m + i) :: u64) [0..<unat count] = map (\<lambda>i. 1 + of_nat i) [?m..<?m + unat count]"
      by (rule nth_equalityI) simp_all
    moreover have "[0..<?m + unat count] = [0..<?m] @ [?m..<?m + unat count]" by (rule upt_add_eq_append) simp
    ultimately show ?thesis unfolding len by (simp only: map_append)
  qed
  moreover have "oid' = 1 + of_nat (length (bundle_ids (bs @ [?bd])))"
    by (simp add: len G(3) IH(3))
  moreover have "map (bat_id \<circ> sb_batch) (bs @ [?bd]) = map of_nat [1..<Suc n + 1]"
  proof -
    have "[1..<Suc n + 1] = [1..<n + 1] @ [n + 1]" by simp
    then show ?thesis by (simp only: map_append IH(2)) (simp add: new_batch_def bid_def)
  qed
  moreover have "list_all (flow_bundle cfg) (bs @ [?bd]) \<longleftrightarrow> flow_bundle cfg ?bd" using IH(1) by simp
  ultimately show ?case unfolding step prod.case by blast
qed

section \<open>Properties\<close>

lemma credited_id: "acc_id (unwrap_or (credit_inventory i q acc) acc) = acc_id acc"
proof (cases "credit_inventory i q acc")
  case (Ok acc')
  then have "acc_id acc' = acc_id acc" by (auto simp: credit_inventory_Ok_iff)
  with Ok show ?thesis by simp
qed simp

lemma genesis_accounts:
  assumes "num_accounts cfg < 2 ^ 64" "1 \<le> unat aid" "unat aid \<le> num_accounts cfg"
  shows "om_find (genesis_ledger cfg) aid =
    Some (funded_account aid (cfg_initial_cash cfg) (cfg_instrument cfg) (cfg_initial_inventory cfg))"
proof -
  let ?acc = "\<lambda>aid. funded_account aid (cfg_initial_cash cfg) (cfg_instrument cfg) (cfg_initial_inventory cfg)"
  have aid: "acc_id (?acc k) = k" for k
    by (simp add: funded_account_def Let_def credited_id) (simp add: new_account_def)
  have "om_find (foldl (\<lambda>l idx. insert_account (?acc (of_nat idx)) l) om_empty [1..<n + 1]) aid = Some (?acc aid)"
    if "unat aid \<le> n" for n
    using that
  proof (induction n)
    case 0
    with assms(2) show ?case by simp
  next
    case (Suc n)
    show ?case
    proof (cases "unat aid \<le> n")
      case True
      with Suc.IH show ?thesis by (auto simp: insert_account_def aid)
    next
      case False
      with Suc.prems have "unat aid = Suc n" by simp
      define k :: u64 where "k = of_nat (Suc n)"
      from \<open>unat aid = Suc n\<close> have "k = of_nat (unat aid)" by (simp only: k_def)
      then have "k = aid" by simp
      then show ?thesis by (simp add: insert_account_def aid flip: k_def of_nat_Suc)
    qed
  qed
  from this [OF assms(3)] show ?thesis by (simp add: genesis_ledger_def)
qed

text \<open>C29: a synthetic session consists of valid batches, numbered from 1, whose orders are consecutive in
  sequence number within their batch and in identifier through the whole session, trade the configured
  instrument in quantities of the configured range, and belong to funded accounts of the genesis ledger;
  every order has a salted preimage with a nonce of 32 bytes.  The minimum quantity must not be zero,
  which the generator does not check.\<close>

theorem generated_session_valid:
  assumes "cfg_min_qty cfg \<noteq> 0" and "num_accounts cfg < 2 ^ 64"
    and "cfg_min_orders cfg \<noteq> 0 \<or> cfg_max_orders cfg \<noteq> max_raw"
  shows "list_all (flow_bundle cfg) (ss_batches (generate_session cfg))
    \<and> map (bat_id \<circ> sb_batch) (ss_batches (generate_session cfg)) = map of_nat [1..<cfg_num_batches cfg + 1]
    \<and> bundle_ids (ss_batches (generate_session cfg))
        = map (\<lambda>i. 1 + of_nat i) [0..<length (bundle_ids (ss_batches (generate_session cfg)))]
    \<and> list_all (\<lambda>bundle. list_all (\<lambda>p.
          om_find (ss_genesis (generate_session cfg)) (ord_account (pre_order p)) =
            Some (funded_account (ord_account (pre_order p)) (cfg_initial_cash cfg) (cfg_instrument cfg)
              (cfg_initial_inventory cfg))) (sb_preimages bundle)) (ss_batches (generate_session cfg))"
proof -
  obtain bs oid rng where s: "foldl (gen_batch_step cfg) ([], 1, cfg_seed cfg) [1..<cfg_num_batches cfg + 1] = (bs, oid, rng)"
    by (metis prod_cases3)
  then have g: "generate_session cfg = \<lparr>ss_config = cfg, ss_genesis = genesis_ledger cfg, ss_batches = bs\<rparr>"
    by (simp only: generate_session_def Let_def prod.case)
  have B: "list_all (flow_bundle cfg) bs" "map (bat_id \<circ> sb_batch) bs = map of_nat [1..<cfg_num_batches cfg + 1]"
    "bundle_ids bs = map (\<lambda>i. 1 + of_nat i) [0..<length (bundle_ids bs)]"
    using gen_batches [OF assms, where seed = "cfg_seed cfg" and n = "cfg_num_batches cfg"] unfolding s prod.case by blast+
  have "list_all (\<lambda>p. om_find (genesis_ledger cfg) (ord_account (pre_order p)) =
      Some (funded_account (ord_account (pre_order p)) (cfg_initial_cash cfg) (cfg_instrument cfg)
        (cfg_initial_inventory cfg))) (sb_preimages sb)" if "sb \<in> set bs" for sb
  proof -
    have "flow_order cfg i (sb_preimages sb ! i)" if "i < length (sb_preimages sb)" for i
      using B(1) \<open>sb \<in> set bs\<close> that by (auto simp: list_all_iff flow_bundle_def)
    then show ?thesis using genesis_accounts [OF assms(2)] by (simp add: list_all_length flow_order_def)
  qed
  with B show ?thesis by (simp add: g list_all_iff)
qed

theorem generated_session_valid_witness:
  "list_all (flow_bundle default_config) (ss_batches (generate_session default_config))
   \<and> map (bat_id \<circ> sb_batch) (ss_batches (generate_session default_config)) = [1, 2, 3, 4, 5]"
  using generated_session_valid [of default_config]
  by (simp add: default_config_def num_accounts_def upt_rec)

end
