(* ===== verification/Main_Cli.thy ===== *)
theory Main_Cli
  imports Commands Attack_Audit Simulated_Session
begin

text \<open>
  \<open>cli/main.cpp\<close>: the commands \<open>attack-matrix\<close> and \<open>simulate\<close>, and \<open>main\<close>.  The file system is a
  function from paths to contents; a path without contents cannot be opened.
\<close>

section \<open>\<open>attack-matrix\<close>\<close>

definition write_evaluation :: "attack_evaluation \<Rightarrow> json_writer \<Rightarrow> json_writer" where
  "write_evaluation r w =
     (let w = begin_object w;
          w = field_string ''attack_name'' (ev_name r) w;
          w = field_string ''description'' (ev_description r) w;
          w = field_bool ''is_honest_control'' (ev_is_control r) w;
          w = field_bool ''passed_verification'' (ev_passed r) w;
          w = field_string ''rejection_reason'' (case ev_reason r of Some reason \<Rightarrow> reason | None \<Rightarrow> []) w
      in end_object w)"

definition write_attack_report :: "attack_report \<Rightarrow> json_writer \<Rightarrow> json_writer" where
  "write_attack_report report w =
     (let w = begin_object w;
          w = field_u64 ''total_evaluated'' (of_nat (rp_total_evaluated report)) w;
          w = field_u64 ''total_attacks_rejected'' (of_nat (rp_total_rejected report)) w;
          w = field_bool ''all_invariants_held'' (rp_all_held report) w;
          w = write_key ''results'' w;
          w = begin_array w;
          w = fold write_evaluation (rp_results report) w;
          w = end_array w
      in end_object w)"

definition evaluation_report :: "attack_evaluation \<Rightarrow> string" where
  "evaluation_report r =
     (let expected = (if ev_is_control r then ev_passed r else \<not> ev_passed r)
      in lines_of
           ([(if ev_is_control r then ''[CONTROL] '' else if expected then ''[REJECT]  '' else ''[BREACH]  '')
               @ ev_name r,
             ''    '' @ ev_description r]
            @ (case ev_reason r of Some reason \<Rightarrow> [''    Reason: '' @ reason] | None \<Rightarrow> [])))"

definition attack_summary :: "string \<Rightarrow> attack_report \<Rightarrow> string" where
  "attack_summary path report =
     lines_of
       [double_rule,
        '' FairCross Adversarial Operator Attack Matrix Report'',
        double_rule,
        ''Evaluated Fixture:       '' @ path,
        ''Total Vectors Evaluated: '' @ dec_string (rp_total_evaluated report),
        ''Attacks Rejected:        '' @ dec_string (rp_total_rejected report),
        ''All Invariants Held:     '' @ (if rp_all_held report then ''YES'' else ''NO''),
        single_rule]
     @ concat (map evaluation_report (rp_results report))"

definition cmd_attack_matrix :: "string \<Rightarrow> string option \<Rightarrow> bool \<Rightarrow> console" where
  "cmd_attack_matrix path contents json_only =
     or_caught (load_batch_fixture path contents) (\<lambda>(pre_state, b).
     let pre = blind_ledger demo_venue_secret pre_state;
         preimages = derive_preimages b 0
     in or_caught (run_attack_matrix pre b preimages) (\<lambda>report.
        (printed (if json_only then line (wr_buffer (write_attack_report report new_writer))
                  else attack_summary path report))
          \<lparr>con_code := (if rp_all_held report then 0 else 1)\<rparr>))"

section \<open>\<open>simulate\<close>\<close>

definition write_bundle :: "synthetic_batch_bundle \<Rightarrow> json_writer \<Rightarrow> json_writer" where
  "write_bundle bd w =
     (let w = begin_object w;
          w = field_u64 ''batch_id'' (bat_id (sb_batch bd)) w;
          w = field_u64 ''cutoff_nanos'' (sb_cutoff bd) w;
          w = field_u64 ''order_count'' (of_nat (length (bat_orders (sb_batch bd)))) w
      in end_object w)"

definition write_simulation :: "synthetic_session \<Rightarrow> json_writer \<Rightarrow> json_writer" where
  "write_simulation session w =
     (let w = begin_object w;
          w = field_u64 ''seed'' (cfg_seed (ss_config session)) w;
          w = field_u64 ''num_batches'' (of_nat (length (ss_batches session))) w;
          w = write_key ''batches'' w;
          w = begin_array w;
          w = fold write_bundle (ss_batches session) w;
          w = end_array w
      in end_object w)"

definition bundle_line :: "synthetic_batch_bundle \<Rightarrow> string" where
  "bundle_line bd =
     ''Batch '' @ to_string (bat_id (sb_batch bd)) @ '': '' @ dec_string (length (bat_orders (sb_batch bd)))
       @ '' orders, cutoff '' @ to_string (sb_cutoff bd)"

definition simulation_summary :: "synthetic_session \<Rightarrow> string" where
  "simulation_summary session =
     lines_of
       ([double_rule,
         '' FairCross Synthetic Order-Flow Simulation'',
         double_rule,
         ''NOTE: stylized synthetic flow for invariant and benchmark'',
         ''      workloads only; not a behavioural market model.'',
         ''Seed:            '' @ to_string (cfg_seed (ss_config session)),
         ''Accounts:        '' @ dec_string (cfg_num_accounts (ss_config session)),
         ''Batches:         '' @ dec_string (length (ss_batches session)),
         single_rule]
        @ map bundle_line (ss_batches session))"

definition cmd_simulate :: "bool \<Rightarrow> console" where
  "cmd_simulate json_only =
     (let session = generate_session default_config
      in printed (if json_only then line (wr_buffer (write_simulation session new_writer))
                  else simulation_summary session))"

section \<open>\<open>main\<close>\<close>

definition usage :: "string \<Rightarrow> string" where
  "usage prog = lines_of
     [''FairCross Frequent-Batch Exchange CLI (C++)'',
      [],
      ''Usage:'',
      ''  '' @ prog @ '' run <fixture.json> [--json]'',
      ''  '' @ prog @ '' attack-matrix <fixture.json> [--json]'',
      ''  '' @ prog @ '' prove <fixture.json> [--verify] [--json]'',
      ''  '' @ prog @ '' prove-session <manifest.json> [--verify] [--json]'',
      ''  '' @ prog @ '' simulate [--json]'',
      ''  '' @ prog @ '' help'']"

text \<open>The flags may stand anywhere after the command; the arguments here start with the command.\<close>

definition has_flag :: "string list \<Rightarrow> string \<Rightarrow> bool" where
  "has_flag args flag \<longleftrightarrow> flag \<in> set (drop 1 args)"

text \<open>\<open>require_path\<close> exits the program when the second argument is missing or begins with a dash.\<close>

definition require_path :: "string \<Rightarrow> string list \<Rightarrow> string \<Rightarrow> (string \<Rightarrow> console) \<Rightarrow> console" where
  "require_path prog args what command =
     (if length args < 2 \<or> take 1 (args ! 1) = ''-''
      then failed (line (''Missing required '' @ what @ '' argument'') @ usage prog)
      else command (args ! 1))"

definition main :: "(string \<Rightarrow> string option) \<Rightarrow> string \<Rightarrow> string list \<Rightarrow> console" where
  "main files prog args =
     (case args of
        [] \<Rightarrow> failed (usage prog)
      | cmd # rest \<Rightarrow>
          let json_only = has_flag args ''--json'';
              verify = has_flag args ''--verify''
          in if cmd = ''run'' then
               require_path prog args ''<fixture.json>'' (\<lambda>path. cmd_run path (files path) json_only)
             else if cmd = ''attack-matrix'' then
               require_path prog args ''<fixture.json>'' (\<lambda>path. cmd_attack_matrix path (files path) json_only)
             else if cmd = ''prove'' then
               require_path prog args ''<fixture.json>'' (\<lambda>path. cmd_prove path (files path) verify json_only)
             else if cmd = ''prove-session'' then
               require_path prog args ''<manifest.json>'' (\<lambda>path. cmd_prove_session path (files path) verify json_only)
             else if cmd = ''simulate'' then cmd_simulate json_only
             else if cmd = ''help'' \<or> cmd = ''-h'' \<or> cmd = ''--help'' then
               \<lparr>con_out = [], con_err = usage prog, con_code = 0\<rparr>
             else failed (line (''Unknown subcommand: '' @ cmd) @ usage prog))"

end
