(* ===== verification/Cli_Properties.thy ===== *)
theory Cli_Properties
  imports Main_Cli
begin

text \<open>
  What the program as a whole promises: the verdict of the attack matrix as an exit code and as a
  document, and the discipline of the two output streams.
\<close>

section \<open>The documents\<close>

definition evaluation_document :: "attack_evaluation \<Rightarrow> json" where
  "evaluation_document r = JObject
     [(''attack_name'', JString (ev_name r)),
      (''description'', JString (ev_description r)),
      (''is_honest_control'', JBool (ev_is_control r)),
      (''passed_verification'', JBool (ev_passed r)),
      (''rejection_reason'', JString (case ev_reason r of Some reason \<Rightarrow> reason | None \<Rightarrow> []))]"

definition attack_document :: "attack_report \<Rightarrow> json" where
  "attack_document report = JObject
     [(''total_evaluated'', json_u (of_nat (rp_total_evaluated report) :: u64)),
      (''total_attacks_rejected'', json_u (of_nat (rp_total_rejected report) :: u64)),
      (''all_invariants_held'', JBool (rp_all_held report)),
      (''results'', JArray (map evaluation_document (rp_results report)))]"

definition bundle_document :: "synthetic_batch_bundle \<Rightarrow> json" where
  "bundle_document bd = JObject
     [(''batch_id'', json_u (bat_id (sb_batch bd))),
      (''cutoff_nanos'', json_u (sb_cutoff bd)),
      (''order_count'', json_u (of_nat (length (bat_orders (sb_batch bd))) :: u64))]"

definition simulation_document :: "synthetic_session \<Rightarrow> json" where
  "simulation_document session = JObject
     [(''seed'', json_u (cfg_seed (ss_config session))),
      (''num_batches'', json_u (of_nat (length (ss_batches session)) :: u64)),
      (''batches'', JArray (map bundle_document (ss_batches session)))]"

lemma write_evaluation_emits [emits]: "write_evaluation = (\<lambda>r. put (evaluation_document r))"
  by (intro ext) (simp add: write_evaluation_def evaluation_document_def emits Let_def)

lemma write_attack_report_emits [emits]: "write_attack_report report w = put (attack_document report) w"
  by (simp add: write_attack_report_def attack_document_def emits Let_def json_u_def)

lemma write_bundle_emits [emits]: "write_bundle = (\<lambda>bd. put (bundle_document bd))"
  by (intro ext) (simp add: write_bundle_def bundle_document_def emits Let_def json_u_def)

lemma write_simulation_emits [emits]: "write_simulation session w = put (simulation_document session) w"
  by (simp add: write_simulation_def simulation_document_def emits Let_def json_u_def)

lemma printed_document:
  assumes "readable v"
  shows "parse_json (line (render v)) = Inr (normal v)"
  unfolding line_def by (rule parse_rendered [OF assms]) (simp add: is_space_def)

lemma readable_json_u: "readable (json_u (v :: u64)) \<longleftrightarrow> v < 2 ^ 63"
  by (auto simp: json_u_def word_less_def intro: order_trans [OF _ uint_ge_0])

lemma readable_small: "n < 2 ^ 63 \<Longrightarrow> readable (json_u (of_nat n :: u64))"
  by (simp add: readable_json_u word_less_nat_alt unsigned_of_nat take_bit_nat_eq_self)

lemma attack_document_readable:
  assumes "rp_total_evaluated rp < 2 ^ 63" "rp_total_rejected rp < 2 ^ 63"
  shows "readable (attack_document rp)"
  using readable_small [OF assms(1)] readable_small [OF assms(2)]
  by (simp add: attack_document_def evaluation_document_def list_all_iff del: readable.simps(3))

section \<open>Properties\<close>

text \<open>C32: On a fixture that loads and executes, within the range of the instrument's total inventory,
  \<open>attack-matrix\<close> exits with 0 exactly when none of its eleven attacks is harmless for the batch.
  With \<open>--json\<close> it prints one document, which is read back as the report.\<close>

theorem attack_command_verdict:
  assumes "load_batch_fixture path contents = Inr (pre_state, b)"
    and "execute_batch (blind_ledger demo_venue_secret pre_state) b = Ok e"
    and "is_ok (total_inventory_of (blind_ledger demo_venue_secret pre_state) (bat_instrument b))"
  shows "case cmd_attack_matrix path contents True of console \<Rightarrow>
    \<exists>rp. run_attack_matrix (blind_ledger demo_venue_secret pre_state) b (derive_preimages b 0) = Inr rp
      \<and> con_err console = [] \<and> parse_json (con_out console) = Inr (normal (attack_document rp))
      \<and> (con_code console = 0 \<longleftrightarrow>
          list_all (\<lambda>tc. harmless (blind_ledger demo_venue_secret pre_state) b (derive_preimages b 0) e (tc_mutation tc)
             = tc_expect_pass tc) (attack_cases b))"
proof -
  let ?pre = "blind_ledger demo_venue_secret pre_state" and ?ps = "derive_preimages b 0"
  have wf: "wf_batch b" using assms(1) by (auto simp: load_batch_fixture_def throws_simps intro: batch_from_json_wf)
  obtain rp where rp: "run_attack_matrix ?pre b ?ps = Inr rp" "rp_total_evaluated rp = 12"
    "rp_total_rejected rp = length (filter (\<lambda>tc. \<not> harmless ?pre b ?ps e (tc_mutation tc)) (attack_cases b))"
    "rp_all_held rp = list_all (\<lambda>tc. harmless ?pre b ?ps e (tc_mutation tc) = tc_expect_pass tc) (attack_cases b)"
    using matrix_report [OF wf assms(2) derive_preimages_orders assms(3)] by blast
  have "rp_total_rejected rp \<le> length (attack_cases b)" unfolding rp(3) by (rule length_filter_le)
  moreover have "length (attack_cases b) = 12" by (simp add: attack_cases_def Let_def)
  ultimately have "rp_total_rejected rp < 2 ^ 63" by simp
  then have "parse_json (line (render (attack_document rp))) = Inr (normal (attack_document rp))"
    using rp(2) by (intro printed_document attack_document_readable) simp_all
  with rp show ?thesis by (simp add: cmd_attack_matrix_def assms(1) emits written_text)
qed

theorem attack_command_verdict_witness:
  "case cmd_attack_matrix ''sample.json'' (Some sample_fixture) True of console \<Rightarrow>
     con_err console = [] \<and> (\<exists>rp. parse_json (con_out console) = Inr (normal (attack_document rp)))"
proof -
  let ?pre = "blind_ledger demo_venue_secret sample_ledger"
  obtain e where "execute_batch ?pre sample_batch = Ok e"
      "is_ok (total_inventory_of ?pre (bat_instrument sample_batch))"
    using blinded_sample [of "derive_account_salt demo_venue_secret"]
    by (auto simp: blind_ledger_def small_amounts_def split: result.splits)
  then show ?thesis using attack_command_verdict [OF sample_fixture_loads] by auto
qed

text \<open>A command that complains does so in words.\<close>

definition speaks :: "'a throws \<Rightarrow> bool" where
  "speaks r \<longleftrightarrow> r \<noteq> Inl []"

named_theorems speaks_intro "calls whose complaints are not empty"

lemma speaks_Inr [speaks_intro]: "speaks (Inr v)"
  by (simp add: speaks_def)

lemma speaks_or_print [speaks_intro]: "(\<And>v. speaks (f v)) \<Longrightarrow> speaks (or_print what r f)"
  by (cases r) (auto simp: or_print_def speaks_def throw_def)

lemma speaks_try_then [speaks_intro]: "speaks r \<Longrightarrow> (\<And>v. speaks (f v)) \<Longrightarrow> speaks (try_then r f)"
  by (cases r) (auto simp: speaks_def)

lemma speaks_throw_if [speaks_intro]: "msg \<noteq> [] \<Longrightarrow> speaks r \<Longrightarrow> speaks (throw_if c msg r)"
  by (cases c) (auto simp: speaks_def)

lemma speaks_loop_throws [speaks_intro]: "(\<And>s x. speaks (f s x)) \<Longrightarrow> speaks (loop_throws f s xs)"
  by (induction xs arbitrary: s) (auto intro: speaks_intro)

lemma commands_speak:
  "speaks (run_fixture pre_state b json_only)"
  "speaks (prove_fixture pre_state b verify)"
  "speaks (session_step st (idx, b))"
  "speaks (prove_manifest pre_state bs verify)"
proof -
  show step: "speaks (session_step st (idx, b))" for st idx b
    by (auto simp: session_step_def Let_def split: prod.splits intro!: speaks_intro)
  show "speaks (run_fixture pre_state b json_only)"
    by (auto simp: run_fixture_def Let_def intro!: speaks_intro)
  show "speaks (prove_fixture pre_state b verify)"
    by (auto simp: prove_fixture_def Let_def split: prod.splits intro!: speaks_intro)
  have all: "speaks (session_step st x)" for st x using step by (cases x) simp
  show "speaks (prove_manifest pre_state bs verify)"
    by (auto simp: prove_manifest_def Let_def split: prod.splits intro!: speaks_intro all)
qed

text \<open>One stream, and the exit code says which.\<close>

definition one_stream :: "console \<Rightarrow> bool" where
  "one_stream c \<longleftrightarrow> (con_out c = [] \<longleftrightarrow> con_err c \<noteq> []) \<and> con_code c = (if con_err c = [] then 0 else 1)"

lemma line_not_empty [simp]: "line s \<noteq> []"
  by (simp add: line_def)

lemma lines_of_not_empty [simp]: "lines_of (s # ss) \<noteq> []"
  by (simp add: lines_of_def)

lemma one_stream_failed [simp]: "one_stream (failed s) \<longleftrightarrow> s \<noteq> []"
  by (auto simp: one_stream_def)

lemma one_stream_printed [simp]: "one_stream (printed s) \<longleftrightarrow> s \<noteq> []"
  by (auto simp: one_stream_def)

lemma one_stream_ends_with:
  assumes "speaks r" "\<And>s. r = Inr s \<Longrightarrow> s \<noteq> []"
  shows "one_stream (ends_with r)"
  using assms by (cases r) (auto simp: speaks_def)

lemma one_stream_caught: "(\<And>v. one_stream (f v)) \<Longrightarrow> one_stream (or_caught r f)"
  by (cases r) auto

lemma run_one_stream: "one_stream (cmd_run path contents json_only)"
  unfolding cmd_run_def
  by (auto intro!: one_stream_caught one_stream_ends_with commands_speak)
    (auto simp: run_fixture_def Let_def or_print_Inr_iff)

lemma prove_one_stream: "one_stream (cmd_prove path contents verify json_only)"
  unfolding cmd_prove_def
  by (auto intro!: one_stream_caught one_stream_ends_with speaks_intro commands_speak)
    (auto simp: throws_simps proof_report_def split: if_splits)

lemma prove_session_one_stream: "one_stream (cmd_prove_session path contents verify json_only)"
  unfolding cmd_prove_session_def
  by (auto intro!: one_stream_caught one_stream_ends_with speaks_intro commands_speak)
    (auto simp: throws_simps session_report_def Let_def split: if_splits)

lemma simulate_one_stream: "one_stream (cmd_simulate json_only)"
  by (simp add: cmd_simulate_def simulation_summary_def Let_def)

lemma attack_streams:
  "con_out (cmd_attack_matrix path contents json_only) = [] \<longleftrightarrow> con_err (cmd_attack_matrix path contents json_only) \<noteq> []"
  "con_err (cmd_attack_matrix path contents json_only) \<noteq> [] \<Longrightarrow> con_code (cmd_attack_matrix path contents json_only) = 1"
  "con_code (cmd_attack_matrix path contents json_only) \<le> 1"
  by (auto simp: cmd_attack_matrix_def or_caught_def printed_def failed_def attack_summary_def Let_def
    split: sum.splits prod.splits)

lemma require_path_one_stream:
  "(\<And>path. one_stream (command path)) \<Longrightarrow> one_stream (require_path prog args what command)"
  by (simp add: require_path_def)

text \<open>The run reports a breach: an attack that passed, or an honest execution that did not.\<close>

definition breach_reported :: "(string \<Rightarrow> string option) \<Rightarrow> string list \<Rightarrow> bool" where
  "breach_reported files args \<longleftrightarrow>
     (case args of
        cmd # path # rest \<Rightarrow> cmd = ''attack-matrix'' \<and> take 1 path \<noteq> ''-''
          \<and> (case load_batch_fixture path (files path) of
               Inr (pre_state, b) \<Rightarrow>
                 (case run_attack_matrix (blind_ledger demo_venue_secret pre_state) b (derive_preimages b 0) of
                    Inr rp \<Rightarrow> \<not> rp_all_held rp
                  | Inl what \<Rightarrow> False)
             | Inl what \<Rightarrow> False)
      | _ \<Rightarrow> False)"

lemma attack_breach:
  "con_err (require_path prog (''attack-matrix'' # rest) what (\<lambda>path. cmd_attack_matrix path (files path) json_only)) = []
     \<and> con_code (require_path prog (''attack-matrix'' # rest) what (\<lambda>path. cmd_attack_matrix path (files path) json_only)) = 1
   \<longleftrightarrow> breach_reported files (''attack-matrix'' # rest)"
proof (cases rest)
  case Nil
  then show ?thesis by (simp add: require_path_def breach_reported_def)
next
  case (Cons path more)
  have "con_err (cmd_attack_matrix path (files path) json_only) = [] \<and> con_code (cmd_attack_matrix path (files path) json_only) = 1
    \<longleftrightarrow> (case load_batch_fixture path (files path) of
           Inr (pre_state, b) \<Rightarrow>
             (case run_attack_matrix (blind_ledger demo_venue_secret pre_state) b (derive_preimages b 0) of
                Inr rp \<Rightarrow> \<not> rp_all_held rp | Inl what \<Rightarrow> False)
         | Inl what \<Rightarrow> False)"
    by (auto simp: cmd_attack_matrix_def or_caught_def printed_def failed_def Let_def split: sum.splits prod.splits)
  with Cons show ?thesis by (simp add: require_path_def breach_reported_def)
qed

lemma attack_required:
  assumes "c = require_path prog args what (\<lambda>path. cmd_attack_matrix path (files path) json_only)"
  shows "(con_out c = [] \<longleftrightarrow> con_err c \<noteq> []) \<and> con_code c \<le> 1 \<and> \<not> (con_err c \<noteq> [] \<and> con_code c = 0)"
  using assms attack_streams [of "args ! 1" "files (args ! 1)" json_only] by (auto simp: require_path_def)

text \<open>C33: The program writes to exactly one of its two streams, whatever its arguments and the files are.
  It exits with 0 or 1.  With text on standard error it exits with 1, unless the text is the usage that
  was asked for; with text on standard output it exits with 0, unless the text is a report of the attack
  matrix, whose verdict is then the exit code.  A run that fails leaves nothing on standard output that
  could be taken for a result.\<close>

theorem main_streams:
  "case main files prog args of console \<Rightarrow>
     (con_out console = [] \<longleftrightarrow> con_err console \<noteq> []) \<and> con_code console \<le> 1
     \<and> (con_err console \<noteq> [] \<and> con_code console = 0 \<longleftrightarrow> args \<noteq> [] \<and> args ! 0 \<in> {''help'', ''-h'', ''--help''})
     \<and> (con_err console = [] \<and> con_code console = 1 \<longleftrightarrow> breach_reported files args)"
proof (cases args)
  case Nil
  then show ?thesis by (simp add: main_def breach_reported_def usage_def)
next
  case (Cons cmd rest)
  consider "cmd = ''attack-matrix''" | "cmd \<in> {''help'', ''-h'', ''--help''}"
    | "cmd \<noteq> ''attack-matrix''" "cmd \<notin> {''help'', ''-h'', ''--help''}" by blast
  then show ?thesis
  proof cases
    case 1
    then have "main files prog args = require_path prog args ''<fixture.json>''
        (\<lambda>path. cmd_attack_matrix path (files path) (has_flag args ''--json''))"
      by (simp add: main_def Cons)
    with attack_required [OF this] attack_breach [of prog rest "''<fixture.json>''" files "has_flag args ''--json''"]
    show ?thesis by (simp add: Cons 1)
  next
    case 2
    then have "main files prog args = \<lparr>con_out = [], con_err = usage prog, con_code = 0\<rparr>"
      by (auto simp: main_def Cons)
    moreover have "\<not> breach_reported files args" using 2 by (auto simp: breach_reported_def Cons split: list.split)
    moreover have "usage prog \<noteq> []" by (simp add: usage_def)
    ultimately show ?thesis using 2 by (simp add: Cons)
  next
    case 3
    then have "one_stream (main files prog args)"
      by (auto simp: main_def Cons Let_def intro!: require_path_one_stream run_one_stream prove_one_stream
          prove_session_one_stream simulate_one_stream)
    moreover have "\<not> breach_reported files args" using 3 by (simp add: breach_reported_def Cons split: list.split)
    ultimately show ?thesis using 3 by (auto simp: one_stream_def Cons)
  qed
qed

end
