(* ===== verification/Workloads.thy ===== *)
theory Workloads
  imports Session_Proofs Generator Funding
begin

text \<open>
  The workloads of the benchmarks (\<open>bench/fixtures.hpp\<close>, \<open>bench/session_benchmarks.cpp\<close> and
  \<open>bench/engine_benchmarks.cpp\<close>): batches of a fixed shape over a funded ledger, the statement and the
  witness of an executed batch, the sessions of two-order batches, and the naive auction that the
  optimised one is compared with.
\<close>

section \<open>Batches of a fixed shape\<close>

definition scaling_account_count :: "nat \<Rightarrow> nat" where
  "scaling_account_count batch_size = max (batch_size div 2) 2"

definition scaling_orders :: "nat \<Rightarrow> instrument_id \<Rightarrow> order list" where
  "scaling_orders batch_size inst =
     (let num_accounts = scaling_account_count batch_size in
      map (\<lambda>i. let buys = (i mod 2 = 0);
                   p = (if buys then 100 + of_nat i mod 5 else 96 + of_nat i mod 5)
               in \<lparr>ord_id = of_nat i + 1, ord_account = of_nat (i mod num_accounts) + 1, ord_instrument = inst,
                   ord_side = (if buys then Buy else Sell), ord_price = p, ord_qty = 10 + of_nat i mod 10,
                   ord_seq = of_nat i\<rparr>)
        [0..<batch_size])"

definition funded_ledger :: "instrument_id \<Rightarrow> nat \<Rightarrow> ledger" where
  "funded_ledger inst batch_size =
     foldl (\<lambda>l i. let acc = new_account (of_nat i) 100000
                  in insert_account (unwrap_or (credit_inventory inst 10000 acc) acc) l)
       om_empty [1..<scaling_account_count batch_size + 1]"

definition preimages_for :: "batch \<Rightarrow> salted_order_preimage list" where
  "preimages_for b =
     map (\<lambda>(i, o1). \<lparr>pre_order = o1, pre_nonce = replicate 32 (of_nat i + 1)\<rparr>) (enumerate 0 (bat_orders b))"

definition optimality_orders :: "nat \<Rightarrow> instrument_id \<Rightarrow> order list" where
  "optimality_orders batch_size inst =
     map (\<lambda>i. let buys = (i mod 2 = 0);
                  p = (if buys then 100 + of_nat i mod 10 else 95 + of_nat i mod 10)
              in \<lparr>ord_id = of_nat i + 1, ord_account = (if buys then 1 else 2), ord_instrument = inst,
                  ord_side = (if buys then Buy else Sell), ord_price = p, ord_qty = 10 + of_nat i mod 5,
                  ord_seq = of_nat i\<rparr>)
       [0..<batch_size]"

definition ivc_step_orders :: "u64 \<Rightarrow> price \<Rightarrow> qty \<Rightarrow> instrument_id \<Rightarrow> order list" where
  "ivc_step_orders batch_seq p q inst =
     [\<lparr>ord_id = batch_seq * 2 - 1, ord_account = 1, ord_instrument = inst, ord_side = Buy, ord_price = p,
       ord_qty = q, ord_seq = 0\<rparr>,
      \<lparr>ord_id = batch_seq * 2, ord_account = 2, ord_instrument = inst, ord_side = Sell, ord_price = p,
       ord_qty = q, ord_seq = 1\<rparr>]"

section \<open>The statement of a batch\<close>

record proof_fixture =
  pf_public_inputs :: batch_proof_public_inputs
  pf_witness :: batch_proof_witness
  pf_post_state :: ledger

definition build_proof_fixture :: "nat \<Rightarrow> ledger \<Rightarrow> u64 \<Rightarrow> proof_fixture throws" where
  "build_proof_fixture batch_size pre_state batch_seq =
     (let inst = 1; b = new_batch batch_seq inst (scaling_orders batch_size inst); preimages = preimages_for b in
      value_of (execute_batch pre_state b) (\<lambda>exec.
      let (tree, accounting) = build_complete_input_accounting b preimages (res_allocation exec);
          header = \<lparr>bh_semantic_version = 1, bh_batch_id = bat_id b, bh_instrument_id = inst,
                    bh_cutoff = 1700000000 + batch_seq * 10,
                    bh_order_count = of_nat (length (bat_orders b)), bh_orders_root = merkle_root tree\<rparr>;
          public_inputs =
            \<lparr>pi_pre_state_root = compute_ledger_root pre_state inst,
             pi_post_state_root = compute_ledger_root (res_post_state exec) inst,
             pi_batch_header_hash = compute_batch_commitment header,
             pi_oracle_snapshot_hash = compute_oracle_snapshot_commitment None None,
             pi_clearing_price = (case out_price (res_outcome exec) of Some cp \<Rightarrow> cp | None \<Rightarrow> 0),
             pi_cleared_volume = out_volume (res_outcome exec)\<rparr>;
          witness =
            \<lparr>bw_pre_state = pre_state, bw_post_state = res_post_state exec, bw_batch = b, bw_preimages = preimages,
             bw_allocation = res_allocation exec, bw_fills = res_fills exec, bw_accounting = accounting,
             bw_oracle_snapshot = None, bw_oracle_policy = None, bw_batch_cutoff = 1700000000 + batch_seq * 10\<rparr>
      in Inr \<lparr>pf_public_inputs = public_inputs, pf_witness = witness, pf_post_state = res_post_state exec\<rparr>))"

section \<open>Sessions of two-order batches\<close>

text \<open>A step, and the ledger it leaves in \<open>out_post\<close>; both \<open>value()\<close> calls may throw.\<close>

definition build_ivc_step :: "u64 \<Rightarrow> ledger \<Rightarrow> price \<Rightarrow> qty \<Rightarrow> (recursive_step \<times> ledger) throws" where
  "build_ivc_step batch_seq prev p q =
     (let inst = 1; b = new_batch batch_seq inst (ivc_step_orders batch_seq p q inst);
          preimages = map (\<lambda>(i, o1). \<lparr>pre_order = o1, pre_nonce = replicate 32 (ucast (batch_seq * 10 + of_nat i + 1))\<rparr>)
            (enumerate 0 (bat_orders b))
      in value_of (execute_batch prev b) (\<lambda>exec.
      let (tree, accounting) = build_complete_input_accounting b preimages (res_allocation exec);
          ts = 1700000000 + batch_seq * 10;
          header = \<lparr>bh_semantic_version = 1, bh_batch_id = bat_id b, bh_instrument_id = inst, bh_cutoff = ts,
                    bh_order_count = of_nat (length (bat_orders b)), bh_orders_root = merkle_root tree\<rparr>
      in case out_price (res_outcome exec) of
           None \<Rightarrow> throw ''bad_optional_access''
         | Some cp \<Rightarrow>
             Inr (\<lparr>step_public_inputs =
                     \<lparr>pi_pre_state_root = compute_ledger_root prev inst,
                      pi_post_state_root = compute_ledger_root (res_post_state exec) inst,
                      pi_batch_header_hash = compute_batch_commitment header,
                      pi_oracle_snapshot_hash = compute_oracle_snapshot_commitment None None,
                      pi_clearing_price = cp, pi_cleared_volume = out_volume (res_outcome exec)\<rparr>,
                   step_witness =
                     \<lparr>bw_pre_state = prev, bw_post_state = res_post_state exec, bw_batch = b, bw_preimages = preimages,
                      bw_allocation = res_allocation exec, bw_fills = res_fills exec, bw_accounting = accounting,
                      bw_oracle_snapshot = None, bw_oracle_policy = None, bw_batch_cutoff = ts\<rparr>,
                   step_timestamp = ts\<rparr>, res_post_state exec)))"

definition build_session :: "nat \<Rightarrow> (running_state \<times> recursive_step list) throws" where
  "build_session num_batches =
     (let inst = 1; ledger = funded_ledger inst 4; initial = genesis (compute_ledger_root ledger inst) inst in
      try_then (loop_throws (\<lambda>(l, steps) i.
          try_then (build_ivc_step (of_nat i) l 100 20) (\<lambda>(stp, post). Inr (post, steps @ [stp])))
        (ledger, []) [1..<num_batches + 1])
      (\<lambda>(l, steps). Inr (initial, steps)))"

section \<open>The naive auction\<close>

definition naive_step :: "order list \<Rightarrow> qty \<Rightarrow> order \<Rightarrow> qty" where
  "naive_step orders best candidate =
     (let (demand, supply) = foldl (\<lambda>(demand, supply) o1.
            (if ord_side o1 = Buy \<and> ord_price candidate \<le> ord_price o1 then demand + ord_qty o1 else demand,
             if ord_side o1 = Sell \<and> ord_price o1 \<le> ord_price candidate then supply + ord_qty o1 else supply))
          (0 :: u64, 0 :: u64) orders;
          v = min demand supply
      in if best < v then v else best)"

definition naive_max_volume :: "order list \<Rightarrow> qty" where
  "naive_max_volume orders = foldl (naive_step orders) 0 orders"

end
