(* ===== verification/Numbering.thy ===== *)
theory Numbering
  imports Batch
begin

text \<open>
  The loop that makes the position of an order in its batch its sequence number
  (\<open>simulator/interval.cpp\<close>, \<open>population.cpp\<close>), and what it leaves alone.
\<close>

definition renumber_orders :: "order list \<Rightarrow> order list" where
  "renumber_orders orders = map2 (\<lambda>sq o1. o1\<lparr>ord_seq := of_nat sq\<rparr>) [0..<length orders] orders"

lemma length_renumber [simp]: "length (renumber_orders orders) = length orders"
  by (simp add: renumber_orders_def)

lemma renumber_nth:
  assumes "i < length orders"
  shows "renumber_orders orders ! i = (orders ! i)\<lparr>ord_seq := of_nat i\<rparr>"
  using assms by (simp add: renumber_orders_def)

lemma renumber_empty [simp]: "renumber_orders orders = [] \<longleftrightarrow> orders = []"
  by (simp flip: length_0_conv)

lemma renumber_ids: "map ord_id (renumber_orders orders) = map ord_id orders"
  by (rule nth_equalityI) (simp_all add: renumber_nth)

lemma renumber_accounts: "map ord_account (renumber_orders orders) = map ord_account orders"
  by (rule nth_equalityI) (simp_all add: renumber_nth)

lemma renumber_seqs: "map ord_seq (renumber_orders orders) = map of_nat [0..<length orders]"
  by (rule nth_equalityI) (simp_all add: renumber_nth)

lemma renumber_wf: "list_all (wf_order inst) (renumber_orders orders) = list_all (wf_order inst) orders"
  by (simp add: list_all_length renumber_nth wf_order_def)

lemma renumbered_in_order:
  assumes "length orders < 2 ^ 64"
  shows "batch_order.in_order (renumber_orders orders)"
  by (rule sequenced_in_order) (use assms in \<open>simp_all add: renumber_nth\<close>)

lemma new_batch_renumbered:
  assumes "length orders < 2 ^ 64"
  shows "new_batch bid inst (renumber_orders orders) =
    \<lparr>bat_id = bid, bat_instrument = inst, bat_orders = renumber_orders orders\<rparr>"
  by (simp add: new_batch_def batch_order.std_sort_in_order renumbered_in_order [OF assms])

end
