(* ===== verification/Interval.thy ===== *)
theory Interval
  imports Generator Numbering "HOL-Library.Product_Lexorder" "HOL-Library.List_Lexorder"
begin

text \<open>
  \<open>simulator/interval.hpp\<close> and \<open>interval.cpp\<close>: a stream of timestamped submissions, sorted by every
  observable field, and its partition into batches at the ends of equal intervals of time.
\<close>

section \<open>The stream\<close>

record submission =
  sub_order :: order
  sub_arrival :: u64
  sub_salt :: bytes

record order_input_stream =
  st_instrument :: instrument_id
  st_submissions :: "submission list"

text \<open>The tuple of references that \<open>std::tie\<close> makes; tuples and arrays compare lexicographically.\<close>

definition submission_key ::
  "submission \<Rightarrow> u64 \<times> order_id \<times> account_id \<times> instrument_id \<times> side \<times> price \<times> qty \<times> u64 \<times> bytes" where
  "submission_key s =
     (let o1 = sub_order s in
      (sub_arrival s, ord_id o1, ord_account o1, ord_instrument o1, ord_side o1, ord_price o1, ord_qty o1,
       ord_seq o1, sub_salt s))"

definition submission_before :: "submission \<Rightarrow> submission \<Rightarrow> bool" where
  "submission_before a b \<longleftrightarrow> submission_key a < submission_key b"

definition new_stream :: "instrument_id \<Rightarrow> submission list \<Rightarrow> order_input_stream" where
  "new_stream inst subs = \<lparr>st_instrument = inst, st_submissions = std_sort submission_before subs\<rparr>"

section \<open>The partition\<close>

text \<open>The inner loop: the submissions before the cutoff, and the rest of the stream.\<close>

fun admit ::
  "u64 \<Rightarrow> order list \<Rightarrow> salted_order_preimage list \<Rightarrow> submission list \<Rightarrow>
     order list \<times> salted_order_preimage list \<times> submission list" where
  "admit cutoff orders preimages [] = (orders, preimages, [])"
| "admit cutoff orders preimages (sub # subs) =
     (if sub_arrival sub < cutoff
      then admit cutoff (orders @ [sub_order sub])
             (preimages @ [\<lparr>pre_order = sub_order sub, pre_nonce = sub_salt sub\<rparr>]) subs
      else (orders, preimages, sub # subs))"

definition renumber_preimages :: "salted_order_preimage list \<Rightarrow> salted_order_preimage list" where
  "renumber_preimages ps =
     map2 (\<lambda>sq p. p\<lparr>pre_order := pre_order p\<lparr>ord_seq := of_nat sq\<rparr>\<rparr>) [0..<length ps] ps"

definition interval_step ::
  "instrument_id \<Rightarrow> u64 \<Rightarrow> u64 \<Rightarrow> u64 \<Rightarrow> submission list \<times> synthetic_batch_bundle list \<Rightarrow>
     submission list \<times> synthetic_batch_bundle list" where
  "interval_step inst start interval batch_k = (\<lambda>(subs, batches).
     let cutoff = start + batch_k * interval;
         (orders, preimages, subs) = admit cutoff [] [] subs;
         orders = renumber_orders orders;
         preimages = renumber_preimages preimages
     in (subs,
         if orders \<noteq> [] then batches @ [\<lparr>sb_batch = new_batch batch_k inst orders, sb_preimages = preimages,
                                          sb_cutoff = cutoff\<rparr>]
         else batches))"

text \<open>\<open>for (size_t k = k0; k <= n; ++k)\<close>: the counter wraps, so with the largest \<open>n\<close> the loop never ends.\<close>

partial_function (option) count_to :: "(u64 \<Rightarrow> 's \<Rightarrow> 's) \<Rightarrow> u64 \<Rightarrow> u64 \<Rightarrow> 's \<Rightarrow> 's option" where
  [code]: "count_to f n k s = (if k \<le> n then count_to f n (k + 1) (f k s) else Some s)"

definition interval_count :: "order_input_stream \<Rightarrow> u64 \<Rightarrow> u64 \<Rightarrow> u64 option \<Rightarrow> u64" where
  "interval_count stream start interval max_batches =
     (let max_arrival = sub_arrival (last (st_submissions stream));
          total_time_span = (if start < max_arrival then max_arrival - start else 0);
          calculated = total_time_span div interval + 1
      in case max_batches of Some m \<Rightarrow> min calculated m | None \<Rightarrow> calculated)"

definition partition_stream ::
  "order_input_stream \<Rightarrow> u64 \<Rightarrow> u64 \<Rightarrow> u64 option \<Rightarrow> synthetic_batch_bundle list option" where
  "partition_stream stream start interval max_batches =
     (if st_submissions stream = [] \<or> interval = 0 then Some []
      else map_option snd
        (count_to (interval_step (st_instrument stream) start interval)
           (interval_count stream start interval max_batches) 1 (st_submissions stream, [])))"

end
