(* ===== verification/Bench_Reports.thy ===== *)
theory Bench_Reports
  imports Workloads Interval Main_Cli
begin

text \<open>
  The benchmarks whose artifacts do not depend on a clock (\<open>bench/simulator_benchmarks.cpp\<close>,
  \<open>bench/engine_benchmarks.cpp\<close>): the batch-interval matrix and the evidence of the attack matrix.  The
  artifacts are pairs of a file name and its contents; what the compiler knows of the platform is a
  parameter.
\<close>

section \<open>Shared parts\<close>

record build_platform =
  plat_os :: string
  plat_arch :: string
  plat_compiler :: string

definition write_environment :: "build_platform \<Rightarrow> json_writer \<Rightarrow> json_writer" where
  "write_environment platform w =
     (let w = write_key ''environment'' w;
          w = begin_object w;
          w = field_string ''os'' (plat_os platform) w;
          w = field_string ''arch'' (plat_arch platform) w;
          w = field_string ''compiler'' (plat_compiler platform) w;
          w = field_string ''cxx_standard'' ''C++20'' w;
          w = field_string ''optimization'' ''-O2'' w;
          w = field_bool ''sanitizers_enabled'' False w;
          w = field_string ''implementation'' ''cpp'' w
      in end_object w)"

definition median :: "u64 list \<Rightarrow> u64" where
  "median samples = (if samples = [] then 0 else sort samples ! (length samples div 2))"

type_synonym artifact = "string \<times> string"

section \<open>The attack evidence\<close>

definition write_evidence :: "attack_evaluation \<Rightarrow> json_writer \<times> string \<Rightarrow> json_writer \<times> string" where
  "write_evidence r = (\<lambda>(w, csv).
     let w = begin_object w;
         w = field_string ''attack_name'' (ev_name r) w;
         w = field_string ''description'' (ev_description r) w;
         w = field_bool ''is_honest_control'' (ev_is_control r) w;
         w = field_bool ''passed_verification'' (ev_passed r) w;
         w = field_string ''rejection_reason'' (case ev_reason r of Some reason \<Rightarrow> reason | None \<Rightarrow> []) w;
         w = end_object w;
         reason = map (\<lambda>c. if c = CHR '','' then CHR '';'' else c) (case ev_reason r of Some reason \<Rightarrow> reason | None \<Rightarrow> [])
     in (w, csv @ line (ev_name r @ '','' @ (if ev_is_control r then ''true'' else ''false'') @ '',''
              @ (if ev_passed r then ''true'' else ''false'') @ '','' @ reason)))"

definition run_attack_evidence :: "build_platform \<Rightarrow> (artifact list \<times> string) throws" where
  "run_attack_evidence platform =
     (let inst = 1; pre_state = funded_ledger inst 4; b = new_batch 1 inst (scaling_orders 4 inst);
          preimages = preimages_for b
      in try_then (run_attack_matrix pre_state b preimages) (\<lambda>report.
         let w = begin_object new_writer;
             w = field_string ''benchmark_name'' ''faircross_adversarial_attack_evidence'' w;
             w = field_string ''reproduction_command'' ''cpp/bin/faircross_bench attack-evidence'' w;
             w = write_environment platform w;
             w = field_u64 ''total_vectors_evaluated'' (of_nat (rp_total_evaluated report)) w;
             w = field_u64 ''malicious_attacks_rejected'' (of_nat (rp_total_rejected report)) w;
             w = field_bool ''all_invariants_held'' (rp_all_held report) w;
             w = write_key ''entries'' w;
             w = begin_array w;
             csv = line ''attack_name,is_honest_control,passed_verification,rejection_reason'';
             (w, csv) = fold write_evidence (rp_results report) (w, csv);
             w = end_array w;
             w = end_object w
         in Inr ([(''attack_evidence_table.json'', line (wr_buffer w)), (''attack_evidence_table.csv'', csv)],
                 line ''  wrote attack_evidence_table.{json,csv}'')))"

section \<open>The batch-interval matrix\<close>

record interval_run =
  ir_seed :: u64
  ir_interval_ms :: u64
  ir_total_batches :: nat
  ir_total_orders :: nat
  ir_total_fills :: nat
  ir_submitted_volume :: u64
  ir_cleared_volume :: u64
  ir_fill_rate :: u32

definition flow_config :: "u64 \<Rightarrow> synthetic_flow_config" where
  "flow_config seed =
     default_config\<lparr>cfg_seed := seed, cfg_instrument := 1, cfg_num_batches := 40, cfg_min_orders := 4,
       cfg_max_orders := 10\<rparr>"

text \<open>The orders of a bundle become submissions at times drawn over the horizon of ten seconds.\<close>

definition submit_order ::
  "submission list \<times> u64 \<Rightarrow> order \<times> salted_order_preimage \<Rightarrow> submission list \<times> u64" where
  "submit_order = (\<lambda>(subs, rng) (o1, p).
     let (delay, rng) = gen_range_u64 0 (10 * 1000000000) rng
     in (subs @ [\<lparr>sub_order = o1, sub_arrival = 1700000000000000000 + delay, sub_salt = pre_nonce p\<rparr>], rng))"

definition flow_submissions :: "u64 \<Rightarrow> synthetic_batch_bundle list \<Rightarrow> submission list" where
  "flow_submissions seed bundles =
     fst (foldl (\<lambda>s bd. foldl submit_order s (zip (bat_orders (sb_batch bd)) (sb_preimages bd)))
       ([], seed XOR 0x5DEECE66D) bundles)"

definition evaluate_bundle :: "ledger \<times> interval_run \<Rightarrow> synthetic_batch_bundle \<Rightarrow> ledger \<times> interval_run" where
  "evaluate_bundle = (\<lambda>(l, run) bd.
     if bat_orders (sb_batch bd) = [] then (l, run)
     else
       let run = run\<lparr>ir_total_orders := ir_total_orders run + length (bat_orders (sb_batch bd)),
                     ir_submitted_volume := foldl (\<lambda>v o1. v + ord_qty o1) (ir_submitted_volume run) (bat_orders (sb_batch bd))\<rparr>
       in case execute_batch l (sb_batch bd) of
            Err e \<Rightarrow> (l, run)
          | Ok exec \<Rightarrow>
              (res_post_state exec,
               run\<lparr>ir_total_fills := ir_total_fills run + length (res_fills exec),
                   ir_cleared_volume := ir_cleared_volume run + out_volume (res_outcome exec)\<rparr>))"

definition evaluate_interval :: "u64 \<Rightarrow> u64 \<Rightarrow> interval_run option" where
  "evaluate_interval seed interval_ms =
     (let inst = 1; session = generate_session (flow_config seed);
          submissions = flow_submissions seed (ss_batches session); start = 1700000000000000000
      in map_option (\<lambda>batches.
           let run = \<lparr>ir_seed = seed, ir_interval_ms = interval_ms, ir_total_batches = length batches, ir_total_orders = 0,
                      ir_total_fills = 0, ir_submitted_volume = 0, ir_cleared_volume = 0, ir_fill_rate = 0\<rparr>;
               (l, run) = foldl evaluate_bundle (funded_ledger inst 4, run) batches
           in run\<lparr>ir_fill_rate := (if ir_submitted_volume run = 0 then 0
                                 else ucast (ir_cleared_volume run * 1000 div ir_submitted_volume run))\<rparr>)
         (partition_stream (new_stream inst submissions) start (interval_ms * 1000000) None))"

definition intervals_ms :: "u64 list" where
  "intervals_ms = [10, 50, 100, 250, 500]"

definition bench_seeds :: "u64 list" where
  "bench_seeds = [101, 202, 303]"

text \<open>The runs in order; \<open>None\<close> stands for a run that does not return.\<close>

definition collect_interval_runs :: "interval_run option list" where
  "collect_interval_runs = concat (map (\<lambda>seed. map (evaluate_interval seed) intervals_ms) bench_seeds)"

definition write_interval_run :: "interval_run \<Rightarrow> json_writer \<times> string \<Rightarrow> json_writer \<times> string" where
  "write_interval_run r = (\<lambda>(w, csv).
     let w = begin_object w;
         w = field_u64 ''seed'' (ir_seed r) w;
         w = field_u64 ''interval_ms'' (ir_interval_ms r) w;
         w = field_u64 ''interval_nanos'' (ir_interval_ms r * 1000000) w;
         w = field_u64 ''total_batches'' (of_nat (ir_total_batches r)) w;
         w = field_u64 ''total_submitted_orders'' (of_nat (ir_total_orders r)) w;
         w = field_u64 ''total_fills'' (of_nat (ir_total_fills r)) w;
         w = field_u64 ''total_submitted_volume'' (ir_submitted_volume r) w;
         w = field_u64 ''total_cleared_volume'' (ir_cleared_volume r) w;
         w = field_u64 ''fill_rate_permille'' (ucast (ir_fill_rate r)) w
     in (end_object w,
         csv @ line (to_string (ir_seed r) @ '','' @ to_string (ir_interval_ms r) @ '','' @ dec_string (ir_total_batches r) @ '',''
           @ dec_string (ir_total_orders r) @ '','' @ dec_string (ir_total_fills r) @ '',''
           @ to_string (ir_submitted_volume r) @ '','' @ to_string (ir_cleared_volume r) @ '',''
           @ to_string (ir_fill_rate r))))"

definition interval_matrix_artifacts :: "build_platform \<Rightarrow> interval_run list \<Rightarrow> artifact list \<times> string" where
  "interval_matrix_artifacts platform runs =
     (let w = begin_object new_writer;
          w = field_string ''experiment_name'' ''faircross_batch_interval_matrix'' w;
          w = field_string ''reproduction_command'' ''cpp/bin/faircross_bench batch-interval-matrix'' w;
          w = write_environment platform w;
          w = field_u64 ''horizon_seconds'' 10 w;
          w = write_key ''intervals_evaluated_ms'' w;
          w = end_array (fold value_u64 intervals_ms (begin_array w));
          w = write_key ''seeds_evaluated'' w;
          w = end_array (fold value_u64 bench_seeds (begin_array w));
          w = write_key ''raw_runs'' w;
          w = begin_array w;
          csv = line (''seed,interval_ms,total_batches,total_submitted_orders,total_fills,''
                   @ ''total_submitted_volume,total_cleared_volume,fill_rate_permille'');
          (w, csv) = fold write_interval_run runs (w, csv);
          w = end_array w;
          w = end_object w
      in ([(''batch_interval_matrix_raw.json'', line (wr_buffer w)), (''batch_interval_matrix_raw.csv'', csv)],
          line ''  wrote batch_interval_matrix_raw.{json,csv}''))"

end
