(* ===== verification/Bench_Runs.thy ===== *)
theory Bench_Runs
  imports Bench_Reports
begin

text \<open>
  The benchmarks of the proof layer (\<open>bench/zk_benchmarks.cpp\<close>, \<open>bench/session_benchmarks.cpp\<close>) and
  what they take from \<open>bench/fixtures.hpp\<close>.  A benchmark depends on the clock only through the times
  that its timers report: \<open>clock k\<close> is the answer of the \<open>k\<close>-th call of \<open>elapsed_us\<close>, and a run carries
  the number of calls along.  A call whose result the source discards is left out.
\<close>

section \<open>How a run ends\<close>

text \<open>
  A run that completes leaves its artifacts and its text for the console.  Otherwise it ends with an
  exception, or with \<open>std::exit(1)\<close> after a complaint; \<open>Unmodelled\<close> marks the points that the model does
  not describe: a partition that does not return, and a constraint system that is read after a
  subrelation failed on it.
\<close>

datatype bench_stop = Threw string | Exited string | Unmodelled

type_synonym bench_run = "bench_stop + (artifact list \<times> string)"

type_synonym clock = "nat \<Rightarrow> u64"

definition thrown :: "'a throws \<Rightarrow> bench_stop + 'a" where
  "thrown r = (case r of Inl what \<Rightarrow> Inl (Threw what) | Inr v \<Rightarrow> Inr v)"

text \<open>\<open>if (r.is_err()) { std::cerr << what << r.error_message(); std::exit(1); }\<close>\<close>

definition or_exit :: "string \<Rightarrow> 'a result \<Rightarrow> ('a \<Rightarrow> bench_stop + 'b) \<Rightarrow> bench_stop + 'b" where
  "or_exit what r f = (case r of Err e \<Rightarrow> Inl (Exited (line (what @ error_message r))) | Ok v \<Rightarrow> f v)"

definition open_artifact :: "build_platform \<Rightarrow> string \<Rightarrow> string \<Rightarrow> json_writer" where
  "open_artifact platform bench_name command =
     (let w = begin_object new_writer;
          w = field_string ''benchmark_name'' bench_name w;
          w = field_string ''reproduction_command'' command w
      in write_environment platform w)"

section \<open>The constraint count of a certificate\<close>

text \<open>\<open>std::string::find\<close> from a position.\<close>

definition find_from :: "bytes \<Rightarrow> bytes \<Rightarrow> nat \<Rightarrow> nat option" where
  "find_from s pat start = find (\<lambda>i. starts_with (drop i s) pat) [start..<length s + 1 - length pat]"

definition is_space_byte :: "u8 \<Rightarrow> bool" where
  "is_space_byte x \<longleftrightarrow> x = 32 \<or> (9 \<le> x \<and> x \<le> 13)"

text \<open>\<open>std::stoull\<close>: leading space, an optional sign, and the longest run of digits.\<close>

definition stoull :: "bytes \<Rightarrow> u64 throws" where
  "stoull s =
     (let s = dropWhile is_space_byte s;
          negative = (take 1 s = [byte_of CHR ''-'']);
          s = (if negative \<or> take 1 s = [byte_of CHR ''+''] then drop 1 s else s);
          ds = takeWhile is_digit s
      in throw_if (ds = [] \<or> 2 ^ 64 \<le> digits_value ds) ''stoull''
           (Inr (if negative then - of_nat (digits_value ds) else of_nat (digits_value ds))))"

text \<open>Without the marker \<open>find\<close> returns the largest \<open>size_t\<close>, and adding the marker's length wraps around.\<close>

definition constraints_of :: "batch_proof \<Rightarrow> u64 throws" where
  "constraints_of prf =
     (let cert = bp_bytes prf;
          marker = bytes_of_string ''constraints='';
          start = (case find_from cert marker 0 of Some i \<Rightarrow> i + length marker | None \<Rightarrow> length marker - 1);
          stop = find_from cert [byte_of CHR '':''] start
      in throw_if (length cert < start) ''basic_string::substr''
           (stoull (case stop of Some j \<Rightarrow> take (j - start) (drop start cert) | None \<Rightarrow> drop start cert)))"

section \<open>The variables of the whole system\<close>

record system_counts =
  sc_constraints :: u64
  sc_public_variables :: u64
  sc_witness_variables :: u64

text \<open>The errors of the subrelations are discarded; \<open>None\<close> stands for a system that one of them left.\<close>

definition ignoring_errors :: "'a result \<Rightarrow> ('a \<Rightarrow> 'b option) \<Rightarrow> 'b option" where
  "ignoring_errors r f = (case r of Ok v \<Rightarrow> f v | Err e \<Rightarrow> None)"

definition synthesize_full_system :: "proof_fixture \<Rightarrow> system_counts option" where
  "synthesize_full_system fx =
     (let wit = pf_witness fx; b = bw_batch wit;
          tree = new_merkle_tree (map commit_order (bw_preimages wit));
          (vars, s1) = synthesize_order_validity (bat_instrument b) (bat_orders b) (new_constraint_system, []);
          cp = (if 0 < pi_clearing_price (pf_public_inputs fx) then Some (pi_clearing_price (pf_public_inputs fx)) else None);
          vol = pi_cleared_volume (pf_public_inputs fx)
      in ignoring_errors (synthesize_complete_input_accounting b (bw_preimages wit) tree (bw_accounting wit)
           (bw_allocation wit) s1) (\<lambda>s2.
         ignoring_errors (synthesize_clearing_optimality b cp vol s2) (\<lambda>(metrics, s3).
         ignoring_errors (case cp of None \<Rightarrow> Ok s3 | Some p \<Rightarrow> synthesize_allocation b p vol (bw_allocation wit) s3) (\<lambda>s4.
         ignoring_errors (case cp of None \<Rightarrow> Ok s4 | Some p \<Rightarrow> synthesize_fill_bounds p (bat_orders b) (bw_fills wit) s4) (\<lambda>s5.
         ignoring_errors (synthesize_conservation (bw_pre_state wit) (bw_post_state wit) (bw_fills wit)
           (bat_instrument b) s5) (\<lambda>(cs, scalars).
           Some \<lparr>sc_constraints = of_nat (length (cs_constraints cs)), sc_public_variables = of_nat (cs_num_public cs),
                 sc_witness_variables = of_nat (cs_num_witness cs)\<rparr>))))))"

section \<open>The proof layer\<close>

definition batch_sizes :: "nat list" where
  "batch_sizes = [2, 4, 8, 16, 32, 64]"

definition default_proof :: batch_proof where
  "default_proof =
     \<lparr>bp_version = 0,
      bp_public_inputs =
        \<lparr>pi_pre_state_root = replicate 32 0, pi_post_state_root = replicate 32 0, pi_batch_header_hash = replicate 32 0,
         pi_oracle_snapshot_hash = replicate 32 0, pi_clearing_price = 0, pi_cleared_volume = 0\<rparr>,
      bp_bytes = []\<rparr>"

definition prove_sample ::
  "proof_fixture \<Rightarrow> clock \<Rightarrow> nat \<times> u64 list \<times> u64 list \<times> batch_proof \<Rightarrow> nat \<Rightarrow>
     (nat \<times> u64 list \<times> u64 list \<times> batch_proof) throws" where
  "prove_sample fx clock = (\<lambda>(t, prove_us, verify_us, last_proof) i.
     value_of (prove (pf_public_inputs fx) (pf_witness fx)) (\<lambda>prf.
       Inr (t + 2, prove_us @ [clock t], verify_us @ [clock (t + 1)], prf)))"

definition proof_scaling_point :: "clock \<Rightarrow> nat \<times> json_writer \<Rightarrow> nat \<Rightarrow> bench_stop + nat \<times> json_writer" where
  "proof_scaling_point clock = (\<lambda>(t, w) batch_size.
     try_then (thrown (build_proof_fixture batch_size (funded_ledger 1 batch_size) 1)) (\<lambda>fx.
     try_then (thrown (loop_throws (prove_sample fx clock) (t, [], [], default_proof) [0..<5]))
       (\<lambda>(t, prove_us, verify_us, prf).
     case synthesize_full_system fx of None \<Rightarrow> Inl Unmodelled | Some counts \<Rightarrow>
       let w = begin_object w;
           w = field_u64 ''batch_size'' (of_nat batch_size) w;
           w = field_u64 ''num_constraints'' (sc_constraints counts) w;
           w = field_u64 ''num_public_variables'' (sc_public_variables counts) w;
           w = field_u64 ''num_witness_variables'' (sc_witness_variables counts) w;
           w = field_u64 ''proof_size_bytes'' (of_nat (length (bp_bytes prf))) w;
           w = field_u64 ''prove_time_us'' (median prove_us) w;
           w = field_u64 ''verify_time_us'' (median verify_us) w
       in Inr (t, end_object w))))"

definition run_proof_scaling :: "build_platform \<Rightarrow> clock \<Rightarrow> bench_run" where
  "run_proof_scaling platform clock =
     (let w = open_artifact platform ''faircross_single_batch_proof_v0_scaling'' ''cpp/bin/faircross_bench proof-scaling'';
          w = field_u64 ''samples_per_point'' 5 w;
          w = begin_array (write_key ''data_points'' w)
      in try_then (loop_throws (proof_scaling_point clock) (0, w) batch_sizes) (\<lambda>(t, w).
         Inr ([(''zk_proof_scaling_benchmark.json'', line (wr_buffer (end_object (end_array w))))],
              line ''  wrote zk_proof_scaling_benchmark.json'')))"

definition accounting_sample ::
  "proof_fixture \<Rightarrow> clock \<Rightarrow> nat \<times> u64 list \<times> nat \<times> nat \<times> nat \<Rightarrow> nat \<Rightarrow>
     bench_stop + nat \<times> u64 list \<times> nat \<times> nat \<times> nat" where
  "accounting_sample fx clock = (\<lambda>(t, us, counts) i.
     let wit = pf_witness fx in
     or_exit ''accounting synthesis failed: ''
       (synthesize_complete_input_accounting (bw_batch wit) (bw_preimages wit)
          (new_merkle_tree (map commit_order (bw_preimages wit))) (bw_accounting wit) (bw_allocation wit)
          (new_constraint_system, []))
       (\<lambda>(cs, scalars).
          Inr (t + 1, us @ [clock t], length (cs_constraints cs), cs_num_public cs, cs_num_witness cs)))"

definition accounting_point :: "clock \<Rightarrow> nat \<times> json_writer \<Rightarrow> nat \<Rightarrow> bench_stop + nat \<times> json_writer" where
  "accounting_point clock = (\<lambda>(t, w) batch_size.
     try_then (thrown (build_proof_fixture batch_size (funded_ledger 1 batch_size) 1)) (\<lambda>fx.
     try_then (loop_throws (accounting_sample fx clock) (t, [], 0, 0, 0) [0..<5]) (\<lambda>(t, us, cons, publics, witnesses).
       let w = begin_object w;
           w = field_u64 ''batch_size'' (of_nat batch_size) w;
           w = field_u64 ''num_constraints'' (of_nat cons) w;
           w = field_u64 ''num_public_variables'' (of_nat publics) w;
           w = field_u64 ''num_witness_variables'' (of_nat witnesses) w;
           w = field_u64 ''synthesis_and_verify_us'' (median us) w
       in Inr (t, end_object w))))"

definition run_accounting_metrics :: "build_platform \<Rightarrow> clock \<Rightarrow> bench_run" where
  "run_accounting_metrics platform clock =
     (let w = open_artifact platform ''zk_complete_input_accounting_r1cs'' ''cpp/bin/faircross_bench accounting-metrics'';
          w = begin_array (write_key ''runs'' w)
      in try_then (loop_throws (accounting_point clock) (0, w) batch_sizes) (\<lambda>(t, w).
         Inr ([(''zk_accounting_metrics.json'', line (wr_buffer (end_object (end_array w))))],
              line ''  wrote zk_accounting_metrics.json'')))"

definition optimality_sample ::
  "batch \<Rightarrow> clearing_outcome \<Rightarrow> clock \<Rightarrow> nat \<times> u64 list \<times> proof_complexity_metrics \<Rightarrow> nat \<Rightarrow>
     (nat \<times> u64 list \<times> proof_complexity_metrics) throws" where
  "optimality_sample b outcome clock = (\<lambda>(t, us, last_metrics) i.
     value_of (synthesize_clearing_optimality b (out_price outcome) (out_volume outcome) (new_constraint_system, []))
       (\<lambda>(metrics, s). Inr (t + 1, us @ [clock t], metrics)))"

definition optimality_point :: "clock \<Rightarrow> nat \<times> json_writer \<Rightarrow> nat \<Rightarrow> (nat \<times> json_writer) throws" where
  "optimality_point clock = (\<lambda>(t, w) batch_size.
     let inst = 1; b = new_batch 1 inst (optimality_orders batch_size inst) in
     value_of (determine_clearing_outcome b) (\<lambda>outcome.
     try_then (loop_throws (optimality_sample b outcome clock)
         (t, [], \<lparr>pcm_num_constraints = 0, pcm_num_public = 0, pcm_num_witness = 0, pcm_num_candidates = 0\<rparr>) [0..<5])
       (\<lambda>(t, us, metrics).
       let w = begin_object w;
           w = field_u64 ''batch_size'' (of_nat batch_size) w;
           w = field_u64 ''num_candidate_prices'' (of_nat (pcm_num_candidates metrics)) w;
           w = field_u64 ''num_constraints'' (of_nat (pcm_num_constraints metrics)) w;
           w = field_u64 ''num_public_variables'' (of_nat (pcm_num_public metrics)) w;
           w = field_u64 ''num_witness_variables'' (of_nat (pcm_num_witness metrics)) w;
           w = field_u64 ''synthesis_and_verify_us'' (median us) w
       in Inr (t, end_object w))))"

definition run_clearing_optimality_metrics :: "build_platform \<Rightarrow> clock \<Rightarrow> bench_run" where
  "run_clearing_optimality_metrics platform clock =
     (let w = open_artifact platform ''zk_clearing_optimality_r1cs'' ''cpp/bin/faircross_bench clearing-optimality'';
          w = begin_array (write_key ''runs'' w)
      in try_then (thrown (loop_throws (optimality_point clock) (0, w) [2, 4, 8, 16, 32])) (\<lambda>(t, w).
         Inr ([(''zk_clearing_optimality_metrics.json'', line (wr_buffer (end_object (end_array w))))],
              line ''  wrote zk_clearing_optimality_metrics.json'')))"

section \<open>Sessions\<close>

definition run_two_step_ivc_spike :: "build_platform \<Rightarrow> clock \<Rightarrow> bench_run" where
  "run_two_step_ivc_spike platform clock =
     try_then (thrown (build_session 2)) (\<lambda>(initial, steps).
     let stp1 = steps ! 0; stp2 = steps ! 1; step_1_us = clock 0; step_2_us = clock 1; verify_us = clock 2 in
     or_exit ''step 1 fold failed: ''
       (fold_step (step_public_inputs stp1) (step_witness stp1) (step_timestamp stp1) initial) (\<lambda>s1.
     or_exit ''step 2 fold failed: ''
       (fold_step (step_public_inputs stp2) (step_witness stp2) (step_timestamp stp2) s1) (\<lambda>s2.
     try_then (thrown (value_of (prove_session initial steps) Inr)) (\<lambda>session.
     or_exit ''session verify failed: '' (verify_session (sn_public_inputs session) session) (\<lambda>u.
     try_then (thrown (constraints_of (sn_step_proofs session ! 0))) (\<lambda>constraints_1.
     try_then (thrown (constraints_of (sn_step_proofs session ! 1))) (\<lambda>constraints_2.
       let w = open_artifact platform ''faircross_two_step_ivc_spike'' ''cpp/bin/faircross_bench two-step-ivc'';
           w = field_u64 ''step_1_prove_us'' step_1_us w;
           w = field_u64 ''step_2_prove_us'' step_2_us w;
           w = field_u64 ''total_prove_us'' (step_1_us + step_2_us) w;
           w = field_u64 ''verify_us'' verify_us w;
           w = field_u64 ''step_1_constraints'' constraints_1 w;
           w = field_u64 ''step_2_constraints'' constraints_2 w;
           w = field_string ''history_accumulator_final''
                 (to_hex (rs_history (sp_final_state (sn_public_inputs session)))) w
       in Inr ([(''zk_two_step_ivc_spike.json'', line (wr_buffer (end_object w)))],
               line ''  wrote zk_two_step_ivc_spike.json''))))))))"

definition run_ten_batch_audit :: "build_platform \<Rightarrow> clock \<Rightarrow> bench_run" where
  "run_ten_batch_audit platform clock =
     try_then (thrown (build_session 10)) (\<lambda>(initial, steps).
     let total_prove_us = clock 0; total_verify_us = clock 1 in
     or_exit ''session prove failed: '' (prove_session initial steps) (\<lambda>session.
     or_exit ''session verify failed: '' (verify_session (sn_public_inputs session) session) (\<lambda>u.
       let final = sp_final_state (sn_public_inputs session);
           w = open_artifact platform ''faircross_ten_batch_running_audit'' ''cpp/bin/faircross_bench ten-batch-audit'';
           w = field_u64 ''num_batches'' (of_nat (sn_num_batches session)) w;
           w = field_u64 ''total_prove_time_us'' total_prove_us w;
           w = field_u64 ''mean_prove_time_per_batch_us'' (total_prove_us div of_nat (sn_num_batches session)) w;
           w = field_u64 ''total_verify_time_us'' total_verify_us w;
           w = field_u64 ''proof_certificate_bytes'' (of_nat (length (sn_certificate session))) w;
           w = field_string ''final_history_accumulator'' (to_hex (rs_history final)) w;
           w = field_u64 ''final_batch_id'' (rs_batch_id final) w
       in Inr ([(''zk_ten_batch_audit_metrics.json'', line (wr_buffer (end_object w)))],
               line ''  wrote zk_ten_batch_audit_metrics.json''))))"

text \<open>Every step proof on its own, against one folded session.\<close>

definition prove_each :: "batch_proof list \<Rightarrow> recursive_step \<Rightarrow> batch_proof list throws" where
  "prove_each proofs stp =
     value_of (prove (step_public_inputs stp) (step_witness stp)) (\<lambda>prf. Inr (proofs @ [prf]))"

definition independent_sample ::
  "recursive_step list \<Rightarrow> clock \<Rightarrow> nat \<times> u64 list \<times> u64 list \<times> u64 \<Rightarrow> nat \<Rightarrow> (nat \<times> u64 list \<times> u64 list \<times> u64) throws" where
  "independent_sample steps clock = (\<lambda>(t, ind_prove, ind_verify, last_bytes) s.
     try_then (loop_throws prove_each [] steps) (\<lambda>proofs.
     Inr (t + 2, ind_prove @ [clock t], ind_verify @ [clock (t + 1)],
          foldl (\<lambda>n prf. n + of_nat (length (bp_bytes prf))) 0 proofs)))"

definition recursive_sample ::
  "running_state \<Rightarrow> recursive_step list \<Rightarrow> clock \<Rightarrow> nat \<times> u64 list \<times> u64 list \<times> u64 \<Rightarrow> nat \<Rightarrow>
     (nat \<times> u64 list \<times> u64 list \<times> u64) throws" where
  "recursive_sample initial steps clock = (\<lambda>(t, rec_prove, rec_verify, last_bytes) s.
     value_of (prove_session initial steps) (\<lambda>session.
     Inr (t + 2, rec_prove @ [clock t], rec_verify @ [clock (t + 1)], of_nat (length (sn_certificate session)))))"

definition comparison_point :: "clock \<Rightarrow> nat \<times> json_writer \<Rightarrow> nat \<Rightarrow> (nat \<times> json_writer) throws" where
  "comparison_point clock = (\<lambda>(t, w) session_length.
     try_then (build_session session_length) (\<lambda>(initial, steps).
     try_then (loop_throws (independent_sample steps clock) (t, [], [], 0) [0..<5])
       (\<lambda>(t, ind_prove, ind_verify, independent_bytes).
     try_then (loop_throws (recursive_sample initial steps clock) (t, [], [], 0) [0..<5])
       (\<lambda>(t, rec_prove, rec_verify, recursive_bytes).
       let w = begin_object w;
           w = field_u64 ''session_length_batches'' (of_nat session_length) w;
           w = field_u64 ''independent_total_proof_size_bytes'' independent_bytes w;
           w = field_u64 ''independent_total_prove_time_us'' (median ind_prove) w;
           w = field_u64 ''independent_total_verify_time_us'' (median ind_verify) w;
           w = field_u64 ''recursive_certificate_size_bytes'' recursive_bytes w;
           w = field_u64 ''recursive_total_prove_time_us'' (median rec_prove) w;
           w = field_u64 ''recursive_total_verify_time_us'' (median rec_verify) w;
           w = field_u64 ''storage_compression_ratio_permille''
                 (if recursive_bytes = 0 then 0 else independent_bytes * 1000 div recursive_bytes) w
       in Inr (t, end_object w)))))"

definition run_recursive_vs_independent :: "build_platform \<Rightarrow> clock \<Rightarrow> bench_run" where
  "run_recursive_vs_independent platform clock =
     (let w = open_artifact platform ''faircross_recursive_vs_independent_history''
                ''cpp/bin/faircross_bench recursive-vs-independent'';
          w = field_u64 ''samples_per_point'' 5 w;
          w = begin_array (write_key ''results'' w)
      in try_then (thrown (loop_throws (comparison_point clock) (0, w) [1, 2, 5, 10, 20, 50])) (\<lambda>(t, w).
         Inr ([(''zk_recursive_vs_independent_comparison.json'', line (wr_buffer (end_object (end_array w))))],
              line ''  wrote zk_recursive_vs_independent_comparison.json'')))"

end
