(* ===== verification/Doubles.thy ===== *)
theory Doubles
  imports Primitives "HOL-Library.Log_Nat"
begin

text \<open>
  The floating point of the benchmarks (\<open>bench/harness.hpp\<close>): the mean and the percentiles of samples,
  and the decimal texts of the reports.  Every double of the benchmarks is a non-negative value far
  inside the normal range, so a double is the rational number it represents, and an operation is the
  exact operation followed by the rounding of IEEE 754 to 53 significant bits, to the nearest and to
  the even one of two equally near.  The lemmas bound what the rounding loses.
\<close>

type_synonym double = rat

section \<open>Rounding\<close>

definition round_even :: "rat \<Rightarrow> int" where
  "round_even x =
     (let n = \<lfloor>x\<rfloor>; d = x - of_int n
      in if d < 1 / 2 \<or> (d = 1 / 2 \<and> even n) then n else n + 1)"

text \<open>The power of two of the leading bit, or one less when the value is itself a power below one.\<close>

definition exponent_of :: "rat \<Rightarrow> int" where
  "exponent_of x = (if 1 \<le> x then int (floorlog 2 (nat \<lfloor>x\<rfloor>)) - 1 else - int (floorlog 2 (nat \<lfloor>1 / x\<rfloor>)))"

definition round_double :: "rat \<Rightarrow> double" where
  "round_double x =
     (if x = 0 then 0
      else let scale = 2 powi (52 - exponent_of x) in of_int (round_even (x * scale)) / scale)"

lemma round_even_close: "\<bar>of_int (round_even x) - x\<bar> \<le> 1 / 2"
proof -
  have "of_int \<lfloor>x\<rfloor> \<le> x" "x < of_int \<lfloor>x\<rfloor> + 1" by linarith+
  then show ?thesis unfolding round_even_def Let_def by (auto simp: abs_le_iff)
qed

lemma round_even_int [simp]: "round_even (of_int n) = n"
  by (simp add: round_even_def)

lemma floorlog_powers:
  fixes x :: rat
  assumes "1 \<le> x"
  defines "k \<equiv> floorlog 2 (nat \<lfloor>x\<rfloor>)"
  shows "0 < k" "2 ^ (k - 1) \<le> x" "x < 2 ^ k"
proof -
  have pos: "0 < nat \<lfloor>x\<rfloor>" using assms(1) by simp
  then have B: "2 ^ (k - 1) \<le> nat \<lfloor>x\<rfloor>" "nat \<lfloor>x\<rfloor> < 2 ^ k"
    unfolding k_def using floorlog_bounds [of "nat \<lfloor>x\<rfloor>" 2] by simp_all
  show "0 < k" using B(2) pos by (cases k) simp_all
  have N: "int (nat \<lfloor>x\<rfloor>) = \<lfloor>x\<rfloor>" using pos by simp
  have "int (2 ^ (k - 1)) \<le> \<lfloor>x\<rfloor>" "\<lfloor>x\<rfloor> < int (2 ^ k)"
    using B N by (metis of_nat_le_iff, metis of_nat_less_iff)
  then have "(of_int (int (2 ^ (k - 1))) :: rat) \<le> x" "x < of_int (int (2 ^ k))"
    by (simp_all only: le_floor_iff floor_less_iff)
  then show "2 ^ (k - 1) \<le> x" "x < 2 ^ k" by simp_all
qed

lemma exponent_below:
  assumes "0 < x"
  shows "2 powi exponent_of x \<le> x"
proof (cases "1 \<le> x")
  case True
  note F = floorlog_powers [OF this]
  from F(1) have "2 powi exponent_of x = (2 :: rat) ^ (floorlog 2 (nat \<lfloor>x\<rfloor>) - 1)"
    using True by (auto simp: exponent_of_def power_int_def nat_diff_distrib')
  with F(2) show ?thesis by simp
next
  case False
  then have "1 \<le> 1 / x" using assms by simp
  from floorlog_powers(3) [OF this] False assms show ?thesis
    by (simp add: exponent_of_def power_int_minus field_simps)
qed

lemma round_double_close:
  assumes "0 \<le> x"
  shows "\<bar>round_double x - x\<bar> \<le> x / 2 ^ 53"
proof (cases "x = 0")
  case False
  define s where "s = (2 :: rat) powi (52 - exponent_of x)"
  have s: "0 < s" by (simp add: s_def)
  have "round_double x - x = (of_int (round_even (x * s)) - x * s) / s"
    using False s by (simp add: round_double_def Let_def field_simps flip: s_def)
  then have "\<bar>round_double x - x\<bar> = \<bar>of_int (round_even (x * s)) - x * s\<bar> / s" using s by simp
  also have "\<dots> \<le> (1 / 2) / s" using s by (intro divide_right_mono round_even_close) simp
  also have "\<dots> = 2 powi exponent_of x / 2 ^ 53"
  proof -
    have "s = 2 ^ 52 / 2 powi exponent_of x" by (simp add: s_def power_int_diff)
    then show ?thesis by simp
  qed
  also have "\<dots> \<le> x / 2 ^ 53" using exponent_below False assms by (intro divide_right_mono) simp_all
  finally show ?thesis .
qed (simp add: round_double_def)

lemma round_double_nonneg: "0 \<le> x \<Longrightarrow> 0 \<le> round_double x"
proof -
  assume x: "0 \<le> x"
  then have "x / 2 ^ 53 \<le> x" by simp
  with round_double_close [OF x] show ?thesis by linarith
qed

text \<open>The integers below two to the 53 are doubles.\<close>

lemma round_double_nat:
  assumes "n < 2 ^ 53"
  shows "round_double (of_nat n) = of_nat n"
proof (cases "n = 0")
  case False
  let ?k = "floorlog 2 n"
  have fl: "\<lfloor>(of_nat n :: rat)\<rfloor> = int n" using floor_of_int [of "int n", where 'a = rat] by simp
  have "?k \<le> 53"
  proof (rule ccontr)
    assume "\<not> ?k \<le> 53"
    then have "(2 :: nat) ^ 53 \<le> 2 ^ (?k - 1)" by (intro power_increasing) simp_all
    also have "\<dots> \<le> n" using floorlog_bounds [of n 2] False by simp
    finally show False using assms by simp
  qed
  then have e: "52 - exponent_of (of_nat n) = int (53 - ?k)" using False by (simp add: exponent_of_def fl)
  have "(of_nat n :: rat) * 2 ^ (53 - ?k) = of_int (int n * 2 ^ (53 - ?k))" by simp
  then have "round_even ((of_nat n :: rat) * 2 ^ (53 - ?k)) = int n * 2 ^ (53 - ?k)" by (simp only: round_even_int)
  then show ?thesis using False unfolding round_double_def Let_def e power_int_of_nat by simp
qed (simp add: round_double_def)

section \<open>Samples\<close>

definition double_of :: "u64 \<Rightarrow> double" where
  "double_of n = round_double (of_nat (unat n))"

definition mean :: "u64 list \<Rightarrow> double" where
  "mean samples =
     (if samples = [] then 0
      else let total = foldl (+) 0 samples
           in round_double (double_of total / double_of (of_nat (length samples))))"

text \<open>The conversion to \<open>size_t\<close> cuts the fraction off.\<close>

definition percentile :: "u64 list \<Rightarrow> double \<Rightarrow> u64" where
  "percentile samples p =
     (if samples = [] then 0
      else let idx = nat \<lfloor>round_double (p * double_of (of_nat (length samples - 1)))\<rfloor>
           in sort samples ! idx)"

text \<open>Fixed notation with three digits after the point, of the value rounded to the nearest thousandth.\<close>

definition fixed3 :: "double \<Rightarrow> string" where
  "fixed3 v =
     (let n = nat (round_even (v * 1000))
      in dec_string (n div 1000)
           @ [CHR ''.'', dec_digit (n div 100 mod 10), dec_digit (n div 10 mod 10), dec_digit (n mod 10)])"

lemma unat_sum_samples: "sum_list (map unat (us :: u64 list)) < 2 ^ 64 \<Longrightarrow> unat (foldl (+) 0 us) = sum_list (map unat us)"
proof -
  have "unat a + sum_list (map unat us) < 2 ^ 64 \<Longrightarrow> unat (foldl (+) a us) = unat a + sum_list (map unat us)" for a :: u64
  proof (induction us arbitrary: a)
    case (Cons u us)
    then have "unat (a + u) = unat a + unat u" by (intro unat_add_fits) simp
    with Cons show ?case by simp
  qed simp
  from this [of 0] show "sum_list (map unat us) < 2 ^ 64 \<Longrightarrow> ?thesis" by simp
qed

text \<open>A mean rounds once, as long as the sum of the samples has at most 53 bits.\<close>

lemma mean_close:
  assumes "us \<noteq> []" "sum_list (map unat us) < 2 ^ 53" "length us < 2 ^ 53"
  defines "average \<equiv> of_nat (sum_list (map unat us)) / of_nat (length us) :: rat"
  shows "\<bar>mean us - average\<bar> \<le> average / 2 ^ 53"
proof -
  have "unat (of_nat (length us) :: u64) = length us" using assms(3) by (simp add: unsigned_of_nat take_bit_nat_eq_self)
  then have "mean us = round_double average"
    using assms(1-3) by (simp add: mean_def Let_def double_of_def unat_sum_samples round_double_nat average_def del: of_nat_unat)
  then show ?thesis using round_double_close [of average] by (simp add: average_def)
qed

text \<open>A percentile of at most 100 in 101 is one of the samples: its index is in range.\<close>

lemma percentile_index:
  assumes "us \<noteq> []" "length us < 2 ^ 53" "0 \<le> p" "p \<le> 100 / 101"
  shows "nat \<lfloor>round_double (p * double_of (of_nat (length us - 1)))\<rfloor> < length us"
proof -
  let ?m = "length us - 1"
  have "unat (of_nat ?m :: u64) = ?m" using assms(2) by (simp add: unsigned_of_nat take_bit_nat_eq_self)
  then have m: "double_of (of_nat ?m) = of_nat ?m" using assms(2) by (simp add: double_of_def round_double_nat)
  have le: "p * of_nat ?m \<le> 100 / 101 * of_nat ?m" using assms(4) by (intro mult_right_mono) simp_all
  have "0 \<le> p * of_nat ?m" using assms(3) by simp
  then have "round_double (p * of_nat ?m) \<le> p * of_nat ?m + p * of_nat ?m / 2 ^ 53"
    using round_double_close [of "p * of_nat ?m"] by linarith
  then have "round_double (p * of_nat ?m) \<le> of_nat ?m" using le by simp
  then have "\<lfloor>round_double (p * of_nat ?m)\<rfloor> \<le> int ?m" by (simp add: floor_le_iff)
  then have "nat \<lfloor>round_double (p * of_nat ?m)\<rfloor> \<le> ?m" by (simp add: nat_le_iff)
  moreover have "?m < length us" using assms(1) by simp
  ultimately show ?thesis unfolding m by (rule le_less_trans)
qed

lemma fixed3_close:
  assumes "0 \<le> v"
  shows "\<exists>n. fixed3 v = dec_string (n div 1000)
      @ [CHR ''.'', dec_digit (n div 100 mod 10), dec_digit (n div 10 mod 10), dec_digit (n mod 10)]
    \<and> \<bar>of_nat n / 1000 - v\<bar> \<le> 1 / 2000"
proof (intro exI conjI)
  let ?r = "round_even (v * 1000)"
  show "fixed3 v = dec_string (nat ?r div 1000)
      @ [CHR ''.'', dec_digit (nat ?r div 100 mod 10), dec_digit (nat ?r div 10 mod 10), dec_digit (nat ?r mod 10)]"
    by (simp add: fixed3_def Let_def)
  have "0 \<le> ?r" using assms by (simp add: round_even_def Let_def)
  then have "(of_nat (nat ?r) :: rat) = of_int ?r" by simp
  with round_even_close [of "v * 1000"] show "\<bar>of_nat (nat ?r) / 1000 - v\<bar> \<le> 1 / 2000"
    by (simp add: abs_le_iff field_simps)
qed

end
