(* ===== verification/Bench_Driver.thy ===== *)
theory Bench_Driver
  imports Bench_Runs Doubles
begin

text \<open>
  The benchmarks that report means and percentiles (\<open>bench/engine_benchmarks.cpp\<close>,
  \<open>bench/simulator_benchmarks.cpp\<close>), and the benchmark runner (\<open>bench/main.cpp\<close>) with what it leaves
  in the directory of the results.
\<close>

section \<open>The plaintext engine\<close>

definition profile_sample ::
  "ledger \<Rightarrow> batch \<Rightarrow> clock \<Rightarrow> nat \<times> u64 list \<times> u64 list \<Rightarrow> nat \<Rightarrow> (nat \<times> u64 list \<times> u64 list) throws" where
  "profile_sample pre_state b clock = (\<lambda>(t, exec_us, verify_us) i.
     value_of (execute_batch pre_state b) (\<lambda>exec.
       Inr (t + 2, exec_us @ [clock t], verify_us @ [clock (t + 1)])))"

definition profile_point ::
  "clock \<Rightarrow> nat \<times> json_writer \<times> string \<Rightarrow> nat \<Rightarrow> (nat \<times> json_writer \<times> string) throws" where
  "profile_point clock = (\<lambda>(t, w, csv) batch_size.
     let inst = 1; pre_state = funded_ledger inst batch_size; b = new_batch 1 inst (scaling_orders batch_size inst) in
     try_then (loop_throws (profile_sample pre_state b clock) (t, [], []) [0..<100]) (\<lambda>(t, exec_us, verify_us).
       let mean_exec = mean exec_us;
           throughput = (if 0 < mean_exec
             then round_double (round_double (double_of (of_nat batch_size) * 1000000) / mean_exec) else 0);
           p50 = percentile exec_us (1 / 2);
           p90 = percentile exec_us (round_double (9 / 10));
           p99 = percentile exec_us (round_double (99 / 100));
           w = begin_object w;
           w = field_u64 ''batch_size'' (of_nat batch_size) w;
           w = field_u64 ''iterations'' 100 w;
           w = field_string ''mean_execution_micros'' (fixed3 mean_exec) w;
           w = field_u64 ''p50_execution_micros'' p50 w;
           w = field_u64 ''p90_execution_micros'' p90 w;
           w = field_u64 ''p99_execution_micros'' p99 w;
           w = field_string ''mean_verification_micros'' (fixed3 (mean verify_us)) w;
           w = field_string ''throughput_orders_per_sec'' (fixed3 throughput) w
       in Inr (t, end_object w,
            csv @ line (dec_string batch_size @ '',100,'' @ fixed3 mean_exec @ '','' @ to_string p50 @ '',''
              @ to_string p90 @ '','' @ to_string p99 @ '','' @ fixed3 (mean verify_us) @ '','' @ fixed3 throughput))))"

definition run_engine_profile :: "build_platform \<Rightarrow> clock \<Rightarrow> bench_run" where
  "run_engine_profile platform clock =
     (let w = open_artifact platform ''faircross_plaintext_engine_profile'' ''cpp/bin/faircross_bench engine-profile'';
          w = field_u64 ''iterations_per_point'' 100 w;
          w = begin_array (write_key ''results'' w);
          csv = line (''batch_size,iterations,mean_execution_micros,p50_execution_micros,''
                   @ ''p90_execution_micros,p99_execution_micros,mean_verification_micros,''
                   @ ''throughput_orders_per_sec'')
      in try_then (thrown (loop_throws (profile_point clock) (0, w, csv) [10, 50, 100, 250, 500])) (\<lambda>(t, w, csv).
         Inr ([(''plaintext_engine_profile.json'', line (wr_buffer (end_object (end_array w)))),
               (''plaintext_engine_profile.csv'', csv)],
              line ''  wrote plaintext_engine_profile.{json,csv}'')))"

definition auction_sample ::
  "order list \<Rightarrow> batch \<Rightarrow> clock \<Rightarrow> nat \<times> u64 list \<times> u64 list \<times> qty \<times> qty \<Rightarrow> nat \<Rightarrow>
     (nat \<times> u64 list \<times> u64 list \<times> qty \<times> qty) throws" where
  "auction_sample orders b clock = (\<lambda>(t, naive_us, opt_us, last_naive, last_opt) i.
     let naive_result = naive_max_volume orders in
     value_of (determine_clearing_outcome b) (\<lambda>outcome.
       Inr (t + 2, naive_us @ [clock t], opt_us @ [clock (t + 1)], naive_result, out_volume outcome)))"

definition auction_point :: "clock \<Rightarrow> nat \<times> json_writer \<Rightarrow> nat \<Rightarrow> (nat \<times> json_writer) throws" where
  "auction_point clock = (\<lambda>(t, w) batch_size.
     let inst = 1; orders = scaling_orders batch_size inst; b = new_batch 1 inst orders in
     try_then (loop_throws (auction_sample orders b clock) (t, [], [], 0, 0) [0..<100])
       (\<lambda>(t, naive_us, opt_us, naive_result, opt_result).
       let naive_mean = mean naive_us; opt_mean = mean opt_us;
           w = begin_object w;
           w = field_u64 ''batch_size'' (of_nat batch_size) w;
           w = field_u64 ''iterations'' 100 w;
           w = field_string ''unoptimized_mean_micros'' (fixed3 naive_mean) w;
           w = field_string ''optimized_mean_micros'' (fixed3 opt_mean) w;
           w = field_string ''speedup_factor'' (fixed3 (if 0 < opt_mean then round_double (naive_mean / opt_mean) else 0)) w;
           w = field_bool ''differential_equivalence_verified'' (naive_result = opt_result) w
       in Inr (t, end_object w)))"

definition run_auction_optimization :: "build_platform \<Rightarrow> clock \<Rightarrow> bench_run" where
  "run_auction_optimization platform clock =
     (let w = open_artifact platform ''faircross_auction_optimization_comparison''
                ''cpp/bin/faircross_bench auction-optimization'';
          w = field_string ''hotspot_description'' ''Volume maximizer candidate price evaluation'' w;
          w = field_string ''algorithmic_change''
                ''Naive O(N^2) repeated order scans versus the engine's candidate-price evaluation'' w;
          w = field_string ''baseline_note''
                (''The naive variant lives only in bench/engine_benchmarks.cpp as a reference ''
                 @ ''baseline; it is not part of the engine and is never linked into the product'') w;
          w = begin_array (write_key ''results'' w)
      in try_then (thrown (loop_throws (auction_point clock) (0, w) [20, 50, 100, 200])) (\<lambda>(t, w).
         Inr ([(''auction_optimization_comparison.json'', line (wr_buffer (end_object (end_array w))))],
              line ''  wrote auction_optimization_comparison.json'')))"

section \<open>The simulator\<close>

definition run_batch_interval_matrix :: "build_platform \<Rightarrow> bench_run" where
  "run_batch_interval_matrix platform =
     (case those collect_interval_runs of
        None \<Rightarrow> Inl Unmodelled
      | Some runs \<Rightarrow> Inr (interval_matrix_artifacts platform runs))"

text \<open>The sums over the runs at one interval, and how many there are.\<close>

definition sum_run :: "u64 \<Rightarrow> double \<times> double \<times> double \<times> nat \<Rightarrow> interval_run \<Rightarrow> double \<times> double \<times> double \<times> nat" where
  "sum_run interval = (\<lambda>(batches, orders, cleared, n) r.
     if ir_interval_ms r \<noteq> interval then (batches, orders, cleared, n)
     else (round_double (batches + double_of (of_nat (ir_total_batches r))),
           round_double (orders + double_of (of_nat (ir_total_orders r))),
           round_double (cleared + double_of (ir_cleared_volume r)), n + 1))"

definition cost_row ::
  "interval_run list \<Rightarrow> u64 \<Rightarrow> u64 \<Rightarrow> u64 \<Rightarrow> json_writer \<times> string \<Rightarrow> json_writer \<times> string" where
  "cost_row runs prove_us cons interval = (\<lambda>(w, csv).
     let (batches, orders, cleared, n) = foldl (sum_run interval) (0, 0, 0, 0) runs in
     if n = 0 then (w, csv)
     else
       let batches = round_double (batches / double_of (of_nat n));
           orders = round_double (orders / double_of (of_nat n));
           cleared = round_double (cleared / double_of (of_nat n));
           total_prove_ms = round_double (round_double (batches * double_of prove_us) / 1000);
           horizon_ms = 10 * 1000;
           duty = round_double (round_double (total_prove_ms / horizon_ms) * 100);
           mean_batch_size = (if 0 < batches then round_double (orders / batches) else 0);
           w = begin_object w;
           w = field_u64 ''interval_ms'' interval w;
           w = field_string ''mean_batches'' (fixed3 batches) w;
           w = field_string ''mean_batch_size_orders'' (fixed3 mean_batch_size) w;
           w = field_string ''mean_cleared_volume_lots'' (fixed3 cleared) w;
           w = field_u64 ''single_batch_prove_time_us'' prove_us w;
           w = field_u64 ''single_batch_constraints'' cons w;
           w = field_string ''total_session_prove_time_ms'' (fixed3 total_prove_ms) w;
           w = field_string ''prover_duty_cycle_percent'' (fixed3 duty) w
       in (end_object w,
           csv @ line (to_string interval @ '','' @ fixed3 batches @ '','' @ fixed3 mean_batch_size @ '','' @ fixed3 cleared
             @ '','' @ to_string prove_us @ '','' @ to_string cons @ '','' @ fixed3 total_prove_ms @ '','' @ fixed3 duty)))"

definition cost_sample ::
  "proof_fixture \<Rightarrow> clock \<Rightarrow> nat \<times> u64 list \<times> batch_proof \<Rightarrow> nat \<Rightarrow> (nat \<times> u64 list \<times> batch_proof) throws" where
  "cost_sample fx clock = (\<lambda>(t, prove_us, last_proof) i.
     value_of (prove (pf_public_inputs fx) (pf_witness fx)) (\<lambda>prf. Inr (t + 1, prove_us @ [clock t], prf)))"

definition run_proof_cost_model :: "build_platform \<Rightarrow> clock \<Rightarrow> bench_run" where
  "run_proof_cost_model platform clock =
     (case those collect_interval_runs of
        None \<Rightarrow> Inl Unmodelled
      | Some runs \<Rightarrow>
          try_then (thrown (build_proof_fixture 2 (funded_ledger 1 4) 1)) (\<lambda>fx.
          try_then (thrown (loop_throws (cost_sample fx clock) (0, [], default_proof) [0..<5])) (\<lambda>(t, prove_us, prf).
          try_then (thrown (constraints_of prf)) (\<lambda>single_batch_constraints.
            let single_batch_us = median prove_us;
                w = begin_object new_writer;
                w = field_string ''benchmark_name'' ''faircross_proof_cost_model'' w;
                w = field_string ''provenance''
                      (''Empirical: measured single-batch prove cost combined with the batch-interval ''
                       @ ''matrix session shapes from this same run'') w;
                w = field_string ''reproduction_command'' ''cpp/bin/faircross_bench proof-cost-model'' w;
                w = write_environment platform w;
                w = field_u64 ''single_batch_prove_time_us'' single_batch_us w;
                w = field_u64 ''single_batch_constraints'' single_batch_constraints w;
                w = begin_array (write_key ''rows'' w);
                csv = line (''interval_ms,mean_batches,mean_batch_size_orders,mean_cleared_volume_lots,''
                         @ ''single_batch_prove_time_us,single_batch_constraints,total_session_prove_time_ms,''
                         @ ''prover_duty_cycle_percent'');
                (w, csv) = fold (cost_row runs single_batch_us single_batch_constraints) intervals_ms (w, csv)
            in Inr ([(''proof_cost_model_report.json'', line (wr_buffer (end_object (end_array w)))),
                     (''proof_cost_model_table.csv'', csv)],
                    line ''  wrote proof_cost_model_{report.json,table.csv}'')))))"

section \<open>The runner\<close>

text \<open>
  The directory \<open>experiments/results\<close>: its files, and the names that can be opened for writing.  An
  artifact that cannot be opened is an exception.
\<close>

record results_dir =
  rd_files :: "string \<Rightarrow> string option"
  rd_writable :: "string \<Rightarrow> bool"

definition write_artifact :: "results_dir \<Rightarrow> artifact \<Rightarrow> results_dir throws" where
  "write_artifact dir = (\<lambda>(filename, contents).
     throw_if (\<not> rd_writable dir filename) (''cannot write experiments/results/'' @ filename)
       (Inr (dir\<lparr>rd_files := (rd_files dir)(filename \<mapsto> contents)\<rparr>)))"

text \<open>What the process has left behind: the directory and the text on its standard output.\<close>

type_synonym bench_state = "results_dir \<times> string"

text \<open>The artifacts in turn, up to the one that cannot be written, then the text for the console.\<close>

fun write_artifacts :: "artifact list \<Rightarrow> string \<Rightarrow> bench_state \<Rightarrow> bench_state \<times> bench_stop option" where
  "write_artifacts [] text1 (dir, out) = ((dir, out @ text1), None)"
| "write_artifacts (a # as) text1 (dir, out) =
     (case write_artifact dir a of
        Inl what \<Rightarrow> ((dir, out), Some (Threw what))
      | Inr dir' \<Rightarrow> write_artifacts as text1 (dir', out))"

definition run_benchmark :: "bench_run \<Rightarrow> bench_state \<Rightarrow> bench_state \<times> bench_stop option" where
  "run_benchmark r s =
     (case r of Inl stop \<Rightarrow> (s, Some stop) | Inr (artifacts, text1) \<Rightarrow> write_artifacts artifacts text1 s)"

definition benchmarks :: "build_platform \<Rightarrow> (string \<Rightarrow> clock) \<Rightarrow> (string \<times> bench_run) list" where
  "benchmarks platform clocks =
     [(''proof-scaling'', run_proof_scaling platform (clocks ''proof-scaling'')),
      (''accounting-metrics'', run_accounting_metrics platform (clocks ''accounting-metrics'')),
      (''clearing-optimality'', run_clearing_optimality_metrics platform (clocks ''clearing-optimality'')),
      (''two-step-ivc'', run_two_step_ivc_spike platform (clocks ''two-step-ivc'')),
      (''ten-batch-audit'', run_ten_batch_audit platform (clocks ''ten-batch-audit'')),
      (''recursive-vs-independent'', run_recursive_vs_independent platform (clocks ''recursive-vs-independent'')),
      (''engine-profile'', run_engine_profile platform (clocks ''engine-profile'')),
      (''auction-optimization'', run_auction_optimization platform (clocks ''auction-optimization'')),
      (''attack-evidence'', thrown (run_attack_evidence platform)),
      (''batch-interval-matrix'', run_batch_interval_matrix platform),
      (''proof-cost-model'', run_proof_cost_model platform (clocks ''proof-cost-model''))]"

definition bench_usage :: "string \<Rightarrow> string list \<Rightarrow> string" where
  "bench_usage prog names = lines_of
     ([''FairCross C++ benchmark runner'', [], ''Usage: '' @ prog @ '' <benchmark|all>'', [], ''Benchmarks:'']
      @ map (\<lambda>n. ''  '' @ n) names @ [''  all''])"

text \<open>The loop of \<open>all\<close>, which ends at the first benchmark that does not complete.\<close>

fun run_all :: "(string \<times> bench_run) list \<Rightarrow> bench_state \<Rightarrow> bench_state \<times> bench_stop option" where
  "run_all [] s = (s, None)"
| "run_all ((bench_name, r) # bs) (dir, out) =
     (case run_benchmark r (dir, out @ line (''-- '' @ bench_name)) of
        (s, Some stop) \<Rightarrow> (s, Some stop)
      | (s, None) \<Rightarrow> run_all bs s)"

text \<open>How \<open>main\<close> ends; \<open>None\<close> when a benchmark reaches a point outside the model.\<close>

definition bench_exit :: "bench_state \<times> bench_stop option \<Rightarrow> string \<Rightarrow> (results_dir \<times> console) option" where
  "bench_exit = (\<lambda>((dir, out), stop) farewell.
     case stop of
       None \<Rightarrow> Some (dir, \<lparr>con_out = out @ farewell, con_err = [], con_code = 0\<rparr>)
     | Some (Threw what) \<Rightarrow> Some (dir, \<lparr>con_out = out, con_err = line (''benchmark failed: '' @ what), con_code = 1\<rparr>)
     | Some (Exited msg) \<Rightarrow> Some (dir, \<lparr>con_out = out, con_err = msg, con_code = 1\<rparr>)
     | Some Unmodelled \<Rightarrow> None)"

definition bench_main ::
  "build_platform \<Rightarrow> (string \<Rightarrow> clock) \<Rightarrow> results_dir \<Rightarrow> string \<Rightarrow> string list \<Rightarrow> (results_dir \<times> console) option" where
  "bench_main platform clocks dir prog args =
     (let table = benchmarks platform clocks; usage_text = bench_usage prog (map fst table) in
      case args of
        [] \<Rightarrow> Some (dir, failed usage_text)
      | which # rest \<Rightarrow>
          if which = ''all'' then
            bench_exit (run_all table (dir, line ''Running all FairCross C++ benchmarks...''))
              (line ''All benchmarks complete.'')
          else
            (case map_of table which of
               Some r \<Rightarrow> bench_exit (run_benchmark r (dir, [])) []
             | None \<Rightarrow> Some (dir, failed (line (''Unknown benchmark: '' @ which) @ usage_text))))"

end
