(* ===== verification/Workload_Proofs.thy ===== *)
theory Workload_Proofs
  imports Workloads
begin

text \<open>
  What the benchmarks rely on: the naive auction finds the volume of the optimised one, every batch of
  the scaling workload executes and is provable, and how long a session of two-order batches can be.
\<close>

section \<open>The naive auction\<close>

lemma naive_totals:
  fixes d s :: u64 and p :: price
  defines "step \<equiv> (\<lambda>(demand, supply) o1.
      (if ord_side o1 = Buy \<and> p \<le> ord_price o1 then demand + ord_qty o1 else demand,
       if ord_side o1 = Sell \<and> ord_price o1 \<le> p then supply + ord_qty o1 else supply))"
  assumes "unat d + total_side Buy orders < 2 ^ 64" "unat s + total_side Sell orders < 2 ^ 64"
  shows "case foldl step (d, s) orders of (d', s') \<Rightarrow>
    unat d' = unat d + demand_at orders p \<and> unat s' = unat s + supply_at orders p"
  using assms(2-)
proof (induction orders arbitrary: d s)
  case (Cons o1 orders)
  define d1 where "d1 = (if ord_side o1 = Buy \<and> p \<le> ord_price o1 then d + ord_qty o1 else d)"
  define s1 where "s1 = (if ord_side o1 = Sell \<and> ord_price o1 \<le> p then s + ord_qty o1 else s)"
  have fits: "unat (w + q) = unat w + unat q" if "unat w + unat q < 2 ^ 64" for w q :: u64
    using that by (intro unat_add_fits) simp
  have d1: "unat d1 = unat d + (if ord_side o1 = Buy \<and> p \<le> ord_price o1 then unat (ord_qty o1) else 0)"
    using Cons.prems(1) by (auto simp: d1_def total_side_def intro!: fits)
  have s1: "unat s1 = unat s + (if ord_side o1 = Sell \<and> ord_price o1 \<le> p then unat (ord_qty o1) else 0)"
    using Cons.prems(2) by (auto simp: s1_def total_side_def intro!: fits)
  have "unat d1 + total_side Buy orders < 2 ^ 64" "unat s1 + total_side Sell orders < 2 ^ 64"
    using Cons.prems by (auto simp: d1 s1 total_side_def)
  note IH = Cons.IH [OF this]
  have "foldl step (d, s) (o1 # orders) = foldl step (d1, s1) orders"
    by (simp add: step_def d1_def s1_def)
  with IH show ?case by (simp add: d1 s1 demand_at_def supply_at_def split: prod.splits)
qed (simp add: demand_at_def supply_at_def)

lemma naive_step_crossed:
  assumes "totals_fit orders"
  shows "unat (naive_step orders best o1) = max (unat best) (crossed orders (ord_price o1))"
proof -
  have fit: "unat (0 :: u64) + total_side Buy orders < 2 ^ 64" "unat (0 :: u64) + total_side Sell orders < 2 ^ 64"
    using assms by (simp_all add: totals_fit_def)
  show ?thesis
    using naive_totals [OF fit, of "ord_price o1"]
    by (auto simp: naive_step_def Let_def crossed_def min_def max_def word_less_nat_alt word_le_nat_alt split: prod.splits)
qed

lemma naive_max_crossed:
  assumes "totals_fit orders"
  shows "unat (naive_max_volume orders) = Max (set (0 # map (\<lambda>o1. crossed orders (ord_price o1)) orders))"
proof -
  have "unat (foldl (naive_step orders) best os) = Max (set (unat best # map (\<lambda>o1. crossed orders (ord_price o1)) os))" for best os
  proof (induction os arbitrary: best)
    case (Cons o1 os)
    show ?case unfolding foldl_Cons Cons.IH naive_step_crossed [OF assms]
      by (cases os) (simp_all add: max.assoc)
  qed simp
  then show ?thesis by (simp add: naive_max_volume_def)
qed

lemma mset_batch: "mset (bat_orders (new_batch bid inst orders)) = mset orders"
  by (simp add: new_batch_def)

lemma crossed_mset: "mset xs = mset ys \<Longrightarrow> crossed xs p = crossed ys p"
proof -
  assume eq: "mset xs = mset ys"
  then have "sum_list (map f xs) = sum_list (map f ys)" for f :: "order \<Rightarrow> nat"
    by (metis mset_map sum_mset_sum_list)
  then show ?thesis by (simp add: crossed_def demand_at_def supply_at_def)
qed

lemma totals_mset: "mset xs = mset ys \<Longrightarrow> totals_fit xs \<longleftrightarrow> totals_fit ys"
proof -
  assume eq: "mset xs = mset ys"
  then have "sum_list (map f xs) = sum_list (map f ys)" for f :: "order \<Rightarrow> nat"
    by (metis mset_map sum_mset_sum_list)
  then show ?thesis by (simp add: totals_fit_def total_side_def)
qed

lemma naive_agrees:
  assumes "list_all (wf_order inst) orders" and "distinct (map ord_id orders)"
    and "determine_clearing_outcome (new_batch bid inst orders) = Ok out"
  shows "naive_max_volume orders = out_volume out"
proof -
  let ?b = "new_batch bid inst orders" let ?r = "reference_maximizers (bat_orders ?b)"
  have R: "totals_fit (bat_orders ?b)" "out_volume out = vm_max_volume ?r"
    using outcome_reference [OF wf_new_batch [OF assms(1,2)] assms(3)] by simp_all
  have fit: "totals_fit orders" using R(1) totals_mset [OF mset_batch, of bid inst orders] by simp
  have crossed: "crossed (bat_orders ?b) p = crossed orders p" for p by (rule crossed_mset) (rule mset_batch)
  have "crossed orders (ord_price o1) \<le> unat (out_volume out)" for o1
    using crossed_le_max [OF R(1), of "ord_price o1"] by (simp add: crossed R(2))
  then have "unat (naive_max_volume orders) \<le> unat (out_volume out)"
    by (simp add: naive_max_crossed [OF fit] del: Max_insert) auto
  moreover have "unat (out_volume out) \<le> unat (naive_max_volume orders)"
  proof (cases "out_volume out = 0")
    case False
    then obtain e where "e \<in> set (vm_evaluations ?r)" "eval_volume e = out_volume out"
      using max_executable_attained [of "vm_evaluations ?r"]
      by (auto simp: R(2) reference_maximizers_def Let_def)
    then obtain p where p: "p \<in> ord_price ` set (bat_orders ?b)" "eval_volume (reference_evaluation (bat_orders ?b) p) = out_volume out"
      by (auto simp: reference_maximizers_def Let_def)
    have "set (bat_orders ?b) = set orders" using mset_batch by (metis set_mset_mset)
    with p(1) have "crossed orders p \<in> set (0 # map (\<lambda>o1. crossed orders (ord_price o1)) orders)" by auto
    moreover have "unat (out_volume out) = crossed orders p"
      using eval_volume_reference [OF R(1), of p] by (simp add: p(2) crossed)
    ultimately show ?thesis by (simp add: naive_max_crossed [OF fit] del: Max_insert)
  qed simp
  ultimately show ?thesis by (simp add: word_unat_eq_iff)
qed

text \<open>The comparison of the auction benchmark holds on every valid input: the naive scan of all orders for
  each order's price, with its unchecked additions, finds the executable volume of the optimised
  auction whenever that returns, in whatever order the orders are submitted.\<close>

theorem naive_baseline_agrees:
  assumes "list_all (wf_order inst) orders" and "distinct (map ord_id orders)"
    and "determine_clearing_outcome (new_batch bid inst orders) = Ok out"
  shows "naive_max_volume orders = out_volume out"
  using assms by (rule naive_agrees)

theorem naive_baseline_agrees_witness: "naive_max_volume sample_orders = 3"
proof -
  have "list_all (wf_order 7) sample_orders" "distinct (map ord_id sample_orders)" by code_simp+
  moreover have "determine_clearing_outcome (new_batch 1 7 sample_orders) = Ok \<lparr>out_price = Some 103, out_volume = 3\<rparr>"
    by code_simp
  ultimately show ?thesis using naive_baseline_agrees [of 7 sample_orders 1] by simp
qed

section \<open>Funded batches are provable\<close>

lemma settleable_paid:
  assumes "settleable l fills"
  shows "paid_total True fills \<le> cash_sum l"
proof -
  let ?K = "fill_account_id ` set fills"
  have "paid_total True fills = (\<Sum>k\<in>?K. paid True k fills)"
    by (rule sum_accounts(3) [symmetric]) simp_all
  also have "\<dots> \<le> (\<Sum>k\<in>?K. cash_of l k)"
    using assms by (intro sum_mono) (simp add: settleable_def)
  also have "\<dots> \<le> cash_sum l" by (rule sum_accounts_le) simp
  finally show ?thesis .
qed

lemma consideration_le_paid:
  "f \<in> set fills \<Longrightarrow> unat (fill_consideration f) \<le> paid_total (fill_side f = Buy) fills"
  unfolding paid_total_def by (induction fills) auto

lemma funded_provable:
  assumes "wf_batch b" "totals_fit (bat_orders b)" "funded pre b" "numbered (bat_orders b)"
    and "cash_sum pre < 2 ^ 64" "stock_sum (bat_instrument b) pre < 2 ^ 63"
  shows "\<exists>e. execute_batch pre b = Ok e \<and> provable pre b e"
proof -
  have twice: "2 * cash_sum pre < 2 ^ 128" "2 * stock_sum (bat_instrument b) pre < 2 ^ 64"
    using assms(5,6) by simp_all
  obtain e where e: "execute_batch pre b = Ok e" by (rule funded_executes [OF assms(1-3) twice])
  then have st: "batch_stages b (res_outcome e) (res_allocation e) (res_fills e)"
    and ap: "loop_result apply_fill pre (res_fills e) = Ok (res_post_state e)"
    by (auto simp: execute_batch_Ok_iff apply_batch_transition_Ok_iff)
  have total: "cash_sum (res_post_state e) = cash_sum pre" using settled_totals [OF assms(1) st ap] by simp
  have low: "high_cash l k = 0" if "cash_sum l < 2 ^ 64" for l k
    using sum_accounts_le(1) [of "{k}" l] that by (simp add: high_cash_def)
  have "paid_total True (res_fills e) \<le> cash_sum pre"
    using settleable_paid [OF funded_settleable [OF assms(1) st assms(3) twice]] .
  moreover have "unat (fill_consideration f) \<le> paid_total True (res_fills e)" if "f \<in> set (res_fills e)" for f
  proof -
    show ?thesis
      using consideration_le_paid [OF that] batch_fills_balance [OF assms(1) st] by (cases "fill_side f = Buy") auto
  qed
  ultimately have "list_all fill_fits (res_fills e)" using assms(5) by (fastforce simp: list_all_iff fill_fits_def)
  moreover have "is_ok (total_inventory_of pre (bat_instrument b))"
    using assms(6) by (simp add: total_inventory_is_ok_iff stock_sum_def)
  ultimately have "provable pre b e" using assms(4,5) low total by (simp add: provable_def list.pred_True)
  with e show ?thesis by blast
qed


section \<open>The ledger of the benchmarks\<close>

definition bench_account :: "account_id \<Rightarrow> instrument_id \<Rightarrow> account_state" where
  "bench_account aid inst = funded_account aid 100000 inst 10000"

lemma bench_account_fields [simp]:
  "acc_id (bench_account k inst) = k" "acc_cash (bench_account k inst) = 100000"
  "inventory_of (bench_account k inst) i = (if i = inst then 10000 else 0)"
proof -
  have "credit_inventory inst 10000 (new_account k 100000) =
      Ok ((new_account k 100000)\<lparr>acc_inventory := om_assign inst 10000 om_empty\<rparr>)"
    by (auto simp: credit_inventory_Ok_iff new_account_def inventory_of_def intro!: exI [of _ 10000])
  then show "acc_id (bench_account k inst) = k" "acc_cash (bench_account k inst) = 100000"
    "inventory_of (bench_account k inst) i = (if i = inst then 10000 else 0)"
    by (simp_all add: bench_account_def funded_account_def new_account_def inventory_of_def)
qed

lemma funded_ledger_fold:
  "funded_ledger inst n = foldl (\<lambda>l i. insert_account (bench_account (of_nat i) inst) l) om_empty [1..<scaling_account_count n + 1]"
  by (simp add: funded_ledger_def bench_account_def funded_account_def Let_def del: upt_Suc)

lemma unat_of_nat_small: "n < 2 ^ 64 \<Longrightarrow> unat (of_nat n :: u64) = n"
  by (simp add: unsigned_of_nat take_bit_nat_eq_self)

lemma bench_find:
  assumes "scaling_account_count n < 2 ^ 64"
  shows "om_find (funded_ledger inst n) k =
    (if 1 \<le> unat k \<and> unat k \<le> scaling_account_count n then Some (bench_account k inst) else None)"
proof -
  have "om_find (foldl (\<lambda>l i. insert_account (bench_account (of_nat i) inst) l) om_empty [1..<m + 1]) k =
    (if 1 \<le> unat k \<and> unat k \<le> m then Some (bench_account k inst) else None)" if "m < 2 ^ 64" for m
    using that
  proof (induction m)
    case (Suc m)
    have w: "unat (of_nat (Suc m) :: u64) = Suc m" using Suc.prems by (intro unat_of_nat_small)
    then have k: "k = of_nat (Suc m) \<longleftrightarrow> unat k = Suc m" by (simp only: word_unat_eq_iff)
    have "[1..<Suc m + 1] = [1..<m + 1] @ [Suc m]" by simp
    then show ?case
      using Suc.IH Suc.prems k by (auto simp: insert_account_def simp del: of_nat_Suc upt_Suc)
  qed simp
  with assms show ?thesis unfolding funded_ledger_fold by blast
qed

lemma bench_values:
  assumes "scaling_account_count n < 2 ^ 64"
  shows "cash_of (funded_ledger inst n) k = (if 1 \<le> unat k \<and> unat k \<le> scaling_account_count n then 100000 else 0)"
    and "stock_of i (funded_ledger inst n) k =
      (if 1 \<le> unat k \<and> unat k \<le> scaling_account_count n \<and> i = inst then 10000 else 0)"
  by (simp_all add: cash_of_def stock_of_def bench_find [OF assms])

lemma bench_dom:
  assumes "scaling_account_count n < 2 ^ 64"
  shows "card (dom (om_find (funded_ledger inst n))) \<le> scaling_account_count n"
proof -
  have "dom (om_find (funded_ledger inst n)) \<subseteq> of_nat ` {1..scaling_account_count n}"
  proof
    fix k
    assume "k \<in> dom (om_find (funded_ledger inst n))"
    then have "unat k \<in> {1..scaling_account_count n}" by (auto simp: bench_find [OF assms] split: if_splits)
    moreover have "k = of_nat (unat k)" by simp
    ultimately show "k \<in> of_nat ` {1..scaling_account_count n}" by blast
  qed
  then have "card (dom (om_find (funded_ledger inst n))) \<le> card (of_nat ` {1..scaling_account_count n} :: u64 set)"
    by (intro card_mono) simp_all
  also have "\<dots> \<le> scaling_account_count n" using card_image_le [of "{1..scaling_account_count n}"] by simp
  finally show ?thesis .
qed

lemma bench_sums:
  assumes "scaling_account_count n < 2 ^ 32"
  shows "cash_sum (funded_ledger inst n) < 2 ^ 64" "stock_sum inst (funded_ledger inst n) < 2 ^ 63"
    and "om_size (funded_ledger inst n) < 2 ^ 62"
proof -
  have n: "scaling_account_count n < 2 ^ 64" using assms by simp
  have "cash_sum (funded_ledger inst n) \<le> card (dom (om_find (funded_ledger inst n))) * 100000"
    unfolding cash_sum_dom by (rule sum_bounded_above [where 'a = nat, simplified]) (simp add: bench_values [OF n])
  with bench_dom [OF n, of inst] assms show "cash_sum (funded_ledger inst n) < 2 ^ 64" by simp
  have "stock_sum inst (funded_ledger inst n) \<le> card (dom (om_find (funded_ledger inst n))) * 10000"
    unfolding stock_sum_dom by (rule sum_bounded_above [where 'a = nat, simplified]) (simp add: bench_values [OF n])
  with bench_dom [OF n, of inst] assms show "stock_sum inst (funded_ledger inst n) < 2 ^ 63" by simp
  show "om_size (funded_ledger inst n) < 2 ^ 62" using bench_dom [OF n, of inst] assms by (simp add: om_size_card)
qed

section \<open>The scaling workload\<close>

lemma sequenced_batch:
  assumes "length os < 2 ^ 64" "\<And>i. i < length os \<Longrightarrow> ord_seq (os ! i) = of_nat i"
  shows "bat_orders (new_batch bid inst os) = os" and "numbered os"
proof -
  show "bat_orders (new_batch bid inst os) = os" by (rule bat_orders_sequenced [OF assms])
  show "numbered os"
    unfolding numbered_def by (rule nth_equalityI) (use assms in \<open>simp_all add: unat_of_nat_small\<close>)
qed

lemma length_scaling_orders [simp]: "length (scaling_orders n inst) = n"
  by (simp add: scaling_orders_def Let_def)

lemma small_mod: "unat (of_nat i mod 5 :: u64) < 5" "unat (of_nat i mod 10 :: u64) < 10"
  by (simp_all add: unat_mod_distrib)

lemma scaling_order:
  fixes inst :: instrument_id
  assumes "i < n" "n < 2 ^ 32"
  defines "o1 \<equiv> scaling_orders n inst ! i"
  shows "wf_order inst o1" "ord_seq o1 = of_nat i" "unat (ord_id o1) = i + 1"
    and "unat (ord_account o1) = i mod scaling_account_count n + 1"
    and "unat (ord_price o1) * unat (ord_qty o1) \<le> 1976" "unat (ord_qty o1) \<le> 19"
proof -
  let ?k = "scaling_account_count n"
  have o1: "o1 = \<lparr>ord_id = of_nat i + 1, ord_account = of_nat (i mod ?k) + 1, ord_instrument = inst,
      ord_side = (if i mod 2 = 0 then Buy else Sell),
      ord_price = (if i mod 2 = 0 then 100 + of_nat i mod 5 else 96 + of_nat i mod 5),
      ord_qty = 10 + of_nat i mod 10, ord_seq = of_nat i\<rparr>"
    using assms(1) by (simp add: o1_def scaling_orders_def Let_def)
  have add: "unat (c + w) = unat c + unat w" if "unat w < 10" "unat c \<le> 100" for c w :: u64
    using that by (intro unat_add_fits) simp
  have p: "unat (ord_price o1) \<le> 104" "96 \<le> unat (ord_price o1)" and q: "unat (ord_qty o1) \<le> 19" "10 \<le> unat (ord_qty o1)"
    using small_mod [of i] by (simp_all add: o1 add)
  show "unat (ord_qty o1) \<le> 19" by (rule q)
  show "unat (ord_price o1) * unat (ord_qty o1) \<le> 1976" using mult_le_mono [OF p(1) q(1)] by simp
  have "ord_price o1 \<noteq> 0" "ord_qty o1 \<noteq> 0" using p q by (metis unat_0 not_numeral_le_zero)+
  then show "wf_order inst o1" by (simp add: wf_order_def o1 valid_side_def)
  show "ord_seq o1 = of_nat i" by (simp add: o1)
  have suc: "unat (of_nat m + 1 :: u64) = m + 1" if "m < 2 ^ 32" for m
    using that by (subst unat_add_fits) (simp_all add: unsigned_of_nat take_bit_nat_eq_self)
  have "i mod ?k < 2 ^ 32" using assms(1,2) by (meson le_less_trans less_trans mod_less_eq_dividend)
  then show "unat (ord_id o1) = i + 1" "unat (ord_account o1) = i mod ?k + 1"
    unfolding o1 using assms(1,2) suc [of i] suc [of "i mod ?k"] by simp_all
qed

lemma residue_count: "n \<le> 3 * k \<Longrightarrow> card {i. i < n \<and> i mod k = r} \<le> 3" for n k r :: nat
proof -
  assume n: "n \<le> 3 * k"
  have "{i. i < n \<and> i mod k = r} \<subseteq> (\<lambda>q. q * k + r) ` {0..<3}"
  proof
    fix i
    assume i: "i \<in> {i. i < n \<and> i mod k = r}"
    then have "i = i div k * k + r" by (metis (mono_tags) div_mult_mod_eq mem_Collect_eq)
    moreover have "i div k < 3" using i n by (simp add: less_mult_imp_div_less)
    ultimately show "i \<in> (\<lambda>q. q * k + r) ` {0..<3}" by auto
  qed
  from card_mono [OF _ this] show ?thesis
    using card_image_le [of "{0..<3 :: nat}" "\<lambda>q. q * k + r"] by simp
qed

lemma sum_list_residue:
  assumes "n \<le> 3 * k" "\<And>i. i < n \<Longrightarrow> P i \<Longrightarrow> i mod k = r" "\<And>i. i < n \<Longrightarrow> P i \<Longrightarrow> c i \<le> (m :: nat)"
  shows "sum_list (map (\<lambda>i. if P i then c i else 0) [0..<n]) \<le> 3 * m"
proof -
  have "sum_list (map (\<lambda>i. if P i then c i else 0) [0..<n]) \<le> sum_list (map (\<lambda>i. if i mod k = r then m else 0) [0..<n])"
    using assms(2,3) by (intro sum_list_mono) auto
  also have "\<dots> = (\<Sum>i\<in>{0..<n}. if i mod k = r then m else 0)" by (simp add: interv_sum_list_conv_sum_set_nat)
  also have "\<dots> = card ({0..<n} \<inter> {i. i mod k = r}) * m" by (simp add: sum.If_cases)
  also have "\<dots> = card {i. i < n \<and> i mod k = r} * m"
    by (rule arg_cong [where f = "\<lambda>X. card X * m"]) auto
  also have "\<dots> \<le> 3 * m" using residue_count [OF assms(1)] by simp
  finally show ?thesis .
qed

lemma map_nth_upt: "map f xs = map (\<lambda>i. f (xs ! i)) [0..<length xs]"
  by (rule nth_equalityI) simp_all

lemma scaling_needs:
  assumes "n < 2 ^ 32"
  shows "cash_needed k (scaling_orders n inst) \<le> 5928" "stock_needed k (scaling_orders n inst) \<le> 57"
proof -
  let ?o = "\<lambda>i. scaling_orders n inst ! i" and ?k = "scaling_account_count n"
  have n: "n \<le> 3 * ?k" by (simp add: scaling_account_count_def)
  have r: "i mod ?k = unat k - 1" if "i < n" "ord_account (?o i) = k" for i
    using scaling_order(4) [OF that(1) assms, of inst] that(2) by simp
  show "cash_needed k (scaling_orders n inst) \<le> 5928"
    using sum_list_residue [OF n, of "\<lambda>i. ord_side (?o i) = Buy \<and> ord_account (?o i) = k" "unat k - 1"
        "\<lambda>i. unat (ord_price (?o i)) * unat (ord_qty (?o i))" 1976] r scaling_order(5) [OF _ assms]
    by (subst cash_needed_def, subst map_nth_upt) simp
  show "stock_needed k (scaling_orders n inst) \<le> 57"
    using sum_list_residue [OF n, of "\<lambda>i. ord_side (?o i) \<noteq> Buy \<and> ord_account (?o i) = k" "unat k - 1"
        "\<lambda>i. unat (ord_qty (?o i))" 19] r scaling_order(6) [OF _ assms]
    by (subst stock_needed_def, subst map_nth_upt) simp
qed

lemma total_side_bounded: "(\<And>o1. o1 \<in> set os \<Longrightarrow> unat (ord_qty o1) \<le> m) \<Longrightarrow> total_side s os \<le> length os * m"
  unfolding total_side_def by (induction os) (force simp: add_mono)+

lemma scaling_batch:
  fixes sq :: batch_id
  assumes "n < 2 ^ 32"
  defines "b \<equiv> new_batch sq 1 (scaling_orders n 1)"
  shows "bat_orders b = scaling_orders n 1" "bat_instrument b = 1" "wf_batch b" "totals_fit (bat_orders b)"
    and "numbered (bat_orders b)" "funded (funded_ledger 1 n) b"
proof -
  let ?os = "scaling_orders n 1"
  have seq: "\<And>i. i < length ?os \<Longrightarrow> ord_seq (?os ! i) = of_nat i" using scaling_order(2) [OF _ assms(1)] by simp
  have len: "length ?os < 2 ^ 64" using assms(1) by simp
  show os: "bat_orders b = ?os" unfolding b_def by (rule sequenced_batch(1) [OF len seq])
  show "bat_instrument b = 1" by (simp add: b_def new_batch_def)
  show "numbered (bat_orders b)" unfolding os by (rule sequenced_batch(2) [OF len seq])
  have "ord_id (?os ! i) \<noteq> ord_id (?os ! j)" if "i < n" "j < n" "i \<noteq> j" for i j
    using scaling_order(3) [OF that(1) assms(1), of 1] scaling_order(3) [OF that(2) assms(1), of 1] that(3) by auto
  then have "distinct (map ord_id ?os)" by (auto simp: distinct_conv_nth)
  moreover have "list_all (wf_order 1) ?os" using scaling_order(1) [OF _ assms(1)] by (simp add: list_all_length)
  ultimately show "wf_batch b" unfolding b_def by (rule wf_new_batch [rotated])
  have "total_side s ?os \<le> length ?os * 19" for s
    using scaling_order(6) [OF _ assms(1)] by (intro total_side_bounded) (auto simp: in_set_conv_nth)
  from this [of Buy] this [of Sell] show "totals_fit (bat_orders b)" using assms(1) unfolding os totals_fit_def by simp
  have k: "scaling_account_count n < 2 ^ 64" using assms(1) by (auto simp: scaling_account_count_def max_def)
  have mod: "i mod scaling_account_count n < scaling_account_count n" for i
    by (simp add: scaling_account_count_def)
  have covered: "1 \<le> unat k \<and> unat k \<le> scaling_account_count n" if "i < n" "ord_account (?os ! i) = k" for i k
    using scaling_order(4) [OF that(1) assms(1), of 1] that(2) mod [of i] by simp
  have zero: "cash_needed k ?os = 0 \<and> stock_needed k ?os = 0" if "\<not> (1 \<le> unat k \<and> unat k \<le> scaling_account_count n)" for k
    using covered that by (auto simp: cash_needed_def stock_needed_def sum_list_eq_0_iff in_set_conv_nth)
  show "funded (funded_ledger 1 n) b"
    unfolding funded_def os
  proof
    fix k
    show "cash_needed k ?os \<le> cash_of (funded_ledger 1 n) k \<and> stock_needed k ?os \<le> stock_of (bat_instrument b) (funded_ledger 1 n) k"
      using zero [of k] scaling_needs [OF assms(1), of k 1]
      by (cases "1 \<le> unat k \<and> unat k \<le> scaling_account_count n")
        (auto simp: bench_values [OF k] b_def new_batch_def intro: order_trans)
  qed
qed

lemma preimages_for_derive: "preimages_for b = derive_preimages b 0"
  by (simp add: preimages_for_def derive_preimages_def)

lemma build_proof_fixture_eq:
  assumes "execute_batch pre (new_batch sq 1 (scaling_orders n 1)) = Ok e"
    and "proof_inputs (compute_ledger_root pre 1) pre (new_batch sq 1 (scaling_orders n 1))
      (derive_preimages (new_batch sq 1 (scaling_orders n 1)) 0) e (1700000000 + sq * 10) = (pub, w)"
  shows "build_proof_fixture n pre sq = Inr \<lparr>pf_public_inputs = pub, pf_witness = w, pf_post_state = res_post_state e\<rparr>"
  using assms
  by (auto simp: build_proof_fixture_def proof_inputs_def preimages_for_derive Let_def new_batch_def split: prod.splits)

lemma scaling_fixture:
  assumes "n < 2 ^ 32" "m < 2 ^ 32" "funded (funded_ledger 1 m) (new_batch sq 1 (scaling_orders n 1))"
  defines "b \<equiv> new_batch sq 1 (scaling_orders n 1)"
  obtains e pub w proof1 where "execute_batch (funded_ledger 1 m) b = Ok e" "is_ok (total_inventory_of (funded_ledger 1 m) 1)"
    and "build_proof_fixture n (funded_ledger 1 m) sq = Inr \<lparr>pf_public_inputs = pub, pf_witness = w, pf_post_state = res_post_state e\<rparr>"
    and "prove pub w = Ok proof1" "constraint_count pub w < 2 ^ 64" "bw_oracle_snapshot w = None" "bw_batch w = b"
    and "bind_inputs pub w = Ok (new_merkle_tree (map commit_order (bw_preimages w)), bw_accounting w)"
proof -
  let ?l = "funded_ledger 1 m"
  note B = scaling_batch [OF assms(1), of sq, folded b_def]
  have k: "scaling_account_count m < 2 ^ 32" using assms(2) by (auto simp: scaling_account_count_def max_def)
  note S = bench_sums [OF k, of 1]
  have stock: "stock_sum (bat_instrument b) ?l < 2 ^ 63" using S(2) B(2) by simp
  obtain e where e: "execute_batch ?l b = Ok e" and pr: "provable ?l b e"
    using funded_provable [OF B(3,4) assms(3) [folded b_def] B(5) S(1) stock] by blast
  obtain pub w where pw: "proof_inputs (compute_ledger_root ?l 1) ?l b (derive_preimages b 0) e (1700000000 + sq * 10) = (pub, w)"
    by fastforce
  have len: "length (bat_orders b) < 2 ^ 32" using B(1) assms(1) by simp
  have "proof_inputs (compute_ledger_root ?l (bat_instrument b)) ?l b (derive_preimages b 0) e (1700000000 + sq * 10) = (pub, w)"
    using pw B(2) by simp
  note H = honest_prove [OF B(3) e len this]
  obtain proof1 where p: "prove pub w = Ok proof1" using H(1) pr by (auto simp: is_ok_iff)
  have "is_ok (total_inventory_of ?l 1)" using pr B(2) by (simp add: provable_def)
  moreover have "constraint_count pub w < 2 ^ 64" by (rule honest_count [OF B(3) e len pw S(3)])
  ultimately show ?thesis
    using that [OF e _ build_proof_fixture_eq [OF e [unfolded b_def] pw [unfolded b_def]] p _ H(6) H(4) H(7)] by blast
qed

section \<open>Sessions of two-order batches\<close>

definition pair_batch :: "nat \<Rightarrow> batch" where
  "pair_batch i = new_batch (of_nat i) 1 (ivc_step_orders (of_nat i) 100 20 1)"

lemma pair_batch:
  shows pair_orders: "bat_orders (pair_batch i) = ivc_step_orders (of_nat i) 100 20 1"
    and "bat_id (pair_batch i) = of_nat i" "bat_instrument (pair_batch i) = 1"
    and "wf_batch (pair_batch i)" "totals_fit (bat_orders (pair_batch i))" "numbered (bat_orders (pair_batch i))"
    and "crossed (bat_orders (pair_batch i)) p = (if p = 100 then 20 else 0)"
proof -
  let ?os = "ivc_step_orders (of_nat i) 100 20 1 :: order list"
  have len: "length ?os = 2" by (simp add: ivc_step_orders_def)
  have seq: "ord_seq (?os ! j) = of_nat j" if "j < length ?os" for j
    using that by (auto simp: ivc_step_orders_def less_Suc_eq)
  show os: "bat_orders (pair_batch i) = ?os"
    unfolding pair_batch_def by (rule sequenced_batch(1)) (use len seq in simp_all)
  show "numbered (bat_orders (pair_batch i))"
    unfolding os by (rule sequenced_batch(2)) (use len seq in simp_all)
  show "bat_id (pair_batch i) = of_nat i" "bat_instrument (pair_batch i) = 1"
    by (simp_all add: pair_batch_def new_batch_def)
  show "wf_batch (pair_batch i)"
    unfolding pair_batch_def by (rule wf_new_batch) (simp_all add: ivc_step_orders_def wf_order_def valid_side_def)
  show "totals_fit (bat_orders (pair_batch i))"
    by (simp add: os ivc_step_orders_def totals_fit_def total_side_def Buy_def Sell_def)
  show "crossed (bat_orders (pair_batch i)) p = (if p = 100 then 20 else 0)"
    by (auto simp: os ivc_step_orders_def crossed_def demand_at_def supply_at_def Buy_def Sell_def)
qed

lemma pair_stages:
  assumes "batch_stages (pair_batch i) out alloc fills"
  shows "out_price out = Some 100" "out_volume out = 20"
    and "paid buy k fills = (if k = (if buy then 1 else 2) then 2000 else 0)"
    and "moved buy inst k fills = (if inst = 1 \<and> k = (if buy then 1 else 2) then 20 else 0)"
proof -
  let ?b = "pair_batch i"
  have det: "determine_clearing_outcome ?b = Ok out" using assms by (simp add: batch_stages_def)
  have "crossed (bat_orders ?b) 100 \<le> unat (out_volume out)"
    using outcome_reference [OF pair_batch(4) det] crossed_le_max [OF pair_batch(5)] by simp
  then have vol: "20 \<le> unat (out_volume out)" by (simp add: pair_batch(7))
  obtain cp where cp: "out_price out = Some cp" "clearable ?b cp (out_volume out)"
    and alloc: "ba_allocations alloc = map (\<lambda>o1. allocation_of o1 (order_fill ?b cp (out_volume out) o1)) (bat_orders ?b)"
    and fills: "fills = map (fill_for cp 1) (enumerate 0 (executed (ba_allocations alloc)))"
  proof (rule batch_stages_cases [OF pair_batch(4) assms])
    assume "out_price out = None"
    then show ?thesis using vol clearing_price_exists_iff [OF pair_batch(4) det] by simp
  qed (use that pair_batch(3) in simp)
  have "unat (out_volume out) \<le> crossed (bat_orders ?b) cp" using cp(2) by (simp add: clearable_def)
  with vol have c: "cp = 100" "unat (out_volume out) = 20" by (auto simp: pair_batch(7) split: if_splits)
  from c(1) cp show "out_price out = Some 100" by simp
  show "out_volume out = 20" using c(2) by (simp add: word_unat_eq_iff)
  define q where "q = order_fill ?b cp (out_volume out)"
  have A: "ba_allocations alloc = map (\<lambda>o1. allocation_of o1 (q o1)) (bat_orders ?b)" by (simp only: alloc q_def)
  have "side_sum True (ba_allocations alloc) = 20" "side_sum False (ba_allocations alloc) = 20"
    unfolding alloc using side_sum_orders [OF cp(2)] c(2) by simp_all
  then have "unat (q (bat_orders ?b ! 0)) = 20" "unat (q (bat_orders ?b ! 1)) = 20"
    unfolding A by (simp_all add: pair_orders ivc_step_orders_def side_sum_def allocation_of_def Buy_def Sell_def)
  then show "paid buy k fills = (if k = (if buy then 1 else 2) then 2000 else 0)"
    and "moved buy inst k fills = (if inst = 1 \<and> k = (if buy then 1 else 2) then 20 else 0)"
    unfolding fills paid_fills moved_fills A c(1)
    by (auto simp: pair_orders ivc_step_orders_def allocation_of_def Buy_def Sell_def)
qed

text \<open>The ledger after \<open>i\<close> batches.\<close>

definition pair_state :: "ledger \<Rightarrow> nat \<Rightarrow> bool" where
  "pair_state l i \<longleftrightarrow> cash_of l 1 + 2000 * i = 100000 \<and> cash_of l 2 = 100000 + 2000 * i
     \<and> stock_of 1 l 1 = 10000 + 20 * i \<and> stock_of 1 l 2 + 20 * i = 10000
     \<and> cash_sum l < 2 ^ 64 \<and> stock_sum 1 l < 2 ^ 63"

lemma pair_state_start: "pair_state (funded_ledger 1 4) 0"
  using bench_sums [of 4 1] by (simp add: pair_state_def bench_values scaling_account_count_def)

lemma pair_settles:
  assumes "execute_batch l (pair_batch s) = Ok e"
  shows "cash_of (res_post_state e) 1 + 2000 = cash_of l 1" "cash_of (res_post_state e) 2 = cash_of l 2 + 2000"
    and "stock_of 1 (res_post_state e) 1 = stock_of 1 l 1 + 20" "stock_of 1 (res_post_state e) 2 + 20 = stock_of 1 l 2"
    and "cash_sum (res_post_state e) = cash_sum l" "stock_sum 1 (res_post_state e) = stock_sum 1 l"
    and "out_price (res_outcome e) = Some 100"
proof -
  have st: "batch_stages (pair_batch s) (res_outcome e) (res_allocation e) (res_fills e)"
    and ap: "loop_result apply_fill l (res_fills e) = Ok (res_post_state e)"
    using assms by (auto simp: execute_batch_Ok_iff apply_batch_transition_Ok_iff)
  show "cash_of (res_post_state e) 1 + 2000 = cash_of l 1" "cash_of (res_post_state e) 2 = cash_of l 2 + 2000"
    using settle_cash [OF ap, of 1] settle_cash [OF ap, of 2] by (simp_all add: pair_stages [OF st])
  show "stock_of 1 (res_post_state e) 1 = stock_of 1 l 1 + 20" "stock_of 1 (res_post_state e) 2 + 20 = stock_of 1 l 2"
    using settle_stock [OF ap, of 1 1] settle_stock [OF ap, of 1 2] by (simp_all add: pair_stages [OF st])
  show "cash_sum (res_post_state e) = cash_sum l" "stock_sum 1 (res_post_state e) = stock_sum 1 l"
    using settled_totals [OF pair_batch(4) st ap] by simp_all
  show "out_price (res_outcome e) = Some 100" by (rule pair_stages(1) [OF st])
qed

lemma pair_step:
  assumes "pair_state l i" "i < 50"
  shows "\<exists>e. execute_batch l (pair_batch s) = Ok e \<and> provable l (pair_batch s) e \<and> pair_state (res_post_state e) (Suc i)"
proof -
  have "cash_needed k (bat_orders (pair_batch s)) \<le> cash_of l k \<and> stock_needed k (bat_orders (pair_batch s)) \<le> stock_of 1 l k" for k
    using assms
    by (auto simp: cash_needed_def stock_needed_def pair_orders ivc_step_orders_def pair_state_def Buy_def Sell_def)
  then have f: "funded l (pair_batch s)" by (simp add: funded_def pair_batch(3))
  have "cash_sum l < 2 ^ 64" "stock_sum (bat_instrument (pair_batch s)) l < 2 ^ 63"
    using assms by (simp_all add: pair_state_def pair_batch(3))
  from funded_provable [OF pair_batch(4,5) f pair_batch(6) this]
  obtain e where e: "execute_batch l (pair_batch s) = Ok e" "provable l (pair_batch s) e" by blast
  from pair_settles [OF e(1)] assms have "pair_state (res_post_state e) (Suc i)" by (auto simp: pair_state_def)
  with e show ?thesis by blast
qed

lemma pair_exhausted: "pair_state l 50 \<Longrightarrow> execute_batch l (pair_batch s) \<noteq> Ok e"
  using pair_settles(1) by (fastforce simp: pair_state_def)

lemma pairs_sequential:
  "pair_state l i \<Longrightarrow> i + n \<le> 50 \<Longrightarrow> sequential 1 (of_nat i) l (map pair_batch [Suc i..<Suc i + n])"
proof (induction n arbitrary: l i)
  case (Suc n)
  then obtain e where e: "execute_batch l (pair_batch (Suc i)) = Ok e" "provable l (pair_batch (Suc i)) e"
      "pair_state (res_post_state e) (Suc i)"
    using pair_step [of l i "Suc i"] by auto
  have "sequential 1 (of_nat (Suc i)) (res_post_state e) (map pair_batch [Suc (Suc i)..<Suc (Suc i) + n])"
    using Suc.prems by (intro Suc.IH [OF e(3)]) simp
  moreover have "[Suc i..<Suc i + Suc n] = Suc i # [Suc (Suc i)..<Suc (Suc i) + n]"
    by (subst upt_conv_Cons) simp_all
  ultimately show ?case by (simp add: e pair_batch(2,3) del: upt_Suc)
qed simp

section \<open>The loop of the session workload\<close>

definition bench_step :: "ledger \<times> recursive_step list \<Rightarrow> nat \<Rightarrow> (ledger \<times> recursive_step list) throws" where
  "bench_step = (\<lambda>(l, steps) i.
     try_then (build_ivc_step (of_nat i) l 100 20) (\<lambda>(stp, post). Inr (post, steps @ [stp])))"

lemma build_session_loop:
  "build_session n = try_then (loop_throws bench_step (funded_ledger 1 4, []) [1..<n + 1])
     (\<lambda>(l, steps). Inr (genesis (compute_ledger_root (funded_ledger 1 4) 1) 1, steps))"
  by (simp add: build_session_def bench_step_def Let_def del: upt_Suc)

lemma bench_step_Inr:
  "bench_step (l, acc) i = Inr x \<longleftrightarrow> (\<exists>e pub w. execute_batch l (pair_batch i) = Ok e
     \<and> proof_inputs (compute_ledger_root l 1) l (pair_batch i) (derive_preimages (pair_batch i) i) e (step_time i) = (pub, w)
     \<and> x = (res_post_state e, acc @ [\<lparr>step_public_inputs = pub, step_witness = w, step_timestamp = step_time i\<rparr>]))"
proof (cases "execute_batch l (pair_batch i)")
  case (Ok e)
  have nonces: "map (\<lambda>(j, o1). \<lparr>pre_order = o1, pre_nonce = replicate 32 (ucast (of_nat i * 10 + of_nat j + 1 :: u64))\<rparr>)
      (enumerate 0 (bat_orders (pair_batch i))) = derive_preimages (pair_batch i) i"
  proof -
    have "ucast (of_nat i * 10 + of_nat j + 1 :: u64) = (of_nat (i * 10 + j) + 1 :: u8)" for j
    proof -
      have "of_nat i * 10 + of_nat j + 1 = (of_nat (i * 10 + j + 1) :: u64)" by simp
      moreover have "ucast (of_nat m :: u64) = (of_nat m :: u8)" for m by transfer (simp add: take_bit_of_nat)
      ultimately show ?thesis by (simp del: of_nat_Suc of_nat_add of_nat_mult) simp
    qed
    then show ?thesis by (simp add: derive_preimages_def)
  qed
  show ?thesis
    using Ok pair_settles(7) [OF Ok]
    by (auto simp: bench_step_def build_ivc_step_def proof_inputs_def Let_def nonces step_time_def pair_batch(2,3)
        simp flip: pair_batch_def split: prod.splits)
qed (simp add: bench_step_def build_ivc_step_def pair_batch_def value_of_def)

lemma bench_loop_session:
  "loop_throws bench_step (l, acc) [k..<k + n] = Inr (l', acc') \<longleftrightarrow>
   (\<exists>root'. loop_throws session_step (l, compute_ledger_root l 1, acc) (enumerate k (map pair_batch [k..<k + n])) = Inr (l', root', acc'))"
proof (induction n arbitrary: k l acc)
  case (Suc n)
  have upt: "[k..<k + Suc n] = k # [Suc k..<Suc k + n]" by (subst upt_conv_Cons) simp_all
  have root: "pi_post_state_root pub = compute_ledger_root (res_post_state e) 1"
    if "proof_inputs r l (pair_batch k) ps e t = (pub, w)" for r l ps e t pub w
    using that by (auto simp: proof_inputs_def Let_def pair_batch(3) split: prod.splits)
  let ?stp = "\<lambda>pub w. \<lparr>step_public_inputs = pub, step_witness = w, step_timestamp = step_time k\<rparr>"
  let ?in = "\<lambda>e. proof_inputs (compute_ledger_root l 1) l (pair_batch k) (derive_preimages (pair_batch k) k) e (step_time k)"
  have rest: "loop_throws bench_step (res_post_state e, acc @ [?stp pub w]) [Suc k..<Suc k + n] = Inr (l', acc') \<longleftrightarrow>
      (\<exists>root'. loop_throws session_step (res_post_state e, pi_post_state_root pub, acc @ [?stp pub w])
        (enumerate (Suc k) (map pair_batch [Suc k..<Suc k + n])) = Inr (l', root', acc'))" if "?in e = (pub, w)" for e pub w
    unfolding root [OF that] by (rule Suc.IH)
  have "loop_throws bench_step (l, acc) [k..<k + Suc n] = Inr (l', acc') \<longleftrightarrow>
    (\<exists>e pub w. execute_batch l (pair_batch k) = Ok e \<and> ?in e = (pub, w)
      \<and> loop_throws bench_step (res_post_state e, acc @ [?stp pub w]) [Suc k..<Suc k + n] = Inr (l', acc'))"
    unfolding upt loop_throws.simps try_then_Inr_iff bench_step_Inr by blast
  also have "\<dots> \<longleftrightarrow> (\<exists>root'. loop_throws session_step (l, compute_ledger_root l 1, acc) (enumerate k (map pair_batch [k..<k + Suc n]))
      = Inr (l', root', acc'))"
    unfolding upt list.map session_steps_Cons using rest by blast
  finally show ?case .
qed simp

lemma bench_loop:
  "n \<le> 50 \<Longrightarrow> \<exists>l steps. loop_throws bench_step (funded_ledger 1 4, []) [1..<n + 1] = Inr (l, steps) \<and> pair_state l n"
proof (induction n)
  case (Suc n)
  then obtain l steps where l: "loop_throws bench_step (funded_ledger 1 4, []) [1..<n + 1] = Inr (l, steps)" "pair_state l n"
    by auto
  obtain e where e: "execute_batch l (pair_batch (Suc n)) = Ok e" "pair_state (res_post_state e) (Suc n)"
    using pair_step [OF l(2)] Suc.prems by fastforce
  obtain pub w where "proof_inputs (compute_ledger_root l 1) l (pair_batch (Suc n)) (derive_preimages (pair_batch (Suc n)) (Suc n)) e
      (step_time (Suc n)) = (pub, w)" by fastforce
  with e(1) obtain steps' where "bench_step (l, steps) (Suc n) = Inr (res_post_state e, steps')"
    using bench_step_Inr by blast
  moreover have "[1..<Suc n + 1] = [1..<n + 1] @ [Suc n]" by simp
  ultimately show ?case using l e(2) by (simp add: loop_throws_append del: upt_Suc)
qed (simp add: pair_state_start)

lemma build_session_returns: "(\<exists>x. build_session n = Inr x) \<longleftrightarrow> n \<le> 50"
proof
  assume "n \<le> 50"
  from bench_loop [OF this] show "\<exists>x. build_session n = Inr x" by (auto simp: build_session_loop simp del: upt_Suc)
next
  show "n \<le> 50" if "\<exists>x. build_session n = Inr x"
  proof (rule ccontr)
    assume "\<not> n \<le> 50"
    then have "n + 1 = 51 + (n - 50)" "51 < n + 1" by simp_all
    then have upt: "[1..<n + 1] = [1..<50 + 1] @ 51 # [52..<n + 1]"
      using upt_add_eq_append [of 1 51 "n - 50"] upt_conv_Cons [of 51 "n + 1"] by simp
    obtain l steps where l: "loop_throws bench_step (funded_ledger 1 4, []) [1..<50 + 1] = Inr (l, steps)" "pair_state l 50"
      using bench_loop [of 50] by auto
    have "bench_step (l, steps) 51 \<noteq> Inr x" for x using pair_exhausted [OF l(2)] by (simp add: bench_step_Inr)
    then show False using that unfolding build_session_loop upt loop_throws_append l(1) try_then_simps loop_throws.simps
      by (auto simp: throws_simps)
  qed
qed

lemma build_session_chained:
  assumes "n \<le> 50" "build_session n = Inr (initial, steps)"
  shows "chained initial steps" "length steps = n"
    and "list_all (\<lambda>stp. constraint_count (step_public_inputs stp) (step_witness stp) < 2 ^ 64) steps"
proof -
  let ?l = "funded_ledger 1 4" let ?bs = "map pair_batch [Suc 0..<Suc 0 + n]"
  let ?root = "compute_ledger_root ?l 1"
  obtain l' where "loop_throws bench_step (?l, []) [Suc 0..<Suc 0 + n] = Inr (l', steps)" and init: "initial = genesis ?root 1"
    using assms(2) by (auto simp: build_session_loop throws_simps simp del: upt_Suc)
  then obtain root' where loop: "loop_throws session_step (?l, ?root, []) (enumerate (Suc 0) ?bs) = Inr (l', root', [] @ steps)"
    unfolding bench_loop_session by auto
  have bs: "list_all wf_batch ?bs" "list_all (\<lambda>b. length (bat_orders b) < 2 ^ 32) ?bs"
    by (simp_all add: list_all_iff pair_batch(4) pair_orders ivc_step_orders_def)
  have "sequential 1 0 ?l ?bs" using pairs_sequential [OF pair_state_start, of n] assms(1) by (simp del: upt_Suc)
  then show "chained initial steps"
    using session_chain_iff [OF bs, of "Suc 0" initial 1 ?root ?l "[]"] loop assms(1)
    by (auto simp: init genesis_def simp del: upt_Suc)
  show "length steps = n" using session_steps_extend [OF loop] by simp
  show "list_all (\<lambda>stp. constraint_count (step_public_inputs stp) (step_witness stp) < 2 ^ 64) steps"
    using session_counts [OF bs _ loop] bench_sums(3) [of 4 1] by (simp add: scaling_account_count_def)
qed

lemma bench_session_proved:
  assumes "n \<in> {1..50}"
  obtains initial steps s where "build_session n = Inr (initial, steps)" "prove_session initial steps = Ok s"
    and "verify_session (sn_public_inputs s) s = Ok ()" "length steps = n" "chained initial steps"
    and "list_all (\<lambda>stp. constraint_count (step_public_inputs stp) (step_witness stp) < 2 ^ 64) steps"
    and "sn_num_batches s = n" "sn_step_proofs s = map the_proof steps"
proof -
  have le: "n \<le> 50" using assms by simp
  then obtain initial steps where b: "build_session n = Inr (initial, steps)"
    using build_session_returns [of n] by auto
  note C = build_session_chained [OF le b]
  have "steps \<noteq> []" using C(2) assms by auto
  then obtain s where s: "prove_session initial steps = Ok s" using C(1) by (auto simp: prove_session_iff Let_def)
  moreover have "verify_session (sn_public_inputs s) s = Ok ()"
    using s C(3) replay_chained [of initial steps 0] by (auto simp: prove_session_iff verify_session_def Let_def)
  moreover have "sn_num_batches s = n" "sn_step_proofs s = map the_proof steps"
    using s C(2) by (auto simp: prove_session_iff Let_def)
  ultimately show ?thesis using that b C by blast
qed

text \<open>C36: the recursive-session benchmark can be run for one to fifty batches and no further.  Up to fifty the
  session of two-order batches is built, proved and verified; the fifty-first batch, which the
  buyer can no longer pay, makes the construction throw, and an empty session is not proved.\<close>

theorem bench_session_limit:
  "((\<exists>x. build_session n = Inr x) \<longleftrightarrow> n \<le> 50)
   \<and> ((\<exists>initial steps s. build_session n = Inr (initial, steps) \<and> prove_session initial steps = Ok s
        \<and> verify_session (sn_public_inputs s) s = Ok ()) \<longleftrightarrow> n \<in> {1..50})"
proof (intro conjI build_session_returns iffI)
  assume "\<exists>initial steps s. build_session n = Inr (initial, steps) \<and> prove_session initial steps = Ok s
        \<and> verify_session (sn_public_inputs s) s = Ok ()"
  then obtain initial steps s where b: "build_session n = Inr (initial, steps)" and "prove_session initial steps = Ok s" by blast
  then have "steps \<noteq> []" "n \<le> 50" using build_session_returns [of n] by (auto simp: prove_session_iff)
  then show "n \<in> {1..50}" using build_session_chained(2) [OF _ b] by (cases n) auto
next
  assume "n \<in> {1..50}"
  from bench_session_proved [OF this] show "\<exists>initial steps s. build_session n = Inr (initial, steps)
      \<and> prove_session initial steps = Ok s \<and> verify_session (sn_public_inputs s) s = Ok ()" by blast
qed

end
