(* ===== verification/Full_System.thy ===== *)
theory Full_System
  imports Bench_Runs Workload_Proofs
begin

text \<open>
  The constraint count that the benchmarks read from a certificate, and the system they synthesise again
  to count its variables (\<open>bench/fixtures.hpp\<close>): the count is the prover's, and so is the system.
\<close>

section \<open>The constraint count of a certificate\<close>

lemma digits_no_colon: "list_all is_digit ds \<Longrightarrow> \<not> starts_with (drop i (ds @ rest)) [byte_of CHR '':'']" if "i < length ds"
proof -
  assume "list_all is_digit ds"
  then have "is_digit (ds ! i)" using that by (simp add: list_all_length)
  moreover have "\<not> is_digit (byte_of CHR '':'')" by (simp add: is_digit_def byte_of_def)
  moreover have "take 1 (drop i (ds @ rest)) = [ds ! i]"
    using that by (simp add: take_Suc_conv_app_nth nth_append hd_drop_conv_nth take_Suc)
  ultimately show ?thesis by (auto simp: starts_with_def)
qed

lemma find_upt:
  assumes "start \<le> i" "i < n" "P i" "\<And>j. start \<le> j \<Longrightarrow> j < i \<Longrightarrow> \<not> P j"
  shows "find P [start..<n] = Some i"
proof -
  have "[start..<n] = [start..<i] @ i # [Suc i..<n]"
    using assms(1,2) upt_add_eq_append [of start i "n - i"] upt_conv_Cons [of i n] by simp
  moreover have "find P (js @ i # rest) = Some i" if "\<forall>j\<in>set js. \<not> P j" for js rest
    using that assms(3) by (induction js) auto
  ultimately show ?thesis using assms(4) by simp
qed

lemma marker_found:
  "find_from (cert_prefix @ rest) (bytes_of_string ''constraints='') 0 = Some 11"
proof -
  have part: "starts_with (drop i (cert_prefix @ rest)) (bytes_of_string ''constraints='')
      \<longleftrightarrow> take 12 (drop i cert_prefix) = bytes_of_string ''constraints=''" if "i \<le> 11" for i
  proof -
    have "length cert_prefix = 23" "length (bytes_of_string ''constraints='') = 12"
      by (simp_all add: cert_prefix_def bytes_of_string_def)
    then show ?thesis using that by (simp only: starts_with_def drop_append take_append) simp
  qed
  show ?thesis
    unfolding find_from_def
  proof (rule find_upt)
    show "starts_with (drop 11 (cert_prefix @ rest)) (bytes_of_string ''constraints='')"
      by (subst part) (simp_all, code_simp)
    show "11 < length (cert_prefix @ rest) + 1 - length (bytes_of_string ''constraints='')"
      by (simp add: cert_prefix_def bytes_of_string_def)
    fix j :: nat
    assume "j < 11"
    then have "j \<in> {0,1,2,3,4,5,6,7,8,9,10}" unfolding insert_iff empty_iff by presburger
    moreover have "\<forall>j\<in>{0,1,2,3,4,5,6,7,8,9,10::nat}. take 12 (drop j cert_prefix) \<noteq> bytes_of_string ''constraints=''"
      by code_simp
    ultimately have "take 12 (drop j cert_prefix) \<noteq> bytes_of_string ''constraints=''" by (rule bspec [rotated])
    then show "\<not> starts_with (drop j (cert_prefix @ rest)) (bytes_of_string ''constraints='')"
      using part [of j] \<open>j < 11\<close> by (simp del: drop_append)
  qed simp
qed

lemma stoull_digits:
  assumes "ds \<noteq> []" "list_all is_digit ds" "digits_value ds < 2 ^ 64"
  shows "stoull ds = Inr (of_nat (digits_value ds))"
proof -
  have low: "is_digit d \<Longrightarrow> 48 \<le> d" for d by (simp add: is_digit_def byte_of_def)
  have "\<not> is_space_byte d" if "is_digit d" for d
    using low [OF that] by (auto simp: is_space_byte_def word_le_nat_alt)
  then have no_space: "dropWhile is_space_byte ds = ds" using assms(1,2) by (cases ds) auto
  have no_sign: "(take 1 ds = [byte_of CHR ''-'']) = False" "(take 1 ds = [byte_of CHR ''+'']) = False"
    using assms(1,2) by (cases ds; auto simp: byte_of_def dest!: low)+
  have all: "takeWhile is_digit ds = ds" using assms(2) by (simp add: list_all_iff takeWhile_eq_all_conv)
  show ?thesis unfolding stoull_def Let_def no_space no_sign simp_thms if_False all using assms(1,3) by simp
qed

lemma constraints_of_claimed:
  assumes "claimed_count (bp_bytes prf) n" "n < 2 ^ 64"
  shows "constraints_of prf = Inr (of_nat n)"
proof -
  obtain ds where cert: "bp_bytes prf = cert_prefix @ ds @ cert_suffix"
    and ds: "ds \<noteq> []" "list_all is_digit ds" "digits_value ds = n"
    using assms(1) by (auto simp: claimed_count_def)
  let ?c = "cert_prefix @ ds @ cert_suffix"
  have p: "length cert_prefix = 23" by (simp add: cert_prefix_def bytes_of_string_def)
  have drop: "drop (23 + i) ?c = drop i (ds @ cert_suffix)" for i by (simp add: p)
  have stop: "find_from ?c [byte_of CHR '':''] 23 = Some (23 + length ds)"
    unfolding find_from_def
  proof (rule find_upt)
    show "starts_with (drop (23 + length ds) ?c) [byte_of CHR '':'']"
      unfolding drop by (simp add: starts_with_def cert_suffix_def bytes_of_string_def)
    show "23 + length ds < length ?c + 1 - length [byte_of CHR '':'']"
      by (simp add: p cert_suffix_def bytes_of_string_def)
    fix j
    assume "23 \<le> j" "j < 23 + length ds"
    then obtain i where "j = 23 + i" "i < length ds" by (metis add_less_cancel_left le_iff_add)
    then show "\<not> starts_with (drop j ?c) [byte_of CHR '':'']" using digits_no_colon [OF _ ds(2)] drop by simp
  qed simp
  have "length (bytes_of_string ''constraints='') = 12" by (simp add: bytes_of_string_def)
  then show ?thesis
    using stoull_digits [OF ds(1,2)] assms(2) ds(3) drop [of 0]
    by (simp add: constraints_of_def Let_def cert marker_found stop p del: append_assoc drop_append)
qed

section \<open>The system does not depend on the scalars\<close>

text \<open>
  Two syntheses with the same constraint system, whatever their scalars, are told apart by no
  subrelation: they fail alike, or leave the same system again.
\<close>

definition same_system :: "synthesis \<Rightarrow> synthesis \<Rightarrow> bool" where
  "same_system s s' \<longleftrightarrow> fst s = fst s'"

abbreviation same_systems :: "synthesis \<times> 'a \<Rightarrow> synthesis \<times> 'a \<Rightarrow> bool" where
  "same_systems \<equiv> rel_prod same_system (=)"

named_theorems same_intros "steps that keep two syntheses on the same system"

lemma same_steps [same_intros]:
  "same_system s s' \<Longrightarrow> same_system (push_scalar v s) (push_scalar v s')"
  "same_system s s' \<Longrightarrow> same_system (enforce_in a b c l s) (enforce_in a b c l s')"
  "same_system s s' \<Longrightarrow> same_system (enforce_equal_in lc1 lc2 l s) (enforce_equal_in lc1 lc2 l s')"
  "same_system (cs, sc) (cs, sc')"
  by (simp_all add: same_system_def push_scalar_def enforce_in_def enforce_equal_in_def split_beta)

lemma same_next: "same_system s s' \<Longrightarrow> next_var s = next_var s'"
  by (simp add: same_system_def next_var_def)

lemma same_and_then:
  "rel_result R r r' \<Longrightarrow> (\<And>a b. R a b \<Longrightarrow> rel_result Q (f a) (g b)) \<Longrightarrow> rel_result Q (and_then r f) (and_then r' g)"
  by (cases r; cases r') (auto simp: and_then_def)

lemma same_or_fail: "(\<And>v. rel_result Q (f v) (g v)) \<Longrightarrow> rel_result Q (or_fail r msg f) (or_fail r msg g)"
  by (cases r) (auto simp: or_fail_def fail_msg_def)

lemma same_error [simp]: "rel_result R (constraint_error msg) (constraint_error msg)"
  by (simp add: constraint_error_def)

lemma loop_same:
  assumes "\<And>s s' x. R s s' \<Longrightarrow> rel_result R (step s x) (step s' x)" and "R s s'"
  shows "rel_result R (loop_result step s xs) (loop_result step s' xs)"
  using assms(2) by (induction xs arbitrary: s s') (auto intro!: same_and_then assms(1))

lemma foldl_same: "(\<And>s s' x. R s s' \<Longrightarrow> R (step s x) (step s' x)) \<Longrightarrow> R s s' \<Longrightarrow> R (foldl step s xs) (foldl step s' xs)"
  by (induction xs arbitrary: s s') auto

lemma inclusion_same:
  "same_system s s' \<Longrightarrow>
   rel_result same_system (synthesize_merkle_inclusion v root leaf p s) (synthesize_merkle_inclusion v root leaf p s')"
  by (auto simp: synthesize_merkle_inclusion_def Let_def alloc_scalar_push same_next intro!: same_intros)

lemma record_same:
  "same_systems a a' \<Longrightarrow>
   rel_result same_systems (synthesize_record v preimages tree alloc a ir) (synthesize_record v preimages tree alloc a' ir)"
  by (cases a; cases a'; cases ir)
     (auto simp: synthesize_record_def Let_def alloc_scalar_push same_next
       intro!: same_and_then [OF inclusion_same] same_intros split: option.split)

lemma record_loop_same:
  "same_systems a a' \<Longrightarrow> rel_result same_systems (loop_result (synthesize_record v preimages tree alloc) a xs)
     (loop_result (synthesize_record v preimages tree alloc) a' xs)"
  by (rule loop_same [where R = same_systems]) (rule record_same)

lemma accounting_same:
  assumes "same_system s s'"
  shows "rel_result same_system (synthesize_complete_input_accounting b ps tree acc alloc s)
    (synthesize_complete_input_accounting b ps tree acc alloc s')"
proof -
  have sys: "fst s = fst s'" using assms by (simp add: same_system_def)
  show ?thesis
    unfolding synthesize_complete_input_accounting_def Let_def split_beta sys
    by (simp split: result.split, intro impI same_and_then [OF record_loop_same])
       (auto intro: same_intros)
qed

lemma candidate_same:
  "same_system s s' \<Longrightarrow> rel_result same_system (synthesize_candidate orders v vol s p) (synthesize_candidate orders v vol s' p)"
  by (auto simp: synthesize_candidate_def Let_def alloc_scalar_push synth same_next intro!: same_or_fail same_intros)

lemma candidate_loop_same:
  "same_system s s' \<Longrightarrow> rel_result same_system (loop_result (synthesize_candidate orders v vol) s ps)
     (loop_result (synthesize_candidate orders v vol) s' ps)"
  by (rule loop_same [where R = same_system]) (rule candidate_same)

lemma clearing_same:
  assumes "same_system s s'"
  shows "rel_result (rel_prod (=) same_system) (synthesize_clearing_optimality b cp vol s) (synthesize_clearing_optimality b cp vol s')"
proof -
  have sys: "fst s = fst s'" using assms by (simp add: same_system_def)
  have "same_system (cs, snd s) (cs, snd s')" for cs by (simp add: same_intros)
  note loop = candidate_loop_same [OF this]
  have last: "rel_result (rel_prod (=) same_system) (Ok (f (fst s1), s1)) (Ok (f (fst s1'), s1'))"
    if "same_system s1 s1'" for f :: "constraint_system \<Rightarrow> proof_complexity_metrics" and s1 s1'
    using that by (simp add: same_system_def)
  show ?thesis
    unfolding synthesize_clearing_optimality_def Let_def split_beta sys alloc_scalar_push fst_conv snd_conv
    by (rule same_or_fail) (auto simp: same_next synth intro!: same_and_then [OF loop] last same_intros)
qed

lemma order_allocation_same:
  "same_systems a a' \<Longrightarrow>
   rel_result same_systems (synthesize_order_allocation orders cp a al) (synthesize_order_allocation orders cp a' al)"
  by (cases a; cases a') (auto simp: synthesize_order_allocation_def Let_def alloc_scalar_push synth same_next
      intro!: same_intros split: option.split order_moneyness.split)

lemma order_allocation_loop_same:
  "same_systems a a' \<Longrightarrow> rel_result same_systems (loop_result (synthesize_order_allocation orders cp) a als)
     (loop_result (synthesize_order_allocation orders cp) a' als)"
  by (rule loop_same [where R = same_systems]) (rule order_allocation_same)

lemma allocation_same:
  assumes "same_system s s'"
  shows "rel_result same_system (synthesize_allocation b cp vol alloc s) (synthesize_allocation b cp vol alloc s')"
proof -
  have sys: "fst s = fst s'" using assms by (simp add: same_system_def)
  show ?thesis
    unfolding synthesize_allocation_def Let_def split_beta sys
    by (rule same_or_fail) (auto intro!: same_and_then [OF order_allocation_loop_same] same_intros)
qed

lemma fill_same:
  "same_system s s' \<Longrightarrow> rel_result same_system (synthesize_fill cp v orders s f) (synthesize_fill cp v orders s' f)"
  by (simp add: synthesize_fill_def Let_def alloc_scalar_push synth same_next same_steps split: option.split)

lemma fill_bounds_same:
  "same_system s s' \<Longrightarrow> rel_result same_system (synthesize_fill_bounds cp orders fills s) (synthesize_fill_bounds cp orders fills s')"
  unfolding synthesize_fill_bounds_def alloc_scalar_push Let_def prod.case
  by (simp only: same_next, rule loop_same [where R = same_system], rule fill_same) (simp_all add: same_steps)

lemma account_fill_same:
  "same_systems a a' \<Longrightarrow> same_systems (synthesize_account_fill k a f) (synthesize_account_fill k a' f)"
  by (cases a; cases a') (auto simp: synthesize_account_fill_def Let_def alloc_scalar_push synth same_next intro!: same_intros)

lemma account_fills_same:
  "same_systems a a' \<Longrightarrow> same_systems (foldl (synthesize_account_fill k) a fills) (foldl (synthesize_account_fill k) a' fills)"
  by (rule foldl_same [where R = same_systems]) (rule account_fill_same)

lemma account_same:
  assumes "same_systems a a'"
  shows "same_systems (synthesize_account post fills inst a e) (synthesize_account post fills inst a' e)"
proof -
  obtain s t s' k acc where a: "a = (s, t)" "a' = (s', t)" "e = (k, acc)" and s: "same_system s s'"
    using assms by (cases a; cases a'; cases e) auto
  have fills: "same_system (fst x) (fst x') \<and> snd x = snd x'"
    if "x = foldl (synthesize_account_fill k) (push_scalar p4 (push_scalar p3 (push_scalar p2 (push_scalar p1 s))), lcs) fills"
      "x' = foldl (synthesize_account_fill k) (push_scalar p4 (push_scalar p3 (push_scalar p2 (push_scalar p1 s'))), lcs) fills"
    for p1 p2 p3 p4 lcs x x'
    unfolding that rel_prod_sel [symmetric] using s by (intro account_fills_same) (simp add: same_steps)
  show ?thesis unfolding a synthesize_account_def Let_def alloc_scalar_push split_beta
    using fills [OF refl refl] by (simp add: synth same_next [OF s] same_steps)
qed

lemma conservation_same:
  assumes "same_system s s'"
  shows "rel_result same_system (synthesize_conservation pre post fills inst s) (synthesize_conservation pre post fills inst s')"
proof -
  have "same_systems (foldl (synthesize_account post fills inst) (s, x) es) (foldl (synthesize_account post fills inst) (s', x) es)"
    for x es
    by (rule foldl_same [where R = same_systems], rule account_same) (simp_all add: assms)
  then have "same_system (fst (foldl (synthesize_account post fills inst) (s, x) es)) (fst (foldl (synthesize_account post fills inst) (s', x) es))
    \<and> snd (foldl (synthesize_account post fills inst) (s, x) es) = snd (foldl (synthesize_account post fills inst) (s', x) es)" for x es
    unfolding rel_prod_sel by simp
  then show ?thesis by (simp add: synthesize_conservation_def split_beta same_steps)
qed

section \<open>The replayed system\<close>

lemma rel_result_Ok: "rel_result R r r' \<Longrightarrow> r = Ok v \<Longrightarrow> \<exists>v'. r' = Ok v' \<and> R v v'"
  by (cases r') auto

lemma ignoring_errors_Ok [simp]: "ignoring_errors (Ok v) f = f v"
  by (simp add: ignoring_errors_def)

text \<open>
  The benchmark replays the subrelations with the scalars of all of them in one list, the prover
  with a list for each: the systems are the same.
\<close>

lemma replayed_system:
  assumes "synthesize_statement (pf_public_inputs fx) (pf_witness fx)
      (new_merkle_tree (map commit_order (bw_preimages (pf_witness fx)))) (bw_accounting (pf_witness fx)) = Ok (cs, W)"
    and "bw_oracle_snapshot (pf_witness fx) = None"
  shows "synthesize_full_system fx = Some \<lparr>sc_constraints = of_nat (length (cs_constraints cs)),
    sc_public_variables = of_nat (cs_num_public cs), sc_witness_variables = of_nat (cs_num_witness cs)\<rparr>"
proof -
  let ?w = "pf_witness fx" and ?pub = "pf_public_inputs fx"
  let ?b = "bw_batch ?w" and ?cp = "published_price ?pub" and ?vol = "pi_cleared_volume ?pub"
  let ?tree = "new_merkle_tree (map commit_order (bw_preimages ?w))"
  obtain vars cs1 w1 where 1: "synthesize_order_validity (bat_instrument ?b) (bat_orders ?b) (new_constraint_system, []) = (vars, cs1, w1)"
    by (metis prod_cases3)
  obtain cs2 w2 m cs3 w3 cs4 w4 cs5 w5 w6 where
      2: "synthesize_complete_input_accounting ?b (bw_preimages ?w) ?tree (bw_accounting ?w) (bw_allocation ?w) (cs1, []) = Ok (cs2, w2)"
    and 3: "synthesize_clearing_optimality ?b ?cp ?vol (cs2, []) = Ok (m, cs3, w3)"
    and 4: "(case ?cp of None \<Rightarrow> Ok (cs3, []) | Some p \<Rightarrow> synthesize_allocation ?b p ?vol (bw_allocation ?w) (cs3, [])) = Ok (cs4, w4)"
    and 5: "(case ?cp of None \<Rightarrow> Ok (cs4, []) | Some p \<Rightarrow> synthesize_fill_bounds p (bat_orders ?b) (bw_fills ?w) (cs4, [])) = Ok (cs5, w5)"
    and 6: "synthesize_conservation (bw_pre_state ?w) (bw_post_state ?w) (bw_fills ?w) (bat_instrument ?b) (cs5, []) = Ok (cs, w6)"
    using assms unfolding synthesize_statement_def Let_def 1 prod.case
    by (auto simp: and_then_conv_Ok_iff)
  have same: "same_system (c, x) s \<longleftrightarrow> fst s = c" for c x s by (auto simp: same_system_def)
  obtain s2 where s2: "synthesize_complete_input_accounting ?b (bw_preimages ?w) ?tree (bw_accounting ?w) (bw_allocation ?w) (cs1, w1) = Ok s2"
      "fst s2 = cs2"
    using rel_result_Ok [OF accounting_same [of "(cs1, [])" "(cs1, w1)"] 2] by (auto simp: same)
  obtain s3 where s3: "synthesize_clearing_optimality ?b ?cp ?vol s2 = Ok (m, s3)" "fst s3 = cs3"
    using rel_result_Ok [OF clearing_same [of "(cs2, [])" s2] 3] s2(2) by (auto simp: same rel_prod_sel)
  obtain s4 where s4: "(case ?cp of None \<Rightarrow> Ok s3 | Some p \<Rightarrow> synthesize_allocation ?b p ?vol (bw_allocation ?w) s3) = Ok s4"
      "fst s4 = cs4"
  proof (cases ?cp)
    case (Some p)
    then show ?thesis
      using rel_result_Ok [OF allocation_same [of "(cs3, [])" s3], of ?b p ?vol "bw_allocation ?w" "(cs4, w4)"] 4 s3(2) that
      by (auto simp: same)
  qed (use 4 s3(2) that in auto)
  obtain s5 where s5: "(case ?cp of None \<Rightarrow> Ok s4 | Some p \<Rightarrow> synthesize_fill_bounds p (bat_orders ?b) (bw_fills ?w) s4) = Ok s5"
      "fst s5 = cs5"
  proof (cases ?cp)
    case (Some p)
    then show ?thesis
      using rel_result_Ok [OF fill_bounds_same [of "(cs4, [])" s4], of p "bat_orders ?b" "bw_fills ?w" "(cs5, w5)"] 5 s4(2) that
      by (auto simp: same)
  qed (use 5 s4(2) that in auto)
  obtain s6 where s6: "synthesize_conservation (bw_pre_state ?w) (bw_post_state ?w) (bw_fills ?w) (bat_instrument ?b) s5 = Ok s6"
      "fst s6 = cs"
    using rel_result_Ok [OF conservation_same [of "(cs5, [])" s5] 6] s5(2) by (auto simp: same)
  show ?thesis
    using s6(2) by (simp add: synthesize_full_system_def Let_def 1 s2(1) s3(1) s4(1) s5(1) s6(1) split_beta
        flip: published_price_def)
qed

lemma proved_statement:
  assumes "prove pub w = Ok prf" "bind_inputs pub w = Ok (tree, acc)"
  obtains cs W where "synthesize_statement pub w tree acc = Ok (cs, W)"
    "bp_bytes prf = certificate (length (cs_constraints cs)) 5"
  using assms by (auto simp: prove_Ok_iff public_scalars_def numeral_eq_Suc intro: that)

lemma scaling_completes:
  assumes "n < 2 ^ 32" "m < 2 ^ 32" "funded (funded_ledger 1 m) (new_batch sq 1 (scaling_orders n 1))"
  shows "\<exists>fx proof1 counts. build_proof_fixture n (funded_ledger 1 m) sq = Inr fx
    \<and> prove (pf_public_inputs fx) (pf_witness fx) = Ok proof1
    \<and> verify_batch_proof (pf_public_inputs fx) proof1 = Ok ()
    \<and> synthesize_full_system fx = Some counts
    \<and> constraints_of proof1 = Inr (sc_constraints counts)"
proof -
  obtain post pub w proof1 where F: "build_proof_fixture n (funded_ledger 1 m) sq
      = Inr \<lparr>pf_public_inputs = pub, pf_witness = w, pf_post_state = post\<rparr>"
    and p: "prove pub w = Ok proof1" "constraint_count pub w < 2 ^ 64" "bw_oracle_snapshot w = None"
    and bind: "bind_inputs pub w = Ok (new_merkle_tree (map commit_order (bw_preimages w)), bw_accounting w)"
    by (rule scaling_fixture [OF assms]) blast
  let ?fx = "\<lparr>pf_public_inputs = pub, pf_witness = w, pf_post_state = post\<rparr>"
  obtain cs W where st: "synthesize_statement pub w (new_merkle_tree (map commit_order (bw_preimages w))) (bw_accounting w) = Ok (cs, W)"
    and cert: "bp_bytes proof1 = certificate (length (cs_constraints cs)) 5"
    by (rule proved_statement [OF p(1) bind])
  have "claimed_count (bp_bytes proof1) (constraint_count pub w)"
    unfolding prove_certificate [OF p(1)] by (simp add: certificate_claims)
  note count = constraints_of_claimed [OF this p(2)]
  have "length (cia_records (bw_accounting w)) = length (bat_orders (bw_batch w))"
  proof -
    obtain rs where "mset rs = mset (cia_records (bw_accounting w))" "map rec_leaf_index rs = [0..<length (bat_orders (bw_batch w))]"
      using bind by (auto simp: bind_inputs_Ok well_bound_def)
    then show ?thesis by (metis length_map length_upt minus_nat.diff_0 mset_eq_length)
  qed
  from statement_constraints [OF st this] have n: "length (cs_constraints cs) = constraint_count pub w" .
  have "verify_batch_proof pub proof1 = Ok ()" using proof_verifies [OF p(1)] p(2) by simp
  with F p(1) count n replayed_system [of ?fx, simplified, OF st p(3)] show ?thesis by auto
qed

text \<open>C35: every batch of the scaling benchmark is provable, whatever its size: on the ledger funded for that
  size the batch executes, so that building its fixture does not throw, the prover accepts the fixture
  and the verifier the proof.  The system whose variables the benchmark reports is the one the prover
  built: the replay of the subrelations fails nowhere, and counts as many constraints as the certificate
  states.\<close>

theorem scaling_fixture_provable:
  assumes "n < 2 ^ 32"
  shows "\<exists>fx proof1 counts. build_proof_fixture n (funded_ledger 1 n) sq = Inr fx
    \<and> prove (pf_public_inputs fx) (pf_witness fx) = Ok proof1
    \<and> verify_batch_proof (pf_public_inputs fx) proof1 = Ok ()
    \<and> synthesize_full_system fx = Some counts
    \<and> constraints_of proof1 = Inr (sc_constraints counts)"
  using scaling_completes [OF assms assms scaling_batch(6) [OF assms]] by blast

theorem scaling_fixture_provable_witness:
  "\<exists>fx counts. build_proof_fixture 64 (funded_ledger 1 64) 1 = Inr fx \<and> synthesize_full_system fx = Some counts"
  using scaling_fixture_provable [of 64 1] by auto

end
