(* ===== verification/Interval_Proofs.thy ===== *)
theory Interval_Proofs
  imports Interval
begin

text \<open>
  What the partition promises: the order of the input does not matter, every submission lands in the
  batch of its interval, and the batches are valid.
\<close>

section \<open>The canonical order of a stream\<close>

lemma submission_key_inject: "submission_key a = submission_key b \<longleftrightarrow> a = b"
  by (cases a; cases b; cases "sub_order a"; cases "sub_order b") (auto simp: submission_key_def)

interpretation submission_order: comparator submission_before
  by unfold_locales (auto simp: submission_before_def dest: less_trans)

lemma submissions_total: "submission_order.total_on A"
  unfolding submission_order.total_on_def submission_before_def
proof (intro ballI impI)
  fix a b :: submission
  assume "a \<noteq> b"
  then have "submission_key a \<noteq> submission_key b" by (simp only: submission_key_inject not_False_eq_True)
  then show "submission_key a < submission_key b \<or> submission_key b < submission_key a" by (rule iffD1 [OF neq_iff])
qed

lemma new_stream_perm: "mset subs = mset subs' \<Longrightarrow> new_stream inst subs = new_stream inst subs'"
proof -
  assume "mset subs = mset subs'"
  then have "std_sort submission_before subs = std_sort submission_before subs'"
    by (rule submission_order.std_sort_perm) (rule submissions_total)
  then show ?thesis by (simp only: new_stream_def)
qed

lemma stream_sorted: "sorted (map sub_arrival (st_submissions (new_stream inst subs)))"
proof -
  have "sub_arrival a \<le> sub_arrival b" if "\<not> submission_before b a" for a b
    using that by (auto simp: submission_before_def submission_key_def Let_def not_less)
  then have "sorted_wrt (\<lambda>a b. sub_arrival a \<le> sub_arrival b) (std_sort submission_before subs)"
    by (rule sorted_wrt_mono_rel [OF _ submission_order.in_order_std_sort])
  then show ?thesis by (simp add: new_stream_def sorted_map)
qed

section \<open>One interval\<close>

definition salted :: "submission \<Rightarrow> salted_order_preimage" where
  "salted s = \<lparr>pre_order = sub_order s, pre_nonce = sub_salt s\<rparr>"

lemma admit_split:
  "admit cutoff orders ps subs =
     (orders @ map sub_order (takeWhile (\<lambda>s. sub_arrival s < cutoff) subs),
      ps @ map salted (takeWhile (\<lambda>s. sub_arrival s < cutoff) subs),
      dropWhile (\<lambda>s. sub_arrival s < cutoff) subs)"
  by (induction subs arbitrary: orders ps) (auto simp: salted_def)

text \<open>The batch of a list of submissions, in their order.\<close>

definition interval_bundle :: "instrument_id \<Rightarrow> u64 \<Rightarrow> u64 \<Rightarrow> submission list \<Rightarrow> synthetic_batch_bundle" where
  "interval_bundle inst k cutoff subs =
     \<lparr>sb_batch = \<lparr>bat_id = k, bat_instrument = inst, bat_orders = renumber_orders (map sub_order subs)\<rparr>,
      sb_preimages = renumber_preimages (map salted subs), sb_cutoff = cutoff\<rparr>"

lemma length_renumber_preimages [simp]: "length (renumber_preimages ps) = length ps"
  by (simp add: renumber_preimages_def)

lemma interval_step_eq:
  assumes "length subs < 2 ^ 64"
  shows "interval_step inst start interval k (subs, batches) =
    (let cutoff = start + k * interval; now = takeWhile (\<lambda>s. sub_arrival s < cutoff) subs in
     (dropWhile (\<lambda>s. sub_arrival s < cutoff) subs,
      if now = [] then batches else batches @ [interval_bundle inst k cutoff now]))"
proof -
  have "length (takeWhile P subs) < 2 ^ 64" for P
    using assms by (rule le_less_trans [OF length_takeWhile_le])
  then show ?thesis
    by (simp add: interval_step_def admit_split Let_def interval_bundle_def new_batch_def
      batch_order.std_sort_in_order renumbered_in_order)
qed

section \<open>The counted loop\<close>

lemma count_to_steps:
  assumes "n \<noteq> max_raw" "unat k + m = unat n + 1"
  shows "count_to body n k s = Some (foldl (\<lambda>s i. body (of_nat i) s) s [unat k..<unat n + 1])"
  using assms(2)
proof (induction m arbitrary: k s)
  case 0
  then have "\<not> k \<le> n" by (simp add: word_le_nat_alt)
  with 0 show ?case by (simp add: count_to.simps)
next
  case (Suc m)
  have "unat n < 2 ^ 64 - 1"
    using assms(1) unat_less_pow [of n] by (auto simp: word_unat_eq_iff unat_max_raw)
  with Suc.prems have k: "unat (k + 1) = unat k + 1" "k \<le> n"
    by (simp_all add: unat_add_fits word_le_nat_alt)
  then have "[unat k..<unat n + 1] = unat k # [unat (k + 1)..<unat n + 1]"
    by (simp add: upt_conv_Cons word_le_nat_alt)
  moreover have "count_to body n (k + 1) (body k s) =
      Some (foldl (\<lambda>s i. body (of_nat i) s) (body k s) [unat (k + 1)..<unat n + 1])"
    by (rule Suc.IH) (use Suc.prems k in simp)
  ultimately show ?case using k(2) by (subst count_to.simps) simp
qed

lemma count_to_returns:
  assumes "n \<noteq> max_raw"
  shows "count_to body n 1 s = Some (foldl (\<lambda>s i. body (of_nat i) s) s [1..<unat n + 1])"
proof -
  have "count_to body n 1 s = Some (foldl (\<lambda>s i. body (of_nat i) s) s [unat (1 :: u64)..<unat n + 1])"
    by (rule count_to_steps [OF assms]) simp
  then show ?thesis by (simp only: unat_1)
qed

lemma count_to_max: "count_to body max_raw k s = None"
proof -
  have "n \<noteq> max_raw" if "count_to f n k s = Some s'" for f :: "u64 \<Rightarrow> 'a \<Rightarrow> 'a" and n k s s'
    by (rule count_to.raw_induct [where P = "\<lambda>f n k s s'. n \<noteq> max_raw", OF _ that]) (auto split: if_splits)
  then show ?thesis by (cases "count_to body max_raw k s") blast+
qed

section \<open>The whole partition\<close>

text \<open>Whether a submission falls into the \<open>k\<close>-th interval, over the natural numbers; the first interval
  also takes what arrived before the session started.\<close>

definition cutoff_at :: "u64 \<Rightarrow> u64 \<Rightarrow> nat \<Rightarrow> nat" where
  "cutoff_at start interval k = unat start + k * unat interval"

definition in_interval :: "u64 \<Rightarrow> u64 \<Rightarrow> nat \<Rightarrow> submission \<Rightarrow> bool" where
  "in_interval start interval k s \<longleftrightarrow>
     (k = 1 \<or> cutoff_at start interval (k - 1) \<le> unat (sub_arrival s))
     \<and> unat (sub_arrival s) < cutoff_at start interval k"

definition batch_at :: "instrument_id \<Rightarrow> u64 \<Rightarrow> u64 \<Rightarrow> submission list \<Rightarrow> nat \<Rightarrow> synthetic_batch_bundle" where
  "batch_at inst start interval subs k =
     interval_bundle inst (of_nat k) (start + of_nat k * interval) (filter (in_interval start interval k) subs)"

lemma takeWhile_arrivals:
  assumes "sorted (map sub_arrival subs)"
  shows "takeWhile (\<lambda>s. sub_arrival s < c) subs = filter (\<lambda>s. sub_arrival s < c) subs"
    and "dropWhile (\<lambda>s. sub_arrival s < c) subs = filter (\<lambda>s. \<not> sub_arrival s < c) subs"
proof -
  have "takeWhile (\<lambda>s. sub_arrival s < c) subs = filter (\<lambda>s. sub_arrival s < c) subs
      \<and> dropWhile (\<lambda>s. sub_arrival s < c) subs = filter (\<lambda>s. \<not> sub_arrival s < c) subs"
    using assms
  proof (induction subs)
    case (Cons s subs)
    show ?case
    proof (cases "sub_arrival s < c")
      case False
      with Cons.prems have "\<forall>x\<in>set subs. \<not> sub_arrival x < c" by auto
      with False show ?thesis by (simp add: filter_True filter_False)
    qed (use Cons in simp)
  qed simp
  then show "takeWhile (\<lambda>s. sub_arrival s < c) subs = filter (\<lambda>s. sub_arrival s < c) subs"
    "dropWhile (\<lambda>s. sub_arrival s < c) subs = filter (\<lambda>s. \<not> sub_arrival s < c) subs" by simp_all
qed

lemma cutoff_word:
  assumes "cutoff_at start interval k < 2 ^ 64"
  shows "unat (start + of_nat k * interval) = cutoff_at start interval k"
  using assms by (simp add: cutoff_at_def unat_word_ariths unsigned_of_nat take_bit_eq_mod mod_simps)

lemma interval_loop:
  assumes "sorted (map sub_arrival subs)" "length subs < 2 ^ 64" "cutoff_at start interval n < 2 ^ 64"
  shows "foldl (\<lambda>s k. interval_step inst start interval (of_nat k) s) (subs, []) [1..<n + 1] =
    (filter (\<lambda>s. n = 0 \<or> cutoff_at start interval n \<le> unat (sub_arrival s)) subs,
     map (batch_at inst start interval subs) (filter (\<lambda>k. filter (in_interval start interval k) subs \<noteq> []) [1..<n + 1]))"
  using assms(3)
proof (induction n)
  case 0
  then show ?case by simp
next
  case (Suc n)
  let ?rest = "filter (\<lambda>s. n = 0 \<or> cutoff_at start interval n \<le> unat (sub_arrival s)) subs"
  have upt: "[1..<Suc n + 1] = [1..<n + 1] @ [Suc n]" by simp
  have n: "cutoff_at start interval n \<le> cutoff_at start interval (Suc n)" by (simp add: cutoff_at_def)
  have before: "sub_arrival s < start + of_nat (Suc n) * interval \<longleftrightarrow> unat (sub_arrival s) < cutoff_at start interval (Suc n)" for s
    unfolding word_less_nat_alt cutoff_word [OF Suc.prems] ..
  have sorted: "sorted (map sub_arrival ?rest)" by (rule sorted_filter [OF assms(1)])
  have now: "takeWhile (\<lambda>s. sub_arrival s < start + of_nat (Suc n) * interval) ?rest
      = filter (in_interval start interval (Suc n)) subs"
    unfolding takeWhile_arrivals(1) [OF sorted] unfolding before
    by (auto simp: in_interval_def intro!: filter_cong)
  have later: "dropWhile (\<lambda>s. sub_arrival s < start + of_nat (Suc n) * interval) ?rest
      = filter (\<lambda>s. cutoff_at start interval (Suc n) \<le> unat (sub_arrival s)) subs"
    unfolding takeWhile_arrivals(2) [OF sorted] unfolding before using n by (auto intro!: filter_cong)
  have len: "length ?rest < 2 ^ 64" using assms(2) by (rule le_less_trans [OF length_filter_le])
  from Suc.prems n have IH: "foldl (\<lambda>s k. interval_step inst start interval (of_nat k) s) (subs, []) [1..<n + 1] =
      (?rest, map (batch_at inst start interval subs)
         (filter (\<lambda>k. filter (in_interval start interval k) subs \<noteq> []) [1..<n + 1]))"
    by (intro Suc.IH) simp
  show ?case
    unfolding upt foldl_append IH
    by (simp only: foldl.simps interval_step_eq [OF len] Let_def now later)
      (simp add: batch_at_def del: of_nat_Suc)
qed

text \<open>How many intervals it takes to reach the last arrival, and the bound a caller may set.\<close>

definition interval_number :: "u64 \<Rightarrow> u64 \<Rightarrow> submission list \<Rightarrow> u64 option \<Rightarrow> nat" where
  "interval_number start interval subs limit =
     (let reach = (Max (unat ` sub_arrival ` set subs) - unat start) div unat interval + 1
      in case limit of Some m \<Rightarrow> min reach (unat m) | None \<Rightarrow> reach)"

text \<open>No end of an interval the loop reaches exceeds 64 bits.\<close>

definition time_fits :: "u64 \<Rightarrow> u64 \<Rightarrow> submission list \<Rightarrow> bool" where
  "time_fits start interval subs \<longleftrightarrow> unat start + unat interval < 2 ^ 64 - 1
     \<and> list_all (\<lambda>s. unat (sub_arrival s) + unat interval < 2 ^ 64 - 1) subs"

lemma last_arrival:
  assumes "subs \<noteq> []"
  shows "unat (sub_arrival (last (st_submissions (new_stream inst subs)))) = Max (unat ` sub_arrival ` set subs)"
proof -
  let ?l = "st_submissions (new_stream inst subs)"
  have set: "set ?l = set subs" "?l \<noteq> []"
    using assms by (simp_all add: new_stream_def flip: length_greater_0_conv)
  then have "sub_arrival s \<le> sub_arrival (last ?l)" if "s \<in> set subs" for s
    using that stream_sorted [of inst subs] by (auto simp: sorted_map sorted_wrt_append dest!: split_list_last simp flip: set(1))
  then show ?thesis
    using set last_in_set [of ?l] by (intro Max_eqI [symmetric]) (auto simp: word_le_nat_alt)
qed

lemma interval_reach:
  assumes "subs \<noteq> []" "interval \<noteq> 0" "time_fits start interval subs"
  shows "cutoff_at start interval (interval_number start interval subs limit) < 2 ^ 64 - 1"
proof -
  let ?m = "Max (unat ` sub_arrival ` set subs)" and ?i = "unat interval"
  let ?n = "interval_number start interval subs limit"
  have "?n \<le> (?m - unat start) div ?i + 1" by (simp add: interval_number_def Let_def split: option.split)
  then have "?n * ?i \<le> ((?m - unat start) div ?i + 1) * ?i" by (rule mult_le_mono1)
  also have "\<dots> \<le> (?m - unat start) + ?i" by (simp add: distrib_right)
  finally have "cutoff_at start interval ?n \<le> max (unat start) ?m + ?i" by (simp add: cutoff_at_def)
  moreover have "?m \<in> unat ` sub_arrival ` set subs" using assms(1) by (intro Max_in) auto
  ultimately show ?thesis using assms(3) by (auto simp: time_fits_def list_all_iff max_def split: if_splits)
qed

lemma interval_count_number:
  assumes "subs \<noteq> []" "interval \<noteq> 0" "time_fits start interval subs"
  shows "unat (interval_count (new_stream inst subs) start interval limit) = interval_number start interval subs limit"
proof -
  let ?last = "sub_arrival (last (st_submissions (new_stream inst subs)))"
  define span where "span = (if start < ?last then ?last - start else 0)"
  have span: "unat span = Max (unat ` sub_arrival ` set subs) - unat start"
    by (auto simp: span_def word_nat simp flip: last_arrival [OF assms(1), of inst])
  have i: "1 \<le> unat interval" using assms(2) by (metis less_one linorder_not_less unat_eq_0)
  have "(unat span div unat interval + 1) * 1 \<le> (unat span div unat interval + 1) * unat interval" using i by (rule mult_le_mono2)
  also have "\<dots> \<le> cutoff_at start interval (interval_number start interval subs None)"
    by (simp add: cutoff_at_def interval_number_def span)
  also have "\<dots> < 2 ^ 64 - 1" by (rule interval_reach [OF assms])
  finally have "unat (span div interval + 1) = unat span div unat interval + 1"
    by (subst unat_add_fits) (simp_all add: unat_div)
  moreover have "interval_count (new_stream inst subs) start interval limit =
      (case limit of Some m \<Rightarrow> min (span div interval + 1) m | None \<Rightarrow> span div interval + 1)"
    by (simp only: interval_count_def span_def Let_def)
  moreover have "interval_number start interval subs limit =
      (case limit of Some m \<Rightarrow> min (unat span div unat interval + 1) (unat m) | None \<Rightarrow> unat span div unat interval + 1)"
    by (simp only: interval_number_def span Let_def)
  ultimately show ?thesis by (cases limit) (simp_all only: option.case min_def word_le_nat_alt if_distrib [of unat])
qed

lemma partition_eq:
  assumes "subs \<noteq> []" "interval \<noteq> 0" "length subs < 2 ^ 64" "time_fits start interval subs"
  shows "partition_stream (new_stream inst subs) start interval limit =
    Some (map (batch_at inst start interval (st_submissions (new_stream inst subs)))
      (filter (\<lambda>k. list_ex (in_interval start interval k) subs) [1..<interval_number start interval subs limit + 1]))"
proof -
  let ?l = "st_submissions (new_stream inst subs)" and ?n = "interval_count (new_stream inst subs) start interval limit"
  have l: "length ?l < 2 ^ 64" "set ?l = set subs" "?l \<noteq> []" "st_instrument (new_stream inst subs) = inst"
    using assms(1,3) by (simp_all add: new_stream_def flip: length_greater_0_conv)
  have n: "unat ?n = interval_number start interval subs limit"
    by (rule interval_count_number [OF assms(1,2,4)])
  have c: "cutoff_at start interval (unat ?n) < 2 ^ 64 - 1" unfolding n by (rule interval_reach [OF assms(1,2,4)])
  have "unat ?n * 1 \<le> unat ?n * unat interval"
    using assms(2) by (intro mult_le_mono2) (metis less_one linorder_not_less unat_eq_0)
  also have "\<dots> \<le> cutoff_at start interval (unat ?n)" by (simp add: cutoff_at_def)
  finally have "?n \<noteq> max_raw" using c by (auto simp: word_unat_eq_iff unat_max_raw)
  have "filter (in_interval start interval k) ?l \<noteq> [] \<longleftrightarrow> list_ex (in_interval start interval k) subs" for k
    by (auto simp: filter_empty_conv list_ex_iff l(2))
  moreover have "cutoff_at start interval (unat ?n) < 2 ^ 64" using c by simp
  ultimately show ?thesis
    using assms(2) l(3)
    by (simp only: partition_stream_def count_to_returns [OF \<open>?n \<noteq> max_raw\<close>]
        interval_loop [OF stream_sorted l(1)] l(4) n if_False HOL.simp_thms option.map snd_conv)
qed

section \<open>Nothing is lost\<close>

lemma sorted_filter_split:
  assumes "sorted (map f xs)" "c \<le> (d :: nat)"
  shows "filter (\<lambda>x. f x < c) xs @ filter (\<lambda>x. c \<le> f x \<and> f x < d) xs = filter (\<lambda>x. f x < d) xs"
  using assms(1)
proof (induction xs)
  case (Cons x xs)
  show ?case
  proof (cases "f x < c")
    case True
    with Cons assms(2) show ?thesis by simp
  next
    case False
    with Cons.prems have "filter (\<lambda>x. f x < c) xs = []" by (auto simp: filter_empty_conv)
    with False Cons show ?thesis by simp
  qed
qed simp

lemma intervals_cover:
  assumes "sorted (map sub_arrival subs)"
  shows "concat (map (\<lambda>k. filter (in_interval start interval k) subs) [1..<n + 1])
    = filter (\<lambda>s. n \<noteq> 0 \<and> unat (sub_arrival s) < cutoff_at start interval n) subs"
proof (induction n)
  case (Suc n)
  have sorted: "sorted (map (\<lambda>s. unat (sub_arrival s)) subs)"
    using assms by (simp add: sorted_map word_le_nat_alt)
  have le: "cutoff_at start interval n \<le> cutoff_at start interval (Suc n)" by (simp add: cutoff_at_def)
  have upt: "[1..<Suc n + 1] = [1..<n + 1] @ [Suc n]" by simp
  show ?case
  proof (cases "n = 0")
    case True
    then show ?thesis by (simp add: in_interval_def)
  next
    case False
    then have "in_interval start interval (Suc n) = (\<lambda>s. cutoff_at start interval n \<le> unat (sub_arrival s)
        \<and> unat (sub_arrival s) < cutoff_at start interval (Suc n))"
      by (auto simp: in_interval_def)
    with False show ?thesis
      unfolding upt map_append concat_append Suc.IH using sorted_filter_split [OF sorted le] by simp
  qed
qed simp

lemma concat_map_filter_nonempty: "concat (map f (filter (\<lambda>k. f k \<noteq> []) ks)) = concat (map f ks)"
  by (induction ks) auto

lemma all_before_last_cutoff:
  assumes "s \<in> set subs" "interval \<noteq> 0"
  shows "unat (sub_arrival s) < cutoff_at start interval (interval_number start interval subs None)"
proof -
  let ?m = "Max (unat ` sub_arrival ` set subs)"
  have "unat (sub_arrival s) \<le> ?m" using assms(1) by (intro Max_ge) auto
  also have "?m - unat start < ((?m - unat start) div unat interval + 1) * unat interval"
    using assms(2) by (simp add: unat_gt_0 dividend_less_div_times distrib_right)
  then have "?m < cutoff_at start interval (interval_number start interval subs None)"
    by (simp add: cutoff_at_def interval_number_def)
  finally show ?thesis .
qed

definition unnumbered :: "order \<Rightarrow> order" where
  "unnumbered o1 = o1\<lparr>ord_seq := 0\<rparr>"

lemma unnumbered_renumber: "map unnumbered (renumber_orders orders) = map unnumbered orders"
  by (rule nth_equalityI) (simp_all add: renumber_nth unnumbered_def)

lemma renumber_nonces: "map pre_nonce (renumber_preimages ps) = map pre_nonce ps"
  by (rule nth_equalityI) (simp_all add: renumber_preimages_def)

lemma renumber_preimage_orders: "map pre_order (renumber_preimages (map salted subs)) = renumber_orders (map sub_order subs)"
  by (rule nth_equalityI) (simp_all add: renumber_preimages_def renumber_nth salted_def)

text \<open>What a batch of the partition is.\<close>

definition interval_batch :: "u64 \<Rightarrow> u64 \<Rightarrow> instrument_id \<Rightarrow> synthetic_batch_bundle \<Rightarrow> bool" where
  "interval_batch start interval inst bd \<longleftrightarrow>
     wf_batch (sb_batch bd) \<and> bat_instrument (sb_batch bd) = inst \<and> bat_orders (sb_batch bd) \<noteq> []
     \<and> map ord_seq (bat_orders (sb_batch bd)) = map of_nat [0..<length (bat_orders (sb_batch bd))]
     \<and> map pre_order (sb_preimages bd) = bat_orders (sb_batch bd)
     \<and> sb_cutoff bd = start + bat_id (sb_batch bd) * interval"

lemma batch_at_valid:
  assumes "list_all (\<lambda>s. wf_order inst (sub_order s)) subs" "distinct (map (ord_id \<circ> sub_order) subs)"
    and "length subs < 2 ^ 64" "filter (in_interval start interval k) subs \<noteq> []"
  shows "interval_batch start interval inst (batch_at inst start interval subs k)"
proof -
  let ?now = "filter (in_interval start interval k) subs"
  let ?orders = "renumber_orders (map sub_order ?now)"
  have len: "length (map sub_order ?now) < 2 ^ 64"
    using assms(3) by (simp add: le_less_trans [OF length_filter_le])
  have "list_all (wf_order inst) ?orders"
    using assms(1) unfolding renumber_wf by (auto simp: list_all_iff)
  moreover have "distinct (map ord_id ?orders)"
    unfolding renumber_ids using assms(2) by (simp add: distinct_map_filter comp_def)
  ultimately have "wf_batch \<lparr>bat_id = of_nat k, bat_instrument = inst, bat_orders = ?orders\<rparr>"
    using new_batch_renumbered [OF len, of "of_nat k" inst] wf_new_batch [of inst ?orders "of_nat k"] by simp
  then show ?thesis
    using assms(4) by (simp add: interval_batch_def batch_at_def interval_bundle_def renumber_preimage_orders renumber_seqs)
qed

lemma partition_keeps:
  assumes "subs \<noteq> []" and "interval \<noteq> 0" and "length subs < 2 ^ 64" and "time_fits start interval subs"
    and "list_all (\<lambda>s. wf_order inst (sub_order s)) subs" and "distinct (map (ord_id \<circ> sub_order) subs)"
  shows "\<exists>bds. partition_stream (new_stream inst subs) start interval None = Some bds
    \<and> map unnumbered (concat (map (bat_orders \<circ> sb_batch) bds))
        = map (unnumbered \<circ> sub_order) (st_submissions (new_stream inst subs))
    \<and> map pre_nonce (concat (map sb_preimages bds)) = map sub_salt (st_submissions (new_stream inst subs))
    \<and> list_all (interval_batch start interval inst) bds"
proof -
  define subs' where "subs' = st_submissions (new_stream inst subs)"
  define n where "n = interval_number start interval subs None"
  define ks where "ks = filter (\<lambda>k. list_ex (in_interval start interval k) subs) [1..<n + 1]"
  have mset: "mset subs' = mset subs" by (simp add: subs'_def new_stream_def)
  then have set: "set subs' = set subs" by (metis set_mset_mset)
  have ks: "ks = filter (\<lambda>k. filter (in_interval start interval k) subs' \<noteq> []) [1..<n + 1]"
    by (auto simp: ks_def filter_empty_conv list_ex_iff set intro!: filter_cong)
  have "n \<noteq> 0" by (simp add: n_def interval_number_def)
  have "concat (map (\<lambda>k. filter (in_interval start interval k) subs') ks)
      = concat (map (\<lambda>k. filter (in_interval start interval k) subs') [1..<n + 1])"
    unfolding ks by (rule concat_map_filter_nonempty)
  also have "\<dots> = filter (\<lambda>s. n \<noteq> 0 \<and> unat (sub_arrival s) < cutoff_at start interval n) subs'"
    unfolding subs'_def by (rule intervals_cover [OF stream_sorted])
  also have "\<dots> = subs'"
    using all_before_last_cutoff [OF _ assms(2), of _ subs start] \<open>n \<noteq> 0\<close> by (auto simp: filter_id_conv set n_def)
  finally have cover: "concat (map (\<lambda>k. filter (in_interval start interval k) subs') ks) = subs'" .
  let ?bds = "map (batch_at inst start interval subs') ks"
  have "map unnumbered (concat (map (bat_orders \<circ> sb_batch) ?bds)) = map (unnumbered \<circ> sub_order) subs'"
    by (subst (2) cover [symmetric])
      (simp add: map_concat comp_def batch_at_def interval_bundle_def unnumbered_renumber [unfolded comp_def])
  moreover have "map pre_nonce (concat (map sb_preimages ?bds)) = map sub_salt subs'"
    by (subst (2) cover [symmetric])
      (simp add: map_concat comp_def batch_at_def interval_bundle_def renumber_nonces salted_def)
  moreover have "list_all (interval_batch start interval inst) ?bds"
  proof -
    have "list_all (\<lambda>s. wf_order inst (sub_order s)) subs'" using assms(5) by (simp add: list_all_iff set)
    moreover have "distinct (map (ord_id \<circ> sub_order) subs')"
      using assms(6) mset by (metis mset_eq_imp_distinct_iff mset_map)
    moreover have "length subs' < 2 ^ 64" using assms(3) mset by (metis size_mset)
    ultimately show ?thesis by (auto simp: list_all_iff ks intro!: batch_at_valid)
  qed
  moreover have "partition_stream (new_stream inst subs) start interval None = Some ?bds"
    unfolding subs'_def ks_def n_def by (rule partition_eq [OF assms(1-4)])
  ultimately show ?thesis unfolding subs'_def by blast
qed

section \<open>Properties\<close>

text \<open>C30: Partitioning a stream gives, for every interval in turn in which something arrived, the batch
  of exactly the submissions that arrived in it, in the canonical order of the stream; the batch
  carries the number of its interval and the end of it.  The intervals are those of the natural
  numbers, up to the last arrival or the caller's bound, as long as no end of an interval exceeds
  64 bits.\<close>

theorem partition_by_interval:
  assumes "subs \<noteq> []" and "interval \<noteq> 0" and "length subs < 2 ^ 64" and "time_fits start interval subs"
  shows "partition_stream (new_stream inst subs) start interval limit =
    Some (map (batch_at inst start interval (st_submissions (new_stream inst subs)))
      (filter (\<lambda>k. list_ex (in_interval start interval k) subs) [1..<interval_number start interval subs limit + 1]))"
  by (rule partition_eq [OF assms])

definition sample_submission :: "u64 \<Rightarrow> u64 \<Rightarrow> submission" where
  "sample_submission oid arrival =
     \<lparr>sub_order = \<lparr>ord_id = oid, ord_account = oid + 10, ord_instrument = 7, ord_side = Buy, ord_price = 100,
                   ord_qty = 1, ord_seq = 99\<rparr>,
      sub_arrival = arrival, sub_salt = replicate 32 0\<rparr>"

definition sample_stream :: "submission list" where
  "sample_stream = [sample_submission 3 500, sample_submission 1 500, sample_submission 2 2500]"

lemma sample_stream_fits: "sample_stream \<noteq> []" "length sample_stream < 2 ^ 64" "time_fits 0 1000 sample_stream"
  by (simp_all add: sample_stream_def time_fits_def sample_submission_def)

theorem partition_by_interval_witness:
  "\<exists>bds. partition_stream (new_stream 7 sample_stream) 0 1000 None = Some bds
     \<and> map (bat_id \<circ> sb_batch) bds = [1, 3]"
  using partition_by_interval [OF sample_stream_fits(1) _ sample_stream_fits(2,3), of 7 None]
  by (simp add: sample_stream_def sample_submission_def interval_number_def in_interval_def cutoff_at_def
    upt_rec batch_at_def interval_bundle_def)

text \<open>Without a bound on the number of batches no submission is lost or used twice: the salted orders
  of the batches, one batch after the other, are those of the stream in its canonical order, with
  only their sequence numbers rewritten.  When the orders are valid for the instrument and their
  identifiers distinct, every batch is valid, not empty, and numbers its orders from zero.\<close>

theorem partition_keeps_submissions:
  assumes "subs \<noteq> []" and "interval \<noteq> 0" and "length subs < 2 ^ 64" and "time_fits start interval subs"
    and "list_all (\<lambda>s. wf_order inst (sub_order s)) subs" and "distinct (map (ord_id \<circ> sub_order) subs)"
  shows "\<exists>bds. partition_stream (new_stream inst subs) start interval None = Some bds
    \<and> map unnumbered (concat (map (bat_orders \<circ> sb_batch) bds))
        = map (unnumbered \<circ> sub_order) (st_submissions (new_stream inst subs))
    \<and> map pre_nonce (concat (map sb_preimages bds)) = map sub_salt (st_submissions (new_stream inst subs))
    \<and> list_all (interval_batch start interval inst) bds"
  by (rule partition_keeps [OF assms])

theorem partition_keeps_submissions_witness:
  "\<exists>bds. partition_stream (new_stream 7 sample_stream) 0 1000 None = Some bds
     \<and> list_all (interval_batch 0 1000 7) bds"
proof -
  have "list_all (\<lambda>s. wf_order 7 (sub_order s)) sample_stream" "distinct (map (ord_id \<circ> sub_order) sample_stream)"
    by (simp_all add: sample_stream_def sample_submission_def wf_order_def valid_side_def)
  with partition_keeps_submissions [OF sample_stream_fits(1) _ sample_stream_fits(2,3), of 7] show ?thesis by auto
qed

end
