(* ===== verification/Bench_Proofs.thy ===== *)
theory Bench_Proofs
  imports Bench_Reports Workload_Proofs Interval_Proofs Venue
begin

text \<open>
  The runs of the batch-interval benchmark return and submit every generated order, but settle trades of two
  accounts only.
\<close>

section \<open>The stream of a generated session\<close>

lemma length_concat_bounded: "list_all (\<lambda>xs. length xs \<le> m) xss \<Longrightarrow> length (concat xss) \<le> length xss * m"
  by (induction xss) auto

lemma flow_session:
  fixes seed :: u64
  defines "bds \<equiv> ss_batches (generate_session (flow_config seed))"
  shows "list_all (flow_bundle (flow_config seed)) bds" "length bds = 40"
    and "distinct (bundle_ids bds)" "length (bundle_ids bds) \<le> 400" "bundle_ids bds \<noteq> []"
proof -
  let ?cfg = "flow_config seed"
  have cfg: "cfg_min_qty ?cfg \<noteq> 0" "num_accounts ?cfg < 2 ^ 64" "cfg_min_orders ?cfg \<noteq> 0 \<or> cfg_max_orders ?cfg \<noteq> max_raw"
    "cfg_num_batches ?cfg = 40" "unat (cfg_min_orders ?cfg) = 4" "unat (cfg_max_orders ?cfg) = 10"
    by (simp_all add: flow_config_def default_config_def num_accounts_def)
  obtain bs oid rng where s: "foldl (gen_batch_step ?cfg) ([], 1, cfg_seed ?cfg) [1..<cfg_num_batches ?cfg + 1] = (bs, oid, rng)"
    by (metis prod_cases3)
  then have bds: "bds = bs" unfolding bds_def by (simp only: generate_session_def Let_def prod.case synthetic_session.simps)
  have G: "list_all (flow_bundle ?cfg) bs" "map (bat_id \<circ> sb_batch) bs = map of_nat [1..<cfg_num_batches ?cfg + 1]"
    "bundle_ids bs = map (\<lambda>i. 1 + of_nat i) [0..<length (bundle_ids bs)]"
    using gen_batches [OF cfg(1-3), where seed = "cfg_seed ?cfg" and n = "cfg_num_batches ?cfg"] unfolding s prod.case by blast+
  show "list_all (flow_bundle ?cfg) bds" unfolding bds by (rule G(1))
  show len: "length bds = 40" unfolding bds using arg_cong [OF G(2), of length] cfg(4) by simp
  have one: "4 \<le> length (bat_orders (sb_batch bd)) \<and> length (bat_orders (sb_batch bd)) \<le> 10" if "bd \<in> set bs" for bd
  proof -
    have "flow_bundle ?cfg bd" using G(1) that by (simp add: list_all_iff)
    moreover from this have "length (bat_orders (sb_batch bd)) = length (sb_preimages bd)"
      unfolding flow_bundle_def by (metis length_map)
    ultimately show ?thesis using cfg(5,6) by (simp add: flow_bundle_def)
  qed
  show le: "length (bundle_ids bds) \<le> 400"
    unfolding bds bundle_ids_def
    using length_concat_bounded [of 10 "map (\<lambda>bd. map ord_id (bat_orders (sb_batch bd))) bs"] one len bds
    by (auto simp: list_all_iff)
  have "bs \<noteq> []" using len bds by auto
  then obtain bd where "bd \<in> set bs" by (cases bs) auto
  with one [OF this] show "bundle_ids bds \<noteq> []" unfolding bds by (auto simp: bundle_ids_def intro!: bexI [of _ bd])
  have "unat (1 + of_nat i :: u64) = i + 1" if "i < 400" for i
    using unat_of_nat_small [of "Suc i"] that by simp
  then have "inj_on (\<lambda>i. 1 + of_nat i :: u64) {0..<length (bundle_ids bs)}"
    using le by (intro inj_on_inverseI [where g = "\<lambda>w. unat w - 1"]) (simp add: bds)
  then have "distinct (map (\<lambda>i. 1 + of_nat i :: u64) [0..<length (bundle_ids bs)])" by (simp add: distinct_map)
  then show "distinct (bundle_ids bds)" unfolding bds G(3) [symmetric] .
qed

text \<open>The submissions carry the orders of the bundles, with arrivals within the horizon.\<close>

definition within_horizon :: "submission \<Rightarrow> bool" where
  "within_horizon s \<longleftrightarrow> 1700000000000000000 \<le> unat (sub_arrival s) \<and> unat (sub_arrival s) \<le> 1700000010000000000"

lemma submit_orders:
  assumes "length ps = length os"
  shows "\<exists>new rng'. foldl submit_order (subs, rng) (zip os ps) = (subs @ new, rng') \<and> map sub_order new = os
    \<and> list_all within_horizon new"
  using assms
proof (induction os ps arbitrary: subs rng rule: list_induct2')
  case (4 o1 os p ps)
  obtain delay rng1 where d: "gen_range_u64 0 10000000000 rng = (delay, rng1)" by fastforce
  have "(10000000000 :: u64) \<noteq> max_raw" by (simp add: word_unat_eq_iff unat_max_raw)
  then have "delay \<le> 10000000000" using gen_range_upper [of 0 10000000000 rng] by (simp add: d)
  then have delay: "unat delay \<le> 10000000000" by (simp add: word_le_nat_alt)
  let ?s = "\<lparr>sub_order = o1, sub_arrival = 1700000000000000000 + delay, sub_salt = pre_nonce p\<rparr>"
  obtain new rng' where IH: "foldl submit_order (subs @ [?s], rng1) (zip os ps) = ((subs @ [?s]) @ new, rng')"
      "map sub_order new = os" "list_all within_horizon new"
    using 4 by (metis Suc_inject length_Cons)
  have "unat (1700000000000000000 + delay) = 1700000000000000000 + unat delay"
    using delay by (subst unat_add_fits) simp_all
  then have "within_horizon ?s" using delay by (simp add: within_horizon_def)
  with IH show ?case by (auto simp: submit_order_def d)
qed simp_all

lemma flow_submissions:
  assumes "list_all (\<lambda>bd. length (sb_preimages bd) = length (bat_orders (sb_batch bd))) bds"
  shows "map sub_order (flow_submissions seed bds) = concat (map (bat_orders \<circ> sb_batch) bds)
    \<and> list_all within_horizon (flow_submissions seed bds)"
proof -
  have "\<exists>new rng'. foldl (\<lambda>s bd. foldl submit_order s (zip (bat_orders (sb_batch bd)) (sb_preimages bd))) (subs, rng) bds
      = (subs @ new, rng') \<and> map sub_order new = concat (map (bat_orders \<circ> sb_batch) bds) \<and> list_all within_horizon new" for subs rng
    using assms
  proof (induction bds arbitrary: subs rng)
    case (Cons bd bds)
    obtain new rng' where n: "foldl submit_order (subs, rng) (zip (bat_orders (sb_batch bd)) (sb_preimages bd)) = (subs @ new, rng')"
        "map sub_order new = bat_orders (sb_batch bd)" "list_all within_horizon new"
      using submit_orders [of "sb_preimages bd" "bat_orders (sb_batch bd)" subs rng] Cons.prems by auto
    obtain new2 rng2 where "foldl (\<lambda>s bd. foldl submit_order s (zip (bat_orders (sb_batch bd)) (sb_preimages bd))) (subs @ new, rng') bds
        = ((subs @ new) @ new2, rng2)" "map sub_order new2 = concat (map (bat_orders \<circ> sb_batch) bds)" "list_all within_horizon new2"
      using Cons.IH [of "subs @ new" rng'] Cons.prems unfolding list.pred_inject(2) by blast
    with n show ?case by (auto simp: comp_def)
  qed simp
  from this [of "[]" "seed XOR 0x5DEECE66D"] show ?thesis by (auto simp: flow_submissions_def)
qed

text \<open>The partition of the stream.\<close>

lemma flow_partition:
  fixes seed :: u64
  assumes "0 < interval_ms" "interval_ms \<le> 1000000"
  defines "bundles \<equiv> ss_batches (generate_session (flow_config seed))"
  shows "\<exists>bds. partition_stream (new_stream 1 (flow_submissions seed bundles)) 1700000000000000000 (interval_ms * 1000000) None = Some bds
    \<and> list_all (\<lambda>bd. wf_batch (sb_batch bd)) bds
    \<and> length (concat (map (bat_orders \<circ> sb_batch) bds)) = length (concat (map (bat_orders \<circ> sb_batch) bundles))"
proof -
  let ?subs = "flow_submissions seed bundles" and ?i = "interval_ms * 1000000 :: u64"
  note B = flow_session [of seed, folded bundles_def]
  have flow: "map pre_order (sb_preimages bd) = bat_orders (sb_batch bd) \<and> wf_batch (sb_batch bd) \<and> bat_instrument (sb_batch bd) = 1"
    if "bd \<in> set bundles" for bd
    using B(1) that by (simp add: list_all_iff flow_bundle_def flow_config_def)
  then have "length (sb_preimages bd) = length (bat_orders (sb_batch bd))" if "bd \<in> set bundles" for bd
    using that by (metis length_map)
  then have S: "map sub_order ?subs = concat (map (bat_orders \<circ> sb_batch) bundles)" "list_all within_horizon ?subs"
    using flow_submissions [of bundles seed] by (simp_all add: list_all_iff)
  have ids: "map (ord_id \<circ> sub_order) ?subs = bundle_ids bundles"
    using arg_cong [OF S(1), of "map ord_id"] by (simp add: bundle_ids_def map_concat comp_def)
  have ms: "unat ?i = unat interval_ms * 1000000" "unat interval_ms \<le> 1000000" "0 < unat interval_ms"
  proof -
    show le: "unat interval_ms \<le> 1000000" and "0 < unat interval_ms"
      using assms(1,2) by (simp_all add: word_le_nat_alt word_less_nat_alt)
    then show "unat ?i = unat interval_ms * 1000000" by (simp add: unat_mult_lem [THEN iffD1])
  qed
  have subs: "?subs \<noteq> []" "length ?subs < 2 ^ 64" "distinct (map (ord_id \<circ> sub_order) ?subs)"
  proof -
    have "length ?subs = length (bundle_ids bundles)" using ids by (metis length_map)
    then show "?subs \<noteq> []" "length ?subs < 2 ^ 64" using B(4,5) by auto
    show "distinct (map (ord_id \<circ> sub_order) ?subs)" unfolding ids by (rule B(3))
  qed
  have wf: "list_all (\<lambda>s. wf_order 1 (sub_order s)) ?subs"
  proof -
    have "\<forall>o1\<in>set (map sub_order ?subs). wf_order 1 o1"
      unfolding S(1) using flow by (fastforce simp: wf_batch_def list_all_iff)
    then show ?thesis by (simp add: list_all_iff)
  qed
  have fits: "time_fits 1700000000000000000 ?i ?subs"
    using S(2) ms by (auto simp: time_fits_def within_horizon_def list_all_iff)
  have "?i \<noteq> 0" using ms by (auto simp: word_unat_eq_iff)
  from partition_keeps [OF subs(1) this subs(2) fits wf subs(3)]
  obtain bds where "partition_stream (new_stream 1 ?subs) 1700000000000000000 ?i None = Some bds"
    and keep: "map unnumbered (concat (map (bat_orders \<circ> sb_batch) bds)) = map (unnumbered \<circ> sub_order) (st_submissions (new_stream 1 ?subs))"
    and "list_all (interval_batch 1700000000000000000 ?i 1) bds" by blast
  moreover from this have "list_all (\<lambda>bd. wf_batch (sb_batch bd)) bds" by (auto simp: list_all_iff interval_batch_def)
  moreover have "length (concat (map (bat_orders \<circ> sb_batch) bds)) = length ?subs"
    using arg_cong [OF keep, of length] by (simp add: new_stream_def del: length_concat)
  moreover have "length ?subs = length (concat (map (bat_orders \<circ> sb_batch) bundles))"
    using arg_cong [OF S(1), of length] by (simp del: length_concat)
  ultimately show ?thesis by auto
qed

section \<open>What a run executes\<close>

fun executed_results :: "ledger \<Rightarrow> synthetic_batch_bundle list \<Rightarrow> batch_execution_result list" where
  "executed_results l [] = []"
| "executed_results l (bd # bds) =
     (if bat_orders (sb_batch bd) = [] then executed_results l bds
      else case execute_batch l (sb_batch bd) of
        Err e \<Rightarrow> executed_results l bds
      | Ok e \<Rightarrow> e # executed_results (res_post_state e) bds)"

lemma evaluate_bundles:
  "ir_total_orders (snd (foldl evaluate_bundle (l, run) bds)) = ir_total_orders run + length (concat (map (bat_orders \<circ> sb_batch) bds))
   \<and> ir_total_fills (snd (foldl evaluate_bundle (l, run) bds)) = ir_total_fills run + length (concat (map res_fills (executed_results l bds)))"
proof (induction bds arbitrary: l run)
  case (Cons bd bds)
  obtain l' run' where step: "evaluate_bundle (l, run) bd = (l', run')" by fastforce
  then have "ir_total_orders run' = ir_total_orders run + length (bat_orders (sb_batch bd))"
    and "ir_total_fills run' + length (concat (map res_fills (executed_results l' bds)))
      = ir_total_fills run + length (concat (map res_fills (executed_results l (bd # bds))))"
    by (auto simp: evaluate_bundle_def Let_def split: if_splits result.splits)
  then show ?case using Cons.IH [of l' run'] by (simp add: step del: executed_results.simps)
qed simp

lemma executed_accounts:
  "list_all (\<lambda>bd. wf_batch (sb_batch bd)) bds \<Longrightarrow>
   fill_account_id ` set (concat (map res_fills (executed_results l bds))) \<subseteq> dom (om_find l)"
proof (induction bds arbitrary: l)
  case (Cons bd bds)
  show ?case
  proof (cases "execute_batch l (sb_batch bd)")
    case (Ok e)
    have wf: "wf_batch (sb_batch bd)" and rest: "list_all (\<lambda>bd. wf_batch (sb_batch bd)) bds" using Cons.prems by simp_all
    note known = known_accounts [OF wf Ok]
    have "fill_account_id ` set (concat (map res_fills (executed_results (res_post_state e) bds))) \<subseteq> dom (om_find l)"
      using Cons.IH [OF rest, of "res_post_state e"] unfolding known(2) .
    with Cons.IH [OF rest, of l] known(1) Ok show ?thesis by (simp add: image_Un)
  qed (use Cons in simp)
qed simp

text \<open>The ledger of a run is that of the venue that runs the batches in turn.\<close>

lemma evaluate_bundles_run:
  "venue_run l (map sb_batch (filter (\<lambda>bd. bat_orders (sb_batch bd) \<noteq> []) bds)) (fst (foldl evaluate_bundle (l, run) bds))"
proof (induction bds arbitrary: l run)
  case (Cons bd bds)
  obtain l' run' where step: "evaluate_bundle (l, run) bd = (l', run')" by fastforce
  then have "if bat_orders (sb_batch bd) = [] then l' = l else venue_step l (sb_batch bd) l'"
    by (auto simp: evaluate_bundle_def Let_def split: if_splits result.splits intro: executed_step skipped_step)
  then show ?case using Cons.IH [of l' run'] by (auto simp: step intro: venue_run_Cons split: if_splits)
qed simp

text \<open>C37: A run of the batch-interval benchmark returns, and submits every order of its session once, at any
  interval from a millisecond to a thousand seconds.  But the ledger it starts from is funded for two
  accounts, while the session trades for ten: whatever the seed, every fill that a run counts, and
  so all the volume it reports as cleared, belongs to accounts 1 and 2; the batches in which any other
  account would trade fail, and the loop skips them.\<close>

theorem interval_run_two_accounts:
  assumes "0 < interval_ms" and "interval_ms \<le> 1000000"
  shows "num_accounts (flow_config seed) = 10 \<and> (\<exists>bds run.
      partition_stream (new_stream 1 (flow_submissions seed (ss_batches (generate_session (flow_config seed)))))
        1700000000000000000 (interval_ms * 1000000) None = Some bds
    \<and> evaluate_interval seed interval_ms = Some run
    \<and> ir_total_orders run = length (concat (map (bat_orders \<circ> sb_batch) (ss_batches (generate_session (flow_config seed)))))
    \<and> ir_total_fills run = length (concat (map res_fills (executed_results (funded_ledger 1 4) bds)))
    \<and> fill_account_id ` set (concat (map res_fills (executed_results (funded_ledger 1 4) bds))) \<subseteq> {1, 2})"
proof -
  let ?bundles = "ss_batches (generate_session (flow_config seed))"
  obtain bds where p: "partition_stream (new_stream 1 (flow_submissions seed ?bundles)) 1700000000000000000 (interval_ms * 1000000) None = Some bds"
    and wf: "list_all (\<lambda>bd. wf_batch (sb_batch bd)) bds"
    and len: "length (concat (map (bat_orders \<circ> sb_batch) bds)) = length (concat (map (bat_orders \<circ> sb_batch) ?bundles))"
    using flow_partition [OF assms, of seed] by blast
  have "dom (om_find (funded_ledger 1 4)) \<subseteq> {1, 2}"
    by (auto simp: bench_find scaling_account_count_def word_unat_eq_iff split: if_splits)
  with executed_accounts [OF wf, of "funded_ledger 1 4"]
  have "fill_account_id ` set (concat (map res_fills (executed_results (funded_ledger 1 4) bds))) \<subseteq> {1, 2}" by blast
  moreover have "num_accounts (flow_config seed) = 10" by (simp add: flow_config_def default_config_def num_accounts_def)
  ultimately show ?thesis
    using p len by (simp add: evaluate_interval_def Let_def evaluate_bundles split_beta del: length_concat set_concat)
qed

theorem interval_run_two_accounts_witness: "\<exists>run. evaluate_interval 101 10 = Some run"
  using interval_run_two_accounts [of 10 101] by auto

end
