(* ===== verification/Bench_Completion.thy ===== *)
theory Bench_Completion
  imports Bench_Driver Full_System Bench_Proofs
begin

text \<open>
  Every benchmark completes, whatever its clock reports: no call of \<open>value()\<close> throws, no run takes one of
  the exits for a failed proof, and no point outside the model is reached.  The runner's result follows.
\<close>

section \<open>Loops\<close>

lemma loop_completes:
  assumes "\<And>s x. x \<in> set xs \<Longrightarrow> P s \<Longrightarrow> \<exists>s'. f s x = Inr s' \<and> P s'" and "P s"
  shows "\<exists>s'. loop_throws f s xs = Inr s' \<and> P s'"
  using assms
proof (induction xs arbitrary: s)
  case (Cons x xs)
  then obtain s1 where "f s x = Inr s1" "P s1" by force
  with Cons show ?case by auto
qed simp

lemmas loop_returns = loop_completes [where P = "\<lambda>s. True", simplified]

lemma thrown_simps [simp]: "thrown (Inr v) = Inr v" "thrown (Inl what) = Inl (Threw what)"
  by (simp_all add: thrown_def)

lemma or_exit_Ok [simp]: "or_exit what (Ok v) f = f v"
  by (simp add: or_exit_def)

definition completes :: "bench_run \<Rightarrow> string list \<Rightarrow> bool" where
  "completes r names \<longleftrightarrow> (\<exists>artifacts text1. r = Inr (artifacts, text1) \<and> map fst artifacts = names)"

lemma completes_simps [simp]: "completes (Inr (artifacts, text1)) names \<longleftrightarrow> map fst artifacts = names"
  by (auto simp: completes_def)

text \<open>A run that is a loop over its points, and then writes.\<close>

lemma run_loop_completes:
  assumes "\<And>s x. x \<in> set xs \<Longrightarrow> \<exists>s'. f s x = Inr s'" and "\<And>s. completes (k s) names"
  shows "completes (try_then (loop_throws f s xs) k) names"
  using loop_returns [of xs f s, OF assms(1)] assms(2) by auto

lemma run_thrown_loop_completes:
  assumes "\<And>s x. x \<in> set xs \<Longrightarrow> \<exists>s'. f s x = Inr s'" and "\<And>s. completes (k s) names"
  shows "completes (try_then (thrown (loop_throws f s xs)) k) names"
  using loop_returns [of xs f s, OF assms(1)] assms(2) by auto

section \<open>The proof layer\<close>

lemma prove_sample_returns:
  assumes "prove (pf_public_inputs fx) (pf_witness fx) = Ok proof1"
  shows "\<exists>s'. loop_throws (prove_sample fx clock) s xs = Inr s'"
  using assms by (intro loop_returns) (simp add: prove_sample_def split_beta)

lemma batch_size_bound: "n \<in> set batch_sizes \<Longrightarrow> n < 2 ^ 32"
  by (auto simp: batch_sizes_def)

lemma proof_scaling_completes: "completes (run_proof_scaling platform clock) [''zk_proof_scaling_benchmark.json'']"
proof -
  have "\<exists>s'. proof_scaling_point clock s n = Inr s'" if "n \<in> set batch_sizes" for s n
  proof -
    note n = batch_size_bound [OF that]
    obtain fx proof1 counts where F: "build_proof_fixture n (funded_ledger 1 n) 1 = Inr fx"
        "prove (pf_public_inputs fx) (pf_witness fx) = Ok proof1" "synthesize_full_system fx = Some counts"
      using scaling_completes [OF n n scaling_batch(6) [OF n], of 1] by blast
    obtain t w where s: "s = (t, w)" by (cases s)
    obtain t' pu vu proof2 where "loop_throws (prove_sample fx clock) (t, [], [], default_proof) [0..<5] = Inr (t', pu, vu, proof2)"
      using prove_sample_returns [OF F(2), of clock "(t, [], [], default_proof)" "[0..<5]"] by auto
    then show ?thesis by (simp add: proof_scaling_point_def s F Let_def)
  qed
  then show ?thesis
    unfolding run_proof_scaling_def Let_def by (rule run_loop_completes) (auto split: prod.split)
qed

lemma bench_accounting_synthesis:
  assumes "prove pub w = Ok proof1" "wf_batch (bw_batch w)"
    and "bind_inputs pub w = Ok (new_merkle_tree (map commit_order (bw_preimages w)), bw_accounting w)"
  shows "\<exists>s'. synthesize_complete_input_accounting (bw_batch w) (bw_preimages w)
    (new_merkle_tree (map commit_order (bw_preimages w))) (bw_accounting w) (bw_allocation w) (new_constraint_system, []) = Ok s'"
proof -
  let ?tree = "new_merkle_tree (map commit_order (bw_preimages w))"
  have "checked pub w ?tree (bw_accounting w)"
    using assms by (auto simp: checked_def prove_Ok_iff)
  moreover have "publics (new_constraint_system, []) = 0" by (simp add: publics_def new_constraint_system_def)
  ultimately show ?thesis using accounting_part by blast
qed

lemma accounting_metrics_completes: "completes (run_accounting_metrics platform clock) [''zk_accounting_metrics.json'']"
proof -
  have "\<exists>s'. accounting_point clock s n = Inr s'" if "n \<in> set batch_sizes" for s n
  proof -
    note n = batch_size_bound [OF that]
    obtain post pub w proof1 where F: "build_proof_fixture n (funded_ledger 1 n) 1 = Inr \<lparr>pf_public_inputs = pub, pf_witness = w, pf_post_state = post\<rparr>"
      and p: "prove pub w = Ok proof1" and b: "bw_batch w = new_batch 1 1 (scaling_orders n 1)"
      and bind: "bind_inputs pub w = Ok (new_merkle_tree (map commit_order (bw_preimages w)), bw_accounting w)"
      by (rule scaling_fixture [OF n n scaling_batch(6) [OF n]]) blast
    have "wf_batch (bw_batch w)" unfolding b by (rule scaling_batch(3) [OF n])
    from bench_accounting_synthesis [OF p this bind]
    obtain cs sc where A: "synthesize_complete_input_accounting (bw_batch w) (bw_preimages w)
      (new_merkle_tree (map commit_order (bw_preimages w))) (bw_accounting w) (bw_allocation w) (new_constraint_system, []) = Ok (cs, sc)"
      by auto
    let ?fx = "\<lparr>pf_public_inputs = pub, pf_witness = w, pf_post_state = post\<rparr>"
    obtain t wr where s: "s = (t, wr)" by (cases s)
    have "\<exists>s'. loop_throws (accounting_sample ?fx clock) (t, [], 0, 0, 0) [0..<5] = Inr s'"
      by (rule loop_returns) (simp add: accounting_sample_def split_beta A)
    then obtain t' us c1 c2 c3 where "loop_throws (accounting_sample ?fx clock) (t, [], 0, 0, 0) [0..<5] = Inr (t', us, c1, c2, c3)"
      by auto
    then show ?thesis by (simp add: accounting_point_def s F Let_def)
  qed
  then show ?thesis
    unfolding run_accounting_metrics_def Let_def by (rule run_loop_completes) (auto split: prod.split)
qed

lemma optimality_batch:
  assumes "n < 2 ^ 32"
  defines "b \<equiv> new_batch 1 1 (optimality_orders n 1)"
  shows "wf_batch b" "\<exists>out. determine_clearing_outcome b = Ok out"
proof -
  let ?os = "optimality_orders n 1 :: order list"
  have len: "length ?os = n" by (simp add: optimality_orders_def)
  have nth: "wf_order 1 (?os ! i) \<and> unat (ord_id (?os ! i)) = i + 1 \<and> unat (ord_qty (?os ! i)) \<le> 14" if i: "i < n" for i
  proof -
    have os: "?os ! i = \<lparr>ord_id = of_nat i + 1, ord_account = (if i mod 2 = 0 then 1 else 2), ord_instrument = 1,
        ord_side = (if i mod 2 = 0 then Buy else Sell),
        ord_price = (if i mod 2 = 0 then 100 + of_nat i mod 10 else 95 + of_nat i mod 10),
        ord_qty = 10 + of_nat i mod 5, ord_seq = of_nat i\<rparr>"
      using i by (simp add: optimality_orders_def Let_def)
    have add: "unat (c + w) = unat c + unat w" if "unat w < 10" "unat c \<le> 100" for c w :: u64
      using that by (intro unat_add_fits) simp
    have p: "95 \<le> unat (ord_price (?os ! i))" and q: "unat (ord_qty (?os ! i)) \<le> 14" "10 \<le> unat (ord_qty (?os ! i))"
      using small_mod [of i] by (simp_all add: os add)
    have "ord_price (?os ! i) \<noteq> 0" "ord_qty (?os ! i) \<noteq> 0" using p q by (metis unat_0 not_numeral_le_zero)+
    moreover have "unat (of_nat i + 1 :: u64) = i + 1"
      using i assms(1) by (subst unat_add_fits) (simp_all add: unsigned_of_nat take_bit_nat_eq_self)
    ultimately show ?thesis using q(1) by (simp add: wf_order_def os valid_side_def)
  qed
  then have "ord_id (?os ! i) \<noteq> ord_id (?os ! j)" if "i < n" "j < n" "i \<noteq> j" for i j
    using nth [OF that(1)] nth [OF that(2)] that(3) by auto
  then have "distinct (map ord_id ?os)" by (auto simp: distinct_conv_nth len)
  then show wf: "wf_batch b"
    unfolding b_def using nth by (intro wf_new_batch) (auto simp: list_all_length len)
  have "total_side s ?os \<le> length ?os * 14" for s
    using nth by (intro total_side_bounded) (auto simp: in_set_conv_nth len)
  from this [of Buy] this [of Sell] have "totals_fit ?os" using assms(1) by (simp add: totals_fit_def len)
  then have "totals_fit (bat_orders b)" using totals_mset [OF mset_batch] by (simp add: b_def)
  moreover have "sides_valid (bat_orders b)" using wf by (auto simp: sides_valid_def wf_batch_def wf_order_def list_all_iff)
  ultimately show "\<exists>out. determine_clearing_outcome b = Ok out" by (rule determine_total [rotated])
qed

lemma clearing_optimality_completes:
  "completes (run_clearing_optimality_metrics platform clock) [''zk_clearing_optimality_metrics.json'']"
proof -
  have "\<exists>s'. optimality_point clock s n = Inr s'" if "n \<in> set [2, 4, 8, 16, 32]" for s n
  proof -
    have n: "n < 2 ^ 32" using that by auto
    let ?b = "new_batch 1 1 (optimality_orders n 1)"
    obtain out where out: "determine_clearing_outcome ?b = Ok out" using optimality_batch(2) [OF n] by blast
    obtain m s1 where C: "synthesize_clearing_optimality ?b (out_price out) (out_volume out) (new_constraint_system, []) = Ok (m, s1)"
      using clearing_Ok [OF optimality_batch(1) [OF n] out, of "(new_constraint_system, [])"] by blast
    obtain t w where s: "s = (t, w)" by (cases s)
    let ?s0 = "(t, [], \<lparr>pcm_num_constraints = 0, pcm_num_public = 0, pcm_num_witness = 0, pcm_num_candidates = 0\<rparr>)"
    have "\<exists>s'. loop_throws (optimality_sample ?b out clock) ?s0 [0..<5] = Inr s'"
      by (rule loop_returns) (simp add: optimality_sample_def split_beta C)
    then obtain t' us last where "loop_throws (optimality_sample ?b out clock) ?s0 [0..<5] = Inr (t', us, last)" by auto
    then show ?thesis by (simp add: optimality_point_def s out Let_def)
  qed
  then show ?thesis
    unfolding run_clearing_optimality_metrics_def Let_def by (rule run_thrown_loop_completes) (auto split: prod.split)
qed

section \<open>Sessions\<close>

lemma bench_proof_counted:
  assumes "list_all (\<lambda>stp. constraint_count (step_public_inputs stp) (step_witness stp) < 2 ^ 64) steps"
    and "chained st steps" "stp \<in> set steps"
  shows "constraints_of (the_proof stp) = Inr (of_nat (constraint_count (step_public_inputs stp) (step_witness stp)))"
proof -
  have "is_ok (prove (step_public_inputs stp) (step_witness stp))"
    using chained_proved [OF assms(2)] assms(3) by (simp add: list_all_iff)
  then obtain proof1 where p: "prove (step_public_inputs stp) (step_witness stp) = Ok proof1" by (auto simp: is_ok_iff)
  have "claimed_count (bp_bytes proof1) (constraint_count (step_public_inputs stp) (step_witness stp))"
    unfolding prove_certificate [OF p] by (simp add: certificate_claims)
  from constraints_of_claimed [OF this] show ?thesis using assms(1,3) p by (simp add: list_all_iff the_proof_def)
qed

lemma two_step_completes: "completes (run_two_step_ivc_spike platform clock) [''zk_two_step_ivc_spike.json'']"
proof -
  obtain initial steps s where S: "build_session 2 = Inr (initial, steps)" "prove_session initial steps = Ok s"
      "verify_session (sn_public_inputs s) s = Ok ()" "length steps = 2" "chained initial steps"
    and C: "list_all (\<lambda>stp. constraint_count (step_public_inputs stp) (step_witness stp) < 2 ^ 64) steps"
    and P: "sn_step_proofs s = map the_proof steps"
    by (rule bench_session_proved [of 2]) auto
  obtain stp1 stp2 where steps: "steps = [stp1, stp2]" using S(4) by (auto simp: numeral_2_eq_2 length_Suc_conv)
  obtain s1 s2 where "fold_step (step_public_inputs stp1) (step_witness stp1) (step_timestamp stp1) initial = Ok s1"
      "fold_step (step_public_inputs stp2) (step_witness stp2) (step_timestamp stp2) s1 = Ok s2"
    using S(5) by (auto simp: steps fold_step_summary)
  moreover note bench_proof_counted [OF C S(5), of stp1] bench_proof_counted [OF C S(5), of stp2]
  ultimately show ?thesis by (simp add: run_two_step_ivc_spike_def S(1) S(2,3) [unfolded steps] P Let_def steps)
qed

lemma ten_batch_completes: "completes (run_ten_batch_audit platform clock) [''zk_ten_batch_audit_metrics.json'']"
proof -
  obtain initial steps s where "build_session 10 = Inr (initial, steps)" "prove_session initial steps = Ok s"
      "verify_session (sn_public_inputs s) s = Ok ()"
    by (rule bench_session_proved [of 10]) auto
  then show ?thesis by (simp add: run_ten_batch_audit_def Let_def)
qed

lemma comparison_completes:
  "completes (run_recursive_vs_independent platform clock) [''zk_recursive_vs_independent_comparison.json'']"
proof -
  have "\<exists>s'. comparison_point clock s n = Inr s'" if "n \<in> set [1, 2, 5, 10, 20, 50]" for s n
  proof -
    have n: "n \<in> {1..50}" using that by auto
    obtain initial steps sn where S: "build_session n = Inr (initial, steps)" "prove_session initial steps = Ok sn" "chained initial steps"
      by (rule bench_session_proved [OF n]) blast
    have "\<exists>ps. loop_throws prove_each proofs steps = Inr ps" for proofs
      using chained_proved [OF S(3)]
      by (intro loop_returns) (auto simp: prove_each_def list_all_iff is_ok_iff)
    then obtain ps where ps: "loop_throws prove_each [] steps = Inr ps" by blast
    obtain t w where s: "s = (t, w)" by (cases s)
    have "\<exists>s'. loop_throws (independent_sample steps clock) s0 xs = Inr s'" for s0 xs
      by (rule loop_returns) (simp add: independent_sample_def split_beta ps)
    then obtain t1 ip iv ib where 1: "loop_throws (independent_sample steps clock) (t, [], [], 0) [0..<5] = Inr (t1, ip, iv, ib)"
      by (metis prod_cases4)
    have "\<exists>s'. loop_throws (recursive_sample initial steps clock) s0 xs = Inr s'" for s0 xs
      by (rule loop_returns) (simp add: recursive_sample_def split_beta S(2))
    then obtain t2 rp rv rb where "loop_throws (recursive_sample initial steps clock) (t1, [], [], 0) [0..<5] = Inr (t2, rp, rv, rb)"
      by (metis prod_cases4)
    with 1 show ?thesis by (simp add: comparison_point_def s S(1) Let_def)
  qed
  then show ?thesis
    unfolding run_recursive_vs_independent_def Let_def by (rule run_thrown_loop_completes) (auto split: prod.split)
qed

section \<open>The engine and the simulator\<close>

lemma engine_profile_completes:
  "completes (run_engine_profile platform clock) [''plaintext_engine_profile.json'', ''plaintext_engine_profile.csv'']"
proof -
  have "\<exists>s'. profile_point clock s n = Inr s'" if "n \<in> set [10, 50, 100, 250, 500]" for s n
  proof -
    have n: "n < 2 ^ 32" using that by auto
    let ?b = "new_batch 1 1 (scaling_orders n 1)" and ?l = "funded_ledger 1 n"
    obtain e where e: "execute_batch ?l ?b = Ok e"
      by (rule scaling_fixture [OF n n scaling_batch(6) [OF n, of 1]]) blast
    have "\<exists>s'. loop_throws (profile_sample ?l ?b clock) s0 xs = Inr s'" for s0 xs
      by (rule loop_returns) (simp add: profile_sample_def split_beta e)
    then obtain t eu vu where "loop_throws (profile_sample ?l ?b clock) (fst s, [], []) [0..<100] = Inr (t, eu, vu)"
      by (metis prod_cases3)
    then show ?thesis by (cases s) (simp add: profile_point_def Let_def)
  qed
  then show ?thesis
    unfolding run_engine_profile_def Let_def by (rule run_thrown_loop_completes) (auto split: prod.split)
qed

lemma auction_optimization_completes:
  "completes (run_auction_optimization platform clock) [''auction_optimization_comparison.json'']"
proof -
  have "\<exists>s'. auction_point clock s n = Inr s'" if "n \<in> set [20, 50, 100, 200]" for s n
  proof -
    have n: "n < 2 ^ 32" using that by auto
    let ?b = "new_batch 1 1 (scaling_orders n 1)"
    obtain e where "execute_batch (funded_ledger 1 n) ?b = Ok e"
      by (rule scaling_fixture [OF n n scaling_batch(6) [OF n, of 1]]) blast
    then have out: "determine_clearing_outcome ?b = Ok (res_outcome e)" by (simp add: execute_batch_Ok_iff batch_stages_def)
    have "\<exists>s'. loop_throws (auction_sample (scaling_orders n 1) ?b clock) s0 xs = Inr s'" for s0 xs
      by (rule loop_returns) (simp add: auction_sample_def split_beta out Let_def)
    then obtain t nu ou nr opr where "loop_throws (auction_sample (scaling_orders n 1) ?b clock) (fst s, [], [], 0, 0) [0..<100]
        = Inr (t, nu, ou, nr, opr)" by (metis prod_cases5)
    then show ?thesis by (cases s) (simp add: auction_point_def Let_def)
  qed
  then show ?thesis
    unfolding run_auction_optimization_def Let_def by (rule run_thrown_loop_completes) (auto split: prod.split)
qed

lemma attack_evidence_completes:
  "completes (thrown (run_attack_evidence platform)) [''attack_evidence_table.json'', ''attack_evidence_table.csv'']"
proof -
  let ?b = "new_batch 1 1 (scaling_orders 4 1)" and ?l = "funded_ledger 1 4"
  have n: "(4 :: nat) < 2 ^ 32" by simp
  note B = scaling_batch [OF n, of 1]
  obtain e where e: "execute_batch ?l ?b = Ok e" "is_ok (total_inventory_of ?l 1)"
    by (rule scaling_fixture [OF n n B(6)]) blast
  have "map pre_order (preimages_for ?b) = bat_orders ?b" by (simp add: preimages_for_derive derive_preimages_orders)
  moreover have "is_ok (total_inventory_of ?l (bat_instrument ?b))" unfolding B(2) by (rule e(2))
  ultimately obtain rp where "run_attack_matrix ?l ?b (preimages_for ?b) = Inr rp"
    using matrix_report [OF B(3) e(1)] by blast
  then show ?thesis by (simp add: run_attack_evidence_def Let_def split_beta)
qed

lemma interval_runs_return: "\<exists>runs. those collect_interval_runs = Some runs"
proof -
  have "\<exists>run. evaluate_interval seed i = Some run" if "i \<in> set intervals_ms" for seed i
  proof -
    have i: "0 < i" "i \<le> 1000000" using that by (auto simp: intervals_ms_def)
    show ?thesis using flow_partition [OF i, of seed] by (auto simp: evaluate_interval_def Let_def)
  qed
  then have "\<forall>r\<in>set collect_interval_runs. \<exists>run. r = Some run" by (auto simp: collect_interval_runs_def)
  moreover have "\<exists>runs. those rs = Some runs" if "\<forall>r\<in>set rs. \<exists>run. r = Some run" for rs :: "interval_run option list"
    using that by (induction rs) auto
  ultimately show ?thesis by blast
qed

lemma interval_matrix_completes:
  "completes (run_batch_interval_matrix platform) [''batch_interval_matrix_raw.json'', ''batch_interval_matrix_raw.csv'']"
  using interval_runs_return by (auto simp: run_batch_interval_matrix_def interval_matrix_artifacts_def Let_def split_beta)

lemma cost_model_completes:
  "completes (run_proof_cost_model platform clock) [''proof_cost_model_report.json'', ''proof_cost_model_table.csv'']"
proof -
  obtain runs where runs: "those collect_interval_runs = Some runs" using interval_runs_return by blast
  have n: "(2 :: nat) < 2 ^ 32" "(4 :: nat) < 2 ^ 32" by simp_all
  have two: "scaling_account_count 4 = scaling_account_count 2" by (simp add: scaling_account_count_def)
  have "funded_ledger 1 4 = funded_ledger 1 2" unfolding funded_ledger_def two ..
  then have "funded (funded_ledger 1 4) (new_batch 1 1 (scaling_orders 2 1))" using scaling_batch(6) [OF n(1)] by simp
  from scaling_completes [OF n this] obtain fx proof1 count where F: "build_proof_fixture 2 (funded_ledger 1 4) 1 = Inr fx"
      "prove (pf_public_inputs fx) (pf_witness fx) = Ok proof1" "constraints_of proof1 = Inr count" by blast
  have step: "\<exists>s'. cost_sample fx clock s i = Inr s' \<and> snd (snd s') = proof1" for s i
    using F(2) by (simp add: cost_sample_def split_beta)
  have "\<exists>s'. loop_throws (cost_sample fx clock) s [0..<5] = Inr s' \<and> snd (snd s') = proof1" for s
  proof -
    obtain s1 where 1: "cost_sample fx clock s 0 = Inr s1" "snd (snd s1) = proof1" using step by blast
    have "[0..<5] = 0 # [1..<5 :: nat]" by (subst upt_conv_Cons) simp_all
    then show ?thesis
      using loop_completes [of "[1..<5]" "\<lambda>s. snd (snd s) = proof1" "cost_sample fx clock" s1, OF step 1(2)]
      by (simp add: 1(1) del: upt_rec_numeral)
  qed
  then obtain t us where "loop_throws (cost_sample fx clock) (0, [], default_proof) [0..<5] = Inr (t, us, proof1)"
    by (metis prod.collapse)
  then show ?thesis by (simp add: run_proof_cost_model_def runs F Let_def split_beta)
qed

section \<open>The runner\<close>

definition promised_artifacts :: "(string \<times> string list) list" where
  "promised_artifacts =
     [(''proof-scaling'', [''zk_proof_scaling_benchmark.json'']),
      (''accounting-metrics'', [''zk_accounting_metrics.json'']),
      (''clearing-optimality'', [''zk_clearing_optimality_metrics.json'']),
      (''two-step-ivc'', [''zk_two_step_ivc_spike.json'']),
      (''ten-batch-audit'', [''zk_ten_batch_audit_metrics.json'']),
      (''recursive-vs-independent'', [''zk_recursive_vs_independent_comparison.json'']),
      (''engine-profile'', [''plaintext_engine_profile.json'', ''plaintext_engine_profile.csv'']),
      (''auction-optimization'', [''auction_optimization_comparison.json'']),
      (''attack-evidence'', [''attack_evidence_table.json'', ''attack_evidence_table.csv'']),
      (''batch-interval-matrix'', [''batch_interval_matrix_raw.json'', ''batch_interval_matrix_raw.csv'']),
      (''proof-cost-model'', [''proof_cost_model_report.json'', ''proof_cost_model_table.csv''])]"

lemma benchmarks_complete:
  "list_all2 (\<lambda>(bench_name, r) (n, names). bench_name = n \<and> completes r names) (benchmarks platform clocks) promised_artifacts"
  by (simp add: benchmarks_def promised_artifacts_def proof_scaling_completes accounting_metrics_completes
      clearing_optimality_completes two_step_completes ten_batch_completes comparison_completes engine_profile_completes
      auction_optimization_completes attack_evidence_completes interval_matrix_completes cost_model_completes)

lemma artifacts_written:
  assumes "\<forall>a. rd_writable dir a"
  shows "\<exists>dir'. write_artifacts as text1 (dir, out) = ((dir', out @ text1), None)
    \<and> dom (rd_files dir') = dom (rd_files dir) \<union> set (map fst as) \<and> (\<forall>a. rd_writable dir' a)"
  using assms
proof (induction as arbitrary: dir)
  case (Cons a as)
  let ?d = "dir\<lparr>rd_files := (rd_files dir)(fst a \<mapsto> snd a)\<rparr>"
  have w: "\<forall>a. rd_writable ?d a" using Cons.prems by simp
  obtain dir' where "write_artifacts as text1 (?d, out) = ((dir', out @ text1), None)"
      "dom (rd_files dir') = dom (rd_files ?d) \<union> set (map fst as)" "\<forall>a. rd_writable dir' a"
    using Cons.IH [OF w] by blast
  moreover have "write_artifact dir a = Inr ?d" using Cons.prems by (simp add: write_artifact_def split_beta)
  moreover have "dom (rd_files ?d) = insert (fst a) (dom (rd_files dir))" by simp
  ultimately show ?case by auto
qed simp

lemma benchmark_runs:
  assumes "completes r names" "\<forall>a. rd_writable dir a"
  shows "\<exists>dir' out'. run_benchmark r (dir, out) = ((dir', out'), None)
    \<and> dom (rd_files dir') = dom (rd_files dir) \<union> set names \<and> (\<forall>a. rd_writable dir' a)"
proof -
  obtain artifacts text1 where r: "r = Inr (artifacts, text1)" "map fst artifacts = names"
    using assms(1) by (auto simp: completes_def)
  from artifacts_written [OF assms(2), of artifacts text1 out] show ?thesis
    unfolding r(2) by (auto simp: run_benchmark_def r(1))
qed

lemma all_benchmarks_run:
  assumes "list_all2 (\<lambda>(bench_name, r) (n, names). bench_name = n \<and> completes r names) bs promised"
    and "\<forall>a. rd_writable dir a"
  shows "\<exists>dir' out'. run_all bs (dir, out) = ((dir', out'), None)
    \<and> dom (rd_files dir') = dom (rd_files dir) \<union> set (concat (map snd promised))"
  using assms
proof (induction bs promised arbitrary: dir out rule: list_all2_induct)
  case (Cons b bs p promised)
  obtain bench_name r names where b: "b = (bench_name, r)" "p = (bench_name, names)" and r: "completes r names"
    using Cons.hyps(1) by (cases b; cases p) auto
  obtain dir1 out1 where 1: "run_benchmark r (dir, out @ line (''-- '' @ bench_name)) = ((dir1, out1), None)"
      "dom (rd_files dir1) = dom (rd_files dir) \<union> set names" "\<forall>a. rd_writable dir1 a"
    using benchmark_runs [OF r Cons.prems] by blast
  obtain dir' out' where "run_all bs (dir1, out1) = ((dir', out'), None)"
      "dom (rd_files dir') = dom (rd_files dir1) \<union> set (concat (map snd promised))"
    using Cons.IH [OF 1(3)] by blast
  with 1 show ?case by (auto simp: b)
qed simp

lemma benchmark_names: "map fst (benchmarks platform clocks) = map fst promised_artifacts"
  by (simp add: benchmarks_def promised_artifacts_def)

lemma benchmark_lookup:
  assumes "list_all2 (\<lambda>(bench_name, r) (n, names). bench_name = n \<and> completes r names) bs promised"
  shows "case map_of promised which of None \<Rightarrow> map_of bs which = None
    | Some names \<Rightarrow> \<exists>r. map_of bs which = Some r \<and> completes r names"
  using assms by (induction bs promised rule: list_all2_induct) (auto split: option.splits)

text \<open>C38: the benchmark runner completes: whatever the timers report, each benchmark named on the command line
  runs to its end and exits with 0, with nothing on the error stream, and leaves exactly its artifacts
  in the directory of the results; \<open>all\<close> leaves those of all eleven.  Any other name is refused
  with 1 and nothing written.\<close>

theorem bench_main_completes:
  assumes "\<forall>a. rd_writable dir a"
  shows "if which = ''all'' \<or> map_of promised_artifacts which \<noteq> None
    then \<exists>dir' out. bench_main platform clocks dir prog (which # rest) = Some (dir', \<lparr>con_out = out, con_err = [], con_code = 0\<rparr>)
      \<and> dom (rd_files dir') = dom (rd_files dir)
          \<union> set (if which = ''all'' then concat (map snd promised_artifacts) else the (map_of promised_artifacts which))
    else bench_main platform clocks dir prog (which # rest) =
      Some (dir, failed (line (''Unknown benchmark: '' @ which) @ bench_usage prog (map fst promised_artifacts)))"
proof -
  let ?bs = "benchmarks platform clocks"
  consider "which = ''all''" | names where "which \<noteq> ''all''" "map_of promised_artifacts which = Some names"
    | "which \<noteq> ''all''" "map_of promised_artifacts which = None" by fastforce
  then show ?thesis
  proof cases
    case 1
    obtain dir' out' where "run_all ?bs (dir, line ''Running all FairCross C++ benchmarks...'') = ((dir', out'), None)"
        "dom (rd_files dir') = dom (rd_files dir) \<union> set (concat (map snd promised_artifacts))"
      using all_benchmarks_run [OF benchmarks_complete assms] by blast
    then show ?thesis by (simp add: 1 bench_main_def bench_exit_def)
  next
    case 2
    obtain r where r: "map_of ?bs which = Some r" "completes r names"
      using benchmark_lookup [OF benchmarks_complete [of platform clocks], where which = which] 2 by auto
    obtain dir' out' where "run_benchmark r (dir, []) = ((dir', out'), None)"
        "dom (rd_files dir') = dom (rd_files dir) \<union> set names"
      using benchmark_runs [OF r(2) assms] by blast
    then show ?thesis by (simp add: 2 bench_main_def r(1) bench_exit_def)
  next
    case 3
    have "map_of ?bs which = None"
      using benchmark_lookup [OF benchmarks_complete [of platform clocks], where which = which] 3 by simp
    then show ?thesis by (simp add: 3 bench_main_def benchmark_names)
  qed
qed

theorem bench_main_completes_witness:
  "\<exists>dir' out. bench_main \<lparr>plat_os = ''linux'', plat_arch = ''x86_64'', plat_compiler = ''g++''\<rparr> (\<lambda>name k. of_nat k)
      \<lparr>rd_files = \<lambda>a. None, rd_writable = \<lambda>a. True\<rparr> ''faircross_bench'' [''two-step-ivc'']
    = Some (dir', \<lparr>con_out = out, con_err = [], con_code = 0\<rparr>)
    \<and> dom (rd_files dir') = {''zk_two_step_ivc_spike.json''}"
  using bench_main_completes [of "\<lparr>rd_files = \<lambda>a. None, rd_writable = \<lambda>a. True\<rparr>" "''two-step-ivc''"
      "\<lparr>plat_os = ''linux'', plat_arch = ''x86_64'', plat_compiler = ''g++''\<rparr>" "\<lambda>name k. of_nat k" "''faircross_bench''" "[]"]
  by (simp add: promised_artifacts_def)

end
