(* ===== verification/Golden.thy ===== *)
theory Golden
  imports Honest
begin

text \<open>
  The golden vectors: for every fixture of \<open>fixtures/golden/\<close>, the recorded outcome of
  \<open>fixtures/golden/expected/\<close> and the tests of \<open>tests/test_golden_vectors.cpp\<close> that compare
  it with an execution.  The vectors are data of the repository; the lemmas show that the model reproduces the
  outcome, the allocation, the fills, the balances and the number of constraints of every certificate.  The
  digests of the vectors are not evaluated here.
\<close>

section \<open>The vectors\<close>

record golden =
  gv_accounts :: "(account_id \<times> money \<times> qty) list"
  gv_batch_id :: batch_id
  gv_orders :: "order list"
  gv_price :: "price option"
  gv_volume :: qty
  gv_target :: qty
  gv_bought :: qty
  gv_sold :: qty
  gv_allocated :: "(order_id \<times> qty) list"
  gv_fills :: "(order_id \<times> qty \<times> money) list"
  gv_post :: "(account_id \<times> money \<times> qty) list"
  gv_constraints :: nat

definition normal_clearing :: golden where
  "normal_clearing =
     \<lparr>gv_accounts = [(1, 10000, 0), (2, 5000, 50)], gv_batch_id = 1,
     gv_orders =
     [\<lparr>ord_id = 1, ord_account = 1, ord_instrument = 1, ord_side = Buy, ord_price = 100, ord_qty = 20, ord_seq = 0\<rparr>,
     \<lparr>ord_id = 2, ord_account = 2, ord_instrument = 1, ord_side = Sell, ord_price = 100, ord_qty = 20, ord_seq = 1\<rparr>],
     gv_price = Some 100, gv_volume = 20, gv_target = 20, gv_bought = 20, gv_sold = 20,
     gv_allocated = [(1, 20), (2, 20)],
     gv_fills = [(1, 20, 2000), (2, 20, 2000)],
     gv_post = [(1, 8000, 20), (2, 7000, 30)], gv_constraints = 35\<rparr>"

definition one_sided_no_crossing :: golden where
  "one_sided_no_crossing =
     \<lparr>gv_accounts = [(1, 10000, 0), (2, 10000, 0)], gv_batch_id = 2,
     gv_orders =
     [\<lparr>ord_id = 10, ord_account = 1, ord_instrument = 1, ord_side = Buy, ord_price = 105, ord_qty = 15, ord_seq = 0\<rparr>,
     \<lparr>ord_id = 11, ord_account = 2, ord_instrument = 1, ord_side = Buy, ord_price = 95, ord_qty = 25, ord_seq = 1\<rparr>],
     gv_price = None, gv_volume = 0, gv_target = 0, gv_bought = 0, gv_sold = 0,
     gv_allocated = [(10, 0), (11, 0)],
     gv_fills = [],
     gv_post = [(1, 10000, 0), (2, 10000, 0)], gv_constraints = 27\<rparr>"

definition partial_fill :: golden where
  "partial_fill =
     \<lparr>gv_accounts = [(1, 20000, 0), (2, 5000, 15)], gv_batch_id = 3,
     gv_orders =
     [\<lparr>ord_id = 20, ord_account = 1, ord_instrument = 1, ord_side = Buy, ord_price = 100, ord_qty = 30, ord_seq = 0\<rparr>,
     \<lparr>ord_id = 21, ord_account = 2, ord_instrument = 1, ord_side = Sell, ord_price = 100, ord_qty = 15, ord_seq = 1\<rparr>],
     gv_price = Some 100, gv_volume = 15, gv_target = 15, gv_bought = 15, gv_sold = 15,
     gv_allocated = [(20, 15), (21, 15)],
     gv_fills = [(20, 15, 1500), (21, 15, 1500)],
     gv_post = [(1, 18500, 15), (2, 6500, 0)], gv_constraints = 35\<rparr>"

definition tie_price_interval :: golden where
  "tie_price_interval =
     \<lparr>gv_accounts = [(1, 10000, 0), (2, 0, 10)], gv_batch_id = 4,
     gv_orders =
     [\<lparr>ord_id = 30, ord_account = 1, ord_instrument = 1, ord_side = Buy, ord_price = 105, ord_qty = 10, ord_seq = 0\<rparr>,
     \<lparr>ord_id = 31, ord_account = 2, ord_instrument = 1, ord_side = Sell, ord_price = 95, ord_qty = 10, ord_seq = 1\<rparr>],
     gv_price = Some 100, gv_volume = 10, gv_target = 10, gv_bought = 10, gv_sold = 10,
     gv_allocated = [(30, 10), (31, 10)],
     gv_fills = [(30, 10, 1000), (31, 10, 1000)],
     gv_post = [(1, 9000, 10), (2, 1000, 0)], gv_constraints = 37\<rparr>"

definition pro_rata_remainders :: golden where
  "pro_rata_remainders =
     \<lparr>gv_accounts = [(1, 10000, 0), (2, 10000, 0), (3, 10000, 0), (4, 0, 10)], gv_batch_id = 5,
     gv_orders =
     [\<lparr>ord_id = 40, ord_account = 1, ord_instrument = 1, ord_side = Buy, ord_price = 100, ord_qty = 10, ord_seq = 0\<rparr>,
     \<lparr>ord_id = 41, ord_account = 2, ord_instrument = 1, ord_side = Buy, ord_price = 100, ord_qty = 10, ord_seq = 1\<rparr>,
     \<lparr>ord_id = 42, ord_account = 3, ord_instrument = 1, ord_side = Buy, ord_price = 100, ord_qty = 10, ord_seq = 2\<rparr>,
     \<lparr>ord_id = 43, ord_account = 4, ord_instrument = 1, ord_side = Sell, ord_price = 100, ord_qty = 10, ord_seq = 3\<rparr>],
     gv_price = Some 100, gv_volume = 10, gv_target = 10, gv_bought = 10, gv_sold = 10,
     gv_allocated = [(40, 4), (41, 3), (42, 3), (43, 10)],
     gv_fills = [(40, 4, 400), (41, 3, 300), (42, 3, 300), (43, 10, 1000)],
     gv_post = [(1, 9600, 4), (2, 9700, 3), (3, 9700, 3), (4, 1000, 0)], gv_constraints = 61\<rparr>"

definition golden_vectors :: "golden list" where
  "golden_vectors = [normal_clearing, one_sided_no_crossing, partial_fill, tie_price_interval, pro_rata_remainders]"

section \<open>Loading and comparing\<close>

text \<open>\<open>load_input\<close>.  Every fixture trades instrument 1, and its documents list that inventory alone.\<close>

definition golden_account :: "account_id \<times> money \<times> qty \<Rightarrow> account_state result" where
  "golden_account row = (let (account, cash, stock) = row in credit_inventory 1 stock (new_account account cash))"

definition golden_ledger :: "golden \<Rightarrow> ledger result" where
  "golden_ledger v =
     loop_result (\<lambda>l row. and_then_conv (golden_account row) (\<lambda>acc. Ok (insert_account acc l))) om_empty (gv_accounts v)"

definition golden_batch :: "golden \<Rightarrow> batch" where
  "golden_batch v = new_batch (gv_batch_id v) 1 (gv_orders v)"

text \<open>The assertions of \<open>test_golden_market_semantics\<close>; the vectors repeat the fields of the orders in every
  allocation and every fill, and number the fills.  An account the vectors list without an inventory
  is compared with an inventory of zero, which the tests leave out.\<close>

definition golden_outcome :: "golden \<Rightarrow> batch_execution_result \<Rightarrow> bool" where
  "golden_outcome v e \<longleftrightarrow> out_price (res_outcome e) = gv_price v \<and> out_volume (res_outcome e) = gv_volume v"

definition order_of_id :: "golden \<Rightarrow> order_id \<Rightarrow> order" where
  "order_of_id v i = the (find (\<lambda>o1. ord_id o1 = i) (gv_orders v))"

definition golden_allocation :: "golden \<Rightarrow> batch_execution_result \<Rightarrow> bool" where
  "golden_allocation v e \<longleftrightarrow>
     ba_target_volume (res_allocation e) = gv_target v \<and> ba_total_buy (res_allocation e) = gv_bought v
     \<and> ba_total_sell (res_allocation e) = gv_sold v
     \<and> ba_allocations (res_allocation e) = map (\<lambda>(i, q). allocation_of (order_of_id v i) q) (gv_allocated v)"

definition golden_fills :: "golden \<Rightarrow> batch_execution_result \<Rightarrow> bool" where
  "golden_fills v e \<longleftrightarrow>
     res_fills e = map (\<lambda>(n, i, q, c). \<lparr>fill_id = of_nat n, fill_order_id = i, fill_account_id = ord_account (order_of_id v i),
                           fill_instrument_id = 1, fill_side = ord_side (order_of_id v i),
                           fill_execution_price = the (gv_price v), fill_qty = q, fill_consideration = c\<rparr>)
                    (enumerate 0 (gv_fills v))"

definition golden_post :: "golden \<Rightarrow> batch_execution_result \<Rightarrow> bool" where
  "golden_post v e \<longleftrightarrow> om_size (res_post_state e) = length (gv_post v)
     \<and> list_all (\<lambda>(account, cash, stock). case get_account (res_post_state e) account of
           None \<Rightarrow> False
         | Some acc \<Rightarrow> acc_cash acc = cash \<and> inventory_of acc 1 = stock) (gv_post v)"

definition golden_execution :: "golden \<Rightarrow> bool" where
  "golden_execution v \<longleftrightarrow>
     (case golden_ledger v of Err _ \<Rightarrow> False | Ok pre \<Rightarrow>
      case execute_batch pre (golden_batch v) of Err _ \<Rightarrow> False | Ok e \<Rightarrow>
        golden_outcome v e \<and> golden_allocation v e \<and> golden_fills v e \<and> golden_post v e)"

section \<open>The vectors are reproduced\<close>

lemma golden_market_semantics: "list_all golden_execution golden_vectors"
  by code_simp

section \<open>The proofs of the vectors\<close>

definition golden_preimages :: "golden \<Rightarrow> salted_order_preimage list" where
  "golden_preimages v =
     map (\<lambda>(i, o1). \<lparr>pre_order = o1, pre_nonce = replicate 32 (of_nat (i + 1))\<rparr>) (enumerate 0 (gv_orders v))"

text \<open>\<open>test_golden_r1cs_constraint_counts\<close>, up to the proof whose certificate it reads.\<close>

definition golden_proof :: "golden \<Rightarrow> batch_proof result" where
  "golden_proof v =
     and_then_conv (golden_ledger v) (\<lambda>pre.
     and_then_conv (execute_batch pre (golden_batch v)) (\<lambda>e.
       let (pub, w) = proof_inputs (compute_ledger_root pre 1) pre (golden_batch v) (golden_preimages v) e 1700000000
       in prove pub w))"

definition golden_conditions :: "golden \<Rightarrow> ledger \<Rightarrow> batch_execution_result \<Rightarrow> bool" where
  "golden_conditions v pre e \<longleftrightarrow> wf_batch (golden_batch v) \<and> bat_orders (golden_batch v) = gv_orders v
     \<and> length (gv_orders v) < 5 \<and> small_amounts pre (golden_batch v) e \<and> out_price (res_outcome e) \<noteq> Some 0
     \<and> gv_constraints v =
         7 * length (gv_orders v) + 2 * length (candidate_prices_from_orders (gv_orders v)) + 2 * length (om_entries pre)
         + (if out_price (res_outcome e) = None then 0
            else length (ba_allocations (res_allocation e)) + 2 + 3 * length (res_fills e)) + 5"

definition golden_run :: "golden \<Rightarrow> bool" where
  "golden_run v \<longleftrightarrow>
     (case golden_ledger v of Err _ \<Rightarrow> False | Ok pre \<Rightarrow>
      case execute_batch pre (golden_batch v) of Err _ \<Rightarrow> False | Ok e \<Rightarrow> golden_conditions v pre e)"

lemma golden_runs: "list_all golden_run golden_vectors"
  by code_simp

lemma golden_preimages_derived:
  assumes "bat_orders (golden_batch v) = gv_orders v"
  shows "golden_preimages v = derive_preimages (golden_batch v) 0"
  by (simp add: golden_preimages_def derive_preimages_def assms add.commute)

lemma golden_constraint_counts:
  assumes "v \<in> set golden_vectors"
  shows "\<exists>proof1. golden_proof v = Ok proof1 \<and> bp_bytes proof1 = certificate (gv_constraints v) 5"
proof -
  let ?b = "golden_batch v"
  have "golden_run v" using assms golden_runs by (simp add: list_all_iff)
  then obtain pre e where l: "golden_ledger v = Ok pre" and e: "execute_batch pre ?b = Ok e" and c: "golden_conditions v pre e"
    by (auto simp: golden_run_def split: result.splits)
  then have wf: "wf_batch ?b" and os: "bat_orders ?b = gv_orders v" and n: "length (bat_orders ?b) < 2 ^ 32"
    and small: "small_amounts pre ?b e" by (auto simp: golden_conditions_def)
  have inst: "bat_instrument ?b = 1" by (simp add: golden_batch_def new_batch_def)
  obtain pub w where pw: "proof_inputs (compute_ledger_root pre (bat_instrument ?b)) pre ?b (derive_preimages ?b 0) e 1700000000 = (pub, w)"
    by fastforce
  have "is_ok (prove pub w)"
    using honest_prove(1) [OF wf e n pw] small_amounts_provable [OF small] by simp
  then obtain proof1 where p: "prove pub w = Ok proof1" by (auto simp: is_ok_iff)
  have "constraint_count pub w = gv_constraints v"
    using pw c os by (auto simp: proof_inputs_def Let_def golden_conditions_def constraint_count_def crossed_count_def
        oracle_count_def published_price_def word_gt_0 split: prod.splits option.splits)
  then have "bp_bytes proof1 = certificate (gv_constraints v) 5"
    using prove_certificate [OF p] by simp
  moreover have "golden_proof v = Ok proof1"
    using pw p by (simp add: golden_proof_def l e golden_preimages_derived [OF os] inst)
  ultimately show ?thesis by blast
qed
end
