(* ===== verification/Json_Stack.thy ===== *)
theory Json_Stack
  imports Json_Round_Trip
begin

text \<open>
  The JSON reader on a bounded stack.  \<open>util/json.hpp\<close> warns that there is no depth limit, so that a deeply
  nested document can exhaust the stack: \<open>parse_value\<close> calls \<open>parse_object\<close> and \<open>parse_array\<close>, which
  call it again for every value inside, while their own loops over members and elements take no further
  stack.  The parser of theory Json with one more argument, the number of calls of \<open>parse_value\<close> that the
  stack has room for; \<open>None\<close> is also what a call without room returns.
\<close>

function stack_value :: "nat \<Rightarrow> nat \<Rightarrow> pstate \<Rightarrow> json parsing"
and stack_members :: "nat \<Rightarrow> nat \<Rightarrow> (string \<times> json) list \<Rightarrow> pstate \<Rightarrow> json parsing"
and stack_elements :: "nat \<Rightarrow> nat \<Rightarrow> json list \<Rightarrow> pstate \<Rightarrow> json parsing" where
  "stack_value room 0 s = None"
| "stack_value room (Suc n) s =
     (if room = 0 then None else
     parsed (Some (peek (skip_whitespace s))) (\<lambda>c s1.
       if c = CHR ''{'' then
         parsed (Some (expect (CHR ''{'') s1)) (\<lambda>u s2.
         parsed (Some (peek (skip_whitespace s2))) (\<lambda>c s3.
           if c = CHR ''}'' then Some (Inr (JObject [], advance s3)) else stack_members (room - 1) n [] s3))
       else if c = CHR ''['' then
         parsed (Some (expect (CHR ''['') s1)) (\<lambda>u s2.
         parsed (Some (peek (skip_whitespace s2))) (\<lambda>c s3.
           if c = CHR '']'' then Some (Inr (JArray [], advance s3)) else stack_elements (room - 1) n [] s3))
       else if c = CHR 0x22 then
         parsed (Some (parse_string s1)) (\<lambda>str s2. Some (Inr (JString str, s2)))
       else if c = CHR ''t'' then Some (parse_literal ''true'' (JBool True) s1)
       else if c = CHR ''f'' then Some (parse_literal ''false'' (JBool False) s1)
       else if c = CHR ''n'' then Some (parse_literal ''null'' JNull s1)
       else Some (parse_number s1)))"
| "stack_members room 0 es s = None"
| "stack_members room (Suc n) es s =
     parsed (Some (parse_string (skip_whitespace s))) (\<lambda>key s1.
     parsed (Some (expect (CHR '':'') (skip_whitespace s1))) (\<lambda>u s2.
     parsed (stack_value room n s2) (\<lambda>v s3.
     let es' = emplace key v es in
     parsed (Some (peek (skip_whitespace s3))) (\<lambda>c s4.
       if c = CHR '','' then stack_members room n es' (advance s4)
       else if c = CHR ''}'' then Some (Inr (JObject es', advance s4))
       else Some (parse_fail (''expected '' @ quoted '','' @ '' or '' @ quoted ''}'') s4)))))"
| "stack_elements room 0 vs s = None"
| "stack_elements room (Suc n) vs s =
     parsed (stack_value room n s) (\<lambda>v s1.
     let vs' = vs @ [v] in
     parsed (Some (peek (skip_whitespace s1))) (\<lambda>c s2.
       if c = CHR '','' then stack_elements room n vs' (advance s2)
       else if c = CHR '']'' then Some (Inr (JArray vs', advance s2))
       else Some (parse_fail (''expected '' @ quoted '','' @ '' or '' @ quoted '']'') s2)))"

  by pat_completeness auto
termination
  by (relation "measure (case_sum (\<lambda>(room, n, s). n) (case_sum (\<lambda>(room, n, es, s). n) (\<lambda>(room, n, vs, s). n)))") simp_all

declare stack_value.simps(2) [simp del] stack_members.simps(2) [simp del] stack_elements.simps(2) [simp del]

definition parse_on_stack :: "nat \<Rightarrow> nat \<Rightarrow> string \<Rightarrow> json throws option" where
  "parse_on_stack room n text =
     (case stack_value room n (skip_whitespace (0, text)) of
        None \<Rightarrow> None
      | Some (Inl e) \<Rightarrow> Some (Inl e)
      | Some (Inr (v, s)) \<Rightarrow>
          Some (throw_if (snd (skip_whitespace s) \<noteq> []) ''json: trailing content'' (Inr v)))"

section \<open>Brackets bound the nesting\<close>

definition openers :: "string \<Rightarrow> nat" where
  "openers cs = length (filter (\<lambda>c. c = CHR ''{'' \<or> c = CHR ''['') cs)"

lemma openers_simps [simp]:
  "openers [] = 0" "openers (c # cs) = (if c = CHR ''{'' \<or> c = CHR ''['' then Suc (openers cs) else openers cs)"
  by (simp_all add: openers_def)

lemma openers_append [simp]: "openers (xs @ ys) = openers xs + openers ys"
  by (simp add: openers_def)

lemma openers_drop: "openers (drop n cs) \<le> openers cs"
  by (metis append_take_drop_id le_add2 openers_append)

lemma openers_dropWhile: "openers (dropWhile P cs) \<le> openers cs"
  by (metis takeWhile_dropWhile_id le_add2 openers_append)

lemma openers_skip: "openers (snd (skip_whitespace s)) \<le> openers (snd s)"
  by (simp add: skip_whitespace_def openers_dropWhile)

lemma openers_advance: "openers (snd (advance s)) \<le> openers (snd s)"
  by (cases "snd s") (simp_all add: advance_def)

lemma openers_expect: "expect c s = Inr (u, s') \<Longrightarrow> openers (snd s') = openers (snd s) - openers [c]"
  by (cases s; cases "snd s") (auto simp: expect_def advance_def split: if_splits)

lemma openers_string_loop: "string_loop out pos cs = Inr (r, s') \<Longrightarrow> openers (snd s') \<le> openers cs"
proof (induction out pos cs rule: string_loop.induct)
  case (2 out pos c cs)
  then show ?case by (cases cs) (auto split: if_splits option.splits intro: le_SucI)
qed simp

lemma openers_string: "parse_string s = Inr (r, s') \<Longrightarrow> openers (snd s') \<le> openers (snd s)"
  unfolding parse_string_def
  by (auto simp: try_then_Inr_iff dest!: openers_expect openers_string_loop)

lemma openers_literal: "parse_literal l v s = Inr (r, s') \<Longrightarrow> openers (snd s') \<le> openers (snd s)"
  by (auto simp: parse_literal_def consume_literal_def openers_drop split: if_splits)

lemma openers_number: "parse_number s = Inr (r, s') \<Longrightarrow> openers (snd s') \<le> openers (snd s)"
  by (cases s) (auto simp: parse_number_def Let_def try_then_Inr_iff openers_drop split: if_splits)

section \<open>With room enough, the same result\<close>

text \<open>Two parsers with one result, which if it is a value leaves at most \<open>k\<close> opening brackets.\<close>

definition agree :: "nat \<Rightarrow> 'a parsing \<Rightarrow> 'a parsing \<Rightarrow> bool" where
  "agree k r r' \<longleftrightarrow> r = r' \<and> (\<forall>v s. r' = Some (Inr (v, s)) \<longrightarrow> openers (snd s) \<le> k)"

named_theorems agreement "rules for parsers with one result"

lemma agree_None [agreement]: "agree k None None"
  by (simp add: agree_def)

lemma agree_fail [agreement]: "agree k (Some (parse_fail why s)) (Some (parse_fail why s))"
  by (simp add: agree_def)

lemma agree_value [agreement]: "openers (snd s) \<le> k \<Longrightarrow> agree k (Some (Inr (v, s))) (Some (Inr (v, s)))"
  by (auto simp: agree_def)

lemma agree_if [agreement]:
  "(c \<Longrightarrow> agree k a a') \<Longrightarrow> (\<not> c \<Longrightarrow> agree k b b') \<Longrightarrow> agree k (if c then a else b) (if c then a' else b')"
  by simp

lemma agree_parsed:
  "agree m r r' \<Longrightarrow> (\<And>v s. openers (snd s) \<le> m \<Longrightarrow> agree k (f v s) (f' v s)) \<Longrightarrow> agree k (parsed r f) (parsed r' f')"
  by (auto simp: agree_def parsed_def split: option.splits sum.splits)

lemma agree_step:
  "(\<And>v s1. r = Inr (v, s1) \<Longrightarrow> agree k (f v s1) (f' v s1)) \<Longrightarrow> agree k (parsed (Some r) f) (parsed (Some r) f')"
  by (cases r) (auto simp: agree_def)

lemma agree_weaken: "agree m r r' \<Longrightarrow> m \<le> k \<Longrightarrow> agree k r r'"
  by (auto simp: agree_def)

lemma agree_literal [agreement]:
  "openers (snd s) \<le> k \<Longrightarrow> agree k (Some (parse_literal l v s)) (Some (parse_literal l v s))"
  by (auto simp: agree_def dest!: openers_literal)

lemma agree_number [agreement]: "openers (snd s) \<le> k \<Longrightarrow> agree k (Some (parse_number s)) (Some (parse_number s))"
  by (auto simp: agree_def dest!: openers_number)

lemma agree_peek [agreement]:
  "(\<And>c cs. snd s = c # cs \<Longrightarrow> agree k (f c s) (f' c s)) \<Longrightarrow> agree k (parsed (Some (peek s)) f) (parsed (Some (peek s)) f')"
  by (rule agree_step) (auto simp: peek_Inr_iff)

lemma agree_expect [agreement]:
  "(\<And>u s1. openers (snd s1) = openers (snd s) - openers [c] \<Longrightarrow> agree k (f u s1) (f' u s1))
    \<Longrightarrow> agree k (parsed (Some (expect c s)) f) (parsed (Some (expect c s)) f')"
  by (rule agree_step) (blast dest: openers_expect)

lemma agree_string [agreement]:
  "(\<And>v s1. openers (snd s1) \<le> openers (snd s) \<Longrightarrow> agree k (f v s1) (f' v s1))
    \<Longrightarrow> agree k (parsed (Some (parse_string s)) f) (parsed (Some (parse_string s)) f')"
  by (rule agree_step) (blast dest: openers_string)

lemma openers_leave: "openers (snd t) < k \<Longrightarrow> openers (snd (advance (skip_whitespace t))) \<le> k"
  using openers_advance [of "skip_whitespace t"] openers_skip [of t] by simp

lemma openers_after: "openers (snd t) \<le> k \<Longrightarrow> openers (snd (advance (skip_whitespace t))) \<le> k"
  using openers_advance [of "skip_whitespace t"] openers_skip [of t] by simp

lemma agree_string_skip:
  assumes "\<And>v s1. openers (snd s1) \<le> openers (snd s) \<Longrightarrow> agree k (f v s1) (f' v s1)"
  shows "agree k (parsed (Some (parse_string (skip_whitespace s))) f) (parsed (Some (parse_string (skip_whitespace s))) f')"
  using assms openers_skip [of s] by (intro agree_string) auto

lemma agree_expect_skip:
  assumes "\<And>u s1. openers (snd s1) \<le> openers (snd s) \<Longrightarrow> agree k (f u s1) (f' u s1)"
  shows "agree k (parsed (Some (expect c (skip_whitespace s))) f) (parsed (Some (expect c (skip_whitespace s))) f')"
  using assms openers_skip [of s] by (intro agree_expect) auto

lemma stack_agrees:
  shows "openers (snd s) < room \<Longrightarrow> agree (openers (snd s)) (stack_value room n s) (parse_value n s)"
    and "openers (snd s) < room \<Longrightarrow> agree (openers (snd s)) (stack_members room n es s) (parse_members n es s)"
    and "openers (snd s) < room \<Longrightarrow> agree (openers (snd s)) (stack_elements room n vs s) (parse_elements n vs s)"
proof (induction room n s and room n es s and room n vs s
    rule: stack_value_stack_members_stack_elements.induct)
  case (2 room n s)
  note w = openers_skip [of s]
  have room: "room \<noteq> 0" using 2(3) by simp
  have m: "agree (openers (snd s)) (stack_members (room - 1) n [] (skip_whitespace t)) (parse_members n [] (skip_whitespace t))"
    if "openers (snd t) < openers (snd s)" for t
    using 2(3) that room openers_skip [of t] by (intro agree_weaken [OF 2(1)]) auto
  have e: "agree (openers (snd s)) (stack_elements (room - 1) n [] (skip_whitespace t)) (parse_elements n [] (skip_whitespace t))"
    if "openers (snd t) < openers (snd s)" for t
    using 2(3) that room openers_skip [of t] by (intro agree_weaken [OF 2(2)]) auto
  show ?case
    unfolding stack_value.simps parse_value.simps if_not_P [OF room]
    using w by (intro agreement m e openers_leave) simp_all
next
  case (4 room n es s)
  have v: "agree (openers (snd s)) (parsed (stack_value room n t) f) (parsed (parse_value n t) f')"
    if "openers (snd t) \<le> openers (snd s)"
      "\<And>v u. openers (snd u) \<le> openers (snd s) \<Longrightarrow> agree (openers (snd s)) (f v u) (f' v u)" for t f f'
    using 4(1) 4(3) that by (intro agree_parsed [OF 4(1)]) auto
  have m: "agree (openers (snd s)) (stack_members room n (emplace k x es) (advance t)) (parse_members n (emplace k x es) (advance t))"
    if "openers (snd (advance t)) \<le> openers (snd s)" for k x t
    using 4(3) that by (intro agree_weaken [OF 4(2)]) auto
  show ?case
    unfolding stack_members.simps parse_members.simps Let_def
    by (intro agree_string_skip agree_expect_skip agreement v m openers_after) simp_all
next
  case (6 room n vs s)
  have v: "agree (openers (snd s)) (parsed (stack_value room n s) f) (parsed (parse_value n s) f')"
    if "\<And>v u. openers (snd u) \<le> openers (snd s) \<Longrightarrow> agree (openers (snd s)) (f v u) (f' v u)" for f f'
    using 6(3) that by (intro agree_parsed [OF 6(1)]) auto
  have e: "agree (openers (snd s)) (stack_elements room n (vs @ [x]) (advance t)) (parse_elements n (vs @ [x]) (advance t))"
    if "openers (snd (advance t)) \<le> openers (snd s)" for x t
    using 6(3) that by (intro agree_weaken [OF 6(2)]) auto
  show ?case
    unfolding stack_elements.simps parse_elements.simps Let_def
    by (intro agreement v e openers_after) simp_all
qed (simp_all add: agreement)

lemma stack_enough: "openers cs < room \<Longrightarrow> parse_on_stack room n cs = parse_fuel n cs"
proof -
  assume "openers cs < room"
  then have "openers (snd (skip_whitespace (0, cs))) < room" using openers_skip [of "(0, cs)"] by simp
  from stack_agrees(1) [OF this, of n] have "stack_value room n (skip_whitespace (0, cs)) = parse_value n (skip_whitespace (0, cs))"
    by (simp add: agree_def)
  then show ?thesis by (simp add: parse_on_stack_def parse_fuel_def)
qed

section \<open>A document that exhausts the stack\<close>

primrec nested :: "nat \<Rightarrow> json" where
  "nested 0 = JInt 1"
| "nested (Suc k) = JArray [nested k]"

lemma readable_nested: "readable (nested k)"
  by (induction k) simp_all

lemma normal_nested: "normal (nested k) = nested k"
  by (induction k) simp_all

lemma nested_exhausts: "stack_value room n (pos, render (nested room) @ rest) = None"
proof (induction room arbitrary: n pos rest)
  case 0
  then show ?case by (cases n) (simp_all add: stack_value.simps)
next
  case (Suc room)
  obtain c cs where c: "render (nested room) = c # cs" "\<not> is_space c" "c \<noteq> CHR '']''" by (rule render_first)
  have "stack_elements room m [] (pos + 1, render (nested room) @ CHR '']'' # rest) = None" for m
    using Suc.IH by (cases m) (simp_all add: stack_elements.simps)
  then show ?case
    using c by (cases n) (simp_all add: stack_value.simps is_space_def)
qed

section \<open>Properties\<close>

text \<open>C22: The JSON reader returns on every text if its stack has room: one call of \<open>parse_value\<close> more than
  the text has opening brackets is enough, and it then returns the value or the exception of the reader on
  an unlimited stack.  No bound is enough for all texts: every stack is exhausted by a document that
  is well formed, an integer inside as many brackets as the stack has room for calls.  Apart from the
  stack the recursion is given fuel, and any amount above twice the length of the text gives the same result.\<close>

theorem json_reader_returns:
  assumes "openers cs < room"
  shows "parse_on_stack room (2 * length cs + 1 + extra) cs = Some (parse_json cs)
    \<and> parse_fuel (2 * length cs + 1 + extra) cs = Some (parse_json cs)
    \<and> parse_json (render (nested limit)) = Inr (nested limit)
    \<and> parse_on_stack limit n (render (nested limit)) = None"
proof -
  have "parse_fuel (2 * length cs + 1 + extra) cs = Some (parse_json cs)" by (rule reader_total) simp
  moreover have "parse_json (render (nested limit)) = Inr (nested limit)"
    using parse_rendered [OF readable_nested, of "[]" limit] by (simp add: normal_nested)
  moreover have "parse_on_stack limit n (render (nested limit)) = None"
  proof -
    obtain c cs where "render (nested limit) = c # cs" "\<not> is_space c" by (rule render_first)
    then show ?thesis using nested_exhausts [of limit n 0 "[]"] by (simp add: parse_on_stack_def)
  qed
  ultimately show ?thesis using stack_enough [OF assms] by simp
qed

theorem json_reader_returns_witness:
  "parse_on_stack 3 23 ''[true, [ ]]'' = Some (parse_json ''[true, [ ]]'') \<and> parse_on_stack 2 99 ''[[1]]'' = None"
proof -
  have "render (nested 2) = ''[[1]]''" by code_simp
  then show ?thesis
    using json_reader_returns [of "''[true, [ ]]''" 3 0 2 99] by simp
qed

end
