(* ===== verification/Conformance.thy ===== *)
theory Conformance
  imports Commitments Algorithms
begin

text \<open>
  \<open>tests/conformance/reference_commitments.hpp\<close>: the reference implementation of the commitment scheme that the
  project derives from its decision records and compares with the library on random inputs.  It
  writes every field at its documented offset into a buffer of the documented size.  The theorem at the end
  replaces the random comparison.  An array of bytes is the list of its elements.
\<close>

section \<open>Fields at offsets\<close>

definition put_u8 :: "bytes \<Rightarrow> nat \<Rightarrow> u8 \<Rightarrow> bytes" where
  "put_u8 buf offset v = buf[offset := v]"

definition put_u32_le :: "bytes \<Rightarrow> nat \<Rightarrow> u32 \<Rightarrow> bytes" where
  "put_u32_le buf offset v = foldl (\<lambda>b i. b[offset + i := ucast (drop_bit (i * 8) v AND 0xFF)]) buf [0..<4]"

definition put_u64_le :: "bytes \<Rightarrow> nat \<Rightarrow> u64 \<Rightarrow> bytes" where
  "put_u64_le buf offset v = foldl (\<lambda>b i. b[offset + i := ucast (drop_bit (i * 8) v AND 0xFF)]) buf [0..<8]"

definition put_u128_le :: "bytes \<Rightarrow> nat \<Rightarrow> u128 \<Rightarrow> bytes" where
  "put_u128_le buf offset v = foldl (\<lambda>b i. b[offset + i := ucast (drop_bit (i * 8) v AND 0xFF)]) buf [0..<16]"

definition put_bytes :: "bytes \<Rightarrow> nat \<Rightarrow> bytes \<Rightarrow> bytes" where
  "put_bytes buf offset src = foldl (\<lambda>b i. b[offset + i := src ! i]) buf [0..<length src]"

definition put_tag :: "bytes \<Rightarrow> nat \<Rightarrow> string \<Rightarrow> bytes" where
  "put_tag buf offset tag = foldl (\<lambda>b i. b[offset + i := byte_of (tag ! i)]) buf [0..<length tag]"

section \<open>The encodings\<close>

definition encode_order :: "salted_order_preimage \<Rightarrow> bytes" where
  "encode_order p =
     (let buf = replicate 86 0;
          buf = put_tag buf 0 ''FCOR'';
          buf = put_u8 buf 4 1;
          buf = put_u64_le buf 5 (ord_id (pre_order p));
          buf = put_u64_le buf 13 (ord_account (pre_order p));
          buf = put_u64_le buf 21 (ord_instrument (pre_order p));
          buf = put_u8 buf 29 (if ord_side (pre_order p) = Buy then 0 else 1);
          buf = put_u64_le buf 30 (ord_price (pre_order p));
          buf = put_u64_le buf 38 (ord_qty (pre_order p));
          buf = put_u64_le buf 46 (ord_seq (pre_order p))
      in put_bytes buf 54 (pre_nonce p))"

definition encode_account :: "account_id \<Rightarrow> money \<Rightarrow> instrument_id \<Rightarrow> qty \<Rightarrow> bytes \<Rightarrow> bytes" where
  "encode_account account cash inst inventory salt =
     (let buf = replicate 77 0;
          buf = put_tag buf 0 ''FCAC'';
          buf = put_u8 buf 4 1;
          buf = put_u64_le buf 5 account;
          buf = put_u128_le buf 13 cash;
          buf = put_u64_le buf 29 inst;
          buf = put_u64_le buf 37 inventory
      in put_bytes buf 45 salt)"

definition encode_batch_header :: "u32 \<Rightarrow> u64 \<Rightarrow> u64 \<Rightarrow> u64 \<Rightarrow> u32 \<Rightarrow> bytes \<Rightarrow> bytes" where
  "encode_batch_header semantic_version bid inst cutoff order_count root =
     (let buf = replicate 69 0;
          buf = put_tag buf 0 ''FCBH'';
          buf = put_u8 buf 4 1;
          buf = put_u32_le buf 5 semantic_version;
          buf = put_u64_le buf 9 bid;
          buf = put_u64_le buf 17 inst;
          buf = put_u64_le buf 25 cutoff;
          buf = put_u32_le buf 33 order_count
      in put_bytes buf 37 root)"

definition encode_snapshot :: "reference_price_snapshot \<Rightarrow> reference_price_policy \<Rightarrow> bytes" where
  "encode_snapshot s p =
     (let buf = replicate 57 0;
          buf = put_tag buf 0 ''FCOS'';
          buf = put_u8 buf 4 1;
          buf = put_u32_le buf 5 (snap_oracle_id s);
          buf = put_u64_le buf 9 (snap_instrument s);
          buf = put_u64_le buf 17 (snap_price s);
          buf = put_u64_le buf 25 (snap_timestamp s);
          buf = put_u64_le buf 33 (snap_sequence s);
          buf = put_u64_le buf 41 (pol_max_staleness p)
      in put_u64_le buf 49 (pol_max_deviation p))"

section \<open>The scheme\<close>

text \<open>\<open>Sha256::hash\<close> is shared with the library; the rest is built on it.\<close>

definition ref_leaf_of :: "bytes \<Rightarrow> bytes" where
  "ref_leaf_of data = sha256 (bytes_of_string ''FC_LEAF_'' @ data)"

definition ref_empty_node :: bytes where
  "ref_empty_node = sha256 (bytes_of_string ''FC_EMPTY_NODE'')"

definition ref_combine :: "bytes \<Rightarrow> bytes \<Rightarrow> bytes" where
  "ref_combine left right =
     (let pair = put_bytes (put_bytes (replicate 64 0) 0 left) 32 right
      in sha256 (bytes_of_string ''FC_NODE_'' @ pair))"

definition ref_next :: "bytes list \<Rightarrow> bytes list" where
  "ref_next layer =
     map (\<lambda>k. ref_combine (layer ! (2 * k)) (if 2 * k + 1 < length layer then layer ! (2 * k + 1) else ref_empty_node))
       [0..<(length layer + 1) div 2]"

function ref_reduce :: "bytes list \<Rightarrow> bytes" where
  "ref_reduce layer = (if 1 < length layer then ref_reduce (ref_next layer) else hd layer)"
  by auto
termination
  by (relation "measure length") (auto simp: ref_next_def)

declare ref_reduce.simps [simp del]

definition ref_merkle_root :: "bytes list \<Rightarrow> bytes" where
  "ref_merkle_root layer = (if layer = [] then ref_empty_node else ref_reduce layer)"

section \<open>The derived commitments\<close>

definition commit_order_ref :: "salted_order_preimage \<Rightarrow> bytes" where
  "commit_order_ref p = ref_leaf_of (encode_order p)"

definition batch_merkle_root_ref :: "salted_order_preimage list \<Rightarrow> bytes" where
  "batch_merkle_root_ref preimages = ref_merkle_root (map commit_order_ref preimages)"

definition batch_header_commitment_ref :: "u32 \<Rightarrow> u64 \<Rightarrow> u64 \<Rightarrow> u64 \<Rightarrow> u32 \<Rightarrow> bytes \<Rightarrow> bytes" where
  "batch_header_commitment_ref semantic_version bid inst cutoff order_count root =
     ref_leaf_of (encode_batch_header semantic_version bid inst cutoff order_count root)"

definition derive_account_salt_ref :: "bytes \<Rightarrow> account_id \<Rightarrow> bytes" where
  "derive_account_salt_ref venue_secret account =
     (let buf = replicate 55 0;
          buf = put_tag buf 0 ''FC_ACCT_SALT_V1'';
          buf = put_bytes buf (length ''FC_ACCT_SALT_V1'') venue_secret;
          buf = put_u64_le buf (length ''FC_ACCT_SALT_V1'' + 32) account
      in sha256 (bytes_of_string ''FC_LEAF_'' @ buf))"

text \<open>The identifiers are collected and sorted; \<open>get_account\<close> finds each of them.\<close>

definition ref_account_leaf :: "ledger \<Rightarrow> instrument_id \<Rightarrow> account_id \<Rightarrow> bytes" where
  "ref_account_leaf l inst k =
     (case om_find l k of
        None \<Rightarrow> []
      | Some acc \<Rightarrow> ref_leaf_of (encode_account k (acc_cash acc) inst (inventory_of acc inst) (acc_salt acc)))"

definition ledger_root_ref :: "ledger \<Rightarrow> instrument_id \<Rightarrow> bytes" where
  "ledger_root_ref l inst =
     (if om_is_empty l then ref_empty_node
      else ref_merkle_root (map (ref_account_leaf l inst) (std_sort (<) (map fst (om_entries l)))))"

definition snapshot_commitment_ref ::
  "reference_price_snapshot option \<Rightarrow> reference_price_policy option \<Rightarrow> bytes" where
  "snapshot_commitment_ref snapshot policy =
     (case (snapshot, policy) of
        (Some s, Some p) \<Rightarrow> ref_leaf_of (encode_snapshot s p)
      | _ \<Rightarrow> ref_leaf_of (bytes_of_string ''FCOS_ABSENT_V1''))"

section \<open>Writing at offsets is appending\<close>

lemma put_loop:
  "foldl (\<lambda>b i. b[length pre + i := f i]) (pre @ replicate m 0) [0..<n] = pre @ map f [0..<n] @ replicate (m - n) (0 :: u8)"
  if "n \<le> m"
  using that
proof (induction n)
  case (Suc n)
  then have "replicate (m - n) (0 :: u8) = 0 # replicate (m - Suc n) 0" by (simp add: Suc_diff_Suc flip: replicate_Suc)
  with Suc show ?case by (simp add: list_update_append)
qed simp

lemma put_fields:
  assumes "length pre = offset"
  shows "1 \<le> m \<Longrightarrow> put_u8 (pre @ replicate m 0) offset v = (pre @ [v]) @ replicate (m - 1) 0"
    and "4 \<le> m \<Longrightarrow> put_u32_le (pre @ replicate m 0) offset w = (pre @ le_bytes 4 w) @ replicate (m - 4) 0"
    and "8 \<le> m \<Longrightarrow> put_u64_le (pre @ replicate m 0) offset x = (pre @ le_bytes 8 x) @ replicate (m - 8) 0"
    and "16 \<le> m \<Longrightarrow> put_u128_le (pre @ replicate m 0) offset y = (pre @ le_bytes 16 y) @ replicate (m - 16) 0"
    and "length src \<le> m \<Longrightarrow> put_bytes (pre @ replicate m 0) offset src = (pre @ src) @ replicate (m - length src) 0"
    and "length tag \<le> m \<Longrightarrow>
      put_tag (pre @ replicate m 0) offset tag = (pre @ bytes_of_string tag) @ replicate (m - length tag) 0"
proof -
  show "put_u8 (pre @ replicate m 0) offset v = (pre @ [v]) @ replicate (m - 1) 0" if "1 \<le> m"
    using that put_loop [of 1 m pre "\<lambda>_. v"] assms by (simp add: put_u8_def)
  show "put_u32_le (pre @ replicate m 0) offset w = (pre @ le_bytes 4 w) @ replicate (m - 4) 0" if "4 \<le> m"
    unfolding put_u32_le_def assms [symmetric] put_loop [OF that] by (simp add: le_bytes_def le_byte_def)
  show "put_u64_le (pre @ replicate m 0) offset x = (pre @ le_bytes 8 x) @ replicate (m - 8) 0" if "8 \<le> m"
    unfolding put_u64_le_def assms [symmetric] put_loop [OF that] by (simp add: le_bytes_def le_byte_def)
  show "put_u128_le (pre @ replicate m 0) offset y = (pre @ le_bytes 16 y) @ replicate (m - 16) 0" if "16 \<le> m"
    unfolding put_u128_le_def assms [symmetric] put_loop [OF that] by (simp add: le_bytes_def le_byte_def)
  show "put_bytes (pre @ replicate m 0) offset src = (pre @ src) @ replicate (m - length src) 0" if "length src \<le> m"
    unfolding put_bytes_def assms [symmetric] put_loop [OF that] by (simp add: map_nth)
  have "map (\<lambda>i. byte_of (tag ! i)) [0..<length tag] = bytes_of_string tag"
    unfolding bytes_of_string_def by (rule nth_equalityI) simp_all
  then show "put_tag (pre @ replicate m 0) offset tag = (pre @ bytes_of_string tag) @ replicate (m - length tag) 0"
    if "length tag \<le> m"
    unfolding put_tag_def assms [symmetric] put_loop [OF that] by simp
qed

lemmas put_first = put_fields [where pre = "[]", simplified]

lemma tag_bytes:
  "bytes_of_string ''FCOR'' = ORDER_TAG" "bytes_of_string ''FCAC'' = ACCOUNT_TAG"
  "bytes_of_string ''FCBH'' = BATCH_HEADER_TAG" "bytes_of_string ''FCOS'' = ORACLE_SNAPSHOT_TAG"
  "bytes_of_string ''FC_LEAF_'' = LEAF_PREFIX" "bytes_of_string ''FC_NODE_'' = NODE_PREFIX"
  "bytes_of_string ''FC_EMPTY_NODE'' = EMPTY_PREFIX" "bytes_of_string ''FCOS_ABSENT_V1'' = ABSENT_ORACLE_MARKER"
  "bytes_of_string ''FC_ACCT_SALT_V1'' = ACCOUNT_SALT_TAG"
  by code_simp+

section \<open>The reference agrees with the library\<close>

lemma length_tags:
  "length ORDER_TAG = 4" "length ACCOUNT_TAG = 4" "length BATCH_HEADER_TAG = 4" "length ORACLE_SNAPSHOT_TAG = 4"
  "length ACCOUNT_SALT_TAG = 15"
  by (simp_all add: ORDER_TAG_def ACCOUNT_TAG_def BATCH_HEADER_TAG_def ORACLE_SNAPSHOT_TAG_def ACCOUNT_SALT_TAG_def)

lemmas offset_simps = put_first put_fields Let_def tag_bytes length_tags ENCODING_VERSION_V1_def

lemma encode_order_eq: "length (pre_nonce p) = 32 \<Longrightarrow> encode_order p = canonical_encode_order p"
  by (simp add: encode_order_def canonical_encode_order_def offset_simps del: append_assoc split del: if_split)

lemma encode_account_eq:
  "length salt = 32 \<Longrightarrow> encode_account k cash inst inventory salt = canonical_encode_account
     \<lparr>sap_account_id = k, sap_cash = cash, sap_instrument = inst, sap_inventory = inventory, sap_salt = salt\<rparr>"
  by (simp add: encode_account_def canonical_encode_account_def offset_simps del: append_assoc)

lemma encode_batch_header_eq:
  "length (bh_orders_root h) = 32 \<Longrightarrow> encode_batch_header (bh_semantic_version h) (bh_batch_id h) (bh_instrument_id h)
     (bh_cutoff h) (bh_order_count h) (bh_orders_root h) = canonical_encode_header h"
  by (simp add: encode_batch_header_def canonical_encode_header_def offset_simps foldl_append_map le_bytes_def
      del: append_assoc)

lemma encode_snapshot_eq:
  "encode_snapshot s p = canonical_encode_oracle_snapshot \<lparr>osp_snapshot = s, osp_policy = p\<rparr>"
  by (simp add: encode_snapshot_def canonical_encode_oracle_snapshot_def offset_simps del: append_assoc)

lemma ref_scheme:
  "ref_leaf_of data = commit_raw_bytes data" "ref_empty_node = empty_node"
  by (simp_all add: ref_leaf_of_def ref_empty_node_def scheme_spec tag_bytes)

lemma ref_combine_eq: "length left = 32 \<Longrightarrow> length right = 32 \<Longrightarrow> ref_combine left right = combine_nodes left right"
  by (simp add: ref_combine_def scheme_spec offset_simps)

lemma ref_next_eq:
  "list_all (\<lambda>c. length c = 32) layer \<Longrightarrow> ref_next layer = next_layer layer"
proof (induction layer rule: next_layer.induct)
  case (3 x y xs)
  have len: "(length (x # y # xs) + 1) div 2 = Suc ((length xs + 1) div 2)" by simp
  have upt: "[0..<Suc n] = 0 # map Suc [0..<n]" for n by (simp add: map_Suc_upt upt_conv_Cons del: upt_Suc)
  have "ref_next (x # y # xs) = ref_combine x y # ref_next xs"
    unfolding ref_next_def len upt by simp
  with 3 show ?case by (simp add: ref_combine_eq)
qed (simp_all add: ref_next_def ref_combine_eq ref_scheme(2))

lemma next_layer_sizes: "list_all (\<lambda>c. length c = 32) (next_layer layer)"
  by (induction layer rule: next_layer.induct) simp_all

lemma ref_reduce_eq:
  "layer \<noteq> [] \<Longrightarrow> list_all (\<lambda>c. length c = 32) layer \<Longrightarrow> ref_reduce layer = last (build_layers layer) ! 0"
proof (induction layer rule: build_layers.induct)
  case (1 layer)
  show ?case
  proof (cases "1 < length layer")
    case True
    have ne: "next_layer layer \<noteq> []" using True by (simp add: length_next_layer flip: length_greater_0_conv)
    have "build_layers (next_layer layer) \<noteq> []" by (subst build_layers.simps) simp
    with True "1.IH" [OF True ne next_layer_sizes] 1(3) show ?thesis
      by (subst ref_reduce.simps, subst build_layers.simps) (simp add: ref_next_eq)
  next
    case False
    then show ?thesis
      using "1.prems" by (subst ref_reduce.simps, subst build_layers.simps) (simp add: hd_conv_nth)
  qed
qed

lemma ref_merkle_root_eq:
  "list_all (\<lambda>c. length c = 32) leaves \<Longrightarrow> ref_merkle_root leaves = merkle_root (new_merkle_tree leaves)"
  by (simp add: ref_merkle_root_def merkle_root_def new_merkle_tree_def ref_reduce_eq ref_scheme(2))

lemma sorted_keys: "std_sort (<) (map fst (om_entries l)) = map fst (om_entries l)"
  by (simp add: std_sort_less sorted_sort_id strict_sorted_iff [THEN iffD1, OF ascending_om_entries, THEN conjunct1])

lemma ledger_root_ref_eq:
  assumes "salted l"
  shows "ledger_root_ref l inst = compute_ledger_root l inst"
proof -
  have "ref_account_leaf l inst k = account_leaf inst (k, acc)" if "(k, acc) \<in> set (om_entries l)" for k acc
  proof -
    have "om_find l k = Some acc" using that by (simp add: om.mem_entries)
    moreover have "length (acc_salt acc) = 32" using that assms by (auto simp: salted_def list_all_iff)
    ultimately show ?thesis
      by (simp add: ref_account_leaf_def account_leaf_def account_preimage_def ref_scheme encode_account_eq)
  qed
  then have "map (ref_account_leaf l inst) (map fst (om_entries l)) = map (account_leaf inst) (om_entries l)"
    by auto
  moreover have "list_all (\<lambda>c. length c = 32) (map (account_leaf inst) (om_entries l))"
    by (simp add: list_all_iff account_leaf_def)
  ultimately show ?thesis
    by (simp add: ledger_root_ref_def compute_ledger_root_def sorted_keys ref_merkle_root_eq ref_scheme(2) del: map_map)
qed

lemma derive_account_salt_eq:
  assumes "length venue_secret = 32"
  shows "derive_account_salt_ref venue_secret k = derive_account_salt venue_secret k"
proof -
  have "put_u64_le (put_bytes (put_tag (replicate 55 0) 0 ''FC_ACCT_SALT_V1'') 15 venue_secret) 47 k
      = (ACCOUNT_SALT_TAG @ venue_secret) @ le_bytes 8 k"
    using assms by (simp add: offset_simps del: append_assoc)
  moreover have tag: "length ''FC_ACCT_SALT_V1'' = 15" by simp
  ultimately show ?thesis
    unfolding derive_account_salt_ref_def Let_def tag by (simp add: derive_account_salt_def scheme_spec tag_bytes)
qed

text \<open>C39: the reference implementation and the library commit to the same values: the salted orders, the root over
  a batch of them, the batch header, the derived account salt, the root of a ledger and the snapshot of
  a reference price, present or absent.  The byte arrays must have the lengths of their types.\<close>

theorem reference_agrees:
  assumes "list_all (\<lambda>p. length (pre_nonce p) = 32) preimages" and "length (bh_orders_root h) = 32"
    and "length venue_secret = 32" and "salted l"
  shows "map commit_order_ref preimages = map commit_order preimages
    \<and> batch_merkle_root_ref preimages = merkle_root (new_merkle_tree (map commit_order preimages))
    \<and> batch_header_commitment_ref (bh_semantic_version h) (bh_batch_id h) (bh_instrument_id h) (bh_cutoff h)
        (bh_order_count h) (bh_orders_root h) = compute_batch_commitment h
    \<and> derive_account_salt_ref venue_secret k = derive_account_salt venue_secret k
    \<and> ledger_root_ref l inst = compute_ledger_root l inst
    \<and> snapshot_commitment_ref snapshot policy = compute_oracle_snapshot_commitment snapshot policy"
proof -
  have orders: "map commit_order_ref preimages = map commit_order preimages"
    using assms(1) by (simp add: list_all_iff commit_order_ref_def commit_order_def ref_scheme encode_order_eq)
  moreover have "batch_merkle_root_ref preimages = merkle_root (new_merkle_tree (map commit_order preimages))"
    unfolding batch_merkle_root_ref_def orders by (rule ref_merkle_root_eq) (simp add: list_all_iff commit_order_def)
  moreover have "derive_account_salt_ref venue_secret k = derive_account_salt venue_secret k"
    by (rule derive_account_salt_eq [OF assms(3)])
  moreover have "snapshot_commitment_ref snapshot policy = compute_oracle_snapshot_commitment snapshot policy"
    by (simp add: snapshot_commitment_ref_def compute_oracle_snapshot_commitment_def ref_scheme encode_snapshot_eq tag_bytes
        split: option.split)
  ultimately show ?thesis
    using assms(2) ledger_root_ref_eq [OF assms(4)]
    by (simp add: batch_header_commitment_ref_def compute_batch_commitment_def ref_scheme encode_batch_header_eq)
qed

theorem reference_agrees_witness:
  "batch_merkle_root_ref [sample_preimage 1, sample_preimage 2]
     = merkle_root (new_merkle_tree [commit_order (sample_preimage 1), commit_order (sample_preimage 2)])"
  using reference_agrees [of "[sample_preimage 1, sample_preimage 2]" sample_header "replicate 32 7" om_empty]
  by (simp add: sample_preimage_def sample_header_def salted_def)

end
