(* ===== verification/Metrics.thy ===== *)
theory Metrics
  imports Primitives Orders "HOL-Library.Signed_Division"
begin

text \<open>
  \<open>simulator/metrics.hpp\<close> and \<open>metrics.cpp\<close>: the market quality report of a session.  Unsigned sums
  wrap; the signed sum of the slippages is kept in the 64 bits of its type, in which a sum that does
  not fit has no defined value in the source.
\<close>

record order_execution_metric =
  om_order_id :: u64
  om_side :: side
  om_submitted_qty :: qty
  om_filled_qty :: qty
  om_arrival :: u64
  om_cutoff :: u64
  om_delay :: u64
  om_reference :: "price option"
  om_clearing :: "price option"
  om_slippage :: "u64 option"
  om_shortfall :: money

record market_quality_report =
  mq_total_batches :: nat
  mq_total_submitted_orders :: nat
  mq_total_fills :: nat
  mq_submitted_volume :: u64
  mq_cleared_volume :: u64
  mq_fill_rate :: u32
  mq_mean_delay :: u64
  mq_max_delay :: u64
  mq_mean_slippage :: u64
  mq_total_shortfall :: money
  mq_order_metrics :: "order_execution_metric list"

text \<open>The accumulators of the loop over the filled orders.\<close>

record quality_totals =
  qt_fills :: nat
  qt_filled_lots :: u64
  qt_delay :: u64
  qt_max_delay :: u64
  qt_slippage :: u64
  qt_slippage_count :: nat
  qt_shortfall :: money

definition no_totals :: quality_totals where
  "no_totals = \<lparr>qt_fills = 0, qt_filled_lots = 0, qt_delay = 0, qt_max_delay = 0, qt_slippage = 0,
     qt_slippage_count = 0, qt_shortfall = 0\<rparr>"

definition add_metric :: "quality_totals \<Rightarrow> order_execution_metric \<Rightarrow> quality_totals" where
  "add_metric t m =
     (if om_filled_qty m \<noteq> 0 then
        \<lparr>qt_fills = qt_fills t + 1,
         qt_filled_lots = qt_filled_lots t + om_filled_qty m,
         qt_delay = qt_delay t + om_delay m,
         qt_max_delay = max (qt_max_delay t) (om_delay m),
         qt_slippage = (case om_slippage m of Some s \<Rightarrow> qt_slippage t + s | None \<Rightarrow> qt_slippage t),
         qt_slippage_count = (case om_slippage m of Some s \<Rightarrow> qt_slippage_count t + 1 | None \<Rightarrow> qt_slippage_count t),
         qt_shortfall = qt_shortfall t + om_shortfall m\<rparr>
      else t)"

definition fill_rate_permille :: "u64 \<Rightarrow> u64 \<Rightarrow> u32" where
  "fill_rate_permille filled submitted =
     (if 0 < submitted then ucast (ucast filled * 1000 div ucast submitted :: u128) else 0)"

text \<open>Signed division truncates towards zero.\<close>

definition calculate :: "nat \<Rightarrow> order_execution_metric list \<Rightarrow> market_quality_report" where
  "calculate total_batches order_metrics =
     (let submitted = foldl (\<lambda>v m. v + om_submitted_qty m) 0 order_metrics;
          t = foldl add_metric no_totals order_metrics
      in \<lparr>mq_total_batches = total_batches,
          mq_total_submitted_orders = length order_metrics,
          mq_total_fills = qt_fills t,
          mq_submitted_volume = submitted,
          mq_cleared_volume = qt_filled_lots t div 2,
          mq_fill_rate = fill_rate_permille (qt_filled_lots t) submitted,
          mq_mean_delay = (if 0 < qt_fills t then qt_delay t div of_nat (qt_fills t) else 0),
          mq_max_delay = qt_max_delay t,
          mq_mean_slippage =
            (if 0 < qt_slippage_count t
             then word_of_int (sint (qt_slippage t) sdiv sint (of_nat (qt_slippage_count t) :: u64)) else 0),
          mq_total_shortfall = qt_shortfall t,
          mq_order_metrics = order_metrics\<rparr>)"

section \<open>Sums that fit\<close>

lemma unat_sum_list:
  fixes ws :: "'a::len word list"
  assumes "sum_list (map unat ws) < 2 ^ LENGTH('a)"
  shows "unat (sum_list ws) = sum_list (map unat ws)"
  using assms
proof (induction ws)
  case (Cons w ws)
  then have "unat (sum_list ws) = sum_list (map unat ws)" by simp
  with Cons.prems show ?case by (simp add: unat_add_fits)
qed simp

lemma sint_sum_list:
  fixes ws :: "u64 list"
  assumes "- (2 ^ 63) \<le> sum_list (map sint ws)" "sum_list (map sint ws) < 2 ^ 63"
  shows "sint (sum_list ws) = sum_list (map sint ws)"
proof -
  have "sum_list ws = word_of_int (sum_list (map sint ws))" by (induction ws) simp_all
  then have "sint (sum_list ws) = signed_take_bit 63 (sum_list (map sint ws))" by (simp add: signed_of_int)
  with assms show ?thesis by (simp add: signed_take_bit_int_eq_self)
qed

definition filled_orders :: "order_execution_metric list \<Rightarrow> order_execution_metric list" where
  "filled_orders ms = filter (\<lambda>m. om_filled_qty m \<noteq> 0) ms"

definition slippages :: "order_execution_metric list \<Rightarrow> u64 list" where
  "slippages ms = concat (map (\<lambda>m. case om_slippage m of Some s \<Rightarrow> [s] | None \<Rightarrow> []) (filled_orders ms))"

lemma metric_totals:
  "foldl add_metric t ms =
     \<lparr>qt_fills = qt_fills t + length (filled_orders ms),
      qt_filled_lots = qt_filled_lots t + sum_list (map om_filled_qty (filled_orders ms)),
      qt_delay = qt_delay t + sum_list (map om_delay (filled_orders ms)),
      qt_max_delay = foldl max (qt_max_delay t) (map om_delay (filled_orders ms)),
      qt_slippage = qt_slippage t + sum_list (slippages ms),
      qt_slippage_count = qt_slippage_count t + length (slippages ms),
      qt_shortfall = qt_shortfall t + sum_list (map om_shortfall (filled_orders ms))\<rparr>"
  by (induction ms arbitrary: t)
    (auto simp: filled_orders_def slippages_def add_metric_def add.assoc split: option.splits)

lemma submitted_total: "foldl (\<lambda>v m. v + om_submitted_qty m) a ms = a + sum_list (map om_submitted_qty ms)"
  by (induction ms arbitrary: a) (simp_all add: add.assoc)

lemma foldl_max: "foldl max a xs = Max (insert a (set xs))" for a :: "'a::linorder"
proof (induction xs arbitrary: a)
  case (Cons x xs)
  then show ?case by (cases "xs = []") (simp_all add: max.assoc)
qed simp

text \<open>The totals of the report fit their types, and no order is filled beyond its quantity.\<close>

definition report_fits :: "order_execution_metric list \<Rightarrow> bool" where
  "report_fits ms \<longleftrightarrow> length ms < 2 ^ 63
     \<and> list_all (\<lambda>m. om_filled_qty m \<le> om_submitted_qty m) ms
     \<and> sum_list (map unat (map om_submitted_qty ms)) < 2 ^ 64
     \<and> sum_list (map unat (map om_delay (filled_orders ms))) < 2 ^ 64
     \<and> sum_list (map unat (map om_shortfall (filled_orders ms))) < 2 ^ 128
     \<and> sum_list (map (\<lambda>s. \<bar>sint s\<bar>) (slippages ms)) < 2 ^ 63"

lemma filled_le_submitted:
  assumes "list_all (\<lambda>m. om_filled_qty m \<le> om_submitted_qty m) ms"
  shows "sum_list (map unat (map om_filled_qty (filled_orders ms))) \<le> sum_list (map unat (map om_submitted_qty ms))"
  using assms by (induction ms) (auto simp: filled_orders_def word_le_nat_alt)

lemma slippages_length: "length (slippages ms) \<le> length ms"
  by (induction ms) (auto simp: slippages_def filled_orders_def split: option.split)

lemma abs_sum_list: "\<bar>sum_list (map f xs)\<bar> \<le> sum_list (map (\<lambda>x. \<bar>f x\<bar>) xs)" for f :: "'a \<Rightarrow> int"
  by (induction xs) (auto intro: order_trans [OF abs_triangle_ineq])

lemma abs_sdiv_le:
  fixes k l :: int
  assumes "0 < l"
  shows "\<bar>k sdiv l\<bar> \<le> \<bar>k\<bar>"
proof -
  have "\<bar>k sdiv l\<bar> = \<bar>k\<bar> div l"
    using assms by (simp add: signed_divide_int_def abs_mult sgn_if pos_imp_zdiv_nonneg_iff)
  then show ?thesis using zdiv_mono2 [of "\<bar>k\<bar>" 1 l] assms by simp
qed

lemma mean_le_max:
  fixes xs :: "nat list"
  assumes "xs \<noteq> []"
  shows "sum_list xs div length xs \<le> Max (set xs)"
proof -
  have "sum_list xs \<le> length xs * Max (set xs)"
    using sum_list_mono [of xs "\<lambda>x. x" "\<lambda>x. Max (set xs)"] by (simp add: sum_list_triv)
  then have "sum_list xs div length xs \<le> length xs * Max (set xs) div length xs" by (rule div_le_mono)
  with assms show ?thesis by simp
qed

lemma fill_rate_value:
  assumes "unat filled \<le> unat submitted"
  shows "unat (fill_rate_permille filled submitted) = unat filled * 1000 div unat submitted"
    and "unat filled * 1000 div unat submitted \<le> 1000"
proof -
  have "unat filled * 1000 div unat submitted \<le> unat submitted * 1000 div unat submitted"
    using assms by (intro div_le_mono) simp
  also have "\<dots> \<le> 1000" by simp
  finally show le: "unat filled * 1000 div unat submitted \<le> 1000" .
  have "unat (ucast filled * 1000 :: u128) = unat filled * 1000"
    using unat_less_pow [of filled] by (simp add: unat_word_ariths)
  with le show "unat (fill_rate_permille filled submitted) = unat filled * 1000 div unat submitted"
    by (auto simp: fill_rate_permille_def unat_div unsigned_ucast_eq take_bit_nat_eq_self word_gt_0)
qed

section \<open>Properties\<close>

lemma mean_delay_bound:
  assumes "unat delay = sum_list (map (unat \<circ> om_delay) fs)"
  shows "unat delay div length fs \<le> unat (foldl max 0 (map om_delay fs))"
proof (cases "fs = []")
  case False
  then have "unat delay div length fs \<le> Max (unat ` om_delay ` set fs)"
    using mean_le_max [of "map (unat \<circ> om_delay) fs"] by (simp add: assms image_comp)
  also have "\<dots> = unat (Max (om_delay ` set fs))"
    using False by (intro mono_Max_commute [symmetric]) (auto simp: mono_def word_le_nat_alt)
  also have "\<dots> \<le> unat (foldl max 0 (map om_delay fs))"
    using False by (simp add: foldl_max flip: word_le_nat_alt)
  finally show ?thesis .
qed simp

lemma mean_slippage_value:
  fixes slip :: "64 word"
  assumes "\<bar>sint slip\<bar> < 2 ^ 63" "n < 2 ^ 63" "n = 0 \<Longrightarrow> sint slip = 0"
  shows "sint (if 0 < n then word_of_int (sint slip sdiv sint (of_nat n :: u64)) else 0 :: u64) = sint slip sdiv int n"
proof -
  have "sint (of_nat n :: u64) = int n"
    using assms(2) by (simp add: signed_of_nat signed_take_bit_int_eq_self)
  then show ?thesis
    using abs_sdiv_le [of "int n" "sint slip"] assms(1,3)
    by (auto simp: signed_of_int signed_take_bit_int_eq_self abs_le_iff)
qed

text \<open>C31: When the totals fit their types and no order is filled beyond its quantity, the report states
  the exact quantities of its definition: the submitted volume, half the filled lots as cleared volume,
  the rate of the filled to the submitted lots in thousandths, never above 1000, the mean delay rounded
  down, never above the largest delay, the mean slippage truncated towards zero, and the shortfall.
  An unfilled order counts only as submitted.\<close>

theorem quality_report_exact:
  assumes "report_fits ms"
  shows "case calculate k ms of report \<Rightarrow>
    mq_total_submitted_orders report = length ms \<and> mq_total_fills report = length (filled_orders ms)
    \<and> unat (mq_submitted_volume report) = sum_list (map (unat \<circ> om_submitted_qty) ms)
    \<and> unat (mq_cleared_volume report) = sum_list (map (unat \<circ> om_filled_qty) (filled_orders ms)) div 2
    \<and> unat (mq_fill_rate report) = sum_list (map (unat \<circ> om_filled_qty) (filled_orders ms)) * 1000
        div sum_list (map (unat \<circ> om_submitted_qty) ms)
    \<and> unat (mq_fill_rate report) \<le> 1000
    \<and> unat (mq_mean_delay report) = sum_list (map (unat \<circ> om_delay) (filled_orders ms)) div length (filled_orders ms)
    \<and> mq_mean_delay report \<le> mq_max_delay report
    \<and> mq_max_delay report = Max (insert 0 (om_delay ` set (filled_orders ms)))
    \<and> sint (mq_mean_slippage report) = sum_list (map sint (slippages ms)) sdiv int (length (slippages ms))
    \<and> unat (mq_total_shortfall report) = sum_list (map (unat \<circ> om_shortfall) (filled_orders ms))"
proof -
  let ?fs = "filled_orders ms"
  define submitted filled delay short slip where
    "submitted = sum_list (map om_submitted_qty ms)" and "filled = sum_list (map om_filled_qty ?fs)"
    and "delay = sum_list (map om_delay ?fs)" and "short = sum_list (map om_shortfall ?fs)"
    and "slip = sum_list (slippages ms)"
  note fits = assms [unfolded report_fits_def]
  have u: "unat submitted = sum_list (map (unat \<circ> om_submitted_qty) ms)"
    unfolding submitted_def using fits by (subst unat_sum_list) simp_all
  have f: "unat filled = sum_list (map (unat \<circ> om_filled_qty) ?fs)" "unat filled \<le> unat submitted"
    unfolding filled_def u using fits filled_le_submitted [of ms] by (subst unat_sum_list; simp)+
  have d: "unat delay = sum_list (map (unat \<circ> om_delay) ?fs)"
    unfolding delay_def using fits by (subst unat_sum_list) simp_all
  have h: "unat short = sum_list (map (unat \<circ> om_shortfall) ?fs)"
    unfolding short_def using fits by (subst unat_sum_list) simp_all
  have "\<bar>sum_list (map sint (slippages ms))\<bar> < 2 ^ 63"
    using fits abs_sum_list [of sint "slippages ms"] by linarith
  then have s: "sint slip = sum_list (map sint (slippages ms))" "\<bar>sint slip\<bar> < 2 ^ 63"
    unfolding slip_def by (subst sint_sum_list; simp)+
  have report: "calculate k ms = \<lparr>mq_total_batches = k, mq_total_submitted_orders = length ms,
      mq_total_fills = length ?fs, mq_submitted_volume = submitted, mq_cleared_volume = filled div 2,
      mq_fill_rate = fill_rate_permille filled submitted,
      mq_mean_delay = (if 0 < length ?fs then delay div of_nat (length ?fs) else 0),
      mq_max_delay = foldl max 0 (map om_delay ?fs),
      mq_mean_slippage = (if 0 < length (slippages ms)
        then word_of_int (sint slip sdiv sint (of_nat (length (slippages ms)) :: u64)) else 0),
      mq_total_shortfall = short, mq_order_metrics = ms\<rparr>"
    by (simp add: calculate_def Let_def metric_totals submitted_total no_totals_def submitted_def filled_def
      delay_def short_def slip_def)
  have rate: "unat (fill_rate_permille filled submitted) = unat filled * 1000 div unat submitted"
      "unat filled * 1000 div unat submitted \<le> 1000"
    by (rule fill_rate_value [OF f(2)])+
  have count: "length ?fs < 2 ^ 63" "length (slippages ms) < 2 ^ 63"
    using fits slippages_length [of ms] by (auto simp: filled_orders_def intro: le_less_trans [OF length_filter_le])
  have mean: "unat (if 0 < length ?fs then delay div of_nat (length ?fs) else 0) = unat delay div length ?fs"
    using count(1) by (simp add: unat_div unsigned_of_nat take_bit_nat_eq_self)
  note max = mean_delay_bound [OF d]
  have mean_slip: "sint (if 0 < length (slippages ms)
        then word_of_int (sint slip sdiv sint (of_nat (length (slippages ms)) :: u64)) else 0 :: u64)
      = sint slip sdiv int (length (slippages ms))"
    by (rule mean_slippage_value [OF s(2) count(2)]) (simp add: slip_def)
  show ?thesis
    unfolding report using u f d h s rate mean max mean_slip
    by (simp add: unat_div foldl_max word_le_nat_alt)
qed

definition sample_metric :: "side \<Rightarrow> qty \<Rightarrow> qty \<Rightarrow> u64 option \<Rightarrow> order_execution_metric" where
  "sample_metric sd submitted filled slippage =
     \<lparr>om_order_id = 1, om_side = sd, om_submitted_qty = submitted, om_filled_qty = filled, om_arrival = 0,
      om_cutoff = 100, om_delay = 100, om_reference = None, om_clearing = Some 100, om_slippage = slippage,
      om_shortfall = 7\<rparr>"

definition sample_metrics :: "order_execution_metric list" where
  "sample_metrics = [sample_metric Buy 5 3 (Some 4), sample_metric Sell 3 3 (Some (- 7)), sample_metric Sell 2 0 None]"

theorem quality_report_exact_witness:
  "case calculate 1 sample_metrics of report \<Rightarrow>
     mq_total_fills report = 2 \<and> unat (mq_fill_rate report) = 600 \<and> sint (mq_mean_slippage report) = - 1"
proof -
  have "report_fits sample_metrics"
    by (simp add: report_fits_def sample_metrics_def sample_metric_def filled_orders_def slippages_def)
  from quality_report_exact [OF this, of 1] show ?thesis
    by (simp add: sample_metrics_def sample_metric_def filled_orders_def slippages_def signed_divide_int_def)
qed

end
