(* ===== verification/Population.thy ===== *)
theory Population
  imports Generator Numbering
begin

text \<open>
  \<open>simulator/agent.hpp\<close>, \<open>agent.cpp\<close>, \<open>population.hpp\<close> and \<open>population.cpp\<close>: market makers and noise
  traders, and the session their orders make.
\<close>

section \<open>The agents\<close>

record market_environment =
  env_instrument :: instrument_id
  env_mid :: price
  env_last_price :: "price option"
  env_next_id :: u64

record market_maker =
  mm_account :: account_id
  mm_half_spread :: u64
  mm_quote_qty :: qty

record noise_trader =
  nt_account :: account_id
  nt_buy_permille :: u32
  nt_max_aggression :: u64
  nt_min_qty :: qty
  nt_max_qty :: qty

text \<open>\<open>OrderId id(env.next_order_id++)\<close>\<close>

definition take_id :: "market_environment \<Rightarrow> order_id \<times> market_environment" where
  "take_id env = (env_next_id env, env\<lparr>env_next_id := env_next_id env + 1\<rparr>)"

text \<open>A price below the mid, at least one tick.\<close>

definition below_mid :: "u64 \<Rightarrow> u64 \<Rightarrow> u64" where
  "below_mid mid d = (if d < mid then mid - d else 1)"

definition generate_orders :: "market_maker \<Rightarrow> market_environment \<Rightarrow> order list \<times> market_environment" where
  "generate_orders mm env =
     (let mid = env_mid env;
          bid_price = below_mid mid (mm_half_spread mm);
          ask_price = mid + mm_half_spread mm;
          (bid_id, env) = take_id env;
          (ask_id, env) = take_id env
      in ([\<lparr>ord_id = bid_id, ord_account = mm_account mm, ord_instrument = env_instrument env, ord_side = Buy,
            ord_price = bid_price, ord_qty = mm_quote_qty mm, ord_seq = 0\<rparr>,
           \<lparr>ord_id = ask_id, ord_account = mm_account mm, ord_instrument = env_instrument env, ord_side = Sell,
            ord_price = ask_price, ord_qty = mm_quote_qty mm, ord_seq = 1\<rparr>], env))"

definition generate_order ::
  "noise_trader \<Rightarrow> market_environment \<Rightarrow> u64 \<Rightarrow> order \<times> market_environment \<times> u64" where
  "generate_order nt env rng =
     (let (buys, rng) = gen_bool_permille (nt_buy_permille nt) rng;
          mid = env_mid env;
          (agg, rng) = gen_range_u64 0 (nt_max_aggression nt) rng;
          price = (if buys then mid + agg else below_mid mid agg);
          (qty, rng) = gen_range_u64 (nt_min_qty nt) (nt_max_qty nt) rng;
          (oid, env) = take_id env
      in (\<lparr>ord_id = oid, ord_account = nt_account nt, ord_instrument = env_instrument env,
           ord_side = (if buys then Buy else Sell), ord_price = price, ord_qty = qty, ord_seq = 0\<rparr>, env, rng))"

section \<open>The session\<close>

record population_config =
  pc_seed :: u64
  pc_instrument :: instrument_id
  pc_mid :: price
  pc_makers :: "market_maker list"
  pc_traders :: "noise_trader list"
  pc_initial_cash :: money
  pc_initial_inventory :: qty
  pc_num_batches :: nat
  pc_takers_per_batch :: nat

record population_session =
  ps_config :: population_config
  ps_genesis :: ledger
  ps_batches :: "synthetic_batch_bundle list"

definition population_accounts :: "population_config \<Rightarrow> account_id list" where
  "population_accounts cfg =
     std_unique (std_sort (<) (map mm_account (pc_makers cfg) @ map nt_account (pc_traders cfg)))"

definition population_ledger :: "population_config \<Rightarrow> ledger" where
  "population_ledger cfg =
     foldl (\<lambda>l aid. insert_account
              (funded_account aid (pc_initial_cash cfg) (pc_instrument cfg) (pc_initial_inventory cfg)) l)
       om_empty (population_accounts cfg)"

text \<open>The quotes of every market maker, then the orders of the drawn noise traders.\<close>

definition maker_step :: "order list \<times> market_environment \<Rightarrow> market_maker \<Rightarrow> order list \<times> market_environment" where
  "maker_step = (\<lambda>(orders, env) mm. let (mm_orders, env) = generate_orders mm env in (orders @ mm_orders, env))"

definition taker_step ::
  "noise_trader list \<Rightarrow> order list \<times> market_environment \<times> u64 \<Rightarrow> nat \<Rightarrow> order list \<times> market_environment \<times> u64" where
  "taker_step traders = (\<lambda>(orders, env, rng) i.
     let (nt_idx, rng) = gen_range_u64 0 (of_nat (length traders) - 1) rng;
         (o1, env, rng) = generate_order (traders ! unat nt_idx) env rng
     in (orders @ [o1], env, rng))"

definition id_before :: "order \<Rightarrow> order \<Rightarrow> bool" where
  "id_before a b \<longleftrightarrow> ord_id a < ord_id b"

definition salt_step :: "salted_order_preimage list \<times> u64 \<Rightarrow> order \<Rightarrow> salted_order_preimage list \<times> u64" where
  "salt_step = (\<lambda>(preimages, rng) o1.
     let (salt, rng) = gen_salt rng in (preimages @ [\<lparr>pre_order = o1, pre_nonce = salt\<rparr>], rng))"

type_synonym session_loop = "synthetic_batch_bundle list \<times> market_environment \<times> u64"

definition population_step :: "population_config \<Rightarrow> session_loop \<Rightarrow> nat \<Rightarrow> session_loop" where
  "population_step cfg = (\<lambda>(batches, env, rng) idx.
     let cutoff = 1700000000000000000 + of_nat idx * 100000000;
         (orders, env) = foldl maker_step ([], env) (pc_makers cfg);
         (orders, env, rng) =
           (if pc_traders cfg \<noteq> []
            then foldl (taker_step (pc_traders cfg)) (orders, env, rng) [0..<pc_takers_per_batch cfg]
            else (orders, env, rng));
         orders = renumber_orders (std_sort id_before orders);
         (preimages, rng) = foldl salt_step ([], rng) orders
     in (batches @ [\<lparr>sb_batch = new_batch (of_nat idx) (pc_instrument cfg) orders,
                     sb_preimages = preimages, sb_cutoff = cutoff\<rparr>], env, rng))"

definition simulate_session :: "population_config \<Rightarrow> population_session" where
  "simulate_session cfg =
     (let env = \<lparr>env_instrument = pc_instrument cfg, env_mid = pc_mid cfg, env_last_price = None, env_next_id = 1\<rparr>;
          (batches, env, rng) = foldl (population_step cfg) ([], env, pc_seed cfg) [1..<pc_num_batches cfg + 1]
      in \<lparr>ps_config = cfg, ps_genesis = population_ledger cfg, ps_batches = batches\<rparr>)"

end
