(* ===== verification/Population_Proofs.thy ===== *)
theory Population_Proofs
  imports Population Simulated_Session
begin

text \<open>
  What the agents promise: quotes and orders that are valid, and a session of valid batches over
  funded accounts whose identifiers are consecutive from the first order to the last.
\<close>

section \<open>Orders that continue the numbering\<close>

text \<open>Between the environments \<open>env\<close> and \<open>env'\<close> the orders \<open>new\<close> were generated.\<close>

definition continues :: "account_id set \<Rightarrow> market_environment \<Rightarrow> order list \<Rightarrow> market_environment \<Rightarrow> bool" where
  "continues accounts env new env' \<longleftrightarrow>
     env' = env\<lparr>env_next_id := env_next_id env + of_nat (length new)\<rparr>
     \<and> map ord_id new = map (\<lambda>i. env_next_id env + of_nat i) [0..<length new]
     \<and> list_all (wf_order (env_instrument env)) new \<and> set (map ord_account new) \<subseteq> accounts"

lemma continues_Nil: "continues A env [] env"
  by (simp add: continues_def)

lemma continues_append:
  assumes "continues A env xs env'" "continues A env' ys env''"
  shows "continues A env (xs @ ys) env''"
proof -
  have "map (\<lambda>i. env_next_id env + of_nat (length xs) + of_nat i) [0..<length ys]
      = map (\<lambda>i. env_next_id env + of_nat i) [length xs..<length xs + length ys]"
    by (rule nth_equalityI) (simp_all add: add.assoc)
  moreover have "[0..<length xs + length ys] = [0..<length xs] @ [length xs..<length xs + length ys]"
    by (rule upt_add_eq_append) simp
  ultimately show ?thesis using assms by (simp add: continues_def add.assoc)
qed

text \<open>What is asked of the configuration: no price wraps or is zero, and no quantity is zero.\<close>

definition maker_ok :: "price \<Rightarrow> market_maker \<Rightarrow> bool" where
  "maker_ok mid mm \<longleftrightarrow> mm_quote_qty mm \<noteq> 0 \<and> unat mid + unat (mm_half_spread mm) < 2 ^ 64"

definition trader_ok :: "price \<Rightarrow> noise_trader \<Rightarrow> bool" where
  "trader_ok mid nt \<longleftrightarrow> nt_min_qty nt \<noteq> 0 \<and> unat mid + unat (nt_max_aggression nt) < 2 ^ 64"

lemma below_mid_nonzero: "below_mid mid d \<noteq> 0"
  by (auto simp: below_mid_def)

lemma above_mid_nonzero:
  fixes mid d d' :: u64
  assumes "mid \<noteq> 0" "d \<le> d'" "unat mid + unat d' < 2 ^ 64"
  shows "mid + d \<noteq> 0"
proof -
  have "unat (mid + d) = unat mid + unat d"
    using assms(2,3) by (intro unat_add_fits) (simp add: word_le_nat_alt)
  then show ?thesis using assms(1) by (metis add_is_0 unat_eq_0)
qed

lemma maker_continues:
  assumes "generate_orders mm env = (new, env')" "maker_ok (env_mid env) mm" "env_mid env \<noteq> 0" "mm_account mm \<in> A"
  shows "continues A env new env' \<and> length new = 2"
  using assms above_mid_nonzero [of "env_mid env" "mm_half_spread mm" "mm_half_spread mm"]
  by (auto simp: generate_orders_def take_id_def Let_def continues_def wf_order_def valid_side_def below_mid_nonzero
    maker_ok_def)

lemma trader_continues:
  assumes "generate_order nt env rng = (o1, env', rng')" "trader_ok (env_mid env) nt" "env_mid env \<noteq> 0" "nt_account nt \<in> A"
  shows "continues A env [o1] env'"
proof -
  have full: "nt_max_aggression nt \<noteq> max_raw"
    using assms(2,3) unat_gt_0 [of "env_mid env"] by (auto simp: trader_ok_def unat_max_raw)
  have agg: "env_mid env + fst (gen_range_u64 0 (nt_max_aggression nt) r) \<noteq> 0" for r
    using assms(2,3) gen_range_upper [of 0 "nt_max_aggression nt" r] full
    by (intro above_mid_nonzero) (auto simp: trader_ok_def)
  have qty: "fst (gen_range_u64 (nt_min_qty nt) (nt_max_qty nt) r) \<noteq> 0" for r
    using assms(2) gen_range_lower [of "nt_min_qty nt" "nt_max_qty nt" r] by (auto simp: trader_ok_def)
  define buys r r' where "buys = fst (gen_bool_permille (nt_buy_permille nt) rng)"
    and "r = snd (gen_bool_permille (nt_buy_permille nt) rng)" and "r' = snd (gen_range_u64 0 (nt_max_aggression nt) r)"
  have "o1 = \<lparr>ord_id = env_next_id env, ord_account = nt_account nt, ord_instrument = env_instrument env,
      ord_side = (if buys then Buy else Sell),
      ord_price = (if buys then env_mid env + fst (gen_range_u64 0 (nt_max_aggression nt) r)
                   else below_mid (env_mid env) (fst (gen_range_u64 0 (nt_max_aggression nt) r))),
      ord_qty = fst (gen_range_u64 (nt_min_qty nt) (nt_max_qty nt) r'), ord_seq = 0\<rparr>"
    "env' = env\<lparr>env_next_id := env_next_id env + 1\<rparr>"
    using assms(1) by (auto simp: generate_order_def take_id_def Let_def case_prod_beta buys_def r_def r'_def)
  then show ?thesis
    using assms(4) agg qty by (simp add: continues_def wf_order_def valid_side_def below_mid_nonzero)
qed

section \<open>The orders of a batch\<close>

lemma makers_continue:
  assumes "list_all (maker_ok (env_mid env)) mms" "env_mid env \<noteq> 0" "mm_account ` set mms \<subseteq> A"
  shows "case foldl maker_step (orders, env) mms of (orders', env') \<Rightarrow>
    \<exists>new. orders' = orders @ new \<and> continues A env new env' \<and> length new = 2 * length mms"
  using assms
proof (induction mms arbitrary: orders env)
  case Nil
  then show ?case by (simp add: continues_Nil)
next
  case (Cons mm mms)
  obtain xs env1 where g: "generate_orders mm env = (xs, env1)" by fastforce
  with Cons.prems have c: "continues A env xs env1" "length xs = 2" using maker_continues [OF g, of A] by simp_all
  then have "env_mid env1 = env_mid env" by (simp add: continues_def)
  with Cons.IH [of env1 "orders @ xs"] Cons.prems
  obtain new env' where "foldl maker_step (orders @ xs, env1) mms = (orders @ xs @ new, env')"
      "continues A env1 new env'" "length new = 2 * length mms"
    by (auto split: prod.splits)
  with c g show ?case by (auto simp: maker_step_def intro!: exI [of _ "xs @ new"] continues_append)
qed

lemma takers_continue:
  assumes "list_all (trader_ok (env_mid env)) nts" "env_mid env \<noteq> 0" "nt_account ` set nts \<subseteq> A"
    and "nts \<noteq> []" "length nts < 2 ^ 64"
  shows "case foldl (taker_step nts) (orders, env, rng) [0..<k] of (orders', env', rng') \<Rightarrow>
    \<exists>new. orders' = orders @ new \<and> continues A env new env' \<and> length new = k"
proof (induction k)
  case 0
  then show ?case by (simp add: continues_Nil)
next
  case (Suc k)
  then obtain new env1 rng1 where IH: "foldl (taker_step nts) (orders, env, rng) [0..<k] = (orders @ new, env1, rng1)"
      "continues A env new env1" "length new = k"
    by (auto split: prod.splits)
  obtain idx rng2 where idx: "gen_range_u64 0 (of_nat (length nts) - 1) rng1 = (idx, rng2)" by fastforce
  obtain o1 env2 rng3 where o1: "generate_order (nts ! unat idx) env1 rng2 = (o1, env2, rng3)" by (metis prod_cases3)
  have len: "unat (of_nat (length nts) - 1 :: u64) = length nts - 1"
    using assms(4,5) by (subst unat_sub) (simp_all add: word_le_nat_alt unsigned_of_nat take_bit_nat_eq_self Suc_le_eq)
  then have "of_nat (length nts) - 1 \<noteq> (max_raw :: u64)" using assms(4,5) by (auto simp: word_unat_eq_iff unat_max_raw)
  then have "idx \<le> of_nat (length nts) - 1" using gen_range_upper [of 0 "of_nat (length nts) - 1" rng1] by (simp add: idx)
  then have "unat idx < length nts" using len assms(4) by (simp add: word_le_nat_alt less_eq_Suc_le flip: length_greater_0_conv)
  then have nt: "nts ! unat idx \<in> set nts" by simp
  have mid: "env_mid env1 = env_mid env" using IH(2) by (simp add: continues_def)
  have "continues A env1 [o1] env2"
    using trader_continues [OF o1, of A] nt assms(1-3) by (auto simp: mid list_all_iff)
  with IH have "continues A env (new @ [o1]) env2" by (blast intro: continues_append)
  moreover have "foldl (taker_step nts) (orders, env, rng) [0..<Suc k] = (orders @ new @ [o1], env2, rng3)"
    using IH(1) idx o1 by (simp add: taker_step_def)
  ultimately show ?case using IH(3) by simp
qed

section \<open>The batches\<close>

definition orders_per_batch :: "population_config \<Rightarrow> nat" where
  "orders_per_batch cfg =
     2 * length (pc_makers cfg) + (if pc_traders cfg = [] then 0 else pc_takers_per_batch cfg)"

definition agent_accounts :: "population_config \<Rightarrow> account_id set" where
  "agent_accounts cfg = mm_account ` set (pc_makers cfg) \<union> nt_account ` set (pc_traders cfg)"

text \<open>The configurations for which nothing wraps: prices, list indices and order identifiers.\<close>

definition population_ok :: "population_config \<Rightarrow> bool" where
  "population_ok cfg \<longleftrightarrow> pc_mid cfg \<noteq> 0 \<and> list_all (maker_ok (pc_mid cfg)) (pc_makers cfg)
     \<and> list_all (trader_ok (pc_mid cfg)) (pc_traders cfg) \<and> length (pc_traders cfg) < 2 ^ 64
     \<and> pc_num_batches cfg * orders_per_batch cfg < 2 ^ 64 - 1"

text \<open>A batch of the population: valid, of the configured size, numbered by position, and salted.\<close>

definition population_batch :: "population_config \<Rightarrow> synthetic_batch_bundle \<Rightarrow> bool" where
  "population_batch cfg bd \<longleftrightarrow> wf_batch (sb_batch bd) \<and> bat_instrument (sb_batch bd) = pc_instrument cfg
     \<and> length (bat_orders (sb_batch bd)) = orders_per_batch cfg
     \<and> map ord_seq (bat_orders (sb_batch bd)) = map of_nat [0..<orders_per_batch cfg]
     \<and> set (map ord_account (bat_orders (sb_batch bd))) \<subseteq> agent_accounts cfg
     \<and> map pre_order (sb_preimages bd) = bat_orders (sb_batch bd)
     \<and> list_all (\<lambda>p. length (pre_nonce p) = 32) (sb_preimages bd)"

interpretation id_order: comparator id_before
  by unfold_locales (auto simp: id_before_def)

lemma sorted_by_id:
  assumes "map ord_id orders = map (\<lambda>i. oid + of_nat i) [0..<length orders]" "unat oid + length orders < 2 ^ 64"
  shows "std_sort id_before orders = orders" "distinct (map ord_id orders)"
proof -
  have id: "unat (ord_id (orders ! i)) = unat oid + i" if "i < length orders" for i
  proof -
    have "ord_id (orders ! i) = oid + of_nat i" using arg_cong [OF assms(1), of "\<lambda>l. l ! i"] that by simp
    moreover have "unat (of_nat i :: u64) = i"
      using that assms(2) by (simp add: unsigned_of_nat take_bit_nat_eq_self)
    ultimately show ?thesis using that assms(2) by (simp add: unat_add_fits)
  qed
  have "id_order.in_order orders"
    by (simp add: sorted_wrt_iff_nth_less id_before_def word_less_nat_alt id)
  then show "std_sort id_before orders = orders" by (rule id_order.std_sort_in_order)
  show "distinct (map ord_id orders)"
    by (auto simp: distinct_conv_nth) (metis id add_left_cancel)
qed

lemma salted_orders:
  "map pre_order (fst (foldl salt_step (ps, rng) orders)) = map pre_order ps @ orders
   \<and> (list_all (\<lambda>p. length (pre_nonce p) = 32) ps \<longrightarrow>
      list_all (\<lambda>p. length (pre_nonce p) = 32) (fst (foldl salt_step (ps, rng) orders)))"
proof (induction orders arbitrary: ps rng)
  case (Cons o1 orders)
  show ?case
    using Cons [of "ps @ [\<lparr>pre_order = o1, pre_nonce = fst (gen_salt rng)\<rparr>]" "snd (gen_salt rng)"]
    by (auto simp: salt_step_def salt_length split: prod.splits)
qed simp

lemma batch_orders_continue:
  assumes "population_ok cfg" "env_mid env = pc_mid cfg"
  obtains new env1 rng1 where
    "(let (orders, env) = foldl maker_step ([], env) (pc_makers cfg) in
      if pc_traders cfg \<noteq> [] then foldl (taker_step (pc_traders cfg)) (orders, env, rng) [0..<pc_takers_per_batch cfg]
      else (orders, env, rng)) = (new, env1, rng1)"
    "continues (agent_accounts cfg) env new env1" "length new = orders_per_batch cfg"
proof -
  note ok = assms(1) [unfolded population_ok_def]
  have "case foldl maker_step ([], env) (pc_makers cfg) of (orders', env') \<Rightarrow> \<exists>new. orders' = [] @ new
      \<and> continues (agent_accounts cfg) env new env' \<and> length new = 2 * length (pc_makers cfg)"
    using ok assms(2) by (intro makers_continue) (auto simp: agent_accounts_def)
  then obtain xs env' where m: "foldl maker_step ([], env) (pc_makers cfg) = (xs, env')"
      "continues (agent_accounts cfg) env xs env'" "length xs = 2 * length (pc_makers cfg)"
    by (auto split: prod.splits)
  show ?thesis
  proof (cases "pc_traders cfg = []")
    case True
    with m that show ?thesis by (simp add: orders_per_batch_def)
  next
    case False
    have "env_mid env' = pc_mid cfg" using m(2) assms(2) by (simp add: continues_def)
    then have "case foldl (taker_step (pc_traders cfg)) (xs, env', rng) [0..<pc_takers_per_batch cfg] of
        (orders', env'', rng') \<Rightarrow> \<exists>new. orders' = xs @ new \<and> continues (agent_accounts cfg) env' new env''
        \<and> length new = pc_takers_per_batch cfg"
      using ok False by (intro takers_continue) (auto simp: agent_accounts_def)
    then obtain ys env'' rng' where t: "foldl (taker_step (pc_traders cfg)) (xs, env', rng) [0..<pc_takers_per_batch cfg]
        = (xs @ ys, env'', rng')" "continues (agent_accounts cfg) env' ys env''" "length ys = pc_takers_per_batch cfg"
      by (auto split: prod.splits)
    with m False that [of "xs @ ys" env'' rng'] show ?thesis
      by (simp add: orders_per_batch_def continues_append [OF m(2) t(2)])
  qed
qed

lemma population_step_batch:
  assumes "population_ok cfg" "env_mid env = pc_mid cfg" "env_instrument env = pc_instrument cfg"
    and "unat (env_next_id env) + orders_per_batch cfg < 2 ^ 64"
  obtains bd rng' where
    "population_step cfg (bds, env, rng) idx =
       (bds @ [bd], env\<lparr>env_next_id := env_next_id env + of_nat (orders_per_batch cfg)\<rparr>, rng')"
    "population_batch cfg bd" "bat_id (sb_batch bd) = of_nat idx"
    "sb_cutoff bd = 1700000000000000000 + of_nat idx * 100000000"
    "map ord_id (bat_orders (sb_batch bd)) = map (\<lambda>i. env_next_id env + of_nat i) [0..<orders_per_batch cfg]"
proof -
  obtain new env1 rng1 where new:
    "(let (orders, env) = foldl maker_step ([], env) (pc_makers cfg) in
      if pc_traders cfg \<noteq> [] then foldl (taker_step (pc_traders cfg)) (orders, env, rng) [0..<pc_takers_per_batch cfg]
      else (orders, env, rng)) = (new, env1, rng1)"
    and c: "continues (agent_accounts cfg) env new env1" "length new = orders_per_batch cfg"
    using batch_orders_continue [OF assms(1,2), of rng] by blast
  define orders where "orders = renumber_orders new"
  define ps where "ps = fst (foldl salt_step ([], rng1) orders)"
  define bd where "bd = \<lparr>sb_batch = \<lparr>bat_id = of_nat idx, bat_instrument = pc_instrument cfg, bat_orders = orders\<rparr>,
      sb_preimages = ps, sb_cutoff = 1700000000000000000 + of_nat idx * 100000000\<rparr>"
  note ids = c(1) [unfolded continues_def, THEN conjunct2, THEN conjunct1]
  have sorted: "std_sort id_before new = new" "distinct (map ord_id new)"
    using sorted_by_id [OF ids] assms(4) c(2) by simp_all
  have len: "length new < 2 ^ 64" using assms(4) c(2) by simp
  have "population_step cfg (bds, env, rng) idx =
      (bds @ [bd], env1, snd (foldl salt_step ([], rng1) orders))"
    using new len
    by (auto simp: population_step_def Let_def sorted bd_def ps_def orders_def new_batch_renumbered split: prod.splits)
  moreover have "env1 = env\<lparr>env_next_id := env_next_id env + of_nat (orders_per_batch cfg)\<rparr>"
    using c by (simp add: continues_def)
  moreover have "population_batch cfg bd"
  proof -
    have "list_all (wf_order (pc_instrument cfg)) orders" "distinct (map ord_id orders)"
      using c(1) sorted(2) by (simp_all add: orders_def continues_def renumber_wf renumber_ids assms(3))
    then have "wf_batch (sb_batch bd)"
      using wf_new_batch [of "pc_instrument cfg" orders "of_nat idx"] new_batch_renumbered [OF len]
      by (simp add: bd_def orders_def)
    moreover have "map pre_order ps = orders" "list_all (\<lambda>p. length (pre_nonce p) = 32) ps"
      using salted_orders [of "[]" rng1 orders] by (simp_all add: ps_def)
    moreover have "set (map ord_account orders) \<subseteq> agent_accounts cfg"
      unfolding orders_def renumber_accounts using c(1) by (simp add: continues_def)
    ultimately show ?thesis
      using c(2) by (simp add: population_batch_def bd_def) (simp add: orders_def renumber_seqs)
  qed
  moreover have "map ord_id (bat_orders (sb_batch bd)) = map (\<lambda>i. env_next_id env + of_nat i) [0..<orders_per_batch cfg]"
    using ids c(2) by (simp add: bd_def orders_def renumber_ids)
  ultimately show ?thesis using that by (simp add: bd_def)
qed

lemma population_batches:
  assumes "population_ok cfg" "n \<le> pc_num_batches cfg"
    and "env_mid env = pc_mid cfg" "env_instrument env = pc_instrument cfg" "env_next_id env = 1"
  shows "case foldl (population_step cfg) ([], env, rng) [1..<n + 1] of (bds, env', rng') \<Rightarrow>
    list_all (population_batch cfg) bds
    \<and> map (\<lambda>bd. (bat_id (sb_batch bd), sb_cutoff bd)) bds
        = map (\<lambda>k. (of_nat k, 1700000000000000000 + of_nat k * 100000000)) [1..<n + 1]
    \<and> env' = env\<lparr>env_next_id := 1 + of_nat (n * orders_per_batch cfg)\<rparr>
    \<and> bundle_ids bds = map (\<lambda>i. 1 + of_nat i) [0..<n * orders_per_batch cfg]"
  using assms(2)
proof (induction n)
  case 0
  then show ?case using assms(5) by (cases env) (simp add: bundle_ids_def)
next
  case (Suc n)
  let ?L = "orders_per_batch cfg"
  obtain bds env' rng' where s: "foldl (population_step cfg) ([], env, rng) [1..<n + 1] = (bds, env', rng')"
    by (metis prod_cases3)
  have IH: "list_all (population_batch cfg) bds"
    "map (\<lambda>bd. (bat_id (sb_batch bd), sb_cutoff bd)) bds
        = map (\<lambda>k. (of_nat k, 1700000000000000000 + of_nat k * 100000000)) [1..<n + 1]"
    "env' = env\<lparr>env_next_id := 1 + of_nat (n * ?L)\<rparr>"
    "bundle_ids bds = map (\<lambda>i. 1 + of_nat i) [0..<n * ?L]"
    using Suc unfolding s prod.case by simp_all
  have "Suc n * ?L \<le> pc_num_batches cfg * ?L" using Suc.prems by (rule mult_le_mono1)
  then have total: "n * ?L + ?L < 2 ^ 64 - 1" using assms(1) by (simp add: population_ok_def)
  then have next_id: "unat (env_next_id env') = 1 + n * ?L"
    using IH(3) by (simp add: unat_add_fits unsigned_of_nat take_bit_nat_eq_self del: of_nat_mult)
  obtain bd rng'' where bd: "population_step cfg (bds, env', rng') (Suc n)
      = (bds @ [bd], env'\<lparr>env_next_id := env_next_id env' + of_nat ?L\<rparr>, rng'')"
    "population_batch cfg bd" "bat_id (sb_batch bd) = of_nat (Suc n)"
    "sb_cutoff bd = 1700000000000000000 + of_nat (Suc n) * 100000000"
    "map ord_id (bat_orders (sb_batch bd)) = map (\<lambda>i. env_next_id env' + of_nat i) [0..<?L]"
    by (rule population_step_batch [OF assms(1), of env' bds rng' "Suc n"])
      (use IH(3) assms(3,4) total next_id in auto)
  have upt: "[1..<Suc n + 1] = [1..<n + 1] @ [Suc n]" by simp
  have step: "foldl (population_step cfg) ([], env, rng) [1..<Suc n + 1]
      = (bds @ [bd], env'\<lparr>env_next_id := env_next_id env' + of_nat ?L\<rparr>, rng'')"
    unfolding upt foldl_append s by (simp only: foldl.simps bd(1))
  have shift: "map (\<lambda>i. env_next_id env' + of_nat i) [0..<?L] = map (\<lambda>i. 1 + of_nat i) [n * ?L..<n * ?L + ?L]"
    using IH(3) by (intro nth_equalityI) (simp_all add: add.assoc)
  have split: "[0..<n * ?L + ?L] = [0..<n * ?L] @ [n * ?L..<n * ?L + ?L]" by (rule upt_add_eq_append) simp
  have ids: "bundle_ids (bds @ [bd]) = map (\<lambda>i. 1 + of_nat i) [0..<Suc n * ?L]"
    unfolding bundle_ids_snoc IH(4) bd(5) shift map_append [symmetric] split [symmetric] by (simp add: add.commute)
  have numbers: "map (\<lambda>bd. (bat_id (sb_batch bd), sb_cutoff bd)) (bds @ [bd])
      = map (\<lambda>k. (of_nat k, 1700000000000000000 + of_nat k * 100000000)) [1..<Suc n + 1]"
    unfolding upt map_append IH(2) by (simp only: list.map bd(3,4))
  have env: "env'\<lparr>env_next_id := env_next_id env' + of_nat ?L\<rparr> = env\<lparr>env_next_id := 1 + of_nat (Suc n * ?L)\<rparr>"
    using IH(3) by (simp add: algebra_simps)
  show ?case
    unfolding step prod.case using IH(1) bd(2) ids numbers env by (intro conjI) simp_all
qed

section \<open>Properties\<close>

lemma funded_accounts:
  "om_find (foldl (\<lambda>l aid. insert_account (funded_account aid cash inst stock) l) l0 aids) aid =
     (if aid \<in> set aids then Some (funded_account aid cash inst stock) else om_find l0 aid)"
proof (induction aids arbitrary: l0)
  case (Cons a aids)
  have "acc_id (funded_account a cash inst stock) = a"
    by (simp add: funded_account_def Let_def credited_id) (simp add: new_account_def)
  with Cons show ?case by (auto simp: insert_account_def)
qed simp

lemma population_funded:
  "om_find (population_ledger cfg) aid =
     (if aid \<in> agent_accounts cfg
      then Some (funded_account aid (pc_initial_cash cfg) (pc_instrument cfg) (pc_initial_inventory cfg)) else None)"
proof -
  have "set (population_accounts cfg) = agent_accounts cfg"
    by (simp add: population_accounts_def ascending_values agent_accounts_def)
  then show ?thesis by (simp add: population_ledger_def funded_accounts)
qed

text \<open>A population session has the configured number of batches, numbered from 1 with equidistant
  cutoffs.  Every batch is valid, holds the two quotes of each market maker and the configured number
  of noise orders, numbered by position, each with a nonce of 32 bytes; the order identifiers run from
  1 through the whole session without a gap; and the genesis ledger holds exactly the agents, each
  funded as configured.  The configuration must keep prices and identifiers within 64 bits and its
  quantities from being zero, none of which the simulator checks.\<close>

theorem population_session_valid:
  assumes "population_ok cfg"
  shows "case simulate_session cfg of session \<Rightarrow>
    list_all (population_batch cfg) (ps_batches session)
    \<and> map (\<lambda>bd. (bat_id (sb_batch bd), sb_cutoff bd)) (ps_batches session)
        = map (\<lambda>k. (of_nat k, 1700000000000000000 + of_nat k * 100000000)) [1..<pc_num_batches cfg + 1]
    \<and> bundle_ids (ps_batches session) = map (\<lambda>i. 1 + of_nat i) [0..<pc_num_batches cfg * orders_per_batch cfg]
    \<and> (\<forall>aid. om_find (ps_genesis session) aid =
        (if aid \<in> agent_accounts cfg
         then Some (funded_account aid (pc_initial_cash cfg) (pc_instrument cfg) (pc_initial_inventory cfg)) else None))"
proof -
  let ?env = "\<lparr>env_instrument = pc_instrument cfg, env_mid = pc_mid cfg, env_last_price = None, env_next_id = 1\<rparr>"
  obtain bds env' rng' where s:
    "foldl (population_step cfg) ([], ?env, pc_seed cfg) [1..<pc_num_batches cfg + 1] = (bds, env', rng')"
    by (metis prod_cases3)
  then have "simulate_session cfg = \<lparr>ps_config = cfg, ps_genesis = population_ledger cfg, ps_batches = bds\<rparr>"
    by (simp only: simulate_session_def Let_def prod.case)
  moreover have "case foldl (population_step cfg) ([], ?env, pc_seed cfg) [1..<pc_num_batches cfg + 1] of
    (bds, env', rng') \<Rightarrow> list_all (population_batch cfg) bds
    \<and> map (\<lambda>bd. (bat_id (sb_batch bd), sb_cutoff bd)) bds
        = map (\<lambda>k. (of_nat k, 1700000000000000000 + of_nat k * 100000000)) [1..<pc_num_batches cfg + 1]
    \<and> env' = ?env\<lparr>env_next_id := 1 + of_nat (pc_num_batches cfg * orders_per_batch cfg)\<rparr>
    \<and> bundle_ids bds = map (\<lambda>i. 1 + of_nat i) [0..<pc_num_batches cfg * orders_per_batch cfg]"
    by (rule population_batches [OF assms]) simp_all
  ultimately show ?thesis unfolding s prod.case by (simp only: population_session.simps population_funded) blast
qed

definition sample_population :: population_config where
  "sample_population =
     \<lparr>pc_seed = 42, pc_instrument = 1, pc_mid = 100,
      pc_makers = [\<lparr>mm_account = 1, mm_half_spread = 2, mm_quote_qty = 10\<rparr>],
      pc_traders = [\<lparr>nt_account = 2, nt_buy_permille = 500, nt_max_aggression = 5, nt_min_qty = 1, nt_max_qty = 5\<rparr>],
      pc_initial_cash = 100000, pc_initial_inventory = 1000, pc_num_batches = 3, pc_takers_per_batch = 5\<rparr>"

theorem population_session_valid_witness:
  "list_all (population_batch sample_population) (ps_batches (simulate_session sample_population))
   \<and> length (bundle_ids (ps_batches (simulate_session sample_population))) = 21"
proof -
  have ok: "population_ok sample_population"
    by (simp add: population_ok_def sample_population_def maker_ok_def trader_ok_def orders_per_batch_def)
  have "pc_num_batches sample_population * orders_per_batch sample_population = 21"
    by (simp add: sample_population_def orders_per_batch_def)
  with population_session_valid [OF ok] show ?thesis by simp
qed

end
