(* ===== verification/Spec2Isabelle.thy ===== *)
theory Spec2Isabelle
  imports Checker Venue Accounting Replay Prover_Properties Commands Attack_Audit Simulated_Session Cli_Properties Bench_Completion Golden Json_Stack Conformance Metrics Population_Proofs
begin

text \<open>
  A verification library for FairCross, a C++20 prototype of a venue that executes frequent batch
  auctions and makes every execution checkable afterwards.  Paths are relative to \<open>cpp/\<close>; \<open>I/\<close>
  stands for \<open>include/faircross/\<close> and \<open>S/\<close> for \<open>src/\<close>.

  \<^bold>\<open>The program and its parts.\<close>  A batch of limit orders of one instrument is executed on a ledger:
  the auction finds the price at which most volume crosses, the allocation gives every order its share,
  fills settle the shares on the accounts.  A checker recomputes a proposed execution and says whether it
  is the right one.  Orders are committed to by salted hashes in a Merkle tree, accounts by a ledger
  root, and an accounting manifest assigns every committed order one disposition.  A transparent proof
  system states all of this over published hashes: a prover binds the published inputs to its witness
  and synthesises a rank-one constraint system, a verifier looks at the certificate, and a session
  chains the proofs of consecutive batches.  Around this core stand a market-data replay that supplies
  reference prices, an adversarial operator and the matrix that audits it, simulators of order flow, the
  command line with its JSON reader and writer, and benchmarks.

  \<^bold>\<open>Conventions.\<close>  A class that wraps one machine integer is that machine integer: prices, quantities
  and identifiers are 64-bit words, money is a 128-bit word, and every checked or wrapping operation
  keeps its width.  Structs are records with the fields of the source.  A method that mutates its object returns the object; one
  that returns an error after a mutation returns both, so that what an error leaves behind is part of
  the model.  \<open>Result<T>\<close> is the datatype \<open>result\<close> (theory Results), an exception is the left side of a
  sum (Throwing), a command is the pair of its output streams with its exit code (Console).  A loop over
  a vector is a fold or \<open>loop_result\<close>, which stops at the first error.  \<open>std::map\<close> is an ordered map whose
  entries come in the order of the keys (Ordered_Map); \<open>std::sort\<close> is a stable insertion sort, and the
  lemmas say where the order of equal elements could matter (Algorithms).

  \<^bold>\<open>Theories, in the order of the layers of the program.\<close>

  \<^item> Prelude, Algorithms, Ordered_Map: the vocabulary of words, lists and sums that the components share;
    sorting and ordered maps behind the locales \<open>comparator\<close> and \<open>ordered_map\<close>.
  \<^item> Results, Primitives, Orders, Ledgers, Encoding, Oracle (\<open>I/domain/\<close>, \<open>I/engine/oracle_validation.hpp\<close>):
    errors, checked arithmetic (one locale, interpreted for quantities and for money), orders and fills,
    accounts and the ledger, canonical byte encodings with one contract for all of them, reference prices.
  \<^item> Batch, Auction, Allocation, Allocation_Proofs, Batch_Allocation, Transition, Funding, Checker
    (\<open>I/engine/\<close>, \<open>S/engine/\<close>): the engine.  The auction is proved equal to demand and supply curves over the
    natural numbers and its price to maximise the crossed volume; the allocation to hand out the whole
    volume, within limits and quantities, by price and time inside the money and by largest remainders
    at the price; the settlement to keep totals and to move exactly what the fills say, and to succeed
    whenever the accounts can cover their orders; the checker to accept exactly the recomputed
    result, up to the holdings it does not look at.
  \<^item> Sha256, Merkle, Commitments, Accounting (\<open>I/commitments/\<close>, \<open>S/commitments/\<close>, \<open>S/engine/accounting.cpp\<close>):
    the streaming hasher equals the definition of the hash on whole messages; inclusion proofs, commitments,
    ledger roots and manifests bind what they commit to, or exhibit two inputs with one hash.  A root is
    read as the tree of the messages behind it, so that no number of leaves need be known.
    No property assumes that collisions do not exist.  Conformance models the reference implementation of
    \<open>tests/conformance/\<close> and shows that it agrees with the library on every input.
  \<^item> Order_Book, Itch_Parser, Replay (\<open>I/marketdata/\<close>, \<open>S/marketdata/\<close>): the level-3 book refines a map of
    resting orders, the parser inverts the encoding of every message, the replay records quotes.
  \<^item> R1CS, Constraints, Prover, Session (\<open>I/proof/\<close>, \<open>S/proof/\<close>): the constraint system, its seven
    subrelations, the prover and the verifier, and the recursive session, with every check in order.  Circuit, Prover_Correct, Input_Binding,
    Statement, Certificates, Honest, Prover_Properties and Session_Proofs show what each subrelation says,
    when the composed system is satisfied, what exactly the prover accepts, which certificates the verifier
    accepts, and that the statements the commands build are proved and verified.
  \<^item> Venue: the ledger that the loops over batches carry along, as a state machine, with the invariant of
    its runs; the session loop of the command line and the batch-interval benchmark are runs of it.
  \<^item> Json, Json_Reader, Json_Writer, Json_Round_Trip, Json_Stack, Fixtures, Render, Cli_Proof, Commands, Main_Cli,
    Cli_Properties (\<open>I/util/\<close>, \<open>S/cli/\<close>): the reader returns on every text for which its
    stack has room, reads back what the writer writes as far as it can hold the integers and refuses the rest, and what is loaded is well formed; every command from the contents of its file to its streams
    and its exit code.
  \<^item> Adversary, Attack_Matrix, Attack_Audit (\<open>I/adversary/\<close>, \<open>S/adversary/\<close>): the dishonest executions and
    exactly which of them pass the audits.
  \<^item> Rng, Generator, Simulated_Session, Numbering, Interval, Interval_Proofs, Metrics, Population,
    Population_Proofs (\<open>I/simulator/\<close>, \<open>S/simulator/\<close>): generated sessions are valid, a stream is partitioned
    by intervals without loss, and the quality report is exact while its sums fit.
  \<^item> Workloads, Doubles, Bench_Reports, Bench_Runs, Bench_Driver (\<open>bench/\<close>): the workloads of the
    benchmarks, their statistics on doubles, every benchmark from its workload to the document it writes, and
    the driver with its table, its exit code and the directory of the results.  Workload_Proofs, Full_System,
    Bench_Proofs and Bench_Completion show that the workloads are executable and provable, that the structural
    counters which \<open>synthesize_full_system\<close> reports are those of the statement that was proved, and that every
    benchmark completes and writes its artifacts whatever the clock reads.
  \<^item> Golden (\<open>tests/test_golden_vectors.cpp\<close>): the model reproduces the recorded executions and numbers of
    constraints of the five fixtures.

  \<^bold>\<open>Loops and fuel.\<close>  Every recursion is structural or has a termination proof, with two exceptions.  The
  JSON parser runs on fuel, \<open>2 * length text + 1\<close> steps: every step consumes a character or descends
  once before it does, so this is enough on every text, and more fuel changes nothing.  Json_Stack bounds the
  stack of the parser as well, and shows which room is enough and that no fixed room is.  The counted loop of the interval
  partition is a partial function: its counter wraps, and it is proved to return unless its bound is the
  largest 64-bit value, where it never does.

  \<^bold>\<open>Parameters.\<close>  The file system is a function from paths to optional contents; the platform of the
  benchmarks is a record of strings, their clock a sequence of readings and their directory of results a set of
  names that can be opened for writing; the nonces of the commitments are inputs as in the source.  A double
  is the rational number it stands for: every operation is exact and then rounded to 53 bits, ties to even,
  which is what the hardware computes while exponents stay in range, and so they do in the benchmarks.  No third-party code is involved.

  \<^bold>\<open>Not modelled.\<close>  Failing allocations (\<open>reserve\<close>, \<open>std::bad_alloc\<close>) and the limits of the stack outside the JSON
  reader.  Undefined
  behaviour, which the properties exclude by a hypothesis: a random range of all 64-bit values, which
  divides by zero, and the overflow of the signed sum of slippages.  The unspecified order in which arguments of one call are evaluated,
  where it only decides which of two errors is reported.  In the benchmarks: what takes the time that
  the clock reports, errors of the file system other than a file that cannot be opened, and what
  \<open>synthesize_full_system\<close> counts after a subrelation has failed, whose error it discards.  The digests of
  the golden vectors, which the logic is too slow to evaluate.  The other tests, scripts, documents and recorded
  results are no part of the program.

  \<^bold>\<open>Open.\<close>  Closed forms of the sizes of the constraint systems of the benchmark workloads.
\<close>

end
